(* ===== verification/LFSC_Prelude.thy ===== *)
theory LFSC_Prelude
  imports Complex_Main "HOL-Library.Word" "HOL-Library.Monad_Syntax"
begin

text \<open>
  Shared vocabulary of the development.

  The checker is a C++ program over global variables.  Every operation of the model is a
  state transformer \<open>'s \<Rightarrow> error + 'a \<times> 's\<close>: it either ends the process (\<open>Inl\<close>) or returns
  a value and the new state (\<open>Inr\<close>).  The ways to end are

  \<^item> \<open>ReportError msg\<close>: \<open>report_error(msg)\<close> of \<open>src/src/lexer.flex\<close>, which prints and calls
    \<open>exit(1)\<close>; the string is the constant part of the message;
  \<^item> \<open>Aborted\<close>: \<open>std::abort()\<close>;
  \<^item> \<open>Undefined\<close>: C++ gives the step no meaning (null or wild pointer read, a cast to the wrong
    class, an index past the end of an array, an out of range shift);
  \<^item> \<open>OutOfFuel\<close>: the model's recursion bound was too small.  It is not an outcome of the program:
    \<open>fuel_le\<close> below is the order in which more fuel only ever replaces this value.

  Two groups of rules carry the component proofs: \<open>fuel_mono\<close> (a step is monotone in the fuel of
  the calls it makes) and the rules of the locale \<open>step_rel\<close> (a relation between the state before
  and after, kept by every composition of steps that keep it).
\<close>

section \<open>Outcomes and state transformers\<close>

datatype error = ReportError string | Aborted | Undefined | OutOfFuel

type_synonym ('s, 'a) M = "'s \<Rightarrow> error + 'a \<times> 's"

definition ret :: "'a \<Rightarrow> ('s, 'a) M" where
  "ret x = (\<lambda>s. Inr (x, s))"

definition stop :: "error \<Rightarrow> ('s, 'a) M" where
  "stop e = (\<lambda>s. Inl e)"

definition bnd :: "('s, 'a) M \<Rightarrow> ('a \<Rightarrow> ('s, 'b) M) \<Rightarrow> ('s, 'b) M" where
  "bnd m f = (\<lambda>s. case m s of Inl e \<Rightarrow> Inl e | Inr (x, s') \<Rightarrow> f x s')"

definition sq :: "('s, 'a) M \<Rightarrow> ('s, 'b) M \<Rightarrow> ('s, 'b) M" where
  "sq m k = bnd m (\<lambda>_. k)"

definition gets :: "('s \<Rightarrow> 'a) \<Rightarrow> ('s, 'a) M" where
  "gets f = (\<lambda>s. Inr (f s, s))"

definition modify :: "('s \<Rightarrow> 's) \<Rightarrow> ('s, unit) M" where
  "modify f = (\<lambda>s. Inr ((), f s))"

text \<open>Reading a pointer or an array slot that may be absent: absent is undefined behaviour.\<close>

definition deref :: "'a option \<Rightarrow> ('s, 'a) M" where
  "deref v = (case v of None \<Rightarrow> stop Undefined | Some x \<Rightarrow> ret x)"

definition nth_opt :: "'a list \<Rightarrow> nat \<Rightarrow> 'a option" where
  "nth_opt xs i = (if i < length xs then Some (xs ! i) else None)"

text \<open>A loop over a vector, left to right, collecting the results.\<close>

primrec map_M :: "('a \<Rightarrow> ('s, 'b) M) \<Rightarrow> 'a list \<Rightarrow> ('s, 'b list) M" where
  "map_M f [] = ret []"
| "map_M f (x # xs) = bnd (f x) (\<lambda>y. bnd (map_M f xs) (\<lambda>ys. ret (y # ys)))"

text \<open>A loop over a vector for its effects.\<close>

primrec iter_M :: "('a \<Rightarrow> ('s, unit) M) \<Rightarrow> 'a list \<Rightarrow> ('s, unit) M" where
  "iter_M f [] = ret ()"
| "iter_M f (x # xs) = sq (f x) (iter_M f xs)"

text \<open>The fuel order: \<open>m'\<close> does what \<open>m\<close> does wherever \<open>m\<close> had enough fuel.\<close>

definition fuel_le :: "('s, 'a) M \<Rightarrow> ('s, 'a) M \<Rightarrow> bool" where
  "fuel_le m m' \<longleftrightarrow> (\<forall>s. m s = Inl OutOfFuel \<or> m' s = m s)"

named_theorems fuel_mono \<open>steps that are monotone in the fuel of their calls\<close>
named_theorems run_simps \<open>unfolding of the state transformer primitives\<close>

text \<open>With enough fuel, the call returns \<open>r\<close>.\<close>

definition returns :: "(nat \<Rightarrow> ('s, 'a) M) \<Rightarrow> 's \<Rightarrow> 'a \<times> 's \<Rightarrow> bool" where
  "returns m s r \<longleftrightarrow> (\<forall>\<^sub>F n in sequentially. m n s = Inr r)"

section \<open>Evaluation of the primitives\<close>

lemma ret_run [simp, run_simps]: "ret x s = Inr (x, s)"
  by (simp add: ret_def)

lemma stop_run [simp, run_simps]: "stop e s = Inl e"
  by (simp add: stop_def)

lemma bnd_run [run_simps]:
  "bnd m f s = (case m s of Inl e \<Rightarrow> Inl e | Inr (x, s') \<Rightarrow> f x s')"
  by (simp add: bnd_def)

lemma sq_run [run_simps]:
  "sq m k s = (case m s of Inl e \<Rightarrow> Inl e | Inr (x, s') \<Rightarrow> k s')"
  by (simp add: sq_def bnd_def)

lemma gets_run [simp, run_simps]: "gets f s = Inr (f s, s)"
  by (simp add: gets_def)

lemma modify_run [simp, run_simps]: "modify f s = Inr ((), f s)"
  by (simp add: modify_def)

lemma deref_Some [simp, run_simps]: "deref (Some x) = ret x"
  by (simp add: deref_def)

lemma deref_None [simp, run_simps]: "deref None = stop Undefined"
  by (simp add: deref_def)

lemma nth_opt_Cons [simp]:
  "nth_opt (x # xs) 0 = Some x" "nth_opt (x # xs) (Suc i) = nth_opt xs i" "nth_opt [] i = None"
  by (simp_all add: nth_opt_def)

lemma bnd_Inr_iff:
  "bnd m f s = Inr (y, s'') \<longleftrightarrow> (\<exists>x s'. m s = Inr (x, s') \<and> f x s' = Inr (y, s''))"
  by (auto simp: bnd_def split: sum.splits prod.splits)

lemma sq_Inr_iff:
  "sq m k s = Inr (y, s'') \<longleftrightarrow> (\<exists>x s'. m s = Inr (x, s') \<and> k s' = Inr (y, s''))"
  by (auto simp: sq_def bnd_Inr_iff)

lemma deref_Inr_iff: "deref v s = Inr (x, s') \<longleftrightarrow> v = Some x \<and> s' = s"
  by (auto simp: deref_def split: option.splits)

lemmas inr_iff = bnd_Inr_iff sq_Inr_iff deref_Inr_iff

section \<open>Fuel\<close>

lemma fuel_le_refl [simp, fuel_mono]: "fuel_le m m"
  by (simp add: fuel_le_def)

lemma fuel_le_trans: "fuel_le a b \<Longrightarrow> fuel_le b c \<Longrightarrow> fuel_le a c"
  unfolding fuel_le_def by metis

lemma fuel_le_stop [simp, fuel_mono]: "fuel_le (stop OutOfFuel) m"
  by (simp add: fuel_le_def)

lemma fuel_le_bnd [fuel_mono]:
  assumes "fuel_le m m'" and "\<And>x. fuel_le (f x) (f' x)"
  shows "fuel_le (bnd m f) (bnd m' f')"
  unfolding fuel_le_def
proof
  fix s
  from assms(1) consider "m s = Inl OutOfFuel" | "m' s = m s"
    by (auto simp: fuel_le_def)
  then show "bnd m f s = Inl OutOfFuel \<or> bnd m' f' s = bnd m f s"
    using assms(2) by cases (auto simp: bnd_def fuel_le_def split: sum.split)
qed

lemma fuel_le_sq [fuel_mono]:
  "fuel_le m m' \<Longrightarrow> fuel_le k k' \<Longrightarrow> fuel_le (sq m k) (sq m' k')"
  by (simp add: sq_def fuel_le_bnd)

lemma fuel_le_if [fuel_mono]:
  "(b \<Longrightarrow> fuel_le m m') \<Longrightarrow> (\<not> b \<Longrightarrow> fuel_le k k') \<Longrightarrow>
   fuel_le (if b then m else k) (if b then m' else k')"
  by simp

lemma fuel_le_option [fuel_mono]:
  "(v = None \<Longrightarrow> fuel_le m m') \<Longrightarrow> (\<And>x. v = Some x \<Longrightarrow> fuel_le (f x) (f' x)) \<Longrightarrow>
   fuel_le (case v of None \<Rightarrow> m | Some x \<Rightarrow> f x) (case v of None \<Rightarrow> m' | Some x \<Rightarrow> f' x)"
  by (cases v) simp_all

lemma fuel_le_list [fuel_mono]:
  "(v = [] \<Longrightarrow> fuel_le m m') \<Longrightarrow> (\<And>x xs. v = x # xs \<Longrightarrow> fuel_le (f x xs) (f' x xs)) \<Longrightarrow>
   fuel_le (case v of [] \<Rightarrow> m | x # xs \<Rightarrow> f x xs) (case v of [] \<Rightarrow> m' | x # xs \<Rightarrow> f' x xs)"
  by (cases v) simp_all

lemma fuel_le_prod [fuel_mono]:
  "(\<And>x y. v = (x, y) \<Longrightarrow> fuel_le (f x y) (f' x y)) \<Longrightarrow>
   fuel_le (case v of (x, y) \<Rightarrow> f x y) (case v of (x, y) \<Rightarrow> f' x y)"
  by (cases v) simp

lemma fuel_le_map_M [fuel_mono]:
  "(\<And>x. fuel_le (f x) (f' x)) \<Longrightarrow> fuel_le (map_M f xs) (map_M f' xs)"
  by (induction xs) (auto intro!: fuel_mono)

lemma fuel_le_iter_M [fuel_mono]:
  "(\<And>x. fuel_le (f x) (f' x)) \<Longrightarrow> fuel_le (iter_M f xs) (iter_M f' xs)"
  by (induction xs) (auto intro!: fuel_mono)

text \<open>Once a call returns, every larger fuel returns the same.\<close>

lemma fuel_le_Inr: "fuel_le m m' \<Longrightarrow> m s = Inr r \<Longrightarrow> m' s = Inr r"
  by (metis fuel_le_def sum.distinct(1))

lemma fuel_le_Suc_mono:
  assumes "\<And>n. fuel_le (f n) (f (Suc n))" and "n \<le> m"
  shows "fuel_le (f n) (f m)"
  using assms(2) by (induction rule: dec_induct) (auto intro: assms(1) fuel_le_trans)

lemma fuel_more:
  assumes "\<And>n. fuel_le (f n) (f (Suc n))" and "f n s = Inr r" and "n \<le> m"
  shows "f m s = Inr r"
  using fuel_le_Inr [OF fuel_le_Suc_mono [of f n m]] assms by blast

lemma returns_iff: "returns m s r \<longleftrightarrow> (\<exists>N. \<forall>n \<ge> N. m n s = Inr r)"
  by (simp add: returns_def eventually_sequentially)

text \<open>A call returns when the calls it makes do; one unit of fuel may be spent on the way.\<close>

lemma returns_all: "(\<And>n. m n s = Inr r) \<Longrightarrow> returns m s r"
  by (simp add: returns_def)

lemma returns_Suc: "returns (\<lambda>n. m (Suc n)) s r \<Longrightarrow> returns m s r"
  unfolding returns_def by (rule eventually_sequentially_Suc [THEN iffD1])

lemma returns_elim1:
  assumes "returns m1 s1 r1" "\<And>n. m1 n s1 = Inr r1 \<Longrightarrow> m n s = Inr r"
  shows "returns m s r"
  using assms(1) unfolding returns_def by eventually_elim (rule assms(2))

lemma returns_elim2:
  assumes "returns m1 s1 r1" "returns m2 s2 r2"
    and "\<And>n. m1 n s1 = Inr r1 \<Longrightarrow> m2 n s2 = Inr r2 \<Longrightarrow> m n s = Inr r"
  shows "returns m s r"
  using assms(1,2) unfolding returns_def by eventually_elim (rule assms(3))

lemma returns_elim3:
  assumes "returns m1 s1 r1" "returns m2 s2 r2" "returns m3 s3 r3"
    and "\<And>n. m1 n s1 = Inr r1 \<Longrightarrow> m2 n s2 = Inr r2 \<Longrightarrow> m3 n s3 = Inr r3 \<Longrightarrow> m n s = Inr r"
  shows "returns m s r"
  using assms(1-3) unfolding returns_def by eventually_elim (rule assms(4))

lemma returns_elim4:
  assumes "returns m1 s1 r1" "returns m2 s2 r2" "returns m3 s3 r3" "returns m4 s4 r4"
    and "\<And>n. m1 n s1 = Inr r1 \<Longrightarrow> m2 n s2 = Inr r2 \<Longrightarrow> m3 n s3 = Inr r3 \<Longrightarrow> m4 n s4 = Inr r4 \<Longrightarrow> m n s = Inr r"
  shows "returns m s r"
  using assms(1-4) unfolding returns_def by eventually_elim (rule assms(5))

lemma returns_I:
  assumes "\<And>n. fuel_le (m n) (m (Suc n))" and "m n s = Inr r"
  shows "returns m s r"
  unfolding returns_iff using fuel_more [of m, OF assms] by blast

lemma returns_D: "returns m s r \<Longrightarrow> \<exists>n. m n s = Inr r"
  unfolding returns_iff by blast

lemma returns_fun: "returns m s r \<Longrightarrow> returns m s r' \<Longrightarrow> r = r'"
  unfolding returns_iff by (metis nle_le sum.inject(2))

section \<open>Relations between the state before and after\<close>

definition keeps :: "('s \<Rightarrow> 's \<Rightarrow> bool) \<Rightarrow> ('s, 'a) M \<Rightarrow> bool" where
  "keeps R m \<longleftrightarrow> (\<forall>s x s'. m s = Inr (x, s') \<longrightarrow> R s s')"

lemma keepsI: "(\<And>s x s'. m s = Inr (x, s') \<Longrightarrow> R s s') \<Longrightarrow> keeps R m"
  by (simp add: keeps_def)

lemma keepsD: "keeps R m \<Longrightarrow> m s = Inr (x, s') \<Longrightarrow> R s s'"
  by (simp add: keeps_def)

text \<open>
  A preorder on states: what a component promises to its clients about the state it was handed.
  Proved once here for every way the operations are composed.
\<close>

locale step_rel =
  fixes R :: "'s \<Rightarrow> 's \<Rightarrow> bool"
  assumes rel_refl: "R s s"
    and rel_trans: "R s t \<Longrightarrow> R t u \<Longrightarrow> R s u"
begin

lemma keeps_ret [intro]: "keeps R (ret x)"
  by (simp add: keeps_def rel_refl)

lemma keeps_stop [intro]: "keeps R (stop e)"
  by (simp add: keeps_def)

lemma keeps_gets [intro]: "keeps R (gets f)"
  by (simp add: keeps_def rel_refl)

lemma keeps_deref [intro]: "keeps R (deref v)"
  by (auto simp: keeps_def deref_Inr_iff rel_refl)

lemma keeps_bnd [intro]: "keeps R m \<Longrightarrow> (\<And>x. keeps R (f x)) \<Longrightarrow> keeps R (bnd m f)"
  unfolding keeps_def bnd_Inr_iff by (blast intro: rel_trans)

lemma keeps_sq [intro]: "keeps R m \<Longrightarrow> keeps R k \<Longrightarrow> keeps R (sq m k)"
  by (auto simp: sq_def)

lemma keeps_if [intro]:
  "(b \<Longrightarrow> keeps R m) \<Longrightarrow> (\<not> b \<Longrightarrow> keeps R k) \<Longrightarrow> keeps R (if b then m else k)"
  by simp

lemma keeps_option [intro]:
  "(v = None \<Longrightarrow> keeps R m) \<Longrightarrow> (\<And>x. v = Some x \<Longrightarrow> keeps R (f x)) \<Longrightarrow>
   keeps R (case v of None \<Rightarrow> m | Some x \<Rightarrow> f x)"
  by (cases v) simp_all

lemma keeps_list [intro]:
  "(v = [] \<Longrightarrow> keeps R m) \<Longrightarrow> (\<And>x xs. v = x # xs \<Longrightarrow> keeps R (f x xs)) \<Longrightarrow>
   keeps R (case v of [] \<Rightarrow> m | x # xs \<Rightarrow> f x xs)"
  by (cases v) simp_all

lemma keeps_prod [intro]:
  "(\<And>x y. v = (x, y) \<Longrightarrow> keeps R (f x y)) \<Longrightarrow> keeps R (case v of (x, y) \<Rightarrow> f x y)"
  by (cases v) simp

lemma keeps_map_M [intro]: "(\<And>x. keeps R (f x)) \<Longrightarrow> keeps R (map_M f xs)"
  by (induction xs) auto

lemma keeps_iter_M [intro]: "(\<And>x. keeps R (f x)) \<Longrightarrow> keeps R (iter_M f xs)"
  by (induction xs) auto

lemmas keeps_rules = keeps_ret keeps_stop keeps_gets keeps_deref keeps_bnd keeps_sq keeps_if
  keeps_option keeps_list keeps_prod keeps_map_M keeps_iter_M

end

end
