(* ===== verification/LFSC_Trie.thy ===== *)
theory LFSC_Trie
  imports LFSC_Prelude
begin

text \<open>
  The symbol table \<open>Trie<Data>\<close> of \<open>src/src/trie.h\<close>.

  A node keeps at most one key suffix \<open>str\<close> (a null pointer is \<open>None\<close>) with its data \<open>d\<close>, and a
  vector \<open>next\<close> of children indexed by the next character.  \<open>Data()\<close>, the value of an absent key,
  is the argument \<open>dd\<close>.  C strings are lists of characters, the terminating NUL being the end of
  the list.

  The interface the rest of the checker relies on is the locale \<open>symbol_table\<close>: an insertion
  returns the old binding, and the discipline "insert, work, insert the old binding again, in
  reverse order" restores the table.  It is interpreted on the trie at the end.
\<close>

section \<open>The trie and its operations\<close>

datatype 'd trie = Trie (tstr: "string option") (tdat: 'd) (using_next: bool) (tnext: "'d trie option list")

text \<open>
  \<open>unsigned c = s[0]\<close>: a \<open>char\<close> is signed on the supported platforms, so the bytes 128 to 255 are
  sign extended to 32 bits.
\<close>

definition char_index :: "char \<Rightarrow> nat" where
  "char_index c = (let k = (of_char c :: nat) in if k < 128 then k else k + (2 ^ 32 - 256))"

definition new_trie :: "'d \<Rightarrow> 'd trie" where
  "new_trie dd = Trie None dd False []"

text \<open>\<open>std::vector::resize\<close>, growing: new slots are null.\<close>

definition resize :: "'a option list \<Rightarrow> nat \<Rightarrow> 'a option list" where
  "resize xs n = (if n \<le> length xs then take n xs else xs @ replicate (n - length xs) None)"

function (sequential) get_trie :: "'d \<Rightarrow> string \<Rightarrow> 'd trie \<Rightarrow> 'd" and get_next :: "'d \<Rightarrow> string \<Rightarrow> 'd trie \<Rightarrow> 'd" where
  "get_trie dd s (Trie str d u nx) =
     (if s = [] \<and> (str = None \<or> str = Some []) then d
      else if str = Some s then d
      else if u then get_next dd s (Trie str d u nx)
      else dd)"
| "get_next dd [] t = dd"
| "get_next dd (c # cs) (Trie str d u nx) =
     (case nth_opt nx (char_index c) of
        None \<Rightarrow> dd
      | Some None \<Rightarrow> dd
      | Some (Some n) \<Rightarrow> get_trie dd cs n)"
  by pat_completeness auto

termination
  by (relation "measure (\<lambda>p. case p of Inl (dd, s, t) \<Rightarrow> 2 * length s + 1 | Inr (dd, s, t) \<Rightarrow> 2 * length s)")
    auto

text \<open>
  \<open>insert\<close> (here \<open>insert_trie\<close>) and \<open>insert_next\<close>.  Byte 255 makes \<open>c + 1\<close> wrap to 0 in \<open>next.resize(c + 1)\<close>, so that the
  store to \<open>next[c]\<close> is out of bounds.
\<close>

function (sequential) insert_trie :: "'d \<Rightarrow> string \<Rightarrow> 'd \<Rightarrow> 'd trie \<Rightarrow> error + 'd \<times> 'd trie"
  and insert_next :: "'d \<Rightarrow> string \<Rightarrow> 'd \<Rightarrow> 'd trie \<Rightarrow> error + 'd \<times> 'd trie" where
  "insert_trie dd s x (Trie str d u nx) =
     (if s = [] then
        (case str of
           None \<Rightarrow> Inr (dd, Trie (Some []) x u nx)
         | Some [] \<Rightarrow> Inr (d, Trie (Some []) x u nx)
         | Some (c # cs) \<Rightarrow>
             (case insert_next dd (c # cs) d (Trie str d u nx) of
                Inl e \<Rightarrow> Inl e
              | Inr (old, Trie str' d' u' nx') \<Rightarrow> Inr (dd, Trie (Some []) x u' nx')))
      else
        (case str of
           Some [] \<Rightarrow> insert_next dd s x (Trie str d u nx)
         | Some (c # cs) \<Rightarrow>
             (case insert_next dd (c # cs) d (Trie str d u nx) of
                Inl e \<Rightarrow> Inl e
              | Inr (old, Trie str' d' u' nx') \<Rightarrow> insert_next dd s x (Trie None dd u' nx'))
         | None \<Rightarrow>
             if u then insert_next dd s x (Trie str d u nx)
             else Inr (dd, Trie (Some s) x u nx)))"
| "insert_next dd [] x t = Inl Undefined"
| "insert_next dd (c # cs) x (Trie str d u nx) =
     (if length nx \<le> char_index c then
        (if char_index c = 2 ^ 32 - 1 then Inl Undefined
         else (case insert_trie dd cs x (new_trie dd) of
                 Inl e \<Rightarrow> Inl e
               | Inr (r, n) \<Rightarrow>
                   Inr (r, Trie str d True ((resize nx (char_index c + 1))[char_index c := Some n]))))
      else
        (case insert_trie dd cs x (case nx ! char_index c of None \<Rightarrow> new_trie dd | Some n \<Rightarrow> n) of
           Inl e \<Rightarrow> Inl e
         | Inr (r, n) \<Rightarrow> Inr (r, Trie str d u (nx[char_index c := Some n]))))"
  by pat_completeness auto

text \<open>The characters held in the \<open>str\<close> fields: what an insertion moves down, and what bounds it.\<close>

primrec weight :: "'d trie \<Rightarrow> nat" where
  "weight (Trie str d u nx) =
     (case str of None \<Rightarrow> 0 | Some s \<Rightarrow> length s) + sum_list (map (case_option 0 id) (map (map_option weight) nx))"

definition nweight :: "'d trie option list \<Rightarrow> nat" where
  "nweight nx = sum_list (map (case_option 0 weight) nx)"

section \<open>Termination of insertion\<close>

lemma weight_Trie [simp]:
  "weight (Trie str d u nx) = (case str of None \<Rightarrow> 0 | Some s \<Rightarrow> length s) + nweight nx"
proof -
  have "case_option 0 id \<circ> map_option weight = case_option 0 (weight :: 'a trie \<Rightarrow> nat)"
    by (auto simp: fun_eq_iff split: option.split)
  then show ?thesis by (simp add: nweight_def)
qed

declare weight.simps [simp del]

lemma weight_sel: "weight t = (case tstr t of None \<Rightarrow> 0 | Some s \<Rightarrow> length s) + nweight (tnext t)"
  by (cases t) simp

lemma weight_new [simp]: "weight (new_trie dd) = 0"
  by (simp add: new_trie_def nweight_def)

lemma weight_old [simp]: "weight (case v of None \<Rightarrow> new_trie dd | Some n \<Rightarrow> n) = case_option 0 weight v"
  by (simp split: option.split)

lemma nweight_upd:
  "i < length nx \<Longrightarrow>
   nweight (nx[i := Some n]) + case_option 0 weight (nx ! i) = nweight nx + weight n"
proof (induction nx arbitrary: i)
  case (Cons v nx)
  then show ?case by (cases i) (auto simp: nweight_def)
qed simp

lemma nweight_child: "i < length nx \<Longrightarrow> case_option 0 weight (nx ! i) \<le> nweight nx"
  using nweight_upd [of i nx "new_trie undefined"] by simp

lemma nweight_grow:
  "length nx \<le> i \<Longrightarrow> nweight ((resize nx (Suc i))[i := Some n]) = nweight nx + weight n"
  using nweight_upd [of i "resize nx (Suc i)" n]
  by (simp add: resize_def nth_append nweight_def sum_list_replicate)

text \<open>An insertion adds at most the inserted key to the weight; needed by the second call of
  \<open>insert_next\<close>, which runs on the table the first one returned.\<close>

lemma insert_trie_weight:
  "insert_trie_insert_next_dom (Inl (dd, s, x, t)) \<Longrightarrow>
     (\<forall>r t'. insert_trie dd s x t = Inr (r, t') \<longrightarrow> weight t' \<le> length s + weight t)"
  "insert_trie_insert_next_dom (Inr (dd, s, x, t)) \<Longrightarrow>
     (\<forall>r t'. insert_next dd s x t = Inr (r, t') \<longrightarrow>
        nweight (tnext t') \<le> length s + nweight (tnext t) \<and> tstr t' = tstr t)"
proof (induction dd s x t and dd s x t rule: insert_trie_insert_next.pinduct)
  case (1 dd s x str d u nx)
  then show ?case
    unfolding insert_trie.psimps [OF 1(1)]
    by (fastforce simp: weight_sel [of "_ :: _ trie"] split: option.splits list.splits if_splits sum.splits prod.splits trie.splits)
next
  case (2 dd x t)
  then show ?case by (simp add: insert_next.psimps)
next
  case (3 dd c cs x str d u nx)
  show ?case
  proof (cases "length nx \<le> char_index c")
    case True
    with 3(2) show ?thesis
      unfolding insert_next.psimps(2) [OF 3(1)]
      by (cases "char_index c = 2 ^ 32 - 1"; cases "insert_trie dd cs x (new_trie dd)")
        (auto simp: nweight_grow le_SucI)
  next
    case False
    let ?n = "case nx ! char_index c of None \<Rightarrow> new_trie dd | Some n \<Rightarrow> n"
    show ?thesis
    proof (cases "insert_trie dd cs x ?n")
      case (Inr rn)
      obtain r n where "rn = (r, n)" by (cases rn)
      with 3(3) False Inr nweight_upd [of "char_index c" nx n] nweight_child [of "char_index c" nx]
      have "nweight (nx[char_index c := Some n]) \<le> length cs + nweight nx"
        by simp
      with False Inr \<open>rn = _\<close> show ?thesis
        unfolding insert_next.psimps(2) [OF 3(1)] by simp
    qed (use False in \<open>simp add: insert_next.psimps(2) [OF 3(1)]\<close>)
  qed
qed

lemma weight_child: "nx ! i = Some n \<Longrightarrow> \<not> length nx \<le> i \<Longrightarrow> weight n \<le> nweight nx"
  using nweight_child [of i nx] by simp

termination insert_trie
  by (relation "measure (\<lambda>p. case p of Inl (dd, s, x, t) \<Rightarrow> 2 * (length s + weight t) + 1
                                  | Inr (dd, s, x, t) \<Rightarrow> 2 * (length s + nweight (tnext t)))")
    (auto dest!: weight_child insert_trie_weight(2) split: option.splits)

section \<open>Invariant\<close>

definition key_ok :: "string \<Rightarrow> bool" where
  "key_ok s \<longleftrightarrow> CHR 0xFF \<notin> set s"

text \<open>
  \<open>using_next\<close> says whether the vector was ever grown, a node with a non-empty suffix has no
  children, and a node without a suffix holds \<open>Data()\<close>.
\<close>

fun wf_trie :: "'d \<Rightarrow> 'd trie \<Rightarrow> bool" where
  "wf_trie dd (Trie str d u nx) \<longleftrightarrow>
     (u \<longleftrightarrow> nx \<noteq> []) \<and>
     (case str of None \<Rightarrow> d = dd | Some s \<Rightarrow> key_ok s \<and> (s \<noteq> [] \<longrightarrow> nx = [])) \<and>
     list_all (\<lambda>v. case v of None \<Rightarrow> True | Some n \<Rightarrow> wf_trie dd n) nx"

abbreviation wf_next :: "'d \<Rightarrow> 'd trie option list \<Rightarrow> bool" where
  "wf_next dd \<equiv> list_all (\<lambda>v. case v of None \<Rightarrow> True | Some n \<Rightarrow> wf_trie dd n)"

lemma wf_new [simp]: "wf_trie dd (new_trie dd)"
  by (simp add: new_trie_def)

lemma get_new [simp]: "get_trie dd s (new_trie dd) = dd"
  by (simp add: new_trie_def)

lemma char_index_inj: "char_index c = char_index c' \<longleftrightarrow> c = c'"
proof
  assume eq: "char_index c = char_index c'"
  have "(of_char c :: nat) < 256" "(of_char c' :: nat) < 256"
    by simp_all
  with eq have "(of_char c :: nat) = of_char c'"
    by (auto simp: char_index_def Let_def split: if_splits)
  then show "c = c'" by simp
qed simp

lemma char_index_bound: "c \<noteq> CHR 0xFF \<Longrightarrow> char_index c \<noteq> 4294967295"
proof
  assume "c \<noteq> CHR 0xFF" and "char_index c = 4294967295"
  have "char_index (CHR 0xFF) = 4294967295" by (simp add: char_index_def)
  with \<open>char_index c = _\<close> char_index_inj [of c "CHR 0xFF"] have "c = CHR 0xFF" by metis
  with \<open>c \<noteq> _\<close> show False by simp
qed

section \<open>Lookup after insertion\<close>

definition child :: "'d trie option list \<Rightarrow> nat \<Rightarrow> 'd trie option" where
  "child nx i = (case nth_opt nx i of Some v \<Rightarrow> v | None \<Rightarrow> None)"

lemma get_next_child:
  "get_next dd (c # cs) t =
     (case child (tnext t) (char_index c) of Some n \<Rightarrow> get_trie dd cs n | None \<Rightarrow> dd)"
  by (cases t) (auto simp: child_def split: option.splits)

lemma get_wf:
  "wf_trie dd t \<Longrightarrow>
   get_trie dd k t = (if tstr t = Some k then tdat t else if k = [] then dd else get_next dd k t)"
  by (cases t; cases k) (auto split: option.splits)

lemma get_next_cong: "get_next dd k (Trie str d u nx) = get_next dd k (Trie str' d' u' nx)"
  by (cases k) simp_all

lemma get_next_Nil [simp]: "get_next dd k (Trie str d u []) = dd"
  by (cases k) simp_all

lemma child_grow:
  "length nx \<le> i \<Longrightarrow> child ((resize nx (Suc i))[i := Some n]) j = (if j = i then Some n else child nx j)"
  by (auto simp: child_def nth_opt_def resize_def nth_append)

lemma child_upd:
  "i < length nx \<Longrightarrow> child (nx[i := Some n]) j = (if j = i then Some n else child nx j)"
  by (auto simp: child_def nth_opt_def)

lemma wf_next_upd:
  "wf_next dd nx \<Longrightarrow> wf_trie dd n \<Longrightarrow> wf_next dd (nx[i := Some n])"
  by (cases "i < length nx") (auto simp: list_all_length nth_list_update list_update_beyond)

lemma wf_next_grow:
  "wf_next dd nx \<Longrightarrow> wf_trie dd n \<Longrightarrow> length nx \<le> i \<Longrightarrow> wf_next dd ((resize nx (Suc i))[i := Some n])"
  by (rule wf_next_upd) (auto simp: resize_def list_all_iff)

text \<open>\<open>insert_next\<close> on a nonempty key, given what \<open>insert\<close> does on the child it goes to.\<close>

abbreviation child_or_new :: "'d \<Rightarrow> 'd trie option list \<Rightarrow> nat \<Rightarrow> 'd trie" where
  "child_or_new dd nx i \<equiv> case child nx i of Some n \<Rightarrow> n | None \<Rightarrow> new_trie dd"

lemma insert_in_child:
  assumes nx: "wf_next dd nx" "u = (nx \<noteq> [])" and key: "key_ok (c # cs)"
    and ins: "insert_trie dd cs x (child_or_new dd nx (char_index c)) = Inr (get_trie dd cs (child_or_new dd nx (char_index c)), n')"
    and n': "wf_trie dd n'" "\<And>k. get_trie dd k n' = (if k = cs then x else get_trie dd k (child_or_new dd nx (char_index c)))"
  shows "\<exists>nx'. insert_next dd (c # cs) x (Trie str d u nx) = Inr (get_next dd (c # cs) (Trie str d u nx), Trie str d True nx') \<and>
    nx' \<noteq> [] \<and> wf_next dd nx' \<and>
    (\<forall>k a b e. get_next dd k (Trie a b e nx') = (if k = c # cs then x else get_next dd k (Trie str d u nx)))"
proof -
  let ?i = "char_index c"
  have i: "?i \<noteq> 2 ^ 32 - 1" using key char_index_bound [of c] by (auto simp: key_ok_def)
  have old: "get_next dd (c # cs) (Trie str d u nx) = get_trie dd cs (child_or_new dd nx ?i)"
    by (simp add: get_next_child del: get_next.simps split: option.splits)
  let ?nx = "if length nx \<le> ?i then (resize nx (Suc ?i))[?i := Some n'] else nx[?i := Some n']"
  have child: "child ?nx j = (if j = ?i then Some n' else child nx j)" for j
    by (simp add: child_grow child_upd)
  have "insert_next dd (c # cs) x (Trie str d u nx) =
      Inr (get_next dd (c # cs) (Trie str d u nx), Trie str d True ?nx)"
    unfolding old using ins i nx(2) by (auto simp: child_def nth_opt_def)
  moreover have "?nx \<noteq> []" by (auto simp: resize_def)
  moreover have "wf_next dd ?nx" using nx n'(1) by (auto intro: wf_next_grow wf_next_upd)
  moreover have "get_next dd k (Trie a b e ?nx) = (if k = c # cs then x else get_next dd k (Trie str d u nx))"
    for k a b e
  proof (cases k)
    case (Cons c' cs')
    with n'(2) [of cs'] child [of "char_index c'"] show ?thesis
      by (auto simp: get_next_child char_index_inj simp del: get_next.simps split: option.splits)
  qed simp
  ultimately show ?thesis by (auto simp del: insert_next.simps get_next.simps)
qed

lemma insert_trie_correct:
  "wf_trie dd t \<Longrightarrow> key_ok s \<Longrightarrow>
     \<exists>t'. insert_trie dd s x t = Inr (get_trie dd s t, t') \<and> wf_trie dd t' \<and>
          (\<forall>k. get_trie dd k t' = (if k = s then x else get_trie dd k t))"
  "wf_next dd (tnext t) \<Longrightarrow> using_next t = (tnext t \<noteq> []) \<Longrightarrow> s \<noteq> [] \<Longrightarrow> key_ok s \<Longrightarrow>
     \<exists>nx'. insert_next dd s x t = Inr (get_next dd s t, Trie (tstr t) (tdat t) True nx') \<and>
           nx' \<noteq> [] \<and> wf_next dd nx' \<and>
           (\<forall>k str d u. get_next dd k (Trie str d u nx') = (if k = s then x else get_next dd k t))"
proof (induction dd s x t and dd s x t rule: insert_trie_insert_next.induct)
  case (1 dd s x str d u nx)
  let ?t = "Trie str d u nx"
  define g where "g k = get_next dd k ?t" for k
  note [simp del] = insert_next.simps get_trie.simps get_next.simps
  have nx: "wf_next dd nx" and u: "u = (nx \<noteq> [])" using 1 by auto
  have gn: "get_next dd k (Trie a b e nx) = g k" for k a b e unfolding g_def by (rule get_next_cong)
  have g_Nil: "nx = [] \<Longrightarrow> g k = dd" for k by (simp add: g_def)
  show ?case
  proof (cases str)
    case None
    show ?thesis
    proof (cases "s = [] \<or> \<not> u")
      case True
      with None "1.prems" u g_Nil show ?thesis
        by (auto simp: get_wf gn key_ok_def)
    next
      case False
      with None "1.IH"(2) [OF _ None] "1.prems" u nx show ?thesis
        by (auto simp: get_wf gn)
    qed
  next
    case (Some s0)
    show ?thesis
    proof (cases s0)
      case Nil
      with Some "1.IH"(3) [OF _ Some] "1.prems" u nx g_Nil show ?thesis
        by (cases "s = []") (auto simp: get_wf gn)
    next
      case (Cons c cs)
      with Some "1.prems" have "nx = []" and "key_ok (c # cs)" by auto
      with Some Cons "1.IH"(1,4) [OF _ Some Cons] u obtain nx1 where
        push: "insert_next dd (c # cs) d ?t = Inr (dd, Trie str d True nx1)" "nx1 \<noteq> []" "wf_next dd nx1"
          "\<And>k a b e. get_next dd k (Trie a b e nx1) = (if k = c # cs then d else dd)"
        by (cases "s = []") auto
      have get: "get_trie dd k ?t = (if k = c # cs then d else dd)" for k
        using get_wf [OF "1.prems"(1)] Some Cons \<open>nx = []\<close> by auto
      show ?thesis
      proof (cases "s = []")
        case True
        with Some Cons push get show ?thesis
          by (auto simp: get_wf key_ok_def)
      next
        case False
        from "1.IH"(5) [OF False Some Cons push(1) refl refl] False push "1.prems"(2)
        obtain nx2 where "insert_next dd s x (Trie None dd True nx1) =
            Inr (if s = c # cs then d else dd, Trie None dd True nx2)"
          "nx2 \<noteq> []" "wf_next dd nx2"
          "\<And>k a b e. get_next dd k (Trie a b e nx2) = (if k = s then x else if k = c # cs then d else dd)"
          by auto
        with False Some Cons push get show ?thesis
          by (auto simp: get_wf)
      qed
    qed
  qed
next
  case (2 dd x t)
  then show ?case by simp
next
  case (3 dd c cs x str d u nx)
  let ?i = "char_index c"
  have "wf_trie dd (child_or_new dd nx ?i)" "key_ok cs" "?i \<noteq> 2 ^ 32 - 1"
    using 3 char_index_bound [of c]
    by (auto simp: key_ok_def list_all_length child_def nth_opt_def split: option.splits)
  then have "\<exists>n'. insert_trie dd cs x (child_or_new dd nx ?i) = Inr (get_trie dd cs (child_or_new dd nx ?i), n') \<and> wf_trie dd n' \<and>
          (\<forall>k. get_trie dd k n' = (if k = cs then x else get_trie dd k (child_or_new dd nx ?i)))"
    using 3 by (cases "length nx \<le> ?i") (auto simp: child_def nth_opt_def)
  moreover have "wf_next dd nx" "u = (nx \<noteq> [])" "key_ok (c # cs)" using 3 by simp_all
  ultimately show ?case unfolding trie.sel using insert_in_child [of dd nx u c cs x _ str d] by blast
qed

lemma trie_insert_get:
  assumes "wf_trie dd t" "insert_trie dd s x t = Inr (old, t')" "key_ok s"
  shows "old = get_trie dd s t" "wf_trie dd t'"
    "get_trie dd k t' = (if k = s then x else get_trie dd k t)"
  using insert_trie_correct(1) [OF assms(1,3), of x] assms(2) by auto

section \<open>The symbol table as its clients see it\<close>

text \<open>
  Binding a list of names, remembering what each insertion returned, and restoring them from the
  last to the first: the loops of \<open>read_case\<close>, \<open>check_code\<close> (match), \<open>check_decl_list\<close> and their
  callers.
\<close>

primrec bind_all :: "(string \<Rightarrow> 'd \<Rightarrow> 't \<Rightarrow> error + 'd \<times> 't) \<Rightarrow> (string \<times> 'd) list \<Rightarrow> 't
    \<Rightarrow> error + (string \<times> 'd) list \<times> 't" where
  "bind_all ins [] t = Inr ([], t)"
| "bind_all ins (b # bs) t =
     (case ins (fst b) (snd b) t of
        Inl e \<Rightarrow> Inl e
      | Inr (old, t1) \<Rightarrow>
          (case bind_all ins bs t1 of
             Inl e \<Rightarrow> Inl e
           | Inr (olds, t2) \<Rightarrow> Inr ((fst b, old) # olds, t2)))"

primrec restore_all :: "(string \<Rightarrow> 'd \<Rightarrow> 't \<Rightarrow> error + 'd \<times> 't) \<Rightarrow> (string \<times> 'd) list \<Rightarrow> 't \<Rightarrow> error + 't" where
  "restore_all ins [] t = Inr t"
| "restore_all ins (b # bs) t =
     (case restore_all ins bs t of
        Inl e \<Rightarrow> Inl e
      | Inr t1 \<Rightarrow> (case ins (fst b) (snd b) t1 of Inl e \<Rightarrow> Inl e | Inr (old, t2) \<Rightarrow> Inr t2))"

lemma bind_all_Cons_iff:
  "bind_all ins (b # bs) t = Inr (olds, t') \<longleftrightarrow>
     (\<exists>old t1 olds'. ins (fst b) (snd b) t = Inr (old, t1) \<and> bind_all ins bs t1 = Inr (olds', t') \<and>
        olds = (fst b, old) # olds')"
  by (auto split: sum.splits)

locale symbol_table =
  fixes tget :: "string \<Rightarrow> 't \<Rightarrow> 'd"
    and tins :: "string \<Rightarrow> 'd \<Rightarrow> 't \<Rightarrow> error + 'd \<times> 't"
    and tinv :: "'t \<Rightarrow> bool"
    and tkey :: "string \<Rightarrow> bool"
  assumes ins_returns: "tinv t \<Longrightarrow> tkey k \<Longrightarrow> \<exists>t'. tins k x t = Inr (tget k t, t')"
    and ins_inv: "tinv t \<Longrightarrow> tkey k \<Longrightarrow> tins k x t = Inr (old, t') \<Longrightarrow> tinv t'"
    and ins_get: "tinv t \<Longrightarrow> tkey k \<Longrightarrow> tins k x t = Inr (old, t') \<Longrightarrow>
        tget j t' = (if j = k then x else tget j t)"
begin

lemma ins_old: "tinv t \<Longrightarrow> tkey k \<Longrightarrow> tins k x t = Inr (old, t') \<Longrightarrow> old = tget k t"
  using ins_returns [of t k x] by auto

text \<open>Binding a list of names succeeds, and the last binding of a name wins.\<close>

lemma bind_all_spec:
  "tinv t \<Longrightarrow> \<forall>b \<in> set bs. tkey (fst b) \<Longrightarrow>
   \<exists>olds t'. bind_all tins bs t = Inr (olds, t') \<and> tinv t' \<and> map fst olds = map fst bs \<and>
     (\<forall>k. tget k t' = (case map_of (rev bs) k of None \<Rightarrow> tget k t | Some x \<Rightarrow> x))"
proof (induction bs arbitrary: t)
  case (Cons b bs)
  then obtain t1 where step: "tins (fst b) (snd b) t = Inr (tget (fst b) t, t1)"
    using ins_returns by fastforce
  with Cons.prems have t1: "tinv t1" "\<And>k. tget k t1 = (if k = fst b then snd b else tget k t)"
    using ins_inv ins_get by auto
  from Cons.IH [OF t1(1)] Cons.prems step t1(2) show ?case
    by (fastforce simp: bind_all_Cons_iff map_add_def split: option.splits)
qed auto

lemma restore_bind_all:
  assumes "tinv t" "\<forall>b \<in> set bs. tkey (fst b)" "bind_all tins bs t = Inr (olds, t1)"
    and "tinv t2" "\<And>k. tget k t2 = tget k t1"
  shows "\<exists>t3. restore_all tins olds t2 = Inr t3 \<and> tinv t3 \<and> (\<forall>k. tget k t3 = tget k t)"
  using assms(1-3)
proof (induction bs arbitrary: t olds)
  case Nil
  with assms(4,5) show ?case by simp
next
  case (Cons b bs)
  then obtain old u olds' where step: "tins (fst b) (snd b) t = Inr (old, u)"
    and rest: "bind_all tins bs u = Inr (olds', t1)" and olds: "olds = (fst b, old) # olds'"
    by (auto simp: bind_all_Cons_iff simp del: bind_all.simps)
  have u: "tinv u" "old = tget (fst b) t" "\<And>k. tget k u = (if k = fst b then snd b else tget k t)"
    using step Cons.prems ins_inv ins_old ins_get by auto
  from Cons.IH [OF u(1) _ rest] Cons.prems obtain t3 where
    t3: "restore_all tins olds' t2 = Inr t3" "tinv t3" "\<And>k. tget k t3 = tget k u" by auto
  obtain t4 where t4: "tins (fst b) old t3 = Inr (tget (fst b) t3, t4)"
    using ins_returns [OF t3(2), of "fst b" old] Cons.prems(2) by auto
  with t3 u Cons.prems have "tinv t4" "\<forall>k. tget k t4 = tget k t"
    using ins_inv [OF t3(2) _ t4] ins_get [OF t3(2) _ t4] by auto
  with t3 t4 olds show ?case by simp
qed

end

interpretation trie_tab: symbol_table "get_trie dd" "insert_trie dd" "wf_trie dd" key_ok for dd
proof
  show "\<exists>t'. insert_trie dd k x t = Inr (get_trie dd k t, t')" if "wf_trie dd t" "key_ok k" for t k x
    using insert_trie_correct(1) [OF that, of x] by blast
qed (simp_all only: trie_insert_get)

text \<open>The self test of \<open>src/src/trie.cpp\<close>: the three printed values.\<close>

definition unit_test_trie :: "error + int \<times> int \<times> int" where
  "unit_test_trie =
     (case bind_all (insert_trie 0) [(''a'', 1), (''b'', 2), (''abc'', 3), (''b'', 0)] (new_trie 0) of
        Inl e \<Rightarrow> Inl e
      | Inr (olds, t) \<Rightarrow> Inr (get_trie 0 ''a'' t, get_trie 0 ''b'' t, get_trie 0 ''abc'' t))"

lemma unit_test_trie_value: "unit_test_trie = Inr (1, 0, 3)"
proof -
  let ?bs = "[(''a'', 1), (''b'', 2), (''abc'', 3), (''b'', 0 :: int)]"
  obtain olds t where "bind_all (insert_trie 0) ?bs (new_trie 0) = Inr (olds, t)"
    and "\<And>k. get_trie 0 k t = (case map_of (rev ?bs) k of None \<Rightarrow> get_trie 0 k (new_trie 0) | Some x \<Rightarrow> x)"
    using trie_tab.bind_all_spec [of 0 "new_trie 0" ?bs] by (auto simp: key_ok_def)
  then show ?thesis by (simp add: unit_test_trie_def)
qed

end
