(* ===== verification/LFSC_Data.thy ===== *)
theory LFSC_Data
  imports LFSC_Prelude
begin

unbundle bit_operations_syntax

text \<open>
  The header word of every expression, \<open>int Expr::data\<close> of \<open>src/src/expr.h\<close>: bits 0-2 the class,
  bits 3-7 the operator, bit 8 a flag (already cloned / bound variable free in the body), bits 9-31
  the reference count.

  The word operations are translated bit for bit.  The locale \<open>expr_header\<close> is the view the rest of
  the development takes of them, four independent fields; the interpretation \<open>hdr\<close> shows that the
  packed word provides it, as long as the sign bit is clear, which every operation maintains.
\<close>

section \<open>Class and operator codes\<close>

datatype eclass = CEXPR | INT_EXPR | RAT_EXPR | HOLE_EXPR | SYM_EXPR | SYMS_EXPR

datatype op = NOT_CEXPR | APP | PI | LAM | TYPE_E | KIND | ASCRIBE | MPZ | MPQ
  | PROG | PROGVARS | MATCH | CASE | PAT | DO | ADD | MUL | DIV | NEG | IFNEG | IFZERO
  | MPZ_TO_MPQ | LET | RUN | FAIL | MARKVAR | IFMARKED | COMPARE | IFEQUAL

fun class_code :: "eclass \<Rightarrow> 32 word" where
  "class_code CEXPR = 0"
| "class_code INT_EXPR = 1"
| "class_code RAT_EXPR = 2"
| "class_code HOLE_EXPR = 3"
| "class_code SYM_EXPR = 4"
| "class_code SYMS_EXPR = 5"

fun op_code :: "op \<Rightarrow> 32 word" where
  "op_code NOT_CEXPR = 0"
| "op_code APP = 1"
| "op_code PI = 2"
| "op_code LAM = 3"
| "op_code TYPE_E = 4"
| "op_code KIND = 5"
| "op_code ASCRIBE = 6"
| "op_code MPZ = 7"
| "op_code MPQ = 8"
| "op_code PROG = 9"
| "op_code PROGVARS = 10"
| "op_code MATCH = 11"
| "op_code CASE = 12"
| "op_code PAT = 13"
| "op_code DO = 14"
| "op_code ADD = 15"
| "op_code MUL = 16"
| "op_code DIV = 17"
| "op_code NEG = 18"
| "op_code IFNEG = 19"
| "op_code IFZERO = 20"
| "op_code MPZ_TO_MPQ = 21"
| "op_code LET = 22"
| "op_code RUN = 23"
| "op_code FAIL = 24"
| "op_code MARKVAR = 25"
| "op_code IFMARKED = 26"
| "op_code COMPARE = 27"
| "op_code IFEQUAL = 28"

section \<open>The packed word\<close>

type_synonym header = "32 word"

definition d_maxRefCount :: nat where
  "d_maxRefCount = 4194303"

definition expr_header_word :: "eclass \<Rightarrow> op \<Rightarrow> header" where
  "expr_header_word cls opr = push_bit 9 1 OR push_bit 3 (op_code opr) OR class_code cls"

definition getclass_w :: "header \<Rightarrow> 32 word" where
  "getclass_w data = data AND 7"

definition getop_w :: "header \<Rightarrow> 32 word" where
  "getop_w data = signed_drop_bit 3 data AND 31"

definition cloned_w :: "header \<Rightarrow> bool" where
  "cloned_w data = (data AND 256 \<noteq> 0)"

definition setcloned_w :: "header \<Rightarrow> header" where
  "setcloned_w data = data OR 256"

definition clearexmark_w :: "header \<Rightarrow> header" where
  "clearexmark_w data = data AND NOT 256"

definition getrefcnt_w :: "header \<Rightarrow> int" where
  "getrefcnt_w data = sint (signed_drop_bit 9 data)"

text \<open>\<open>(ref << 9) | (data & 511)\<close>\<close>

definition setrefcnt_w :: "int \<Rightarrow> header \<Rightarrow> header" where
  "setrefcnt_w ref data = push_bit 9 (word_of_int ref) OR (data AND 511)"

definition inc_w :: "header \<Rightarrow> header" where
  "inc_w data =
     (let ref = getrefcnt_w data;
          ref' = (if ref < int d_maxRefCount then ref + 1 else ref)
      in setrefcnt_w ref' data)"

text \<open>\<open>dec\<close>: \<open>None\<close> when the count reached 0 and \<open>destroy\<close> is called.\<close>

definition dec_w :: "header \<Rightarrow> header option" where
  "dec_w data =
     (let ref = getrefcnt_w data;
          ref' = (if ref < int d_maxRefCount then ref - 1 else ref)
      in if ref' = 0 then None else Some (setrefcnt_w ref' data))"

text \<open>The reference count as a number: saturating at \<open>d_maxRefCount\<close>.\<close>

definition ref_inc :: "nat \<Rightarrow> nat" where
  "ref_inc n = (if n < d_maxRefCount then n + 1 else n)"

definition ref_dec :: "nat \<Rightarrow> nat" where
  "ref_dec n = (if n < d_maxRefCount then n - 1 else n)"

definition header_ok :: "header \<Rightarrow> bool" where
  "header_ok data \<longleftrightarrow> \<not> bit data 31"

section \<open>Four independent fields\<close>

locale expr_header =
  fixes hclass :: "'h \<Rightarrow> 32 word" and hop :: "'h \<Rightarrow> 32 word" and hflag :: "'h \<Rightarrow> bool" and href :: "'h \<Rightarrow> nat"
    and hset :: "'h \<Rightarrow> 'h" and hclear :: "'h \<Rightarrow> 'h" and hinc :: "'h \<Rightarrow> 'h" and hdec :: "'h \<Rightarrow> 'h option"
    and hok :: "'h \<Rightarrow> bool"
  assumes set_fields: "hok h \<Longrightarrow> hok (hset h) \<and> hclass (hset h) = hclass h \<and> hop (hset h) = hop h \<and>
        href (hset h) = href h \<and> hflag (hset h)"
    and clear_fields: "hok h \<Longrightarrow> hok (hclear h) \<and> hclass (hclear h) = hclass h \<and> hop (hclear h) = hop h \<and>
        href (hclear h) = href h \<and> \<not> hflag (hclear h)"
    and inc_fields: "hok h \<Longrightarrow> hok (hinc h) \<and> hclass (hinc h) = hclass h \<and> hop (hinc h) = hop h \<and>
        hflag (hinc h) = hflag h \<and> href (hinc h) = ref_inc (href h)"
    and dec_fields: "hok h \<Longrightarrow> hdec h = Some h' \<Longrightarrow> 0 < href h \<Longrightarrow>
        hok h' \<and> hclass h' = hclass h \<and> hop h' = hop h \<and> hflag h' = hflag h \<and> href h' = ref_dec (href h)"
    and dec_last: "hok h \<Longrightarrow> 0 < href h \<Longrightarrow> hdec h = None \<longleftrightarrow> href h = 1"
    and ref_bound: "hok h \<Longrightarrow> href h \<le> d_maxRefCount"
begin

text \<open>A saturated count never changes again, so its expression is never destroyed.\<close>

lemma saturated_stays:
  assumes "hok h" "href h = d_maxRefCount"
  shows "href (hinc h) = d_maxRefCount \<and> (\<exists>h'. hdec h = Some h' \<and> href h' = d_maxRefCount)"
proof -
  have "hdec h \<noteq> None"
    using dec_last [OF assms(1)] assms(2) by (simp add: d_maxRefCount_def)
  then obtain h' where h': "hdec h = Some h'" by auto
  with dec_fields [OF assms(1) h'] inc_fields [OF assms(1)] assms(2) show ?thesis
    by (auto simp: ref_dec_def ref_inc_def d_maxRefCount_def)
qed

text \<open>A balanced \<open>inc\<close>/\<open>dec\<close> pair below saturation is the identity on all four fields.\<close>

lemma inc_dec_balanced:
  assumes "hok h" "0 < href h" "href h + 1 < d_maxRefCount"
  shows "\<exists>h'. hdec (hinc h) = Some h' \<and> hclass h' = hclass h \<and> hop h' = hop h \<and>
           hflag h' = hflag h \<and> href h' = href h"
proof -
  let ?h = "hinc h"
  from inc_fields [OF assms(1)] assms(3) have h: "hok ?h" "hclass ?h = hclass h" "hop ?h = hop h"
      "hflag ?h = hflag h" "href ?h = href h + 1"
    by (auto simp: ref_inc_def)
  with dec_last [of ?h] assms(2) obtain h' where "hdec ?h = Some h'" by fastforce
  with dec_fields [OF h(1)] h assms show ?thesis by (auto simp: ref_dec_def)
qed

end

section \<open>The packed word provides the four fields\<close>

lemma bit_256: "bit (256 :: int) n \<longleftrightarrow> n = 8" "bit (- 257 :: int) n \<longleftrightarrow> n \<noteq> 8"
proof -
  show 256: "bit (256 :: int) n \<longleftrightarrow> n = 8"
    using bit_exp_iff [where 'a = int and m = 8 and n = n] by auto
  have "bit (NOT (256 :: int)) n \<longleftrightarrow> n \<noteq> 8"
    unfolding bit_not_iff using 256 by simp
  then show "bit (- 257 :: int) n \<longleftrightarrow> n \<noteq> 8" by simp
qed

lemma and_mask_eqI:
  assumes "\<And>n. n < m \<Longrightarrow> bit (w :: 32 word) n = bit v n"
  shows "w AND mask m = v AND mask m"
  by (rule bit_word_eqI) (use assms in \<open>auto simp: bit_and_iff bit_mask_iff\<close>)

lemma masks: "(7 :: 32 word) = mask 3" "(31 :: 32 word) = mask 5" "(511 :: 32 word) = mask 9"
  by (simp_all add: mask_eq_exp_minus_1)

lemma bit_sdrop:
  fixes w :: "32 word"
  assumes "\<not> bit w 31"
  shows "bit (signed_drop_bit m w) n \<longleftrightarrow> bit w (m + n)"
proof -
  have "\<not> bit w (m + n)" if "32 - m \<le> n" using bit_imp_le_length [of w "m + n"] that by auto
  with assms show ?thesis by (simp add: bit_signed_drop_bit_iff)
qed

lemma bit_getrefcnt: "header_ok w \<Longrightarrow> bit (getrefcnt_w w) n \<longleftrightarrow> bit w (9 + n)"
  using bit_imp_le_length [of w "9 + n"]
  unfolding getrefcnt_w_def bit_sint_iff
  using bit_imp_le_length [of w "9 + 31"] by (auto simp: header_ok_def bit_sdrop)

lemma bit_setrefcnt:
  "bit (setrefcnt_w r w) n \<longleftrightarrow> (if n < 9 then bit w n else n < 32 \<and> bit r (n - 9))"
  using bit_imp_le_length [of w n]
  by (auto simp: setrefcnt_w_def masks bit_or_iff bit_and_iff bit_mask_iff bit_push_bit_iff bit_word_of_int_iff)

lemma bit_set_flag: "bit (setcloned_w w) n \<longleftrightarrow> n = 8 \<or> bit w n"
  by (auto simp: setcloned_w_def bit_or_iff bit_256)

lemma bit_clear_flag: "bit (clearexmark_w w) n \<longleftrightarrow> n \<noteq> 8 \<and> bit w n"
  using bit_imp_le_length [of w n]
  by (auto simp: clearexmark_w_def bit_and_iff bit_not_iff bit_256)

lemma cloned_bit: "cloned_w w \<longleftrightarrow> bit w 8"
proof -
  have bits: "bit (w AND 256) n \<longleftrightarrow> n = 8 \<and> bit w 8" for n
    by (auto simp: bit_and_iff bit_256)
  show ?thesis
  proof
    assume "cloned_w w"
    then have "\<exists>n. bit (w AND 256) n"
      unfolding cloned_w_def by (metis bit_0_eq bit_word_eqI bot_apply bot_bool_def)
    then show "bit w 8" unfolding bits by simp
  next
    assume "bit w 8"
    with bits [of 8] have "bit (w AND 256) 8" by (simp only: simp_thms)
    moreover have "\<not> bit (0 :: 32 word) 8" by simp
    ultimately show "cloned_w w" unfolding cloned_w_def by metis
  qed
qed

lemma getclass_bits: "(\<And>n. n < 3 \<Longrightarrow> bit w n = bit v n) \<Longrightarrow> getclass_w w = getclass_w v"
  unfolding getclass_w_def masks by (rule and_mask_eqI)

lemma getop_bits:
  assumes "header_ok w" "header_ok v" "\<And>n. n < 8 \<Longrightarrow> bit w n = bit v n"
  shows "getop_w w = getop_w v"
  unfolding getop_w_def masks
  by (rule and_mask_eqI) (use assms in \<open>simp add: header_ok_def bit_sdrop\<close>)

lemma getrefcnt_bound: "header_ok w \<Longrightarrow> 0 \<le> getrefcnt_w w \<and> getrefcnt_w w < 2 ^ 22"
proof -
  assume ok: "header_ok w"
  have "take_bit 22 (getrefcnt_w w) = getrefcnt_w w"
  proof (rule bit_eqI)
    fix n
    show "bit (take_bit 22 (getrefcnt_w w)) n = bit (getrefcnt_w w) n"
      using ok bit_imp_le_length [of w "9 + n"] 
      by (cases "n = 22") (auto simp: bit_take_bit_iff bit_getrefcnt header_ok_def)
  qed
  then show ?thesis
    by (metis take_bit_int_less_exp take_bit_nonnegative)
qed

lemma setrefcnt_ok:
  assumes "0 \<le> r" "r < 2 ^ 22"
  shows "header_ok (setrefcnt_w r w)" "getrefcnt_w (setrefcnt_w r w) = r"
proof -
  have bit: "\<not> bit r n" if "22 \<le> n" for n
    using assms that by (metis bit_take_bit_iff leD take_bit_int_eq_self)
  then show ok: "header_ok (setrefcnt_w r w)"
    by (simp add: header_ok_def bit_setrefcnt)
  show "getrefcnt_w (setrefcnt_w r w) = r"
  proof (rule bit_eqI)
    fix n
    from ok show "bit (getrefcnt_w (setrefcnt_w r w)) n = bit r n"
      using bit [of n] by (cases "n < 22") (simp_all add: bit_getrefcnt bit_setrefcnt)
  qed
qed

lemma setrefcnt_fields:
  assumes "header_ok w" "0 \<le> r" "r < 2 ^ 22"
  shows "getclass_w (setrefcnt_w r w) = getclass_w w" "getop_w (setrefcnt_w r w) = getop_w w"
    "cloned_w (setrefcnt_w r w) = cloned_w w"
  using setrefcnt_ok(1) [OF assms(2,3)] assms(1)
  by (auto intro!: getclass_bits getop_bits simp: bit_setrefcnt cloned_bit)

lemma flag_fields:
  assumes "header_ok w"
  shows "header_ok (setcloned_w w)" "header_ok (clearexmark_w w)"
    "getclass_w (setcloned_w w) = getclass_w w" "getclass_w (clearexmark_w w) = getclass_w w"
    "getop_w (setcloned_w w) = getop_w w" "getop_w (clearexmark_w w) = getop_w w"
    "getrefcnt_w (setcloned_w w) = getrefcnt_w w" "getrefcnt_w (clearexmark_w w) = getrefcnt_w w"
    "cloned_w (setcloned_w w)" "\<not> cloned_w (clearexmark_w w)"
proof -
  show ok: "header_ok (setcloned_w w)" "header_ok (clearexmark_w w)"
    using assms by (auto simp: header_ok_def bit_set_flag bit_clear_flag)
  show "getclass_w (setcloned_w w) = getclass_w w" "getclass_w (clearexmark_w w) = getclass_w w"
    by (auto intro!: getclass_bits simp: bit_set_flag bit_clear_flag)
  show "getop_w (setcloned_w w) = getop_w w" "getop_w (clearexmark_w w) = getop_w w"
    using ok assms by (auto intro!: getop_bits simp: bit_set_flag bit_clear_flag)
  show "getrefcnt_w (setcloned_w w) = getrefcnt_w w" "getrefcnt_w (clearexmark_w w) = getrefcnt_w w"
    by (rule bit_eqI, use ok assms in \<open>auto simp: bit_getrefcnt bit_set_flag bit_clear_flag\<close>)+
  show "cloned_w (setcloned_w w)" "\<not> cloned_w (clearexmark_w w)"
    by (auto simp: cloned_bit bit_set_flag bit_clear_flag)
qed

text \<open>Every header the constructors build is well formed, and the packing loses nothing.\<close>

lemma header_word_fields:
  "header_ok (expr_header_word cls opr)"
  "getclass_w (expr_header_word cls opr) = class_code cls"
  "getop_w (expr_header_word cls opr) = op_code opr"
  "getrefcnt_w (expr_header_word cls opr) = 1"
  "\<not> cloned_w (expr_header_word cls opr)"
  by (cases cls; cases opr; simp add: expr_header_word_def header_ok_def getclass_w_def getop_w_def
      getrefcnt_w_def cloned_w_def)+

lemma inc_w_eq: "header_ok w \<Longrightarrow> inc_w w = setrefcnt_w (int (ref_inc (nat (getrefcnt_w w)))) w"
  using getrefcnt_bound [of w] by (auto simp: inc_w_def ref_inc_def Let_def add.commute)

lemma dec_w_eq:
  "header_ok w \<Longrightarrow> 0 < getrefcnt_w w \<Longrightarrow>
   dec_w w = (if getrefcnt_w w = 1 then None else Some (setrefcnt_w (int (ref_dec (nat (getrefcnt_w w)))) w))"
  using getrefcnt_bound [of w] by (auto simp: dec_w_def ref_dec_def Let_def d_maxRefCount_def)

lemma ref_bounds:
  assumes "header_ok w"
  shows "0 \<le> int (ref_inc (nat (getrefcnt_w w)))" "int (ref_inc (nat (getrefcnt_w w))) < 2 ^ 22"
    "int (ref_dec (nat (getrefcnt_w w))) < 2 ^ 22"
  using getrefcnt_bound [OF assms] by (auto simp: ref_inc_def ref_dec_def d_maxRefCount_def)

interpretation hdr: expr_header getclass_w getop_w cloned_w "\<lambda>w. nat (getrefcnt_w w)"
  setcloned_w clearexmark_w inc_w dec_w header_ok
proof
  fix w w' :: header
  assume ok: "header_ok w"
  note set = setrefcnt_ok setrefcnt_fields [OF ok]
  show "header_ok (setcloned_w w) \<and> getclass_w (setcloned_w w) = getclass_w w \<and>
      getop_w (setcloned_w w) = getop_w w \<and> nat (getrefcnt_w (setcloned_w w)) = nat (getrefcnt_w w) \<and>
      cloned_w (setcloned_w w)"
    using flag_fields [OF ok] by simp
  show "header_ok (clearexmark_w w) \<and> getclass_w (clearexmark_w w) = getclass_w w \<and>
      getop_w (clearexmark_w w) = getop_w w \<and> nat (getrefcnt_w (clearexmark_w w)) = nat (getrefcnt_w w) \<and>
      \<not> cloned_w (clearexmark_w w)"
    using flag_fields [OF ok] by simp
  show "header_ok (inc_w w) \<and> getclass_w (inc_w w) = getclass_w w \<and> getop_w (inc_w w) = getop_w w \<and>
      cloned_w (inc_w w) = cloned_w w \<and> nat (getrefcnt_w (inc_w w)) = ref_inc (nat (getrefcnt_w w))"
    unfolding inc_w_eq [OF ok] using set ref_bounds [OF ok] by simp
  show "header_ok w' \<and> getclass_w w' = getclass_w w \<and> getop_w w' = getop_w w \<and>
      cloned_w w' = cloned_w w \<and> nat (getrefcnt_w w') = ref_dec (nat (getrefcnt_w w))"
    if "dec_w w = Some w'" "0 < nat (getrefcnt_w w)"
    using that dec_w_eq [OF ok] set ref_bounds [OF ok] by (auto split: if_splits)
  show "dec_w w = None \<longleftrightarrow> nat (getrefcnt_w w) = 1" if "0 < nat (getrefcnt_w w)"
    using that dec_w_eq [OF ok] by auto
  show "nat (getrefcnt_w w) \<le> d_maxRefCount"
    using getrefcnt_bound [OF ok] by (simp add: d_maxRefCount_def nat_le_iff)
qed

end
