(* ===== verification/LFSC_Cache.thy ===== *)
theory LFSC_Cache
  imports LFSC_Prelude "HOL-Library.AList"
begin

text \<open>
  The class \<open>ExprTrie\<close> of \<open>src/src/code.cpp\<close>: the cache of results of \<open>function\<close> calls, a trie whose
  edges are expression pointers.  \<open>get\<close> extends the trie along a path and returns the node at its end;
  the model keeps the path in place of that pointer.  Edges are reference counted: \<open>get\<close> reports the
  edges it created, in order, and \<open>etrie_refs\<close> lists what the destructor releases.  The locale
  \<open>result_cache\<close> states what the evaluator relies on.
\<close>

section \<open>The trie\<close>

datatype etrie = ETrie (d_data: "nat option") (d_children: "(nat \<times> etrie) list")

definition empty_etrie :: etrie where
  "empty_etrie = ETrie None []"

primrec etrie_get :: "nat list \<Rightarrow> etrie \<Rightarrow> etrie \<times> nat list" where
  "etrie_get [] t = (t, [])"
| "etrie_get (e # es) t =
     (case map_of (d_children t) e of
        None \<Rightarrow>
          (let (c, new) = etrie_get es empty_etrie
           in (ETrie (d_data t) ((e, c) # d_children t), e # new))
      | Some c0 \<Rightarrow>
          (let (c, new) = etrie_get es c0
           in (ETrie (d_data t) (AList.update e c (d_children t)), new)))"

text \<open>\<open>getData\<close> and \<open>setData\<close> at the node a path leads to.\<close>

primrec etrie_data :: "nat list \<Rightarrow> etrie \<Rightarrow> nat option" where
  "etrie_data [] t = d_data t"
| "etrie_data (e # es) t =
     (case map_of (d_children t) e of None \<Rightarrow> None | Some c \<Rightarrow> etrie_data es c)"

primrec etrie_set :: "nat list \<Rightarrow> nat \<Rightarrow> etrie \<Rightarrow> etrie" where
  "etrie_set [] d t = ETrie (Some d) (d_children t)"
| "etrie_set (e # es) d t =
     (case map_of (d_children t) e of
        None \<Rightarrow> t
      | Some c \<Rightarrow> ETrie (d_data t) (AList.update e (etrie_set es d c) (d_children t)))"

primrec etrie_has :: "nat list \<Rightarrow> etrie \<Rightarrow> bool" where
  "etrie_has [] t = True"
| "etrie_has (e # es) t =
     (case map_of (d_children t) e of None \<Rightarrow> False | Some c \<Rightarrow> etrie_has es c)"

text \<open>The references the destructor gives back, in the order of the nodes; among the edges of one node
  the code goes by machine address, the model by age.\<close>

primrec etrie_refs :: "etrie \<Rightarrow> nat list"
  and edge_refs :: "(nat \<times> etrie) list \<Rightarrow> nat list"
  and edge_ref :: "nat \<times> etrie \<Rightarrow> nat list" where
  "etrie_refs (ETrie d cs) =
     (case d of None \<Rightarrow> [] | Some x \<Rightarrow> [x]) @ map fst cs @ edge_refs cs"
| "edge_refs [] = []"
| "edge_refs (c # cs) = edge_ref c @ edge_refs cs"
| "edge_ref (e, t) = etrie_refs t"

section \<open>What the evaluator relies on\<close>

text \<open>
  A table of results: \<open>touch\<close> makes a slot for a key without changing any stored result, and \<open>store\<close>
  writes a touched slot.
\<close>

locale result_cache =
  fixes look :: "'k \<Rightarrow> 't \<Rightarrow> 'v option"
    and touch :: "'k \<Rightarrow> 't \<Rightarrow> 't"
    and store :: "'k \<Rightarrow> 'v \<Rightarrow> 't \<Rightarrow> 't"
    and slot :: "'k \<Rightarrow> 't \<Rightarrow> bool"
    and init :: 't
  assumes look_init: "look k init = None"
    and look_touch: "look k' (touch k t) = look k' t"
    and slot_touch: "slot k' t \<Longrightarrow> slot k' (touch k t)"
    and slot_self: "slot k (touch k t)"
    and look_store: "slot k t \<Longrightarrow> look k' (store k v t) = (if k' = k then Some v else look k' t)"
    and slot_store: "slot k t \<Longrightarrow> slot k' (store k v t) \<longleftrightarrow> slot k' t"
begin

text \<open>A miss followed by other calls and the store at the end: the result is found under its key only.\<close>

lemma look_store_touch: "look k' (store k v (touch k t)) = (if k' = k then Some v else look k' t)"
  by (simp add: look_store slot_self look_touch)

text \<open>The table as a map: the last result stored under a key is the one found.\<close>

lemma fold_touch: "look k (fold touch ks t) = look k t"
  by (induction ks arbitrary: t) (simp_all add: look_touch)

lemma fold_store:
  "look k (fold (\<lambda>(k, v) t. store k v (touch k t)) kvs t) =
   (case map_of (rev kvs) k of Some v \<Rightarrow> Some v | None \<Rightarrow> look k t)"
  by (induction kvs arbitrary: t) (auto simp: look_store_touch map_add_def split: option.split)

end

section \<open>The trie is such a table\<close>

lemma map_of_update [simp]: "map_of (AList.update k v al) = (map_of al)(k \<mapsto> v)"
  by (simp add: update_conv')

lemma etrie_data_empty [simp]: "etrie_data k empty_etrie = None"
  by (cases k) (simp_all add: empty_etrie_def)

lemma etrie_has_empty [simp]: "etrie_has k empty_etrie \<longleftrightarrow> k = []"
  by (cases k) (simp_all add: empty_etrie_def)

lemma etrie_data_get: "etrie_data k' (fst (etrie_get k t)) = etrie_data k' t"
proof (induction k arbitrary: k' t)
  case (Cons e es)
  show ?case
  proof (cases k')
    case (Cons x xs)
    with Cons.IH [of xs empty_etrie] Cons.IH [of xs "the (map_of (d_children t) e)"] show ?thesis
      by (auto split: option.split prod.split)
  qed (simp split: option.split prod.split)
qed simp

lemma etrie_has_get_self: "etrie_has k (fst (etrie_get k t))"
proof (induction k arbitrary: t)
  case (Cons e es)
  from Cons.IH [of empty_etrie] Cons.IH [of "the (map_of (d_children t) e)"] show ?case
    by (auto split: option.split prod.split)
qed simp

lemma etrie_has_get_mono: "etrie_has k' t \<Longrightarrow> etrie_has k' (fst (etrie_get k t))"
proof (induction k arbitrary: k' t)
  case (Cons e es)
  from Cons.prems Cons.IH [of "tl k'" "the (map_of (d_children t) e)"] show ?case
    by (cases k') (auto split: option.splits prod.splits)
qed simp

lemma etrie_data_set:
  "etrie_has k t \<Longrightarrow> etrie_data k' (etrie_set k v t) = (if k' = k then Some v else etrie_data k' t)"
proof (induction k arbitrary: k' t)
  case Nil
  show ?case by (cases k') auto
next
  case (Cons e es)
  then show ?case by (cases k') (auto split: option.splits)
qed

lemma etrie_has_set: "etrie_has k t \<Longrightarrow> etrie_has k' (etrie_set k v t) \<longleftrightarrow> etrie_has k' t"
proof (induction k arbitrary: k' t)
  case Nil
  show ?case by (cases k') auto
next
  case (Cons e es)
  then show ?case by (cases k') (auto split: option.splits)
qed

definition etrie_touch :: "nat list \<Rightarrow> etrie \<Rightarrow> etrie" where
  "etrie_touch k t = fst (etrie_get k t)"

interpretation scc_cache: result_cache etrie_data etrie_touch etrie_set etrie_has empty_etrie
  unfolding etrie_touch_def
  by unfold_locales
    (auto simp: etrie_data_get etrie_has_get_self etrie_data_set etrie_has_set etrie_has_get_mono)

end
