(* ===== verification/LFSC_Heap.thy ===== *)
theory LFSC_Heap
  imports LFSC_Trie LFSC_Data LFSC_Cache
begin

text \<open>
  The expression graph of \<open>src/src/expr.h\<close> and \<open>src/src/expr.cpp\<close>: the state every operation works on,
  allocation, field access, reference counting with \<open>destroy\<close>, and \<open>followDefs\<close>.

  A pointer is an address; the graph is the explicit store \<open>node\<close>, so that sharing and in-place updates
  are visible.  The mutable fields of an object are separate components of the state: \<open>sval\<close> (the
  \<open>val\<close> pointer of symbols and holes), \<open>flag\<close> (bit 8 of the header) and \<open>refs\<close> (its reference count);
  theory \<open>LFSC_Data\<close> shows that the packed header word provides them.  \<open>delete\<close> records the address in
  \<open>freed\<close> and keeps the cell: addresses are never reused, and \<open>refs\<close> and \<open>freed\<close> influence results only
  through the sharing heuristic of \<open>defeq\<close>.
\<close>

section \<open>State\<close>

type_synonym addr = nat

datatype node =
    CExpr op "addr list"
  | IntExpr int
  | RatExpr rat
  | HoleExpr
  | SymExpr
  | SymSExpr string

text \<open>
  \<open>maddr\<close> is the machine address the allocator gave to an object: the checker compares addresses
  (\<open>compare\<close> in side conditions), and their order is the allocator's choice.  \<open>cache\<close> is the local
  variable of \<open>run_code\<close> that its calls share by reference.  \<open>progs\<close> is the hash map of programs, in
  which a name may be present with a null pointer.
\<close>

record st =
  node :: "addr \<Rightarrow> node option"
  sval :: "addr \<Rightarrow> addr option"
  flag :: "addr \<Rightarrow> bool"
  refs :: "addr \<Rightarrow> nat"
  freed :: "addr \<Rightarrow> bool"
  brk :: addr
  maddr :: "addr \<Rightarrow> nat"
  mark_map :: "addr \<Rightarrow> 32 word"
  symbols :: "(addr option \<times> addr option) trie"
  progs :: "string \<Rightarrow> addr option option"
  progFunctions :: "addr \<Rightarrow> bool"
  run_scc :: bool
  cache :: etrie

fun class_of :: "node \<Rightarrow> eclass" where
  "class_of (CExpr opr ks) = CEXPR"
| "class_of (IntExpr n) = INT_EXPR"
| "class_of (RatExpr q) = RAT_EXPR"
| "class_of HoleExpr = HOLE_EXPR"
| "class_of SymExpr = SYM_EXPR"
| "class_of (SymSExpr x) = SYMS_EXPR"

fun op_of :: "node \<Rightarrow> op" where
  "op_of (CExpr opr ks) = opr"
| "op_of nd = NOT_CEXPR"

text \<open>Classes with a \<open>val\<close> field.\<close>

fun has_val :: "node \<Rightarrow> bool" where
  "has_val HoleExpr = True"
| "has_val SymExpr = True"
| "has_val (SymSExpr x) = True"
| "has_val nd = False"

section \<open>Field access\<close>

definition getnode :: "addr \<Rightarrow> (st, node) M" where
  "getnode a = bnd (gets (\<lambda>s. node s a)) deref"

definition getclass :: "addr \<Rightarrow> (st, eclass) M" where
  "getclass a = bnd (getnode a) (\<lambda>nd. ret (class_of nd))"

definition getop :: "addr \<Rightarrow> (st, op) M" where
  "getop a = bnd (getnode a) (\<lambda>nd. ret (op_of nd))"

text \<open>\<open>((CExpr* )e)->kids\<close>, without the terminating null; a cast of another class is undefined.\<close>

definition getkids :: "addr \<Rightarrow> (st, addr list) M" where
  "getkids a = bnd (getnode a) (\<lambda>nd. case nd of CExpr opr ks \<Rightarrow> ret ks | _ \<Rightarrow> stop Undefined)"

definition getkid :: "addr \<Rightarrow> nat \<Rightarrow> (st, addr) M" where
  "getkid a i = bnd (getkids a) (\<lambda>ks. deref (nth_opt ks i))"

definition setkid :: "addr \<Rightarrow> nat \<Rightarrow> addr \<Rightarrow> (st, unit) M" where
  "setkid a i v = bnd (getnode a) (\<lambda>nd. case nd of
       CExpr opr ks \<Rightarrow>
         if i < length ks then modify (\<lambda>s. s\<lparr>node := (node s)(a \<mapsto> CExpr opr (ks[i := v]))\<rparr>)
         else stop Undefined
     | _ \<Rightarrow> stop Undefined)"

definition getval :: "addr \<Rightarrow> (st, addr option) M" where
  "getval a = bnd (getnode a) (\<lambda>nd. if has_val nd then gets (\<lambda>s. sval s a) else stop Undefined)"

definition setval :: "addr \<Rightarrow> addr option \<Rightarrow> (st, unit) M" where
  "setval a v = bnd (getnode a) (\<lambda>nd.
     if has_val nd then modify (\<lambda>s. s\<lparr>sval := (sval s)(a := v)\<rparr>) else stop Undefined)"

definition getflag :: "addr \<Rightarrow> (st, bool) M" where
  "getflag a = bnd (getnode a) (\<lambda>nd. gets (\<lambda>s. flag s a))"

definition setflag :: "addr \<Rightarrow> bool \<Rightarrow> (st, unit) M" where
  "setflag a b = bnd (getnode a) (\<lambda>nd. modify (\<lambda>s. s\<lparr>flag := (flag s)(a := b)\<rparr>))"

text \<open>\<open>new CExpr(...)\<close>, \<open>new IntExpr(...)\<close> and so on: count 1, flag clear, null \<open>val\<close>.\<close>

definition new_expr :: "node \<Rightarrow> (st, addr) M" where
  "new_expr nd = (\<lambda>s. let a = brk s in
     Inr (a, s\<lparr>node := (node s)(a \<mapsto> nd), sval := (sval s)(a := None), flag := (flag s)(a := False),
               refs := (refs s)(a := 1), freed := (freed s)(a := False), brk := Suc a\<rparr>))"

section \<open>Reference counts\<close>

definition inc :: "addr \<Rightarrow> (st, unit) M" where
  "inc a = bnd (getnode a) (\<lambda>nd. modify (\<lambda>s. s\<lparr>refs := (refs s)(a := ref_inc (refs s a))\<rparr>))"

definition delete_expr :: "addr \<Rightarrow> st \<Rightarrow> st" where
  "delete_expr a s = s\<lparr>freed := (freed s)(a := True)\<rparr>"

text \<open>\<open>dec\<close> and the macro \<open>destroydec\<close>: the continuation \<open>dst\<close> is \<open>destroy\<close>.\<close>

definition dec_with :: "(addr \<Rightarrow> st \<Rightarrow> st) \<Rightarrow> addr \<Rightarrow> st \<Rightarrow> st" where
  "dec_with dst r s =
     (let ref = ref_dec (refs s r)
      in if ref = 0 then dst r s else s\<lparr>refs := (refs s)(r := ref)\<rparr>)"

text \<open>
  \<open>Expr::destroy(e, dec_kids)\<close>.  A rational is not deleted (the switch has no case for it), nor is a
  \<open>CExpr\<close> without kids.  A pointer to a program is not followed from a symbol.  \<open>goto start_destroy\<close> keeps
  \<open>dec_kids\<close>, while \<open>dec\<close> of the other kids starts with true.  The bound on the depth
  is the number of cells: a cell is deleted at most once.
\<close>

primrec destroy :: "nat \<Rightarrow> bool \<Rightarrow> addr \<Rightarrow> st \<Rightarrow> st" where
  "destroy 0 dec_kids e s = s"
| "destroy (Suc n) dec_kids e s =
     (if freed s e then s
      else case node s e of
        None \<Rightarrow> s
      | Some nd \<Rightarrow>
         (case nd of
            IntExpr i \<Rightarrow> delete_expr e s
          | RatExpr q \<Rightarrow> s
          | HoleExpr \<Rightarrow>
              (case sval s e of
                 None \<Rightarrow> delete_expr e s
               | Some v \<Rightarrow> dec_with (destroy n dec_kids) v (delete_expr e s))
          | CExpr opr ks \<Rightarrow>
              if \<not> dec_kids then delete_expr e s
              else if ks = [] then s
              else dec_with (destroy n True) (last ks)
                     (delete_expr e (fold (dec_with (destroy n True)) (butlast ks) s))
          | _ \<Rightarrow>
              (case sval s e of
                 None \<Rightarrow> delete_expr e s
               | Some v \<Rightarrow>
                   if map_option op_of (node s v) = Some PROG then delete_expr e s
                   else dec_with (destroy n dec_kids) v (delete_expr e s))))"

definition dec_st :: "addr \<Rightarrow> st \<Rightarrow> st" where
  "dec_st a s = dec_with (destroy (Suc (brk s)) True) a s"

definition dec :: "addr \<Rightarrow> (st, unit) M" where
  "dec a = bnd (getnode a) (\<lambda>nd. modify (dec_st a))"

section \<open>Definitions of symbols and holes\<close>

primrec followDefs :: "nat \<Rightarrow> addr \<Rightarrow> (st, addr) M" where
  "followDefs 0 e = stop OutOfFuel"
| "followDefs (Suc n) e =
     bnd (getnode e) (\<lambda>nd.
       if has_val nd then
         bnd (getval e) (\<lambda>v. case v of Some b \<Rightarrow> followDefs n b | None \<Rightarrow> ret e)
       else ret e)"

text \<open>One step along a \<open>val\<close> pointer, and its end points.\<close>

definition points_to :: "st \<Rightarrow> addr \<Rightarrow> addr \<Rightarrow> bool" where
  "points_to s a b \<longleftrightarrow> (\<exists>nd. node s a = Some nd \<and> has_val nd) \<and> sval s a = Some b"

definition at_end :: "st \<Rightarrow> addr \<Rightarrow> bool" where
  "at_end s a \<longleftrightarrow> (\<exists>nd. node s a = Some nd \<and> (has_val nd \<longrightarrow> sval s a = None))"

section \<open>Evaluation rules\<close>

lemma getnode_run [run_simps]:
  "getnode a s = (case node s a of None \<Rightarrow> Inl Undefined | Some nd \<Rightarrow> Inr (nd, s))"
  by (simp add: getnode_def bnd_run split: option.split)

lemma getclass_run [run_simps]:
  "getclass a s = (case node s a of None \<Rightarrow> Inl Undefined | Some nd \<Rightarrow> Inr (class_of nd, s))"
  by (simp add: getclass_def run_simps split: option.split)

lemma getop_run [run_simps]:
  "getop a s = (case node s a of None \<Rightarrow> Inl Undefined | Some nd \<Rightarrow> Inr (op_of nd, s))"
  by (simp add: getop_def run_simps split: option.split)

lemma getkids_run [run_simps]:
  "getkids a s = (case node s a of Some (CExpr opr ks) \<Rightarrow> Inr (ks, s) | _ \<Rightarrow> Inl Undefined)"
  by (simp add: getkids_def run_simps split: option.split node.split)

lemma getkid_run [run_simps]:
  "getkid a i s = (case node s a of
     Some (CExpr opr ks) \<Rightarrow> (if i < length ks then Inr (ks ! i, s) else Inl Undefined)
   | _ \<Rightarrow> Inl Undefined)"
  by (simp add: getkid_def run_simps nth_opt_def split: option.split node.split)

lemma getval_run [run_simps]:
  "getval a s = (case node s a of
     Some nd \<Rightarrow> if has_val nd then Inr (sval s a, s) else Inl Undefined | None \<Rightarrow> Inl Undefined)"
  by (simp add: getval_def run_simps split: option.split)

lemma setval_run [run_simps]:
  "setval a v s = (case node s a of
     Some nd \<Rightarrow> if has_val nd then Inr ((), s\<lparr>sval := (sval s)(a := v)\<rparr>) else Inl Undefined
   | None \<Rightarrow> Inl Undefined)"
  by (simp add: setval_def run_simps split: option.split)

lemma getflag_run [run_simps]:
  "getflag a s = (case node s a of None \<Rightarrow> Inl Undefined | Some nd \<Rightarrow> Inr (flag s a, s))"
  by (simp add: getflag_def run_simps split: option.split)

lemma setflag_run [run_simps]:
  "setflag a b s = (case node s a of None \<Rightarrow> Inl Undefined
     | Some nd \<Rightarrow> Inr ((), s\<lparr>flag := (flag s)(a := b)\<rparr>))"
  by (simp add: setflag_def run_simps split: option.split)

lemma inc_run [run_simps]:
  "inc a s = (case node s a of None \<Rightarrow> Inl Undefined
     | Some nd \<Rightarrow> Inr ((), s\<lparr>refs := (refs s)(a := ref_inc (refs s a))\<rparr>))"
  by (simp add: inc_def run_simps split: option.split)

lemma dec_run [run_simps]:
  "dec a s = (case node s a of None \<Rightarrow> Inl Undefined | Some nd \<Rightarrow> Inr ((), dec_st a s))"
  by (simp add: dec_def run_simps split: option.split)

lemmas acc_defs = getclass_def getop_def getkids_def getkid_def getval_def setval_def getflag_def
  setflag_def inc_def dec_def setkid_def

lemma fuel_le_node [fuel_mono]:
  "(\<And>opr ks. nd = CExpr opr ks \<Longrightarrow> fuel_le (a opr ks) (a' opr ks)) \<Longrightarrow>
   (\<And>i. nd = IntExpr i \<Longrightarrow> fuel_le (b i) (b' i)) \<Longrightarrow>
   (\<And>q. nd = RatExpr q \<Longrightarrow> fuel_le (c q) (c' q)) \<Longrightarrow>
   (nd = HoleExpr \<Longrightarrow> fuel_le d d') \<Longrightarrow>
   (nd = SymExpr \<Longrightarrow> fuel_le e e') \<Longrightarrow>
   (\<And>x. nd = SymSExpr x \<Longrightarrow> fuel_le (f x) (f' x)) \<Longrightarrow>
   fuel_le (case_node a b c d e f nd) (case_node a' b' c' d' e' f' nd)"
  by (cases nd) simp_all

lemma followDefs_fuel [fuel_mono]: "fuel_le (followDefs n e) (followDefs (Suc n) e)"
proof (induction n arbitrary: e)
  case (Suc n)
  then show ?case
    unfolding followDefs.simps(2) [of n] followDefs.simps(2) [of "Suc n"]
    by (intro fuel_mono) auto
qed simp

section \<open>Reference counting leaves the graph alone\<close>

definition rc_only :: "st \<Rightarrow> st \<Rightarrow> bool" where
  "rc_only s s' \<longleftrightarrow> node s' = node s \<and> sval s' = sval s \<and> flag s' = flag s \<and> brk s' = brk s \<and>
     maddr s' = maddr s \<and> mark_map s' = mark_map s \<and> symbols s' = symbols s \<and> progs s' = progs s \<and>
     progFunctions s' = progFunctions s \<and> run_scc s' = run_scc s \<and>
     cache s' = cache s"

lemma rc_only_refl [simp]: "rc_only s s"
  by (simp add: rc_only_def)

lemma rc_only_trans: "rc_only s t \<Longrightarrow> rc_only t u \<Longrightarrow> rc_only s u"
  by (simp add: rc_only_def)

lemma rc_only_delete: "rc_only s (delete_expr a s)"
  by (simp add: rc_only_def delete_expr_def)

lemma rc_only_dec_with: "(\<And>s. rc_only s (dst r s)) \<Longrightarrow> rc_only s (dec_with dst r s)"
  by (simp add: dec_with_def Let_def) (simp add: rc_only_def)

lemma rc_only_fold:
  "(\<And>r s. rc_only s (f r s)) \<Longrightarrow> rc_only s (fold f rs s)"
  by (induction rs arbitrary: s) (auto intro: rc_only_trans)

lemma destroy_rc_only: "rc_only s (destroy n dk e s)"
proof (induction n arbitrary: dk e s)
  case (Suc n)
  have d: "rc_only s (dec_with (destroy n b) v s)" for b v s
    by (rule rc_only_dec_with) (rule Suc.IH)
  have "rc_only s (dec_with (destroy n b) v (delete_expr e s))" for b v s
    using rc_only_delete d by (rule rc_only_trans)
  moreover have "rc_only s (dec_with (destroy n True) v (delete_expr e (fold (dec_with (destroy n True)) rs s)))"
    for v rs s
    by (intro rc_only_trans [OF _ d] rc_only_trans [OF _ rc_only_delete] rc_only_fold d)
  ultimately show ?case
    by (simp add: rc_only_delete split: option.split node.split)
qed simp

lemma dec_rc_only: "rc_only s (dec_st a s)"
  unfolding dec_st_def by (rule rc_only_dec_with) (rule destroy_rc_only)

lemma rc_only_fields:
  assumes "rc_only s s'"
  shows "node s' = node s" "sval s' = sval s" "flag s' = flag s" "brk s' = brk s" "maddr s' = maddr s"
    "mark_map s' = mark_map s" "symbols s' = symbols s" "progs s' = progs s"
    "progFunctions s' = progFunctions s" "run_scc s' = run_scc s"
    "cache s' = cache s"
  using assms by (simp_all add: rc_only_def)

lemmas dec_st_fields [simp] = rc_only_fields [OF dec_rc_only]

section \<open>followDefs\<close>

text \<open>It returns the end of the chain of \<open>val\<close> pointers, and returns at all exactly when there is one.\<close>

lemma followDefs_sound:
  "followDefs n a s = Inr (b, s') \<Longrightarrow> s' = s \<and> (points_to s)\<^sup>*\<^sup>* a b \<and> at_end s b"
proof (induction n arbitrary: a)
  case (Suc n)
  then obtain nd where nd: "node s a = Some nd"
    by (auto simp: run_simps split: option.splits)
  show ?case
  proof (cases "has_val nd \<and> sval s a \<noteq> None")
    case True
    then obtain c where c: "sval s a = Some c" by auto
    with True nd Suc.prems have "followDefs n c s = Inr (b, s')"
      by (simp add: run_simps)
    with Suc.IH have "s' = s" "(points_to s)\<^sup>*\<^sup>* c b" "at_end s b" by blast+
    moreover have "points_to s a c" using True nd c by (simp add: points_to_def)
    ultimately show ?thesis by (auto intro: converse_rtranclp_into_rtranclp)
  next
    case False
    with nd Suc.prems have "b = a" "s' = s" by (auto simp: run_simps split: if_splits)
    with False nd show ?thesis by (auto simp: at_end_def)
  qed
qed simp

lemma followDefs_complete:
  "(points_to s)\<^sup>*\<^sup>* a b \<Longrightarrow> at_end s b \<Longrightarrow> \<exists>n. followDefs n a s = Inr (b, s)"
proof (induction rule: converse_rtranclp_induct)
  case base
  then have "followDefs (Suc 0) b s = Inr (b, s)"
    by (auto simp: at_end_def run_simps)
  then show ?case by blast
next
  case (step a c)
  then obtain n where "followDefs n c s = Inr (b, s)" by blast
  with step.hyps(1) have "followDefs (Suc n) a s = Inr (b, s)"
    by (auto simp: points_to_def run_simps)
  then show ?case by blast
qed

lemma points_to_end: "points_to s a b \<Longrightarrow> \<not> at_end s a"
  by (auto simp: points_to_def at_end_def)

lemma points_to_fun: "points_to s a b \<Longrightarrow> points_to s a c \<Longrightarrow> b = c"
  by (simp add: points_to_def)

lemma followDefs_at_end: "at_end s a \<Longrightarrow> followDefs (Suc n) a s = Inr (a, s)"
  by (auto simp: at_end_def run_simps)

lemma followDefs_step: "points_to s a b \<Longrightarrow> followDefs (Suc n) a s = followDefs n b s"
  by (auto simp: points_to_def run_simps)

end
