(* ===== verification/LFSC_Expr.thy ===== *)
theory LFSC_Expr
  imports LFSC_Heap
begin

unbundle bit_operations_syntax

text \<open>
  The operations of \<open>src/src/expr.cpp\<close> on the expression graph: building and taking apart
  applications, cloning, weak head reduction, the occurs check \<open>free_in\<close>, and the marks of symbols.

  A call of one operation from another passes the remaining fuel on; every operation is monotone in it
  (collection \<open>fuel_mono\<close>).
\<close>

section \<open>Predefined expressions\<close>

definition statType :: addr where "statType = 0"
definition statKind :: addr where "statKind = 1"
definition statMpz :: addr where "statMpz = 2"
definition statMpq :: addr where "statMpq = 3"

section \<open>Applications\<close>

definition build_app :: "addr \<Rightarrow> addr list \<Rightarrow> nat \<Rightarrow> (st, addr) M" where
  "build_app hd1 args start =
     (if length args \<le> start then ret hd1
      else new_expr (CExpr APP (hd1 # drop start args)))"

definition make_app :: "addr \<Rightarrow> addr \<Rightarrow> (st, addr) M" where
  "make_app e1 e2 =
     bnd (getclass e1) (\<lambda>c.
       if c = CEXPR then
         bnd (getkids e1) (\<lambda>ks.
         sq (iter_M inc ks)
           (new_expr (CExpr APP (ks @ [e2]))))
       else new_expr (CExpr APP [e1, e2]))"

definition collect_args :: "nat \<Rightarrow> addr \<Rightarrow> bool \<Rightarrow> (st, addr \<times> addr list) M" where
  "collect_args f this follow_defs =
     bnd (getop this) (\<lambda>opr.
     bnd (if opr = APP then
            bnd (getkids this) (\<lambda>ks.
            bnd (deref (nth_opt ks 0)) (\<lambda>h. ret (h, tl ks)))
          else ret (this, [])) (\<lambda>(e, args).
     if follow_defs then bnd (followDefs f e) (\<lambda>h. ret (h, args))
     else ret (e, args)))"

primrec get_head :: "nat \<Rightarrow> bool \<Rightarrow> addr \<Rightarrow> (st, addr) M" where
  "get_head 0 follow_defs e = stop OutOfFuel"
| "get_head (Suc n) follow_defs e =
     bnd (getop e) (\<lambda>opr.
       if opr = APP then
         bnd (getkid e 0) (\<lambda>k.
         bnd (if follow_defs then followDefs n k else ret k) (\<lambda>k'.
         get_head n follow_defs k'))
       else ret e)"

primrec get_body :: "nat \<Rightarrow> op \<Rightarrow> bool \<Rightarrow> addr \<Rightarrow> (st, addr) M" where
  "get_body 0 opr follow_defs e = stop OutOfFuel"
| "get_body (Suc n) opr follow_defs e =
     bnd (getop e) (\<lambda>o1.
       if o1 = opr then
         bnd (getkid e 2) (\<lambda>k.
         bnd (if follow_defs then followDefs n k else ret k) (\<lambda>k'.
         get_body n opr follow_defs k'))
       else ret e)"

section \<open>Cloning\<close>

text \<open>\<open>new SymSExpr( *var, SYMS_EXPR)\<close>: a new symbol with the same name.\<close>

definition copy_sym :: "addr \<Rightarrow> (st, addr) M" where
  "copy_sym v = bnd (getnode v) (\<lambda>nd. case nd of SymSExpr x \<Rightarrow> new_expr (SymSExpr x) | _ \<Rightarrow> stop Undefined)"

text \<open>The cases of \<open>clone\<close>; \<open>rec\<close> is the recursive call.\<close>

definition clone_lam :: "(addr \<Rightarrow> (st, addr) M) \<Rightarrow> addr \<Rightarrow> (st, addr) M" where
  "clone_lam rec e =
     bnd (getkid e 0) (\<lambda>var.
     bnd (copy_sym var) (\<lambda>newvar.
     bnd (getval var) (\<lambda>prev.
     sq (setval var (Some newvar)) (
     bnd (getkid e 1) (\<lambda>k1.
     bnd (rec k1) (\<lambda>bod.
     sq (setval var prev) (
     bnd (new_expr (CExpr LAM [newvar, bod])) (\<lambda>r.
     bnd (getflag e) (\<lambda>cl.
     sq (if cl then setflag r True else ret ())
       (ret r))))))))))"

definition clone_pi :: "(addr \<Rightarrow> (st, addr) M) \<Rightarrow> addr \<Rightarrow> (st, addr) M" where
  "clone_pi rec e =
     bnd (getkid e 0) (\<lambda>var.
     bnd (copy_sym var) (\<lambda>newvar.
     bnd (getkid e 1) (\<lambda>k1.
     bnd (rec k1) (\<lambda>tp.
     bnd (getval var) (\<lambda>prev.
     sq (setval var (Some newvar)) (
     bnd (getkid e 2) (\<lambda>k2.
     bnd (rec k2) (\<lambda>bod.
     sq (setval var prev) (
     bnd (new_expr (CExpr PI [newvar, tp, bod])) (\<lambda>r.
     bnd (getflag e) (\<lambda>fl.
     sq (if fl then setflag r True else ret ())
       (ret r))))))))))))"

definition clone_default :: "(addr \<Rightarrow> (st, addr) M) \<Rightarrow> addr \<Rightarrow> (st, addr) M" where
  "clone_default rec e =
     bnd (getop e) (\<lambda>opr.
     bnd (getkids e) (\<lambda>ks.
     bnd (map_M rec ks) (\<lambda>cs.
     if cs \<noteq> ks then new_expr (CExpr opr cs)
     else sq (iter_M dec cs) (sq (inc e) (ret e)))))"

primrec clone :: "nat \<Rightarrow> addr \<Rightarrow> (st, addr) M" where
  "clone 0 e = stop OutOfFuel"
| "clone (Suc n) e =
     bnd (getnode e) (\<lambda>nd. case nd of
       IntExpr i \<Rightarrow> sq (inc e) (ret e)
     | RatExpr q \<Rightarrow> sq (inc e) (ret e)
     | HoleExpr \<Rightarrow>
         bnd (getval e) (\<lambda>v. case v of
           Some w \<Rightarrow> clone n w
         | None \<Rightarrow> sq (inc e) (ret e))
     | CExpr opr ks \<Rightarrow>
         if opr = LAM then clone_lam (clone n) e
         else if opr = PI then clone_pi (clone n) e
         else clone_default (clone n) e
     | _ \<Rightarrow>
         bnd (getval e) (\<lambda>v. case v of
           Some w \<Rightarrow> bnd (getop w) (\<lambda>wo.
             if wo \<noteq> PROG then clone n w else sq (inc e) (ret e))
         | None \<Rightarrow> sq (inc e) (ret e)))"

section \<open>Weak head reduction\<close>

text \<open>The do-while loop of \<open>whr\<close>: bind the variables of the abstraction to the arguments.\<close>

primrec whr_bind :: "nat \<Rightarrow> addr list \<Rightarrow> addr \<Rightarrow> (st, addr \<times> addr list) M" where
  "whr_bind f [] head = stop Undefined"
| "whr_bind f (x # xs) head =
     bnd (followDefs f x) (\<lambda>tmp.
     bnd (getkid head 0) (\<lambda>var.
     sq (setval var (Some tmp)) (
     sq (inc tmp) (
     bnd (getkid head 1) (\<lambda>body.
     bnd (getop body) (\<lambda>opr.
     if opr = LAM \<and> xs \<noteq> [] then whr_bind f xs body
     else ret (body, xs)))))))"

definition whr :: "nat \<Rightarrow> addr \<Rightarrow> (st, addr) M" where
  "whr f this =
     bnd (get_head f True this) (\<lambda>h.
     bnd (getop h) (\<lambda>ho.
     if ho = LAM then
       bnd (collect_args f this True) (\<lambda>(head, args).
       bnd (getflag head) (\<lambda>cl.
       bnd (if cl then bnd (clone f head) (\<lambda>c. ret (c, Some c))
            else sq (setflag head True) (ret (head, None))) (\<lambda>(head, cloned_head).
       bnd (whr_bind f args head) (\<lambda>(head, rest).
       sq (iter_M inc rest) (
       sq (inc head) (
       sq (case cloned_head of Some c \<Rightarrow> dec c | None \<Rightarrow> ret ())
         (build_app head rest 0)))))))
     else ret this))"

section \<open>Flat and tree applications\<close>

primrec convert_to_tree_app :: "nat \<Rightarrow> addr \<Rightarrow> (st, addr) M" where
  "convert_to_tree_app 0 e = stop OutOfFuel"
| "convert_to_tree_app (Suc n) e =
     bnd (getop e) (\<lambda>opr.
       if opr = APP then
         bnd (getkids e) (\<lambda>ks.
         bnd (map_M (convert_to_tree_app n) (tl ks)) (\<lambda>kds.
         bnd (get_head n True e) (\<lambda>h.
         build_app h kds 0)))
       else ret e)"

primrec convert_to_flat_app :: "nat \<Rightarrow> addr \<Rightarrow> (st, addr) M" where
  "convert_to_flat_app 0 e = stop OutOfFuel"
| "convert_to_flat_app (Suc n) e =
     bnd (getop e) (\<lambda>opr.
       if opr = APP then
         bnd (collect_args n e True) (\<lambda>(hd1, args).
         bnd (map_M (convert_to_flat_app n) args) (\<lambda>as.
         bnd (new_expr (CExpr APP (hd1 # as))) (\<lambda>nce.
         sq (inc nce) (ret nce))))
       else ret e)"

section \<open>Occurrence of a symbol or hole\<close>

text \<open>The loop over the kids; \<open>visited\<close> is passed by reference in the code.\<close>

primrec free_in_kids :: "(addr list \<Rightarrow> addr \<Rightarrow> (st, bool \<times> addr list) M) \<Rightarrow> addr list \<Rightarrow> addr list
    \<Rightarrow> (st, bool \<times> addr list) M" where
  "free_in_kids rec [] visited = ret (False, visited)"
| "free_in_kids rec (k # ks) visited =
     bnd (rec visited k) (\<lambda>(b, visited').
       if b then ret (True, visited') else free_in_kids rec ks visited')"

primrec free_in_rec :: "nat \<Rightarrow> addr \<Rightarrow> addr list \<Rightarrow> addr \<Rightarrow> (st, bool \<times> addr list) M" where
  "free_in_rec 0 x visited this = stop OutOfFuel"
| "free_in_rec (Suc n) x visited this =
     (if this \<in> set visited then ret (False, visited)
      else bnd (getnode this) (\<lambda>nd. case nd of
        HoleExpr \<Rightarrow>
          bnd (getval this) (\<lambda>v. case v of
            Some w \<Rightarrow> free_in_rec n x visited w
          | None \<Rightarrow> ret (this = x, visited))
      | IntExpr i \<Rightarrow> ret (False, visited)
      | RatExpr q \<Rightarrow> ret (False, visited)
      | CExpr opr ks \<Rightarrow>
          if (opr = LAM \<or> opr = PI) \<and> nth_opt ks 0 = Some x then ret (False, visited)
          else free_in_kids (free_in_rec n x) ks (this # visited)
      | _ \<Rightarrow>
          bnd (getval this) (\<lambda>v. case v of
            Some w \<Rightarrow>
              bnd (getclass w) (\<lambda>c.
                if c = HOLE_EXPR then free_in_rec n x visited w
                else ret (this = x, visited))
          | None \<Rightarrow> ret (this = x, visited))))"

definition free_in :: "nat \<Rightarrow> addr \<Rightarrow> addr \<Rightarrow> (st, bool) M" where
  "free_in f this x = bnd (free_in_rec f x [] this) (\<lambda>(b, visited). ret b)"

definition calc_free_in :: "nat \<Rightarrow> addr \<Rightarrow> (st, unit) M" where
  "calc_free_in f this =
     sq (setflag this False) (
     bnd (getkid this 2) (\<lambda>body.
     bnd (getkid this 0) (\<lambda>var.
     bnd (free_in f body var) (\<lambda>b.
     if b then setflag this True else ret ()))))"

section \<open>Types, classes and marks\<close>

primrec isType :: "nat \<Rightarrow> addr \<Rightarrow> (st, bool) M" where
  "isType 0 typ = stop OutOfFuel"
| "isType (Suc n) typ =
     (if typ = statType then ret True
      else bnd (getop typ) (\<lambda>opr.
        if opr = PI then bnd (getkid typ 2) (isType n) else ret False))"

definition isDatatype :: "addr \<Rightarrow> (st, bool) M" where
  "isDatatype e = bnd (getnode e) (\<lambda>nd.
     ret (class_of nd = SYMS_EXPR \<or> op_of nd = MPZ \<or> op_of nd = MPQ))"

definition isSymbolic :: "addr \<Rightarrow> (st, bool) M" where
  "isSymbolic e = bnd (getclass e) (\<lambda>c. ret (c = SYM_EXPR \<or> c = SYMS_EXPR))"

definition getmark :: "addr \<Rightarrow> nat \<Rightarrow> (st, bool) M" where
  "getmark a i = (if i < 32 then gets (\<lambda>s. bit (mark_map s a) i) else stop Undefined)"

definition setmark :: "addr \<Rightarrow> nat \<Rightarrow> (st, unit) M" where
  "setmark a i = (if i < 32
     then modify (\<lambda>s. s\<lparr>mark_map := (mark_map s)(a := mark_map s a OR push_bit i 1)\<rparr>)
     else stop Undefined)"

definition clearmark :: "addr \<Rightarrow> nat \<Rightarrow> (st, unit) M" where
  "clearmark a i = (if i < 32
     then modify (\<lambda>s. s\<lparr>mark_map := (mark_map s)(a := mark_map s a AND NOT (push_bit i 1))\<rparr>)
     else stop Undefined)"

section \<open>Fuel\<close>

lemma collect_args_fuel [fuel_mono]: "fuel_le (collect_args n e b) (collect_args (Suc n) e b)"
  unfolding collect_args_def by (intro fuel_mono)

lemma get_head_fuel [fuel_mono]: "fuel_le (get_head n b e) (get_head (Suc n) b e)"
proof (induction n arbitrary: e)
  case (Suc n)
  show ?case
    unfolding get_head.simps(2) [of "Suc n" b e] get_head.simps(2) [of n b e] by (intro fuel_mono Suc.IH)
qed simp

lemma get_body_fuel [fuel_mono]: "fuel_le (get_body n opr b e) (get_body (Suc n) opr b e)"
proof (induction n arbitrary: e)
  case (Suc n)
  show ?case
    unfolding get_body.simps(2) [of "Suc n" opr b e] get_body.simps(2) [of n opr b e] by (intro fuel_mono Suc.IH)
qed simp

lemma clone_parts_fuel [fuel_mono]:
  assumes "\<And>a. fuel_le (r a) (r' a)"
  shows "fuel_le (clone_lam r e) (clone_lam r' e)" "fuel_le (clone_pi r e) (clone_pi r' e)"
    "fuel_le (clone_default r e) (clone_default r' e)"
  unfolding clone_lam_def clone_pi_def clone_default_def by (intro fuel_mono assms)+

lemma clone_fuel [fuel_mono]: "fuel_le (clone n e) (clone (Suc n) e)"
proof (induction n arbitrary: e)
  case (Suc n)
  show ?case
    unfolding clone.simps(2) [of "Suc n" e] clone.simps(2) [of n e] by (intro fuel_mono Suc.IH)
qed simp

lemma whr_bind_fuel [fuel_mono]: "fuel_le (whr_bind n xs h) (whr_bind (Suc n) xs h)"
  by (induction xs arbitrary: h) (auto intro!: fuel_mono simp del: followDefs.simps)

lemma whr_fuel [fuel_mono]: "fuel_le (whr n e) (whr (Suc n) e)"
  unfolding whr_def by (intro fuel_mono)

lemma free_in_kids_fuel [fuel_mono]:
  "(\<And>v a. fuel_le (r v a) (r' v a)) \<Longrightarrow> fuel_le (free_in_kids r ks v) (free_in_kids r' ks v)"
  by (induction ks arbitrary: v) (auto intro!: fuel_mono)

lemma free_in_rec_fuel [fuel_mono]: "fuel_le (free_in_rec n x v e) (free_in_rec (Suc n) x v e)"
proof (induction n arbitrary: v e)
  case (Suc n)
  show ?case
    unfolding free_in_rec.simps(2) [of "Suc n" x v e] free_in_rec.simps(2) [of n x v e] by (intro fuel_mono Suc.IH)
qed simp

lemma free_in_fuel [fuel_mono]: "fuel_le (free_in n e x) (free_in (Suc n) e x)"
  unfolding free_in_def by (intro fuel_mono)

lemma calc_free_in_fuel [fuel_mono]: "fuel_le (calc_free_in n e) (calc_free_in (Suc n) e)"
  unfolding calc_free_in_def by (intro fuel_mono)

lemma isType_fuel [fuel_mono]: "fuel_le (isType n e) (isType (Suc n) e)"
proof (induction n arbitrary: e)
  case (Suc n)
  show ?case
    unfolding isType.simps(2) [of "Suc n" e] isType.simps(2) [of n e] by (intro fuel_mono Suc.IH)
qed simp

end
