(* ===== verification/LFSC_Defeq.thy ===== *)
theory LFSC_Defeq
  imports LFSC_Expr
begin

text \<open>
  Definitional equality, \<open>Expr::defeq\<close> of \<open>src/src/expr.cpp\<close>: it reduces applications, fills holes and
  shares equal kids as it goes.

  Each stage is a definition over the recursive call \<open>rec\<close>.  The first two stages return \<open>Some b\<close> where
  the code returns \<open>b\<close> and \<open>None\<close> where it falls through to the next stage.
\<close>

section \<open>The code\<close>

text \<open>Filling a hole applied to variables: the loop that builds the abstraction.  \<open>None\<close> is the early
  \<open>return false\<close>, which leaves the marks set so far.\<close>

primrec fill_args :: "addr list \<Rightarrow> addr \<Rightarrow> (st, addr option) M" where
  "fill_args [] t = ret (Some t)"
| "fill_args (a # as) t =
     bnd (getclass a) (\<lambda>c.
     bnd (getflag a) (\<lambda>exmark.
     if c \<noteq> SYM_EXPR \<or> exmark then ret None
     else
       bnd (getval a) (\<lambda>v.
       bnd (ret (case v of Some w \<Rightarrow> w | None \<Rightarrow> a)) (\<lambda>tmp.
       sq (inc tmp) (
       bnd (new_expr (CExpr LAM [tmp, t])) (\<lambda>t'.
       sq (setflag a True) (fill_args as t')))))))"

definition defeq_fill_app :: "nat \<Rightarrow> addr \<Rightarrow> addr \<Rightarrow> (st, bool) M" where
  "defeq_fill_app f this e =
     bnd (collect_args f this True) (\<lambda>(head, args).
     sq (inc e) (
     bnd (fill_args args e) (\<lambda>t. case t of
       None \<Rightarrow> ret False
     | Some t' \<Rightarrow>
         sq (iter_M (\<lambda>a. setflag a False) args) (
         sq (setval head (Some t')) (ret True)))))"

text \<open>The special cases of \<open>this\<close>.\<close>

definition defeq_left :: "(addr \<Rightarrow> addr \<Rightarrow> (st, bool) M) \<Rightarrow> nat \<Rightarrow> addr \<Rightarrow> addr \<Rightarrow> (st, bool option) M" where
  "defeq_left rec f this e =
     bnd (getnode this) (\<lambda>nd.
     if op_of nd = ASCRIBE then
       bnd (getkid this 0) (\<lambda>k. bnd (rec k e) (\<lambda>b. ret (Some b)))
     else if op_of nd = APP then
       bnd (whr f this) (\<lambda>tmp.
       if tmp \<noteq> this then bnd (rec tmp e) (\<lambda>b. sq (dec tmp) (ret (Some b)))
       else
         bnd (get_head f True this) (\<lambda>h.
         bnd (getclass h) (\<lambda>c.
         if c = HOLE_EXPR then bnd (defeq_fill_app f this e) (\<lambda>b. ret (Some b))
         else ret None)))
     else if class_of nd = HOLE_EXPR then
       bnd (getval this) (\<lambda>v. case v of
         Some w \<Rightarrow> bnd (rec w e) (\<lambda>b. ret (Some b))
       | None \<Rightarrow>
           bnd (followDefs f e) (\<lambda>tmp.
           sq (setval this (Some tmp)) (
           sq (inc tmp) (ret (Some True)))))
     else if class_of nd = SYMS_EXPR \<or> class_of nd = SYM_EXPR then
       bnd (getval this) (\<lambda>v. case v of
         Some w \<Rightarrow> bnd (rec w e) (\<lambda>b. ret (Some b))
       | None \<Rightarrow> ret None)
     else ret None)"

text \<open>The special cases of \<open>e\<close>.\<close>

definition defeq_right :: "(addr \<Rightarrow> addr \<Rightarrow> (st, bool) M) \<Rightarrow> nat \<Rightarrow> addr \<Rightarrow> addr \<Rightarrow> (st, bool option) M" where
  "defeq_right rec f this e =
     bnd (getnode e) (\<lambda>nd.
     if op_of nd = ASCRIBE then
       bnd (getkid e 0) (\<lambda>k. bnd (rec this k) (\<lambda>b. ret (Some b)))
     else if op_of nd = APP then
       bnd (whr f e) (\<lambda>tmp.
       if tmp \<noteq> e then bnd (rec this tmp) (\<lambda>b. sq (dec tmp) (ret (Some b)))
       else ret None)
     else if class_of nd = HOLE_EXPR then
       bnd (getval e) (\<lambda>v. case v of
         Some w \<Rightarrow> bnd (rec this w) (\<lambda>b. ret (Some b))
       | None \<Rightarrow>
           bnd (followDefs f this) (\<lambda>tmp.
           sq (setval e (Some tmp)) (
           sq (inc tmp) (ret (Some True)))))
     else if class_of nd = SYMS_EXPR \<or> class_of nd = SYM_EXPR then
       bnd (getval e) (\<lambda>v. case v of
         Some w \<Rightarrow> bnd (rec this w) (\<lambda>b. ret (Some b))
       | None \<Rightarrow> ret None)
     else ret None)"

text \<open>Two abstractions: the bound variable of the first points to the one of the second while the
  bodies are compared.\<close>

definition defeq_binder :: "(addr \<Rightarrow> addr \<Rightarrow> (st, bool) M) \<Rightarrow> nat \<Rightarrow> nat \<Rightarrow> addr \<Rightarrow> addr \<Rightarrow> (st, bool) M" where
  "defeq_binder rec f last1 e1 e2 =
     bnd (getkid e1 0) (\<lambda>v1.
     bnd (getval v1) (\<lambda>prev_v1_val.
     bnd (getkid e2 0) (\<lambda>v2.
     bnd (followDefs f v2) (\<lambda>w2.
     sq (setval v1 (Some w2)) (
     bnd (getkid e1 last1) (\<lambda>b1.
     bnd (getkid e2 last1) (\<lambda>b2.
     bnd (rec b1 b2) (\<lambda>bodies_equal.
     sq (setval v1 prev_v1_val) (ret bodies_equal)))))))))"

text \<open>Two kids found equal: one pointer replaces the other.\<close>

definition share_kid :: "addr \<Rightarrow> addr \<Rightarrow> nat \<Rightarrow> (st, unit) M" where
  "share_kid e1 e2 i =
     bnd (getkid e1 i) (\<lambda>k1.
     bnd (getkid e2 i) (\<lambda>k2.
     bnd (isSymbolic k2) (\<lambda>sym2.
     bnd (isSymbolic k1) (\<lambda>sym1.
     bnd (gets (\<lambda>s. refs s k1 < refs s k2)) (\<lambda>fewer.
     if sym2 \<or> (\<not> sym1 \<and> fewer) then
       sq (dec k1) (sq (inc k2) (setkid e1 i k2))
     else
       sq (dec k2) (sq (inc k1) (setkid e2 i k1)))))))"

text \<open>The loop over the kids of two applications; the index list is \<open>counter\<close> counting up.\<close>

primrec defeq_kids :: "(addr \<Rightarrow> addr \<Rightarrow> (st, bool) M) \<Rightarrow> addr \<Rightarrow> addr \<Rightarrow> nat list \<Rightarrow> (st, bool) M" where
  "defeq_kids rec e1 e2 [] =
     bnd (getkids e1) (\<lambda>ks1. bnd (getkids e2) (\<lambda>ks2. ret (length ks2 = length ks1)))"
| "defeq_kids rec e1 e2 (i # is) =
     bnd (getkid e1 i) (\<lambda>k1.
     bnd (getkids e2) (\<lambda>ks2.
     if Some k1 \<noteq> nth_opt ks2 i then
       (case nth_opt ks2 i of
          None \<Rightarrow> ret False
        | Some k2 \<Rightarrow>
            bnd (rec k1 k2) (\<lambda>b.
            if \<not> b then ret False
            else sq (share_kid e1 e2 i) (defeq_kids rec e1 e2 is)))
     else defeq_kids rec e1 e2 is))"

text \<open>Neither side is special: the operators and classes decide.\<close>

definition defeq_same :: "(addr \<Rightarrow> addr \<Rightarrow> (st, bool) M) \<Rightarrow> nat \<Rightarrow> addr \<Rightarrow> addr \<Rightarrow> (st, bool) M" where
  "defeq_same rec f this e =
     bnd (getnode this) (\<lambda>nd1.
     bnd (getnode e) (\<lambda>nd2.
     if op_of nd1 \<noteq> op_of nd2 then ret False
     else case nd1 of
       IntExpr i1 \<Rightarrow> (case nd2 of IntExpr i2 \<Rightarrow> ret (i1 = i2) | _ \<Rightarrow> stop Undefined)
     | RatExpr r1 \<Rightarrow> (case nd2 of RatExpr r2 \<Rightarrow> ret (r1 = r2) | _ \<Rightarrow> stop Undefined)
     | SymSExpr x \<Rightarrow> ret (this = e)
     | SymExpr \<Rightarrow> ret (this = e)
     | HoleExpr \<Rightarrow> stop Aborted
     | CExpr op1 ks1 \<Rightarrow>
         if op1 = PI then
           bnd (getkid this 1) (\<lambda>t1.
           bnd (getkid e 1) (\<lambda>t2.
           bnd (rec t1 t2) (\<lambda>b. if \<not> b then ret False else defeq_binder rec f 2 this e)))
         else if op1 = LAM then defeq_binder rec f 1 this e
         else if op1 = APP then defeq_kids rec this e [0..<length ks1]
         else if op1 = TYPE_E \<or> op1 = KIND \<or> op1 = MPZ then ret True
         else stop Aborted))"

primrec defeq :: "nat \<Rightarrow> addr \<Rightarrow> addr \<Rightarrow> (st, bool) M" where
  "defeq 0 this e = stop OutOfFuel"
| "defeq (Suc n) this e =
     (if this = e then ret True
      else
        bnd (defeq_left (defeq n) n this e) (\<lambda>r1. case r1 of
          Some b \<Rightarrow> ret b
        | None \<Rightarrow>
            bnd (defeq_right (defeq n) n this e) (\<lambda>r2. case r2 of
              Some b \<Rightarrow> ret b
            | None \<Rightarrow> defeq_same (defeq n) n this e)))"

section \<open>Fuel\<close>

lemma defeq_fill_app_fuel [fuel_mono]: "fuel_le (defeq_fill_app n a e) (defeq_fill_app (Suc n) a e)"
  unfolding defeq_fill_app_def by (intro fuel_mono)

lemma defeq_parts_fuel [fuel_mono]:
  assumes r: "\<And>a b. fuel_le (r a b) (r' a b)"
  shows "fuel_le (defeq_left r n a e) (defeq_left r' (Suc n) a e)"
    "fuel_le (defeq_right r n a e) (defeq_right r' (Suc n) a e)"
    "fuel_le (defeq_binder r n i a e) (defeq_binder r' (Suc n) i a e)"
    "fuel_le (defeq_kids r a e is) (defeq_kids r' a e is)"
proof -
  show "fuel_le (defeq_left r n a e) (defeq_left r' (Suc n) a e)"
    unfolding defeq_left_def by (intro fuel_mono r)
  show "fuel_le (defeq_right r n a e) (defeq_right r' (Suc n) a e)"
    unfolding defeq_right_def by (intro fuel_mono r)
  show "fuel_le (defeq_binder r n i a e) (defeq_binder r' (Suc n) i a e)"
    unfolding defeq_binder_def by (intro fuel_mono r)
  show "fuel_le (defeq_kids r a e is) (defeq_kids r' a e is)"
    by (induction "is") (auto intro!: fuel_mono r)
qed

lemma defeq_same_fuel [fuel_mono]:
  assumes r: "\<And>a b. fuel_le (r a b) (r' a b)"
  shows "fuel_le (defeq_same r n a e) (defeq_same r' (Suc n) a e)"
  unfolding defeq_same_def
  apply (rule fuel_le_bnd fuel_le_refl)+
  apply (rule fuel_le_if, rule fuel_le_refl)
  apply (rule fuel_le_node)
       apply (rule fuel_le_if)
        apply (rule fuel_le_bnd fuel_le_refl fuel_le_if r)+
        apply (rule defeq_parts_fuel, rule r)
       apply (rule fuel_le_if, rule defeq_parts_fuel, rule r)
       apply (rule fuel_le_if, rule defeq_parts_fuel, rule r)
       apply (rule fuel_le_refl)+
  done

lemma defeq_fuel [fuel_mono]: "fuel_le (defeq n a e) (defeq (Suc n) a e)"
proof (induction n arbitrary: a e)
  case (Suc n)
  show ?case
    unfolding defeq.simps(2) [of "Suc n" a e] defeq.simps(2) [of n a e]
    by (intro fuel_le_if fuel_le_refl fuel_le_bnd fuel_le_option defeq_parts_fuel(1,2)
        defeq_same_fuel Suc.IH)
qed simp

lemma defeq_more: "defeq n a e s = Inr r \<Longrightarrow> n \<le> m \<Longrightarrow> defeq m a e s = Inr r"
  by (rule fuel_more [of "\<lambda>n. defeq n a e"]) (rule defeq_fuel)

end
