(* ===== verification/LFSC_Run.thy ===== *)
theory LFSC_Run
  imports LFSC_Defeq
begin

text \<open>
  The evaluator of side condition code: \<open>run_code_internal\<close> and \<open>run_code\<close> of \<open>src/src/code.cpp\<close>.

  A result is a pointer that may be null (\<open>None\<close>): null is how a side condition fails.  There is one
  definition per \<open>case\<close> of the switch, over the recursive call \<open>rec\<close>; \<open>goto start_run_code\<close> is a call in
  tail position.  The cache of function results is the field \<open>cache\<close> of the state.  Debug output
  (\<open>dbg_prog\<close>) and the messages on the standard output are not part of the model.
\<close>

section \<open>The code\<close>

text \<open>\<open>if (!r) return NULL;\<close>\<close>

definition or_null :: "(st, addr option) M \<Rightarrow> (addr \<Rightarrow> (st, addr option) M) \<Rightarrow> (st, addr option) M" where
  "or_null m k = bnd m (\<lambda>r. case r of None \<Rightarrow> ret None | Some x \<Rightarrow> k x)"

definition run_atom :: "nat \<Rightarrow> addr \<Rightarrow> (st, addr option) M" where
  "run_atom f e =
     bnd (getclass e) (\<lambda>c.
     if c = INT_EXPR \<or> c = RAT_EXPR then sq (inc e) (ret (Some e))
     else
       bnd (followDefs f e) (\<lambda>tmp.
       if c = HOLE_EXPR \<and> tmp = e then stop (ReportError ''Encountered an unfilled hole running code.'')
       else sq (inc tmp) (ret (Some tmp))))"

definition run_do :: "(addr \<Rightarrow> (st, addr option) M) \<Rightarrow> addr \<Rightarrow> (st, addr option) M" where
  "run_do rec e =
     or_null (bnd (getkid e 0) rec) (\<lambda>tmp.
     sq (dec tmp) (bnd (getkid e 1) rec))"

definition run_let :: "(addr \<Rightarrow> (st, addr option) M) \<Rightarrow> addr \<Rightarrow> (st, addr option) M" where
  "run_let rec e =
     or_null (bnd (getkid e 1) rec) (\<lambda>r0.
     bnd (getkid e 0) (\<lambda>var.
     bnd (getval var) (\<lambda>prev.
     sq (setval var (Some r0)) (
     bnd (bnd (getkid e 2) rec) (\<lambda>r1.
     sq (setval var prev) (
     sq (dec r0) (ret r1)))))))"

text \<open>\<open>mpz_add\<close>, \<open>mpz_mul\<close>, \<open>mpz_fdiv_q\<close> and their rational counterparts; null on a zero divisor.\<close>

definition arith_int :: "op \<Rightarrow> int \<Rightarrow> int \<Rightarrow> int option" where
  "arith_int opr i j =
     (if opr = ADD then Some (i + j)
      else if opr = MUL then Some (i * j)
      else if j = 0 then None
      else Some (i div j))"

definition arith_rat :: "op \<Rightarrow> rat \<Rightarrow> rat \<Rightarrow> rat option" where
  "arith_rat opr i j =
     (if opr = ADD then Some (i + j)
      else if opr = MUL then Some (i * j)
      else if j = 0 then None
      else Some (i / j))"

definition run_arith :: "(addr \<Rightarrow> (st, addr option) M) \<Rightarrow> op \<Rightarrow> addr \<Rightarrow> (st, addr option) M" where
  "run_arith rec opr e =
     or_null (bnd (getkid e 0) rec) (\<lambda>r1.
     or_null (bnd (getkid e 1) rec) (\<lambda>r2.
     bnd (getnode r1) (\<lambda>nd1.
     bnd (getnode r2) (\<lambda>nd2.
     sq (dec r1) (
     sq (dec r2) (
     case nd1 of
       IntExpr i \<Rightarrow>
         (case nd2 of
            IntExpr j \<Rightarrow>
              (case arith_int opr i j of
                 None \<Rightarrow> ret None
               | Some v \<Rightarrow> bnd (new_expr (IntExpr v)) (\<lambda>r. ret (Some r)))
          | _ \<Rightarrow> ret None)
     | RatExpr p \<Rightarrow>
         (case nd2 of
            RatExpr q \<Rightarrow>
              (case arith_rat opr p q of
                 None \<Rightarrow> ret None
               | Some v \<Rightarrow> bnd (new_expr (RatExpr v)) (\<lambda>r. ret (Some r)))
          | _ \<Rightarrow> ret None)
     | _ \<Rightarrow> ret None))))))"

definition run_neg :: "(addr \<Rightarrow> (st, addr option) M) \<Rightarrow> addr \<Rightarrow> (st, addr option) M" where
  "run_neg rec e =
     or_null (bnd (getkid e 0) rec) (\<lambda>r1.
     bnd (getnode r1) (\<lambda>nd. case nd of
       IntExpr i \<Rightarrow> sq (dec r1) (bnd (new_expr (IntExpr (- i))) (\<lambda>r. ret (Some r)))
     | RatExpr q \<Rightarrow> sq (dec r1) (bnd (new_expr (RatExpr (- q))) (\<lambda>r. ret (Some r)))
     | _ \<Rightarrow> bnd (getval r1) (\<lambda>v. sq (dec r1) (ret None))))"

definition run_mpz_to_mpq :: "(addr \<Rightarrow> (st, addr option) M) \<Rightarrow> addr \<Rightarrow> (st, addr option) M" where
  "run_mpz_to_mpq rec e =
     or_null (bnd (getkid e 0) rec) (\<lambda>r1.
     bnd (getnode r1) (\<lambda>nd. case nd of
       IntExpr i \<Rightarrow> bnd (new_expr (RatExpr (of_int i))) (\<lambda>r. ret (Some r))
     | _ \<Rightarrow> stop Undefined))"

definition run_if :: "(addr \<Rightarrow> (st, addr option) M) \<Rightarrow> op \<Rightarrow> addr \<Rightarrow> (st, addr option) M" where
  "run_if rec opr e =
     or_null (bnd (getkid e 0) rec) (\<lambda>r1.
     bnd (getnode r1) (\<lambda>nd.
     sq (dec r1) (case nd of
       IntExpr i \<Rightarrow>
         if (if opr = IFNEG then i < 0 else i = 0) then bnd (getkid e 1) rec else bnd (getkid e 2) rec
     | RatExpr q \<Rightarrow>
         if (if opr = IFNEG then q < 0 else q = 0) then bnd (getkid e 1) rec else bnd (getkid e 2) rec
     | _ \<Rightarrow> ret None)))"

text \<open>\<open>((IntExpr* )e->kids[0])->get_num()\<close> passed as an \<open>int\<close>: the low 32 bits of the magnitude.\<close>

definition mark_index :: "addr \<Rightarrow> (st, nat) M" where
  "mark_index e =
     bnd (getkid e 0) (\<lambda>k. bnd (getnode k) (\<lambda>nd. case nd of
       IntExpr i \<Rightarrow> ret (nat (\<bar>i\<bar> mod 2 ^ 32)) | _ \<Rightarrow> stop Undefined))"

definition run_ifmarked :: "(addr \<Rightarrow> (st, addr option) M) \<Rightarrow> bool \<Rightarrow> addr \<Rightarrow> (st, addr option) M" where
  "run_ifmarked rec useCache e =
     (if useCache then ret None
      else
        or_null (bnd (getkid e 1) rec) (\<lambda>r1.
        bnd (isSymbolic r1) (\<lambda>sym.
        if \<not> sym then sq (dec r1) (ret None)
        else
          bnd (mark_index e) (\<lambda>i.
          bnd (getmark r1 i) (\<lambda>m.
          sq (dec r1) (
          if m then bnd (getkid e 2) rec else bnd (getkid e 3) rec))))))"

definition run_compare :: "(addr \<Rightarrow> (st, addr option) M) \<Rightarrow> addr \<Rightarrow> (st, addr option) M" where
  "run_compare rec e =
     or_null (bnd (getkid e 0) rec) (\<lambda>r1.
     bnd (isSymbolic r1) (\<lambda>sym1.
     if \<not> sym1 then sq (dec r1) (ret None)
     else
       or_null (bnd (getkid e 1) rec) (\<lambda>r2.
       bnd (isSymbolic r2) (\<lambda>sym2.
       if \<not> sym2 then sq (dec r2) (ret None)
       else
         bnd (gets (\<lambda>s. maddr s r1 < maddr s r2)) (\<lambda>lt.
         sq (dec r1) (
         sq (dec r2) (
         if lt then bnd (getkid e 2) rec else bnd (getkid e 3) rec)))))))"

definition run_ifequal :: "(addr \<Rightarrow> (st, addr option) M) \<Rightarrow> nat \<Rightarrow> addr \<Rightarrow> (st, addr option) M" where
  "run_ifequal rec f e =
     or_null (bnd (getkid e 0) rec) (\<lambda>r1.
     or_null (bnd (getkid e 1) rec) (\<lambda>r2.
     bnd (defeq f r1 r2) (\<lambda>b.
     sq (dec r1) (
     sq (dec r2) (
     if b then bnd (getkid e 2) rec else bnd (getkid e 3) rec)))))"

definition run_markvar :: "(addr \<Rightarrow> (st, addr option) M) \<Rightarrow> addr \<Rightarrow> (st, addr option) M" where
  "run_markvar rec e =
     or_null (bnd (getkid e 1) rec) (\<lambda>r1.
     bnd (isSymbolic r1) (\<lambda>sym.
     if \<not> sym then sq (dec r1) (ret None)
     else
       bnd (mark_index e) (\<lambda>i.
       bnd (getmark r1 i) (\<lambda>m.
       sq (if m then clearmark r1 i else setmark r1 i) (ret (Some r1))))))"

text \<open>A matching \<open>case\<close>: the pattern variables are bound to the arguments of the scrutinee.  The loop is
  over the arguments; a pattern with fewer variables is read past its end.\<close>

primrec bind_pattern :: "addr list \<Rightarrow> addr list \<Rightarrow> (st, (addr \<times> addr option \<times> addr) list) M" where
  "bind_pattern vars [] = ret []"
| "bind_pattern vars (a # as) =
     bnd (deref (nth_opt vars 0)) (\<lambda>var.
     bnd (getval var) (\<lambda>old.
     sq (setval var (Some a)) (
     sq (inc a) (
     bnd (bind_pattern (tl vars) as) (\<lambda>olds.
     ret ((var, old, a) # olds))))))"

definition unbind_pattern :: "(addr \<times> addr option \<times> addr) list \<Rightarrow> (st, unit) M" where
  "unbind_pattern olds = iter_M (\<lambda>(var, old, a). sq (setval var old) (dec a)) olds"

primrec run_cases :: "(addr \<Rightarrow> (st, addr option) M) \<Rightarrow> nat \<Rightarrow> addr \<Rightarrow> addr \<Rightarrow> addr list \<Rightarrow> addr list
    \<Rightarrow> (st, addr option) M" where
  "run_cases rec f scrut hd1 args [] = ret None"
| "run_cases rec f scrut hd1 args (c # cs) =
     bnd (getop c) (\<lambda>opr.
     if opr \<noteq> CASE then rec c
     else
       bnd (getkid c 0) (\<lambda>p.
       bnd (get_head f True p) (\<lambda>ph.
       if hd1 = ph then
         bnd (collect_args f p True) (\<lambda>(h, vars).
         bnd (bind_pattern vars args) (\<lambda>olds.
         sq (dec scrut) (
         bnd (bnd (getkid c 1) rec) (\<lambda>r.
         sq (unbind_pattern olds) (ret r)))))
       else run_cases rec f scrut hd1 args cs)))"

definition run_match :: "(addr \<Rightarrow> (st, addr option) M) \<Rightarrow> nat \<Rightarrow> addr \<Rightarrow> (st, addr option) M" where
  "run_match rec f e =
     or_null (bnd (getkid e 0) rec) (\<lambda>scrut0.
     bnd (getclass scrut0) (\<lambda>c.
     bnd (if c = CEXPR then
            bnd (whr f scrut0) (\<lambda>tmp.
            if tmp \<noteq> scrut0 then sq (dec scrut0) (ret tmp) else ret scrut0)
          else ret scrut0) (\<lambda>scrut.
     bnd (collect_args f scrut True) (\<lambda>(hd1, args).
     bnd (getkids e) (\<lambda>ks.
     run_cases rec f scrut hd1 args (tl ks))))))"

text \<open>The arguments of an application, left to right; \<open>done\<close> are the results so far.\<close>

primrec run_args :: "(addr \<Rightarrow> (st, addr option) M) \<Rightarrow> addr list \<Rightarrow> addr list \<Rightarrow> (st, addr list option) M" where
  "run_args rec rs [] = ret (Some rs)"
| "run_args rec rs (a # as) =
     bnd (rec a) (\<lambda>r. case r of
       None \<Rightarrow> sq (iter_M dec rs) (ret None)
     | Some x \<Rightarrow> run_args rec (rs @ [x]) as)"

text \<open>Binding the parameters of a program: the values to restore, or \<open>None\<close> when there are too few
  arguments; the parameters bound so far stay bound.\<close>

primrec bind_params :: "addr list \<Rightarrow> addr list \<Rightarrow> (st, (addr \<times> addr option) list option \<times> addr list) M" where
  "bind_params [] args = ret (Some [], args)"
| "bind_params (var # vars) args =
     (case args of
        [] \<Rightarrow> ret (None, [])
      | a # as \<Rightarrow>
          bnd (getval var) (\<lambda>old.
          sq (setval var (Some a)) (
          bnd (bind_params vars as) (\<lambda>(olds, rest).
          ret (map_option ((#) (var, old)) olds, rest)))))"

text \<open>\<open>src/src/scccode.cpp\<close>: the checker is linked with no compiled side conditions.\<close>

definition run_compiled_scc :: "addr \<Rightarrow> addr list \<Rightarrow> (st, addr option) M" where
  "run_compiled_scc p args = ret None"

text \<open>\<open>cache.get(largs)\<close> and the result found there.\<close>

definition cache_get :: "addr list \<Rightarrow> (st, addr option) M" where
  "cache_get largs =
     bnd (gets (\<lambda>s. etrie_get largs (cache s))) (\<lambda>(t, new).
     sq (iter_M inc new) (
     sq (modify (\<lambda>s. s\<lparr>cache := t\<rparr>))
       (ret (etrie_data largs t))))"

definition cache_set :: "addr list \<Rightarrow> addr \<Rightarrow> (st, unit) M" where
  "cache_set largs d =
     bnd (gets (\<lambda>s. etrie_data largs (cache s))) (\<lambda>old.
     if old \<noteq> None then stop Aborted
     else sq (modify (\<lambda>s. s\<lparr>cache := etrie_set largs d (cache s)\<rparr>)) (inc d))"

text \<open>The call itself, after the parameters have been bound.\<close>

definition run_body :: "(bool \<Rightarrow> addr \<Rightarrow> (st, addr option) M) \<Rightarrow> bool \<Rightarrow> addr \<Rightarrow> addr \<Rightarrow> addr list
    \<Rightarrow> (addr \<times> addr option) list \<Rightarrow> (st, addr option) M" where
  "run_body rec callUseCache prog head args olds =
     bnd (getkid prog 2) (\<lambda>body.
     bnd (rec callUseCache body) (\<lambda>r.
     sq (iter_M (\<lambda>((var, old), a). sq (dec a) (setval var old)) (zip olds args)) (
     sq (case r of
           Some x \<Rightarrow> if callUseCache then cache_set (head # args) x else ret ()
         | None \<Rightarrow> ret ())
       (ret r))))"

definition run_prog :: "(bool \<Rightarrow> addr \<Rightarrow> (st, addr option) M) \<Rightarrow> nat \<Rightarrow> bool \<Rightarrow> addr \<Rightarrow> addr \<Rightarrow> addr list
    \<Rightarrow> (st, addr option) M" where
  "run_prog rec f useCache e prog args =
     bnd (getkid prog 1) (\<lambda>vs.
     bnd (getkids vs) (\<lambda>params.
     bnd (get_head f False e) (\<lambda>head.
     bnd (getclass head) (\<lambda>hc.
     bnd (gets run_scc) (\<lambda>scc.
     if scc \<and> hc = SYMS_EXPR then
       bnd (run_compiled_scc head args) (\<lambda>r. sq (iter_M dec args) (ret r))
     else
       bnd (bind_params params args) (\<lambda>(olds, rest). case olds of
         None \<Rightarrow> sq (iter_M dec args) (ret None)
       | Some olds' \<Rightarrow>
           if rest \<noteq> [] then sq (iter_M dec args) (ret None)
           else
             bnd (gets (\<lambda>s. progFunctions s head)) (\<lambda>callUseCache.
             if callUseCache then
               bnd (cache_get (head # args)) (\<lambda>data. case data of
                 Some d \<Rightarrow> sq (inc d) (ret (Some d))
               | None \<Rightarrow> run_body rec True prog head args olds')
             else if useCache then ret None
             else run_body rec False prog head args olds')))))))"

definition run_app :: "(bool \<Rightarrow> addr \<Rightarrow> (st, addr option) M) \<Rightarrow> nat \<Rightarrow> bool \<Rightarrow> addr \<Rightarrow> (st, addr option) M" where
  "run_app rec f useCache e =
     bnd (collect_args f e True) (\<lambda>(hd1, args0).
     bnd (run_args (rec useCache) [] args0) (\<lambda>res. case res of
       None \<Rightarrow> ret None
     | Some args \<Rightarrow>
         bnd (getop hd1) (\<lambda>opr.
         if opr \<noteq> PROG then
           sq (inc hd1) (bnd (build_app hd1 args 0) (\<lambda>r. ret (Some r)))
         else run_prog rec f useCache e hd1 args)))"

definition run_op :: "(bool \<Rightarrow> addr \<Rightarrow> (st, addr option) M) \<Rightarrow> nat \<Rightarrow> bool \<Rightarrow> op \<Rightarrow> addr \<Rightarrow> (st, addr option) M" where
  "run_op rec f useCache opr e =
     (if opr = DO then run_do (rec useCache) e
      else if opr = LET then run_let (rec useCache) e
      else if opr = ADD \<or> opr = MUL \<or> opr = DIV then run_arith (rec useCache) opr e
      else if opr = NEG then run_neg (rec useCache) e
      else if opr = MPZ_TO_MPQ then run_mpz_to_mpq (rec useCache) e
      else if opr = IFNEG \<or> opr = IFZERO then run_if (rec useCache) opr e
      else if opr = IFMARKED then run_ifmarked (rec useCache) useCache e
      else if opr = COMPARE then run_compare (rec useCache) e
      else if opr = IFEQUAL then run_ifequal (rec useCache) f e
      else if opr = MARKVAR then run_markvar (rec useCache) e
      else if opr = MATCH then run_match (rec useCache) f e
      else if opr = APP then run_app rec f useCache e
      else ret None)"

primrec run_code_internal :: "nat \<Rightarrow> bool \<Rightarrow> addr \<Rightarrow> (st, addr option) M" where
  "run_code_internal 0 useCache e = stop OutOfFuel"
| "run_code_internal (Suc n) useCache e =
     bnd (getop e) (\<lambda>opr.
     if opr = NOT_CEXPR then run_atom n e
     else run_op (run_code_internal n) n useCache opr e)"

text \<open>\<open>run_code\<close>: a cache of its own, released on return.\<close>

definition run_code :: "nat \<Rightarrow> addr \<Rightarrow> (st, addr option) M" where
  "run_code f e =
     bnd (gets cache) (\<lambda>outer.
     sq (modify (\<lambda>s. s\<lparr>cache := empty_etrie\<rparr>)) (
     bnd (run_code_internal f False e) (\<lambda>r.
     bnd (gets cache) (\<lambda>t.
     sq (iter_M dec (etrie_refs t)) (
     sq (modify (\<lambda>s. s\<lparr>cache := outer\<rparr>)) (ret r))))))"

definition markProgramAsFunction :: "addr \<Rightarrow> (st, unit) M" where
  "markProgramAsFunction a = modify (\<lambda>s. s\<lparr>progFunctions := (progFunctions s)(a := True)\<rparr>)"

section \<open>Fuel\<close>

lemma fuel_le_or_null [fuel_mono]:
  "fuel_le m m' \<Longrightarrow> (\<And>x. fuel_le (k x) (k' x)) \<Longrightarrow> fuel_le (or_null m k) (or_null m' k')"
  unfolding or_null_def by (intro fuel_mono)

lemma run_atom_fuel [fuel_mono]: "fuel_le (run_atom n e) (run_atom (Suc n) e)"
  unfolding run_atom_def by (intro fuel_mono)

lemma run_simple_fuel [fuel_mono]:
  assumes r: "\<And>a. fuel_le (r a) (r' a)"
  shows "fuel_le (run_do r e) (run_do r' e)" "fuel_le (run_let r e) (run_let r' e)"
    "fuel_le (run_neg r e) (run_neg r' e)" "fuel_le (run_mpz_to_mpq r e) (run_mpz_to_mpq r' e)"
    "fuel_le (run_ifmarked r u e) (run_ifmarked r' u e)" "fuel_le (run_compare r e) (run_compare r' e)"
    "fuel_le (run_ifequal r n e) (run_ifequal r' (Suc n) e)"
    "fuel_le (run_markvar r e) (run_markvar r' e)"
  unfolding run_do_def run_let_def run_neg_def run_mpz_to_mpq_def run_ifmarked_def
    run_compare_def run_ifequal_def run_markvar_def
  by (intro fuel_mono r)+

lemma run_arith_fuel [fuel_mono]:
  assumes r: "\<And>a. fuel_le (r a) (r' a)"
  shows "fuel_le (run_arith r opr e) (run_arith r' opr e)"
  unfolding run_arith_def by (intro fuel_le_or_null fuel_le_bnd fuel_le_refl r)

lemma run_if_fuel [fuel_mono]:
  assumes r: "\<And>a. fuel_le (r a) (r' a)"
  shows "fuel_le (run_if r opr e) (run_if r' opr e)"
  unfolding run_if_def by (intro fuel_mono r)

lemma run_cases_fuel [fuel_mono]:
  assumes r: "\<And>a. fuel_le (r a) (r' a)"
  shows "fuel_le (run_cases r n s h as cs) (run_cases r' (Suc n) s h as cs)"
  by (induction cs) (auto intro!: fuel_mono r simp del: get_head.simps)

lemma run_match_fuel [fuel_mono]:
  assumes r: "\<And>a. fuel_le (r a) (r' a)"
  shows "fuel_le (run_match r n e) (run_match r' (Suc n) e)"
  unfolding run_match_def by (intro fuel_mono r)

lemma run_args_fuel [fuel_mono]:
  assumes r: "\<And>a. fuel_le (r a) (r' a)"
  shows "fuel_le (run_args r rs as) (run_args r' rs as)"
  by (induction as arbitrary: rs) (auto intro!: fuel_mono r)

lemma run_app_fuel [fuel_mono]:
  assumes r: "\<And>u a. fuel_le (r u a) (r' u a)"
  shows "fuel_le (run_app r n u e) (run_app r' (Suc n) u e)"
proof -
  have b: "fuel_le (run_body r u p h as os) (run_body r' u p h as os)" for u p h as os
    unfolding run_body_def by (intro fuel_le_bnd fuel_le_refl r)
  have "fuel_le (run_prog r n u e p as) (run_prog r' (Suc n) u e p as)" for p as
    unfolding run_prog_def by (intro fuel_mono b)
  then show ?thesis
    unfolding run_app_def by (intro fuel_mono r)
qed

lemma run_op_fuel [fuel_mono]:
  assumes r: "\<And>u a. fuel_le (r u a) (r' u a)"
  shows "fuel_le (run_op r n u opr e) (run_op r' (Suc n) u opr e)"
  unfolding run_op_def
  by (intro fuel_le_if fuel_le_refl run_simple_fuel run_arith_fuel run_if_fuel run_match_fuel
      run_app_fuel r)

lemma run_code_internal_fuel [fuel_mono]:
  "fuel_le (run_code_internal n u e) (run_code_internal (Suc n) u e)"
proof (induction n arbitrary: u e)
  case (Suc n)
  show ?case
    unfolding run_code_internal.simps(2) [of "Suc n" u e] run_code_internal.simps(2) [of n u e]
    by (intro fuel_le_bnd fuel_le_refl fuel_le_if run_atom_fuel run_op_fuel Suc.IH)
qed simp

lemma run_code_fuel [fuel_mono]: "fuel_le (run_code n e) (run_code (Suc n) e)"
  unfolding run_code_def by (intro fuel_mono)

lemma run_code_internal_more:
  "run_code_internal n u e s = Inr r \<Longrightarrow> n \<le> m \<Longrightarrow> run_code_internal m u e s = Inr r"
  by (rule fuel_more [of "\<lambda>n. run_code_internal n u e"]) (rule run_code_internal_fuel)

end
