(* ===== verification/LFSC_Term.thy ===== *)
theory LFSC_Term
  imports LFSC_Expr
begin

text \<open>
  First-order terms: what a piece of the expression graph without binders and unfilled holes stands
  for.  \<open>den V s a t\<close> reads the term \<open>t\<close> off the graph at \<open>a\<close>, through the \<open>val\<close> pointers of defined
  symbols and filled holes, never through a symbol of \<open>V\<close> (the variables of the running code, whose
  \<open>val\<close> fields change).  \<open>agree\<close> and \<open>ext\<close> say which changes of the graph leave every such term alone.
\<close>

section \<open>Terms and their representation\<close>

datatype fterm = FInt int | FRat rat | FSym addr | FApp "fterm list" | FCon op

fun is_sym :: "node \<Rightarrow> bool" where
  "is_sym SymExpr = True"
| "is_sym (SymSExpr x) = True"
| "is_sym nd = False"

definition const_op :: "op \<Rightarrow> bool" where
  "const_op opr \<longleftrightarrow> opr = TYPE_E \<or> opr = KIND \<or> opr = MPZ"

inductive den :: "addr set \<Rightarrow> st \<Rightarrow> addr \<Rightarrow> fterm \<Rightarrow> bool" for V s where
  den_int: "node s a = Some (IntExpr i) \<Longrightarrow> den V s a (FInt i)"
| den_rat: "node s a = Some (RatExpr q) \<Longrightarrow> den V s a (FRat q)"
| den_sym: "node s a = Some nd \<Longrightarrow> is_sym nd \<Longrightarrow> sval s a = None \<Longrightarrow> a \<notin> V \<Longrightarrow> den V s a (FSym a)"
| den_def: "points_to s a b \<Longrightarrow> a \<notin> V \<Longrightarrow> den V s b t \<Longrightarrow> den V s a t"
| den_app: "node s a = Some (CExpr APP ks) \<Longrightarrow> ks \<noteq> [] \<Longrightarrow> list_all2 (den V s) ks ts \<Longrightarrow>
    den V s a (FApp ts)"
| den_con: "node s a = Some (CExpr opr []) \<Longrightarrow> const_op opr \<Longrightarrow> den V s a (FCon opr)"
monos list_all2_mono

inductive_cases den_nodeE: "den V s a t"

definition bounded :: "st \<Rightarrow> bool" where
  "bounded s \<longleftrightarrow> (\<forall>a. node s a \<noteq> None \<longrightarrow> a < brk s)"

text \<open>The graph only grows, only \<open>val\<close> fields of \<open>V\<close> change, and the cache is at most reset.\<close>

definition agree :: "addr set \<Rightarrow> st \<Rightarrow> st \<Rightarrow> bool" where
  "agree V s s' \<longleftrightarrow> (bounded s \<longrightarrow> bounded s') \<and> brk s \<le> brk s' \<and> progFunctions s' = progFunctions s \<and>
     run_scc s' = run_scc s \<and> symbols s' = symbols s \<and> (cache s' = cache s \<or> cache s' = empty_etrie) \<and>
     (\<forall>a < brk s. node s' a = node s a \<and> (a \<in> V \<or> sval s' a = sval s a))"

abbreviation ext :: "st \<Rightarrow> st \<Rightarrow> bool" where
  "ext \<equiv> agree {}"

section \<open>Growth of the graph\<close>

interpretation grows: step_rel "agree V" for V
proof
  show "agree V s u" if "agree V s t" "agree V t u" for s t u
    using that unfolding agree_def by (metis order_less_le_trans order_trans)
qed (simp add: agree_def)

lemma ext_agree: "ext s s' \<Longrightarrow> agree V s s'"
  by (auto simp: agree_def)

lemma agree_rc: "agree V s (s\<lparr>refs := r\<rparr>)" "agree V s (dec_st a s)"
  by (simp_all add: agree_def bounded_def)

lemma agree_new: "new_expr nd s = Inr (a, s') \<Longrightarrow> bounded s \<Longrightarrow> agree V s s'"
  by (auto simp: agree_def bounded_def new_expr_def Let_def less_Suc_eq)

lemma agree_setval: "x \<in> V \<Longrightarrow> agree V s (s\<lparr>sval := (sval s)(x := v)\<rparr>)"
  by (auto simp: agree_def bounded_def)

lemma agree_bounded: "agree V s s' \<Longrightarrow> bounded s \<Longrightarrow> bounded s'"
  by (simp add: agree_def)

lemma agree_node: "agree V s s' \<Longrightarrow> bounded s \<Longrightarrow> node s a = Some nd \<Longrightarrow> node s' a = Some nd"
  unfolding agree_def bounded_def by (metis option.distinct(1))

lemma agree_sval:
  "agree V s s' \<Longrightarrow> bounded s \<Longrightarrow> node s a = Some nd \<Longrightarrow> a \<notin> V \<Longrightarrow> sval s' a = sval s a"
  unfolding agree_def bounded_def by (metis option.distinct(1))

lemma den_agree:
  assumes "agree V s s'" "bounded s"
  shows "den V s a t \<Longrightarrow> den V s' a t"
proof (induction rule: den.induct)
  case (den_def a b t)
  then have "points_to s' a b"
    using agree_node [OF assms] agree_sval [OF assms] by (auto simp: points_to_def)
  with den_def show ?case by (blast intro: den.den_def)
next
  case (den_app a ks ts)
  have "list_all2 (den V s') ks ts"
    by (rule list_all2_mono [OF den_app.IH]) blast
  with agree_node [OF assms den_app.hyps(1)] den_app.hyps(2) show ?case by (rule den.den_app)
next
  case (den_sym a nd)
  then show ?case
    using agree_node [OF assms] agree_sval [OF assms, of a nd] by (auto intro: den.den_sym)
qed (auto dest: agree_node [OF assms] intro: den.intros)

lemma den_cong:
  assumes "node s' = node s" "sval s' = sval s"
  shows "den V s a t \<Longrightarrow> den V s' a t"
proof (induction rule: den.induct)
  case (den_app a ks ts)
  have "list_all2 (den V s') ks ts"
    by (rule list_all2_mono [OF den_app.IH]) blast
  with den_app.hyps assms show ?case by (auto intro: den.den_app)
qed (use assms in \<open>auto simp: points_to_def intro: den.intros\<close>)

section \<open>Reading terms\<close>

lemma den_alloc: "den V s a t \<Longrightarrow> \<exists>nd. node s a = Some nd"
  by (erule den_nodeE) (auto simp: points_to_def)

lemma is_sym_has_val: "is_sym nd \<Longrightarrow> has_val nd"
  by (cases nd) auto

lemma den_at_end:
  "den V s a t \<Longrightarrow> at_end s a \<Longrightarrow>
   (case t of
      FInt i \<Rightarrow> node s a = Some (IntExpr i)
    | FRat q \<Rightarrow> node s a = Some (RatExpr q)
    | FSym b \<Rightarrow> b = a \<and> a \<notin> V \<and> sval s a = None \<and> (\<exists>nd. node s a = Some nd \<and> is_sym nd)
    | FApp ts \<Rightarrow> \<exists>ks. node s a = Some (CExpr APP ks) \<and> ks \<noteq> [] \<and> list_all2 (den V s) ks ts
    | FCon opr \<Rightarrow> node s a = Some (CExpr opr []) \<and> const_op opr)"
  by (erule den_nodeE) (auto dest: points_to_end)

lemma den_not_val: "node s a = Some nd \<Longrightarrow> \<not> has_val nd \<Longrightarrow> at_end s a"
  by (simp add: at_end_def)

lemma den_end:
  "den V s a t \<Longrightarrow> \<exists>b. (points_to s)\<^sup>*\<^sup>* a b \<and> at_end s b \<and> den V s b t"
proof (induction rule: den.induct)
  case (den_def a b t)
  then show ?case by (blast intro: converse_rtranclp_into_rtranclp)
next
  case (den_app a ks ts)
  have "list_all2 (den V s) ks ts"
    by (rule list_all2_mono [OF den_app.IH]) blast
  with den_app.hyps have "den V s a (FApp ts)" by (blast intro: den.den_app)
  with den_app.hyps(1) show ?case by (auto simp: at_end_def)
qed (auto simp: at_end_def intro: den.intros)

lemma den_step: "points_to s a b \<Longrightarrow> den V s a t \<Longrightarrow> a \<notin> V \<and> den V s b t"
  by (erule den_nodeE) (auto simp: points_to_def)

lemma den_fun: "den V s a t \<Longrightarrow> den V s a u \<Longrightarrow> t = u"
proof (induction arbitrary: u rule: den.induct)
  case (den_def a b t)
  then show ?case using den_step by blast
next
  case (den_app a ks ts)
  then have "at_end s a" by (simp add: at_end_def)
  with den_at_end [OF den_app.prems] den_app.hyps(1) obtain us where
    u: "u = FApp us" "list_all2 (den V s) ks us"
    by (auto simp: const_op_def split: fterm.splits)
  from den_app.IH u(2) have "ts = us"
    by (auto simp: list_all2_conv_all_nth intro!: nth_equalityI)
  with u show ?case by simp
next
  case (den_sym a nd)
  then have "at_end s a" by (simp add: at_end_def)
  with den_at_end [OF den_sym.prems] den_sym.hyps show ?case
    by (auto split: fterm.splits)
next
  case (den_con a opr)
  then have "at_end s a" by (simp add: at_end_def)
  with den_at_end [OF den_con.prems] den_con.hyps show ?case
    by (auto simp: const_op_def split: fterm.splits)
qed (auto dest: den_at_end simp: at_end_def split: fterm.splits)

lemma den_head_app:
  "node s a = Some (CExpr APP ks) \<Longrightarrow> den V s a t \<Longrightarrow>
   \<exists>k ks' u us. ks = k # ks' \<and> t = FApp (u # us) \<and> den V s k u \<and> list_all2 (den V s) ks' us"
  by (erule den_nodeE) (auto simp: points_to_def const_op_def list_all2_Cons1 neq_Nil_conv)

text \<open>\<open>followDefs\<close> finds the cell of the term.\<close>

lemma followDefs_returns:
  "(points_to s)\<^sup>*\<^sup>* a b \<Longrightarrow> at_end s b \<Longrightarrow> returns (\<lambda>n. followDefs n a) s (b, s)"
  using followDefs_complete [of s a b] returns_I [of "\<lambda>n. followDefs n a", OF followDefs_fuel] by blast

lemma followDefs_den:
  assumes "den V s a t"
  shows "\<exists>b. returns (\<lambda>n. followDefs n a) s (b, s) \<and> at_end s b \<and> den V s b t"
  using den_end [OF assms] followDefs_returns by blast

lemma points_to_det:
  "(points_to s)\<^sup>*\<^sup>* a b \<Longrightarrow> at_end s b \<Longrightarrow> (points_to s)\<^sup>*\<^sup>* a c \<Longrightarrow> at_end s c \<Longrightarrow> b = c"
proof (induction rule: converse_rtranclp_induct)
  case base
  then show ?case by (metis converse_rtranclpE points_to_end)
next
  case (step a d)
  then show ?case by (metis converse_rtranclpE points_to_end points_to_fun)
qed

section \<open>Allocated cells\<close>

definition alloc :: "st \<Rightarrow> addr list \<Rightarrow> bool" where
  "alloc s as \<longleftrightarrow> (\<forall>a \<in> set as. \<exists>nd. node s a = Some nd)"

lemma alloc_cong: "node s' = node s \<Longrightarrow> alloc s' xs = alloc s xs"
  by (simp add: alloc_def)

lemma alloc_Cons: "alloc s (a # as) \<longleftrightarrow> (\<exists>nd. node s a = Some nd) \<and> alloc s as"
  by (auto simp: alloc_def)

lemma iter_dec_spec:
  "alloc s as \<Longrightarrow> \<exists>s'. iter_M dec as s = Inr ((), s') \<and> rc_only s s'"
proof (induction as arbitrary: s)
  case (Cons a as)
  then show ?case
    using Cons.IH [of "dec_st a s"]
    by (auto simp: run_simps alloc_Cons alloc_cong [of "dec_st a s" s] rc_only_def)
qed simp

lemma rc_ext: "rc_only s s' \<Longrightarrow> ext s s'"
  by (auto simp: rc_only_def agree_def bounded_def)

section \<open>Heads of applications\<close>

text \<open>A first-order term has no abstraction at its head, so weak head reduction leaves it alone.\<close>

definition rigid_head :: "st \<Rightarrow> addr \<Rightarrow> bool" where
  "rigid_head s h \<longleftrightarrow> (\<exists>nd. node s h = Some nd \<and> op_of nd \<noteq> APP \<and> op_of nd \<noteq> LAM \<and> class_of nd \<noteq> HOLE_EXPR)"

lemma rigid_head_self:
  "den V s a t \<Longrightarrow> at_end s a \<Longrightarrow> (\<forall>ts. t \<noteq> FApp ts) \<Longrightarrow> rigid_head s a"
  using den_at_end [of V s a t]
  by (auto simp: rigid_head_def const_op_def split: fterm.splits elim: is_sym.elims)

lemma get_head_self: "rigid_head s a \<Longrightarrow> get_head (Suc n) b a s = Inr (a, s)"
  by (auto simp: rigid_head_def run_simps)

lemma get_head_returns_self:
  assumes "rigid_head s a"
  shows "returns (\<lambda>n. get_head n b a) s (a, s)"
  by (rule returns_Suc, rule returns_all) (rule get_head_self [OF assms])

lemma get_head_rigid:
  "at_end s a \<Longrightarrow> rigid_head s a \<Longrightarrow> (points_to s)\<^sup>*\<^sup>* a b \<Longrightarrow> at_end s b \<Longrightarrow>
   \<exists>h. returns (\<lambda>n. get_head n True b) s (h, s) \<and> rigid_head s h"
  using points_to_det [of s a a b] get_head_returns_self by blast

lemma get_head_den_aux:
  "den V s a t \<Longrightarrow> (points_to s)\<^sup>*\<^sup>* a b \<Longrightarrow> at_end s b \<Longrightarrow>
   \<exists>h. returns (\<lambda>n. get_head n True b) s (h, s) \<and> rigid_head s h"
proof (induction arbitrary: b rule: den.induct)
  case (den_def a c t)
  then show ?case by (metis converse_rtranclpE points_to_end points_to_fun)
next
  case (den_app a ks ts)
  have b: "b = a"
    using den_app.prems den_app.hyps(1) points_to_det [of s a a b] by (auto simp: at_end_def)
  from den_app.hyps(2) den_app.IH obtain k ks' u where k: "ks = k # ks'" "den V s k u"
    and IH: "\<And>c. (points_to s)\<^sup>*\<^sup>* k c \<Longrightarrow> at_end s c \<Longrightarrow>
      \<exists>h. returns (\<lambda>n. get_head n True c) s (h, s) \<and> rigid_head s h"
    by (cases ks) (auto simp: list_all2_Cons1)
  obtain c where c: "(points_to s)\<^sup>*\<^sup>* k c" "at_end s c" "returns (\<lambda>n. followDefs n k) s (c, s)"
    using den_end [OF k(2)] followDefs_returns by blast
  from IH [OF c(1,2)] obtain h where h: "returns (\<lambda>n. get_head n True c) s (h, s)" "rigid_head s h"
    by blast
  have "returns (\<lambda>n. get_head n True a) s (h, s)"
    by (rule returns_Suc, rule returns_elim2 [OF c(3) h(1)])
      (use den_app.hyps(1) k(1) in \<open>simp add: run_simps\<close>)
  with h b show ?case by blast
next
  case (den_sym a nd)
  show ?case
    by (rule get_head_rigid [OF _ _ den_sym.prems])
      (use den_sym in \<open>auto simp: at_end_def rigid_head_def elim: is_sym.elims\<close>)
next
  case (den_con a opr)
  show ?case
    by (rule get_head_rigid [OF _ _ den_con.prems])
      (use den_con in \<open>auto simp: at_end_def rigid_head_def const_op_def\<close>)
qed (rule get_head_rigid; auto simp: at_end_def rigid_head_def)+

lemma get_head_den:
  "den V s a t \<Longrightarrow> at_end s a \<Longrightarrow> \<exists>h. returns (\<lambda>n. get_head n True a) s (h, s) \<and> rigid_head s h"
  using get_head_den_aux by blast

lemma whr_den:
  assumes "den V s a t" "at_end s a"
  shows "returns (\<lambda>n. whr n a) s (a, s)"
proof -
  from get_head_den [OF assms] obtain h where
    h: "returns (\<lambda>n. get_head n True a) s (h, s)" and r: "rigid_head s h" by blast
  show ?thesis
    by (rule returns_elim1 [OF h]) (use r in \<open>auto simp: whr_def run_simps rigid_head_def\<close>)
qed

end
