(* ===== verification/LFSC_Sem.thy ===== *)
theory LFSC_Sem
  imports LFSC_Run LFSC_Term
begin

text \<open>
  What side condition code means.  \<open>code\<close> is the abstract syntax and \<open>eval\<close> its big-step semantics:
  lexically scoped, over environments and first-order terms, without pointers, \<open>val\<close> fields or fuel.
  A result \<open>None\<close> is failure.  \<open>cd V s a c\<close> says that the graph at \<open>a\<close> holds the code \<open>c\<close> whose variables
  are in \<open>V\<close>, \<open>progs_ok\<close> that the program table is laid out in the graph.
  Marks, address comparison, \<open>ifequal\<close> and cached \<open>function\<close> calls are outside this semantics.
\<close>

section \<open>Abstract syntax and semantics\<close>

datatype code =
    CInt int
  | CRat rat
  | CConst fterm
  | CVar addr
  | CFail
  | CDo code code
  | CLet addr code code
  | CArith op code code
  | CNeg code
  | CToQ code
  | CIf op code code code
  | CCtor addr "code list"
  | CCall addr "code list"
  | CMatch code "branch list"
and branch = BCase addr "addr list" code | BDefault code

type_synonym env = "addr \<rightharpoonup> fterm"

definition arith_val :: "op \<Rightarrow> fterm \<Rightarrow> fterm \<Rightarrow> fterm option" where
  "arith_val opr v w =
     (case (v, w) of
        (FInt i, FInt j) \<Rightarrow> map_option FInt (arith_int opr i j)
      | (FRat p, FRat q) \<Rightarrow> map_option FRat (arith_rat opr p q)
      | _ \<Rightarrow> None)"

definition neg_val :: "fterm \<Rightarrow> fterm option" where
  "neg_val v = (case v of FInt i \<Rightarrow> Some (FInt (- i)) | FRat q \<Rightarrow> Some (FRat (- q)) | _ \<Rightarrow> None)"

definition test_val :: "op \<Rightarrow> fterm \<Rightarrow> bool option" where
  "test_val opr v =
     (case v of
        FInt i \<Rightarrow> Some (if opr = IFNEG then i < 0 else i = 0)
      | FRat q \<Rightarrow> Some (if opr = IFNEG then q < 0 else q = 0)
      | _ \<Rightarrow> None)"

fun fhead :: "fterm \<Rightarrow> fterm \<times> fterm list" where
  "fhead (FApp (t # ts)) = (t, ts)"
| "fhead v = (v, [])"

type_synonym prog_table = "addr \<rightharpoonup> addr list \<times> code"

inductive eval :: "prog_table \<Rightarrow> env \<Rightarrow> code \<Rightarrow> fterm option \<Rightarrow> bool"
  and evals :: "prog_table \<Rightarrow> env \<Rightarrow> code list \<Rightarrow> fterm list option \<Rightarrow> bool"
  and evalb :: "prog_table \<Rightarrow> env \<Rightarrow> fterm \<Rightarrow> branch list \<Rightarrow> fterm option \<Rightarrow> bool"
  for P where
  ev_int: "eval P \<rho> (CInt i) (Some (FInt i))"
| ev_rat: "eval P \<rho> (CRat q) (Some (FRat q))"
| ev_const: "eval P \<rho> (CConst t) (Some t)"
| ev_var: "\<rho> x = Some v \<Longrightarrow> eval P \<rho> (CVar x) (Some v)"
| ev_fail: "eval P \<rho> CFail None"
| ev_do: "eval P \<rho> c (Some v) \<Longrightarrow> eval P \<rho> d r \<Longrightarrow> eval P \<rho> (CDo c d) r"
| ev_do_fail: "eval P \<rho> c None \<Longrightarrow> eval P \<rho> (CDo c d) None"
| ev_let: "eval P \<rho> c (Some v) \<Longrightarrow> eval P (\<rho>(x \<mapsto> v)) d r \<Longrightarrow> eval P \<rho> (CLet x c d) r"
| ev_let_fail: "eval P \<rho> c None \<Longrightarrow> eval P \<rho> (CLet x c d) None"
| ev_arith: "eval P \<rho> c (Some v) \<Longrightarrow> eval P \<rho> d (Some w) \<Longrightarrow>
    eval P \<rho> (CArith opr c d) (arith_val opr v w)"
| ev_arith_fail1: "eval P \<rho> c None \<Longrightarrow> eval P \<rho> (CArith opr c d) None"
| ev_arith_fail2: "eval P \<rho> c (Some v) \<Longrightarrow> eval P \<rho> d None \<Longrightarrow> eval P \<rho> (CArith opr c d) None"
| ev_neg: "eval P \<rho> c (Some v) \<Longrightarrow> neg_val v = Some w \<Longrightarrow> eval P \<rho> (CNeg c) (Some w)"
| ev_neg_fail: "eval P \<rho> c None \<Longrightarrow> eval P \<rho> (CNeg c) None"
| ev_toq: "eval P \<rho> c (Some (FInt i)) \<Longrightarrow> eval P \<rho> (CToQ c) (Some (FRat (of_int i)))"
| ev_toq_fail: "eval P \<rho> c None \<Longrightarrow> eval P \<rho> (CToQ c) None"
| ev_if: "eval P \<rho> c (Some v) \<Longrightarrow> test_val opr v = Some b \<Longrightarrow>
    eval P \<rho> (if b then d else e) r \<Longrightarrow> eval P \<rho> (CIf opr c d e) r"
| ev_if_stuck: "eval P \<rho> c (Some v) \<Longrightarrow> test_val opr v = None \<Longrightarrow> eval P \<rho> (CIf opr c d e) None"
| ev_if_fail: "eval P \<rho> c None \<Longrightarrow> eval P \<rho> (CIf opr c d e) None"
| ev_ctor: "evals P \<rho> cs (Some vs) \<Longrightarrow> eval P \<rho> (CCtor h cs) (Some (FApp (FSym h # vs)))"
| ev_ctor_fail: "evals P \<rho> cs None \<Longrightarrow> eval P \<rho> (CCtor h cs) None"
| ev_call: "evals P \<rho> cs (Some vs) \<Longrightarrow> P p = Some (xs, body) \<Longrightarrow> length xs = length vs \<Longrightarrow>
    eval P (map_of (zip xs vs)) body r \<Longrightarrow> eval P \<rho> (CCall p cs) r"
| ev_call_fail: "evals P \<rho> cs None \<Longrightarrow> eval P \<rho> (CCall p cs) None"
| ev_match: "eval P \<rho> c (Some v) \<Longrightarrow> evalb P \<rho> v bs r \<Longrightarrow> eval P \<rho> (CMatch c bs) r"
| ev_match_fail: "eval P \<rho> c None \<Longrightarrow> eval P \<rho> (CMatch c bs) None"
| ev_nil: "evals P \<rho> [] (Some [])"
| ev_cons: "eval P \<rho> c (Some v) \<Longrightarrow> evals P \<rho> cs r \<Longrightarrow> evals P \<rho> (c # cs) (map_option ((#) v) r)"
| ev_cons_fail: "eval P \<rho> c None \<Longrightarrow> evals P \<rho> (c # cs) None"
| ev_no_branch: "evalb P \<rho> v [] None"
| ev_default: "eval P \<rho> c r \<Longrightarrow> evalb P \<rho> v (BDefault c # bs) r"
| ev_case: "fhead v = (FSym h, ts) \<Longrightarrow> length xs = length ts \<Longrightarrow>
    eval P (\<rho>(xs [\<mapsto>] ts)) c r \<Longrightarrow> evalb P \<rho> v (BCase h xs c # bs) r"
| ev_skip: "fst (fhead v) \<noteq> FSym h \<Longrightarrow> evalb P \<rho> v bs r \<Longrightarrow> evalb P \<rho> v (BCase h xs c # bs) r"

section \<open>Code in the graph\<close>

definition var_cell :: "addr set \<Rightarrow> st \<Rightarrow> addr \<Rightarrow> bool" where
  "var_cell V s x \<longleftrightarrow> x \<in> V \<and> (\<exists>nd. node s x = Some nd \<and> is_sym nd)"

definition const_cell :: "addr set \<Rightarrow> st \<Rightarrow> addr \<Rightarrow> bool" where
  "const_cell V s h \<longleftrightarrow> h \<notin> V \<and> (\<exists>nd. node s h = Some nd \<and> is_sym nd) \<and> sval s h = None"

text \<open>A program symbol: its value is the \<open>PROG\<close> cell with type, parameters and body.\<close>

definition prog_cell :: "addr set \<Rightarrow> st \<Rightarrow> addr \<Rightarrow> addr list \<Rightarrow> addr \<Rightarrow> bool" where
  "prog_cell V s p xs body \<longleftrightarrow> p \<notin> V \<and> (\<exists>nd. node s p = Some nd \<and> is_sym nd) \<and> \<not> progFunctions s p \<and>
     (\<exists>pc tp vs opr. sval s p = Some pc \<and> node s pc = Some (CExpr PROG [tp, vs, body]) \<and>
       node s vs = Some (CExpr opr xs))"

definition pattern_cell :: "addr set \<Rightarrow> st \<Rightarrow> addr \<Rightarrow> addr \<Rightarrow> addr list \<Rightarrow> bool" where
  "pattern_cell V s p h xs \<longleftrightarrow> const_cell V s h \<and> distinct xs \<and> (\<forall>x \<in> set xs. var_cell V s x) \<and>
     (if xs = [] then p = h else node s p = Some (CExpr APP (h # xs)))"

inductive cd :: "addr set \<Rightarrow> st \<Rightarrow> addr \<Rightarrow> code \<Rightarrow> bool"
  and cdb :: "addr set \<Rightarrow> st \<Rightarrow> addr \<Rightarrow> branch \<Rightarrow> bool" for V s where
  cd_int: "node s a = Some (IntExpr i) \<Longrightarrow> cd V s a (CInt i)"
| cd_rat: "node s a = Some (RatExpr q) \<Longrightarrow> cd V s a (CRat q)"
| cd_const: "node s a = Some nd \<Longrightarrow> is_sym nd \<Longrightarrow> den V s a t \<Longrightarrow> cd V s a (CConst t)"
| cd_var: "var_cell V s a \<Longrightarrow> cd V s a (CVar a)"
| cd_fail: "node s a = Some (CExpr FAIL ks) \<Longrightarrow> cd V s a CFail"
| cd_do: "node s a = Some (CExpr DO [k, l]) \<Longrightarrow> cd V s k c \<Longrightarrow> cd V s l d \<Longrightarrow> cd V s a (CDo c d)"
| cd_let: "node s a = Some (CExpr LET [x, k, l]) \<Longrightarrow> var_cell V s x \<Longrightarrow> cd V s k c \<Longrightarrow> cd V s l d \<Longrightarrow>
    cd V s a (CLet x c d)"
| cd_arith: "node s a = Some (CExpr opr [k, l]) \<Longrightarrow> opr = ADD \<or> opr = MUL \<or> opr = DIV \<Longrightarrow>
    cd V s k c \<Longrightarrow> cd V s l d \<Longrightarrow> cd V s a (CArith opr c d)"
| cd_neg: "node s a = Some (CExpr NEG [k]) \<Longrightarrow> cd V s k c \<Longrightarrow> cd V s a (CNeg c)"
| cd_toq: "node s a = Some (CExpr MPZ_TO_MPQ [k]) \<Longrightarrow> cd V s k c \<Longrightarrow> cd V s a (CToQ c)"
| cd_if: "node s a = Some (CExpr opr [k, l, m]) \<Longrightarrow> opr = IFNEG \<or> opr = IFZERO \<Longrightarrow>
    cd V s k c \<Longrightarrow> cd V s l d \<Longrightarrow> cd V s m e \<Longrightarrow> cd V s a (CIf opr c d e)"
| cd_ctor: "node s a = Some (CExpr APP (h # ks)) \<Longrightarrow> ks \<noteq> [] \<Longrightarrow> const_cell V s h \<Longrightarrow>
    list_all2 (cd V s) ks cs \<Longrightarrow> cd V s a (CCtor h cs)"
| cd_call: "node s a = Some (CExpr APP (p # ks)) \<Longrightarrow> prog_cell V s p xs body \<Longrightarrow>
    list_all2 (cd V s) ks cs \<Longrightarrow> cd V s a (CCall p cs)"
| cd_match: "node s a = Some (CExpr MATCH (k # ks)) \<Longrightarrow> cd V s k c \<Longrightarrow> list_all2 (cdb V s) ks bs \<Longrightarrow>
    cd V s a (CMatch c bs)"
| cdb_case: "node s a = Some (CExpr CASE [p, k]) \<Longrightarrow> pattern_cell V s p h xs \<Longrightarrow> cd V s k c \<Longrightarrow>
    cdb V s a (BCase h xs c)"
| cdb_default: "node s a = Some nd \<Longrightarrow> op_of nd \<noteq> CASE \<Longrightarrow> cd V s a c \<Longrightarrow> cdb V s a (BDefault c)"
monos list_all2_mono

definition progs_ok :: "prog_table \<Rightarrow> addr set \<Rightarrow> st \<Rightarrow> bool" where
  "progs_ok P V s \<longleftrightarrow> (\<forall>p xs c. P p = Some (xs, c) \<longrightarrow>
     (\<exists>b. prog_cell V s p xs b \<and> cd V s b c) \<and> distinct xs \<and> (\<forall>x \<in> set xs. var_cell V s x))"

definition env_ok :: "addr set \<Rightarrow> st \<Rightarrow> env \<Rightarrow> bool" where
  "env_ok V s \<rho> \<longleftrightarrow> (\<forall>x v. \<rho> x = Some v \<longrightarrow> var_cell V s x \<and> (\<exists>b. sval s x = Some b \<and> den V s b v))"

text \<open>A state in which code runs, and a pointer to a value.\<close>

definition run_ok :: "prog_table \<Rightarrow> addr set \<Rightarrow> st \<Rightarrow> bool" where
  "run_ok P V s \<longleftrightarrow> bounded s \<and> \<not> run_scc s \<and> progs_ok P V s"

definition is_val :: "addr set \<Rightarrow> st \<Rightarrow> addr \<Rightarrow> fterm \<Rightarrow> bool" where
  "is_val V s a v \<longleftrightarrow> den V s a v \<and> at_end s a"

section \<open>Growth of the graph keeps code, programs and values\<close>

lemma var_cell_agree: "agree V s s' \<Longrightarrow> bounded s \<Longrightarrow> var_cell V s x \<Longrightarrow> var_cell V s' x"
  using agree_node by (fastforce simp: var_cell_def)

lemma const_cell_agree: "agree V s s' \<Longrightarrow> bounded s \<Longrightarrow> const_cell V s h \<Longrightarrow> const_cell V s' h"
  using agree_node agree_sval by (fastforce simp: const_cell_def)

lemma prog_cell_agree:
  assumes "agree V s s'" "bounded s" "prog_cell V s p xs b"
  shows "prog_cell V s' p xs b"
proof -
  from assms(3) obtain nd pc tp vs opr where p: "p \<notin> V" "node s p = Some nd" "is_sym nd"
    "\<not> progFunctions s p" "sval s p = Some pc" "node s pc = Some (CExpr PROG [tp, vs, b])"
    "node s vs = Some (CExpr opr xs)"
    by (auto simp: prog_cell_def)
  then show ?thesis
    using agree_node [OF assms(1,2)] agree_sval [OF assms(1,2) p(2,1)] assms(1)
    unfolding prog_cell_def by (auto simp: agree_def)
qed

lemma pattern_cell_agree:
  "agree V s s' \<Longrightarrow> bounded s \<Longrightarrow> pattern_cell V s p h xs \<Longrightarrow> pattern_cell V s' p h xs"
  using var_cell_agree const_cell_agree agree_node by (fastforce simp: pattern_cell_def)

lemma cd_agree:
  assumes "agree V s s'" "bounded s"
  shows "cd V s a c \<Longrightarrow> cd V s' a c" and "cdb V s a' b \<Longrightarrow> cdb V s' a' b"
proof (induction rule: cd_cdb.inducts)
  case (cd_ctor a h ks cs)
  have "list_all2 (cd V s') ks cs" using cd_ctor by (auto elim!: list_all2_mono)
  with cd_ctor show ?case
    using agree_node [OF assms] const_cell_agree [OF assms] by (blast intro: cd_cdb.cd_ctor)
next
  case (cd_call a p ks xs body cs)
  have "list_all2 (cd V s') ks cs" using cd_call by (auto elim!: list_all2_mono)
  with cd_call show ?case
    using agree_node [OF assms] prog_cell_agree [OF assms] by (blast intro: cd_cdb.cd_call)
next
  case (cd_match a k ks c bs)
  have "list_all2 (cdb V s') ks bs" using cd_match by (auto elim!: list_all2_mono)
  with cd_match show ?case
    using agree_node [OF assms] by (blast intro: cd_cdb.cd_match)
qed (use agree_node [OF assms] var_cell_agree [OF assms] pattern_cell_agree [OF assms]
      den_agree [OF assms] in \<open>blast intro: cd_cdb.intros\<close>)+

lemma progs_ok_agree: "agree V s s' \<Longrightarrow> bounded s \<Longrightarrow> progs_ok P V s \<Longrightarrow> progs_ok P V s'"
  unfolding progs_ok_def by (meson prog_cell_agree cd_agree(1) var_cell_agree)

lemma run_ok_agree: "agree V s s' \<Longrightarrow> run_ok P V s \<Longrightarrow> run_ok P V s'"
  unfolding run_ok_def by (metis agree_def progs_ok_agree)

lemma run_ok_bounded: "run_ok P V s \<Longrightarrow> bounded s"
  by (simp add: run_ok_def)

lemma env_ok_ext: "ext s s' \<Longrightarrow> bounded s \<Longrightarrow> env_ok V s \<rho> \<Longrightarrow> env_ok V s' \<rho>"
  unfolding env_ok_def
  by (metis agree_sval den_agree empty_iff ext_agree var_cell_agree var_cell_def)

lemma is_val_node: "is_val V s a v \<Longrightarrow> \<exists>nd. node s a = Some nd"
  using den_alloc by (auto simp: is_val_def)

lemma is_val_agree: "agree V s s' \<Longrightarrow> bounded s \<Longrightarrow> is_val V s a v \<Longrightarrow> is_val V s' a v"
proof -
  assume ag: "agree V s s'" and bd: "bounded s" and v: "is_val V s a v"
  then obtain nd where nd: "node s a = Some nd" using is_val_node by blast
  have "at_end s' a"
  proof (cases "has_val nd")
    case True
    with v nd have "a \<notin> V"
      using den_at_end [of V s a v] by (auto simp: is_val_def split: fterm.splits)
    with v nd show ?thesis
      using agree_node [OF ag bd nd] agree_sval [OF ag bd nd] by (auto simp: is_val_def at_end_def)
  qed (use agree_node [OF ag bd nd] in \<open>auto simp: at_end_def\<close>)
  with v den_agree [OF ag bd] show ?thesis by (simp add: is_val_def)
qed

end
