(* ===== verification/LFSC_Refine.thy ===== *)
theory LFSC_Refine
  imports LFSC_Sem
begin

text \<open>
  The evaluator of \<open>src/src/code.cpp\<close> implements the semantics of theory \<open>LFSC_Sem\<close>: it binds variables by
  overwriting \<open>val\<close> fields and restores them, returns what the semantics says, and leaves the graph as
  it was, except for new cells.  First the loops that bind and restore, then one rule per \<open>case\<close> of the
  evaluator (what it returns, given what its recursive calls return), then the simulation.
\<close>

section \<open>Binding variables and restoring them\<close>

definition upd_vals :: "addr list \<Rightarrow> addr list \<Rightarrow> (addr \<Rightarrow> addr option) \<Rightarrow> addr \<Rightarrow> addr option" where
  "upd_vals xs as sv = (\<lambda>y. case map_of (zip xs as) y of Some b \<Rightarrow> Some b | None \<Rightarrow> sv y)"

lemma upd_vals_simps:
  "upd_vals [] as sv = sv"
  "x \<notin> set xs \<Longrightarrow> upd_vals (x # xs) (a # as) sv = upd_vals xs as (sv(x \<mapsto> a))"
proof -
  assume "x \<notin> set xs"
  then have "map_of (zip xs as) x = None" by (auto simp: map_of_eq_None_iff dest: set_zip_leftD)
  then show "upd_vals (x # xs) (a # as) sv = upd_vals xs as (sv(x \<mapsto> a))"
    by (auto simp: upd_vals_def fun_eq_iff split: option.split)
qed (simp add: upd_vals_def)

lemma upd_vals_other: "y \<notin> set xs \<Longrightarrow> upd_vals xs as sv y = sv y"
  by (auto simp: upd_vals_def split: option.split dest!: map_of_SomeD dest: set_zip_leftD)

definition val_cells :: "st \<Rightarrow> addr list \<Rightarrow> bool" where
  "val_cells s xs \<longleftrightarrow> (\<forall>x \<in> set xs. \<exists>nd. node s x = Some nd \<and> has_val nd)"

lemma val_cells_cong: "node s' = node s \<Longrightarrow> val_cells s' xs = val_cells s xs"
  by (simp add: val_cells_def)

lemma val_cells_Cons: "val_cells s (x # xs) \<longleftrightarrow> (\<exists>nd. node s x = Some nd \<and> has_val nd) \<and> val_cells s xs"
  by (auto simp: val_cells_def)

lemma bind_pattern_spec:
  assumes "length xs = length as" "distinct xs" "val_cells s xs" "alloc s as"
  shows "\<exists>s'. bind_pattern xs as s = Inr (map (\<lambda>(x, a). (x, sval s x, a)) (zip xs as), s') \<and>
    rc_only (s\<lparr>sval := upd_vals xs as (sval s)\<rparr>) s'"
  using assms
proof (induction xs as arbitrary: s rule: list_induct2)
  case Nil
  then show ?case by (simp add: upd_vals_simps)
next
  case (Cons x xs a as)
  let ?s = "s\<lparr>sval := (sval s)(x \<mapsto> a), refs := (refs s)(a := ref_inc (refs s a))\<rparr>"
  have ok: "distinct xs" "val_cells ?s xs" "alloc ?s as" "x \<notin> set xs"
    and x: "\<exists>nd. node s x = Some nd \<and> has_val nd" "\<exists>nd. node s a = Some nd"
    using Cons.prems by (auto simp: val_cells_def alloc_def)
  have olds: "map (\<lambda>(y, a). (y, sval ?s y, a)) (zip xs as) = map (\<lambda>(y, a). (y, sval s y, a)) (zip xs as)"
    using ok(4) by (auto dest: set_zip_leftD)
  from Cons.IH [OF ok(1-3)] obtain s' where
    s': "bind_pattern xs as ?s = Inr (map (\<lambda>(x, a). (x, sval s x, a)) (zip xs as), s')"
    "rc_only (?s\<lparr>sval := upd_vals xs as (sval ?s)\<rparr>) s'"
    unfolding olds by blast
  then have "bind_pattern (x # xs) (a # as) s =
      Inr (map (\<lambda>(x, a). (x, sval s x, a)) (zip (x # xs) (a # as)), s')"
    using x by (auto simp: run_simps)
  with s'(2) show ?case by (simp add: upd_vals_simps ok(4) rc_only_def)
qed

lemma bind_params_spec:
  assumes "length xs = length as" "distinct xs" "val_cells s xs"
  shows "bind_params xs as s =
    Inr ((Some (map (\<lambda>x. (x, sval s x)) xs), []), s\<lparr>sval := upd_vals xs as (sval s)\<rparr>)"
  using assms
proof (induction xs as arbitrary: s rule: list_induct2)
  case Nil
  then show ?case by (simp add: upd_vals_simps)
next
  case (Cons x xs a as)
  let ?s = "s\<lparr>sval := (sval s)(x \<mapsto> a)\<rparr>"
  have ok: "distinct xs" "val_cells ?s xs" "x \<notin> set xs" and x: "\<exists>nd. node s x = Some nd \<and> has_val nd"
    using Cons.prems by (auto simp: val_cells_def)
  have olds: "map (\<lambda>y. (y, sval ?s y)) xs = map (\<lambda>y. (y, sval s y)) xs"
    using ok(3) by auto
  have "bind_params xs as ?s =
      Inr ((Some (map (\<lambda>x. (x, sval s x)) xs), []), ?s\<lparr>sval := upd_vals xs as (sval ?s)\<rparr>)"
    using Cons.IH [OF ok(1,2)] unfolding olds .
  then show ?case
    using x by (auto simp: run_simps upd_vals_simps ok(3) simp del: fun_upd_apply)
qed

text \<open>The restoring loops of \<open>match\<close> and of program calls differ in the order of their two steps.\<close>

lemma restore_loop:
  assumes step: "\<And>x a s nd nd'. node s x = Some nd \<Longrightarrow> has_val nd \<Longrightarrow> node s a = Some nd' \<Longrightarrow>
      \<exists>s'. g (x, a) s = Inr ((), s') \<and> rc_only (s\<lparr>sval := (sval s)(x := sv x)\<rparr>) s'"
    and "length xs = length as" "val_cells s xs" "alloc s as"
  shows "\<exists>s'. iter_M g (zip xs as) s = Inr ((), s') \<and>
    rc_only (s\<lparr>sval := (\<lambda>y. if y \<in> set xs then sv y else sval s y)\<rparr>) s'"
  using assms(2-)
proof (induction xs as arbitrary: s rule: list_induct2)
  case (Cons x xs a as)
  then obtain s1 where s1: "g (x, a) s = Inr ((), s1)" "rc_only (s\<lparr>sval := (sval s)(x := sv x)\<rparr>) s1"
    using step by (fastforce simp: val_cells_Cons alloc_Cons)
  then have "node s1 = node s" by (simp add: rc_only_def)
  with Cons.IH [of s1] Cons.prems obtain s2 where
    "iter_M g (zip xs as) s1 = Inr ((), s2)"
    "rc_only (s1\<lparr>sval := (\<lambda>y. if y \<in> set xs then sv y else sval s1 y)\<rparr>) s2"
    by (auto simp: val_cells_Cons alloc_Cons val_cells_cong [of s1 s] alloc_cong [of s1 s])
  with s1 show ?case by (auto simp: run_simps rc_only_def fun_eq_iff)
qed simp

lemma iter_M_map: "iter_M g (map h xs) = iter_M (g \<circ> h) xs"
  by (induction xs) simp_all

lemma unbind_pattern_spec:
  assumes "length xs = length as" "val_cells s xs" "alloc s as"
  shows "\<exists>s'. unbind_pattern (map (\<lambda>(x, a). (x, sv x, a)) (zip xs as)) s = Inr ((), s') \<and>
    rc_only (s\<lparr>sval := (\<lambda>y. if y \<in> set xs then sv y else sval s y)\<rparr>) s'"
  unfolding unbind_pattern_def iter_M_map
  by (rule restore_loop [OF _ assms]) (auto simp: run_simps rc_only_def)

lemma restore_params_spec:
  assumes "length xs = length as" "val_cells s xs" "alloc s as"
  shows "\<exists>s'. iter_M (\<lambda>((var, old), a). sq (dec a) (setval var old)) (zip (map (\<lambda>x. (x, sv x)) xs) as) s =
      Inr ((), s') \<and> rc_only (s\<lparr>sval := (\<lambda>y. if y \<in> set xs then sv y else sval s y)\<rparr>) s'"
  unfolding zip_map1 iter_M_map
  by (rule restore_loop [OF _ assms]) (auto simp: run_simps rc_only_def)

text \<open>Binding, running something that keeps the graph, restoring: the graph is kept.\<close>

lemma frame_bind:
  assumes "rc_only (s\<lparr>sval := upd_vals xs as (sval s)\<rparr>) s1" "set xs \<subseteq> V"
  shows "agree V s s1"
  using assms upd_vals_other [of _ xs as "sval s"] by (auto simp: rc_only_def agree_def bounded_def)

lemma frame_ext:
  assumes "rc_only (s\<lparr>sval := upd_vals xs as (sval s)\<rparr>) s1" "ext s1 s2"
    and "rc_only (s2\<lparr>sval := (\<lambda>y. if y \<in> set xs then sval s y else sval s2 y)\<rparr>) s3"
  shows "ext s s3"
  using assms upd_vals_other [of _ xs as "sval s"] by (auto simp: rc_only_def agree_def bounded_def)

section \<open>One evaluation step\<close>

text \<open>Rules for the evaluator itself: what it returns, given what its recursive calls return.\<close>

lemmas run_defs = run_op_def run_do_def run_let_def run_arith_def run_neg_def run_mpz_to_mpq_def run_if_def
  run_match_def run_app_def or_null_def

lemma run_null:
  assumes "node s a = Some (CExpr opr ks)" "i < length ks"
    and "(opr, i) \<in> {(DO, 0), (LET, 1), (ADD, 0), (MUL, 0), (DIV, 0), (NEG, 0), (MPZ_TO_MPQ, 0),
           (IFNEG, 0), (IFZERO, 0), (MATCH, 0)}"
    and r: "returns (\<lambda>n. run_code_internal n u (ks ! i)) s (None, s')"
  shows "returns (\<lambda>n. run_code_internal n u a) s (None, s')"
  by (rule returns_Suc, rule returns_elim1 [OF r]) (use assms(1-3) in \<open>auto simp: run_simps run_defs\<close>)

lemma run_do_rule:
  assumes "node s a = Some (CExpr DO [k, l])" "node s1 a = Some (CExpr DO [k, l])" "alloc s1 [b]"
    and r: "returns (\<lambda>n. run_code_internal n u k) s (Some b, s1)"
      "returns (\<lambda>n. run_code_internal n u l) (dec_st b s1) r"
  shows "returns (\<lambda>n. run_code_internal n u a) s r"
  by (rule returns_Suc, rule returns_elim2 [OF r])
    (use assms(1-3) in \<open>auto simp: run_simps run_defs alloc_def\<close>)

lemma run_let_rule:
  assumes "node s a = Some (CExpr LET [x, k, l])" "node s1 a = Some (CExpr LET [x, k, l])"
    "val_cells s1 [x]" "val_cells s2 [x]" "alloc s2 [b]"
    and r: "returns (\<lambda>n. run_code_internal n u k) s (Some b, s1)"
      "returns (\<lambda>n. run_code_internal n u l) (s1\<lparr>sval := (sval s1)(x \<mapsto> b)\<rparr>) (r, s2)"
  shows "returns (\<lambda>n. run_code_internal n u a) s
    (r, dec_st b (s2\<lparr>sval := (sval s2)(x := sval s1 x)\<rparr>))"
  by (rule returns_Suc, rule returns_elim2 [OF r])
    (use assms(1-5) in \<open>auto simp: run_simps run_defs alloc_def val_cells_def\<close>)

definition arith_node :: "op \<Rightarrow> node \<Rightarrow> node \<Rightarrow> node option" where
  "arith_node opr nb nc =
     (case nb of
        IntExpr i \<Rightarrow> (case nc of IntExpr j \<Rightarrow> map_option IntExpr (arith_int opr i j) | _ \<Rightarrow> None)
      | RatExpr p \<Rightarrow> (case nc of RatExpr q \<Rightarrow> map_option RatExpr (arith_rat opr p q) | _ \<Rightarrow> None)
      | _ \<Rightarrow> None)"

lemma run_arith_rule:
  assumes "node s a = Some (CExpr opr [k, l])" "node s1 a = Some (CExpr opr [k, l])"
    "opr = ADD \<or> opr = MUL \<or> opr = DIV" "node s2 b = Some nb" "node s2 c = Some nc"
    and r: "returns (\<lambda>n. run_code_internal n u k) s (Some b, s1)"
      "returns (\<lambda>n. run_code_internal n u l) s1 (Some c, s2)"
  shows "returns (\<lambda>n. run_code_internal n u a) s
    (case arith_node opr nb nc of
       None \<Rightarrow> (None, dec_st c (dec_st b s2))
     | Some nd \<Rightarrow> (Some (brk s2), snd (projr (new_expr nd (dec_st c (dec_st b s2))))))"
  by (rule returns_Suc, rule returns_elim2 [OF r])
    (use assms(1-5) in \<open>auto simp: run_simps run_defs arith_node_def new_expr_def Let_def
       split: node.split option.split\<close>)

lemma run_arith_null2:
  assumes "node s a = Some (CExpr opr [k, l])" "node s1 a = Some (CExpr opr [k, l])"
    "opr = ADD \<or> opr = MUL \<or> opr = DIV"
    and r: "returns (\<lambda>n. run_code_internal n u k) s (Some b, s1)"
      "returns (\<lambda>n. run_code_internal n u l) s1 (None, s2)"
  shows "returns (\<lambda>n. run_code_internal n u a) s (None, s2)"
  by (rule returns_Suc, rule returns_elim2 [OF r]) (use assms(1-3) in \<open>auto simp: run_simps run_defs\<close>)

lemma run_unary_rule:
  assumes "node s a = Some (CExpr opr [k])" "node s1 b = Some nb"
    and "(opr = NEG \<and> (\<exists>i. nb = IntExpr i \<and> nd = IntExpr (- i)) \<and> s2 = dec_st b s1) \<or>
         (opr = NEG \<and> (\<exists>q. nb = RatExpr q \<and> nd = RatExpr (- q)) \<and> s2 = dec_st b s1) \<or>
         (opr = MPZ_TO_MPQ \<and> (\<exists>i. nb = IntExpr i \<and> nd = RatExpr (of_int i)) \<and> s2 = s1)"
    and r: "returns (\<lambda>n. run_code_internal n u k) s (Some b, s1)"
  shows "returns (\<lambda>n. run_code_internal n u a) s (Some (brk s1), snd (projr (new_expr nd s2)))"
  by (rule returns_Suc, rule returns_elim1 [OF r])
    (use assms(1-3) in \<open>auto simp: run_simps run_defs new_expr_def Let_def\<close>)

lemma run_if_rule:
  assumes "node s a = Some (CExpr opr [k, l, m])" "node s1 a = Some (CExpr opr [k, l, m])"
    "opr = IFNEG \<or> opr = IFZERO" "node s1 b = Some nb"
    and t: "(\<exists>i. nb = IntExpr i \<and> t = (if opr = IFNEG then i < 0 else i = 0)) \<or>
            (\<exists>q. nb = RatExpr q \<and> t = (if opr = IFNEG then q < 0 else q = 0))"
    and r: "returns (\<lambda>n. run_code_internal n u k) s (Some b, s1)"
      "returns (\<lambda>n. run_code_internal n u (if t then l else m)) (dec_st b s1) r"
  shows "returns (\<lambda>n. run_code_internal n u a) s r"
  by (rule returns_Suc, rule returns_elim2 [OF r])
    (use assms(1-5) in \<open>auto simp: run_simps run_defs split: if_splits\<close>)

lemma run_if_stuck:
  assumes "node s a = Some (CExpr opr [k, l, m])" "opr = IFNEG \<or> opr = IFZERO" "node s1 b = Some nb"
    and "\<forall>i. nb \<noteq> IntExpr i" "\<forall>q. nb \<noteq> RatExpr q"
    and r: "returns (\<lambda>n. run_code_internal n u k) s (Some b, s1)"
  shows "returns (\<lambda>n. run_code_internal n u a) s (None, dec_st b s1)"
  by (rule returns_Suc, rule returns_elim1 [OF r])
    (use assms(1-5) in \<open>cases nb; auto simp: run_simps run_defs\<close>)

lemma run_lit_rule:
  assumes "node s a = Some nd" "class_of nd = INT_EXPR \<or> class_of nd = RAT_EXPR"
  shows "returns (\<lambda>n. run_code_internal n u a) s (Some a, s\<lparr>refs := (refs s)(a := ref_inc (refs s a))\<rparr>)"
  by (rule returns_Suc, rule returns_all)
    (use assms in \<open>cases nd; auto simp: run_simps run_atom_def\<close>)

lemma run_fail_rule:
  assumes "node s a = Some (CExpr FAIL ks)"
  shows "returns (\<lambda>n. run_code_internal n u a) s (None, s)"
  by (rule returns_Suc, rule returns_all) (use assms in \<open>auto simp: run_simps run_op_def\<close>)

lemma run_sym_rule:
  assumes "node s a = Some nd" "is_sym nd" "node s b = Some nb"
    and r: "returns (\<lambda>n. followDefs n a) s (b, s)"
  shows "returns (\<lambda>n. run_code_internal n u a) s (Some b, s\<lparr>refs := (refs s)(b := ref_inc (refs s b))\<rparr>)"
  by (rule returns_Suc, rule returns_elim1 [OF r])
    (use assms(1-3) in \<open>cases nd; auto simp: run_simps run_atom_def simp del: followDefs.simps\<close>)

lemma followDefs_const: "const_cell V s h \<Longrightarrow> returns (\<lambda>n. followDefs n h) s (h, s)"
  by (rule followDefs_returns) (auto simp: const_cell_def at_end_def)

lemma followDefs_prog:
  "prog_cell V s p xs body \<Longrightarrow> sval s p = Some pc \<Longrightarrow> returns (\<lambda>n. followDefs n p) s (pc, s)"
  by (rule followDefs_returns)
    (auto simp: prog_cell_def at_end_def points_to_def is_sym_has_val intro!: r_into_rtranclp)

lemma run_ctor_rule:
  assumes "node s a = Some (CExpr APP (h # ks))" "const_cell V s h" "const_cell V s1 h" "bs \<noteq> []"
    and r: "returns (\<lambda>n. run_args (run_code_internal n u) [] ks) s (Some bs, s1)"
  shows "returns (\<lambda>n. run_code_internal n u a) s (Some (brk s1), snd (projr
    (new_expr (CExpr APP (h # bs)) (s1\<lparr>refs := (refs s1)(h := ref_inc (refs s1 h))\<rparr>))))"
proof -
  from assms(3) obtain nd where "node s1 h = Some nd" "op_of nd \<noteq> PROG"
    by (auto simp: const_cell_def elim: is_sym.elims)
  with assms(1,4) show ?thesis
    by (intro returns_Suc [OF returns_elim2 [OF followDefs_const [OF assms(2)] r]])
      (auto simp: run_simps run_defs collect_args_def build_app_def new_expr_def Let_def)
qed

lemma run_app_null:
  assumes "node s a = Some (CExpr APP (h # ks))" "returns (\<lambda>n. followDefs n h) s (h', s)"
    and r: "returns (\<lambda>n. run_args (run_code_internal n u) [] ks) s (None, s1)"
  shows "returns (\<lambda>n. run_code_internal n u a) s (None, s1)"
  by (rule returns_Suc, rule returns_elim2 [OF assms(2) r])
    (use assms(1) in \<open>auto simp: run_simps run_defs collect_args_def\<close>)

text \<open>A call of a program: the parameters are bound to the arguments while the body runs.\<close>

lemma run_call_rule:
  assumes a: "node s a = Some (CExpr APP (p # ks))" "prog_cell V s p xs body"
    "node s1 a = Some (CExpr APP (p # ks))" "prog_cell V s1 p xs body" "sval s1 p = sval s p" "\<not> run_scc s1"
    and x: "length xs = length as" "distinct xs" "val_cells s1 xs" "val_cells s2 xs" "alloc s2 as"
    and s3: "iter_M (\<lambda>((var, old), a). sq (dec a) (setval var old))
        (zip (map (\<lambda>x. (x, sval s1 x)) xs) as) s2 = Inr ((), s3)"
    and r: "returns (\<lambda>n. run_args (run_code_internal n u) [] ks) s (Some as, s1)"
      "returns (\<lambda>n. run_code_internal n False body) (s1\<lparr>sval := upd_vals xs as (sval s1)\<rparr>) (r, s2)"
    and u: "\<not> u"
  shows "returns (\<lambda>n. run_code_internal n u a) s (r, s3)"
proof -
  from a(4) obtain pc tp vs opr nd where p: "sval s1 p = Some pc" "node s1 pc = Some (CExpr PROG [tp, vs, body])"
    "node s1 vs = Some (CExpr opr xs)" "node s1 p = Some nd" "is_sym nd" "\<not> progFunctions s1 p"
    by (auto simp: prog_cell_def)
  have f: "returns (\<lambda>n. followDefs n p) s (pc, s)"
    using followDefs_prog [OF a(2)] p(1) a(5) by simp
  have "op_of nd \<noteq> APP" using p(5) by (cases nd) auto
  then have rigid: "rigid_head s1 p"
    using p(4,5) by (cases nd) (auto simp: rigid_head_def)
  have hd_ret: "returns (\<lambda>n. get_head n False a) s1 (p, s1)"
    by (rule returns_Suc, rule returns_elim1 [OF get_head_returns_self [OF rigid, of False]])
      (use a(3) in \<open>auto simp: run_simps simp del: get_head.simps(1)\<close>)
  have body_ret: "returns (\<lambda>n. run_body (run_code_internal n) False pc p as (map (\<lambda>x. (x, sval s1 x)) xs))
      (s1\<lparr>sval := upd_vals xs as (sval s1)\<rparr>) (r, s3)"
    by (rule returns_elim1 [OF r(2)])
      (use p s3 in \<open>auto simp: run_body_def run_simps split: option.split\<close>)
  have prog_ret: "returns (\<lambda>n. run_prog (run_code_internal n) n u a pc as) s1 (r, s3)"
    by (rule returns_elim2 [OF hd_ret body_ret])
      (use p a(6) u bind_params_spec [OF x(1-3)] in \<open>auto simp: run_prog_def run_simps\<close>)
  show ?thesis
    by (rule returns_Suc, rule returns_elim3 [OF f r(1) prog_ret])
      (use a(1) p in \<open>auto simp: run_simps run_defs collect_args_def\<close>)
qed

lemma collect_val:
  assumes "is_val V s b v"
  shows "\<exists>hd1 as. returns (\<lambda>n. collect_args n b True) s ((hd1, as), s) \<and>
    is_val V s hd1 (fst (fhead v)) \<and> list_all2 (den V s) as (snd (fhead v))"
proof (cases "\<exists>ts. v = FApp ts")
  case True
  then obtain ts ks where "v = FApp ts" and nd: "node s b = Some (CExpr APP ks)" "ks \<noteq> []"
    "list_all2 (den V s) ks ts"
    using assms den_at_end [of V s b] by (fastforce simp: is_val_def)
  then obtain k ks' t ts' where ks: "ks = k # ks'" "v = FApp (t # ts')" "den V s k t" "list_all2 (den V s) ks' ts'"
    by (cases ks) (auto simp: list_all2_Cons1)
  from followDefs_den [OF ks(3)] obtain h where
    h: "returns (\<lambda>n. followDefs n k) s (h, s)" "at_end s h" "den V s h t" by blast
  have "returns (\<lambda>n. collect_args n b True) s ((h, ks'), s)"
    by (rule returns_elim1 [OF h(1)]) (use nd ks in \<open>auto simp: collect_args_def run_simps\<close>)
  with h ks show ?thesis by (auto simp: is_val_def)
next
  case False
  then have v: "fhead v = (v, [])" by (cases v) auto
  from False assms obtain nd where "node s b = Some nd" "op_of nd \<noteq> APP"
    using rigid_head_self [of V s b v] by (auto simp: is_val_def rigid_head_def)
  moreover have "returns (\<lambda>n. followDefs n b) s (b, s)"
    using assms by (intro followDefs_returns) (auto simp: is_val_def)
  ultimately have "returns (\<lambda>n. collect_args n b True) s ((b, []), s)"
    by (elim returns_elim1) (auto simp: collect_args_def run_simps)
  with v assms show ?thesis by auto
qed

lemma run_match_rule:
  assumes "node s a = Some (CExpr MATCH (k # ks))" "node s1 a = Some (CExpr MATCH (k # ks))" "is_val V s1 b v"
    and c: "returns (\<lambda>n. collect_args n b True) s1 ((hd1, as), s1)"
    and r: "returns (\<lambda>n. run_code_internal n u k) s (Some b, s1)"
      "returns (\<lambda>n. run_cases (run_code_internal n u) n b hd1 as ks) s1 r"
  shows "returns (\<lambda>n. run_code_internal n u a) s r"
proof -
  obtain nd where nd: "node s1 b = Some nd" using is_val_node [OF assms(3)] by blast
  have w: "returns (\<lambda>n. whr n b) s1 (b, s1)"
    using assms(3) whr_den [of V s1 b v] by (simp add: is_val_def)
  have m: "returns (\<lambda>n. run_match (run_code_internal n u) n a) s r"
    by (rule returns_elim4 [OF r(1) w c r(2)])
      (use assms(1,2) nd in \<open>auto simp: run_match_def or_null_def run_simps\<close>)
  show ?thesis
    by (rule returns_Suc, rule returns_elim1 [OF m]) (use assms(1) in \<open>auto simp: run_simps run_op_def\<close>)
qed

lemma pattern_head:
  assumes "pattern_cell V s p h xs"
  shows "returns (\<lambda>n. get_head n True p) s (h, s)" "returns (\<lambda>n. collect_args n p True) s ((h, xs), s)"
proof -
  have c: "const_cell V s h" using assms by (simp add: pattern_cell_def)
  then obtain nd where nd: "node s h = Some nd" "is_sym nd" by (auto simp: const_cell_def)
  have "rigid_head s h" using nd by (cases nd) (auto simp: rigid_head_def)
  then have g: "returns (\<lambda>n. get_head n True h) s (h, s)" by (rule get_head_returns_self)
  show "returns (\<lambda>n. get_head n True p) s (h, s)"
  proof (cases xs)
    case Nil
    with assms g show ?thesis by (simp add: pattern_cell_def)
  next
    case (Cons x xs')
    show ?thesis
      by (rule returns_Suc, rule returns_elim2 [OF followDefs_const [OF c] g])
        (use assms Cons in \<open>auto simp: pattern_cell_def run_simps\<close>)
  qed
  show "returns (\<lambda>n. collect_args n p True) s ((h, xs), s)"
    by (rule returns_elim1 [OF followDefs_const [OF c]])
      (use assms nd in \<open>cases nd; auto simp: pattern_cell_def run_simps collect_args_def split: if_splits\<close>)
qed

lemma run_case_rule:
  assumes c: "node s c = Some (CExpr CASE [p, k])" "pattern_cell V s p h xs"
    and b: "bind_pattern xs as s = Inr (olds, s1)" "node s1 c = Some (CExpr CASE [p, k])" "alloc s1 [b]"
      "unbind_pattern olds s2 = Inr ((), s3)"
    and r: "returns (\<lambda>n. run_code_internal n u k) (dec_st b s1) (r, s2)"
  shows "returns (\<lambda>n. run_cases (run_code_internal n u) n b h as (c # cs)) s (r, s3)"
  by (rule returns_elim3 [OF pattern_head [OF c(2)] r])
    (use c b in \<open>auto simp: run_simps alloc_def\<close>)

lemma run_skip_rule:
  assumes c: "node s c = Some (CExpr CASE [p, k])" "pattern_cell V s p h xs" "hd1 \<noteq> h"
    and r: "returns (\<lambda>n. run_cases (run_code_internal n u) n b hd1 as cs) s r"
  shows "returns (\<lambda>n. run_cases (run_code_internal n u) n b hd1 as (c # cs)) s r"
  by (rule returns_elim2 [OF pattern_head(1) [OF c(2)] r]) (use c in \<open>auto simp: run_simps\<close>)

lemma run_default_rule:
  assumes c: "node s c = Some nd" "op_of nd \<noteq> CASE"
    and r: "returns (\<lambda>n. run_code_internal n u c) s r"
  shows "returns (\<lambda>n. run_cases (run_code_internal n u) n b hd1 as (c # cs)) s r"
  by (rule returns_elim1 [OF r]) (use c in \<open>auto simp: run_simps\<close>)

section \<open>The evaluator implements the semantics\<close>

definition outcome :: "addr set \<Rightarrow> st \<Rightarrow> addr option \<Rightarrow> st \<Rightarrow> fterm option \<Rightarrow> bool" where
  "outcome V s r s' ro \<longleftrightarrow> ext s s' \<and>
     (case ro of None \<Rightarrow> r = None | Some v \<Rightarrow> \<exists>b. r = Some b \<and> is_val V s' b v)"

definition sim :: "addr set \<Rightarrow> st \<Rightarrow> (nat \<Rightarrow> (st, addr option) M) \<Rightarrow> fterm option \<Rightarrow> bool" where
  "sim V s m ro \<longleftrightarrow> (\<exists>r s'. returns m s (r, s') \<and> outcome V s r s' ro)"

lemma simI: "returns m s (r, s') \<Longrightarrow> outcome V s r s' ro \<Longrightarrow> sim V s m ro"
  by (auto simp: sim_def)

lemma sim_None: "sim V s m None \<longleftrightarrow> (\<exists>s'. returns m s (None, s') \<and> ext s s')"
  by (auto simp: sim_def outcome_def)

lemma sim_Some: "sim V s m (Some v) \<longleftrightarrow> (\<exists>b s'. returns m s (Some b, s') \<and> ext s s' \<and> is_val V s' b v)"
  by (auto simp: sim_def outcome_def)

lemma outcome_ext: "ext s s1 \<Longrightarrow> outcome V s1 r s2 ro \<Longrightarrow> outcome V s r s2 ro"
  unfolding outcome_def by (blast intro: grows.rel_trans)

lemma is_val_num:
  "node s a = Some (IntExpr i) \<Longrightarrow> is_val V s a (FInt i)"
  "node s a = Some (RatExpr q) \<Longrightarrow> is_val V s a (FRat q)"
  by (auto simp: is_val_def at_end_def intro: den.intros)

lemma is_val_cases:
  "is_val V s a (FInt i) \<Longrightarrow> node s a = Some (IntExpr i)"
  "is_val V s a (FRat q) \<Longrightarrow> node s a = Some (RatExpr q)"
  "is_val V s a (FSym h) \<Longrightarrow> h = a"
  using den_at_end [of V s a] by (fastforce simp: is_val_def)+

lemma is_val_not_num:
  "is_val V s a v \<Longrightarrow> node s a = Some nd \<Longrightarrow> (nd = IntExpr i \<longleftrightarrow> v = FInt i) \<and> (nd = RatExpr q \<longleftrightarrow> v = FRat q)"
  using is_val_cases den_fun is_val_num by (metis is_val_def option.inject)

fun num_node :: "fterm \<Rightarrow> node" where
  "num_node (FInt i) = IntExpr i"
| "num_node (FRat q) = RatExpr q"
| "num_node t = HoleExpr"

lemma arith_node_val:
  assumes "is_val V s a v" "is_val V s b w" "node s a = Some na" "node s b = Some nb"
  shows "arith_node opr na nb = map_option num_node (arith_val opr v w)"
    and "arith_val opr v w = Some t \<Longrightarrow> node s' c = Some (num_node t) \<Longrightarrow> is_val V s' c t"
  using is_val_not_num [OF assms(1,3)] is_val_not_num [OF assms(2,4)] is_val_num
  by (auto simp: arith_node_def arith_val_def option.map_comp comp_def
      split: node.splits fterm.splits)

lemma new_ext:
  assumes "bounded s"
  shows "ext s (snd (projr (new_expr nd s)))" "node (snd (projr (new_expr nd s))) (brk s) = Some nd"
  using assms by (auto simp: new_expr_def Let_def agree_def bounded_def less_Suc_eq)

lemma is_val_ext: "ext s s' \<Longrightarrow> bounded s \<Longrightarrow> is_val V s a v \<Longrightarrow> is_val V s' a v"
  using is_val_agree ext_agree by blast

lemma is_val_sym: "const_cell V s h \<Longrightarrow> is_val V s h (FSym h)"
  by (auto simp: const_cell_def is_val_def at_end_def intro: den.den_sym)

lemma alloc_val: "is_val V s a v \<Longrightarrow> alloc s [a]"
  using is_val_node by (auto simp: alloc_def)

lemma alloc_ext: "ext s s' \<Longrightarrow> bounded s \<Longrightarrow> alloc s as \<Longrightarrow> alloc s' as"
  using agree_node by (fastforce simp: alloc_def)

lemma val_cells_vars: "\<forall>x \<in> set xs. var_cell V s x \<Longrightarrow> val_cells s xs"
  using is_sym_has_val by (fastforce simp: val_cells_def var_cell_def)

lemma sim_lit:
  assumes "bounded s" "is_val V s a v" "node s a = Some nd" "class_of nd = INT_EXPR \<or> class_of nd = RAT_EXPR"
  shows "sim V s (\<lambda>n. run_code_internal n u a) (Some v)"
  unfolding sim_Some
  using run_lit_rule [OF assms(3,4)] agree_rc(1) is_val_ext [OF agree_rc(1) assms(1,2)] by blast

lemma sim_sym:
  assumes "bounded s" "node s a = Some nd" "is_sym nd" "(points_to s)\<^sup>*\<^sup>* a b" "is_val V s b v"
  shows "sim V s (\<lambda>n. run_code_internal n u a) (Some v)"
proof -
  obtain nb where nb: "node s b = Some nb" using is_val_node [OF assms(5)] by blast
  have "returns (\<lambda>n. followDefs n a) s (b, s)"
    using assms by (intro followDefs_returns) (auto simp: is_val_def)
  with run_sym_rule [OF assms(2,3) nb] show ?thesis
    unfolding sim_Some
    using agree_rc(1) is_val_ext [OF agree_rc(1) assms(1,5)] by blast
qed

lemma sim_new:
  assumes "returns m s (Some (brk s1), snd (projr (new_expr nd s1)))" "ext s s1" "bounded s1"
    and "\<And>s'. node s' (brk s1) = Some nd \<Longrightarrow> ext s1 s' \<Longrightarrow> is_val V s' (brk s1) v"
  shows "sim V s m (Some v)"
  unfolding sim_Some
  using assms(1,2) assms(4) [OF new_ext(2,1)] new_ext(1) [OF assms(3)] assms(3)
  by (blast intro: grows.rel_trans)

lemma ext_dec: "ext s s' \<Longrightarrow> ext s (dec_st a s')"
  using grows.rel_trans agree_rc(2) by blast

lemma sim_var:
  assumes "run_ok P V s" "env_ok V s \<rho>" "\<rho> x = Some v"
  shows "sim V s (\<lambda>n. run_code_internal n u x) (Some v)"
proof -
  from assms(2,3) obtain nd b where x: "node s x = Some nd" "is_sym nd" "sval s x = Some b" "den V s b v"
    unfolding env_ok_def var_cell_def by blast
  from den_end [OF x(4)] obtain c where c: "(points_to s)\<^sup>*\<^sup>* b c" "is_val V s c v"
    by (auto simp: is_val_def)
  have "points_to s x b" using x is_sym_has_val by (auto simp: points_to_def)
  then have "(points_to s)\<^sup>*\<^sup>* x c" using c(1) by (rule converse_rtranclp_into_rtranclp)
  with sim_sym [OF run_ok_bounded [OF assms(1)] x(1,2) _ c(2)] show ?thesis by blast
qed

lemma sim_const:
  assumes "run_ok P V s" "node s a = Some nd" "is_sym nd" "den V s a t"
  shows "sim V s (\<lambda>n. run_code_internal n u a) (Some t)"
  using den_end [OF assms(4)] sim_sym [OF run_ok_bounded [OF assms(1)] assms(2,3)]
  by (auto simp: is_val_def)

subsection \<open>Each construct\<close>

definition ctx :: "prog_table \<Rightarrow> addr set \<Rightarrow> st \<Rightarrow> env \<Rightarrow> bool" where
  "ctx P V s \<rho> \<longleftrightarrow> run_ok P V s \<and> env_ok V s \<rho>"

definition impl :: "prog_table \<Rightarrow> addr set \<Rightarrow> env \<Rightarrow> code \<Rightarrow> fterm option \<Rightarrow> bool" where
  "impl P V \<rho> c ro \<longleftrightarrow> (\<forall>s a. ctx P V s \<rho> \<longrightarrow> cd V s a c \<longrightarrow> sim V s (\<lambda>n. run_code_internal n False a) ro)"

definition impls :: "prog_table \<Rightarrow> addr set \<Rightarrow> env \<Rightarrow> code list \<Rightarrow> fterm list option \<Rightarrow> bool" where
  "impls P V \<rho> cs ro \<longleftrightarrow> (\<forall>s ks rs. ctx P V s \<rho> \<longrightarrow> list_all2 (cd V s) ks cs \<longrightarrow> alloc s rs \<longrightarrow>
     (\<exists>r s'. returns (\<lambda>n. run_args (run_code_internal n False) rs ks) s (r, s') \<and> ext s s' \<and>
       (case ro of None \<Rightarrow> r = None
        | Some vs \<Rightarrow> \<exists>bs. r = Some (rs @ bs) \<and> list_all2 (is_val V s') bs vs)))"

definition implb :: "prog_table \<Rightarrow> addr set \<Rightarrow> env \<Rightarrow> fterm \<Rightarrow> branch list \<Rightarrow> fterm option \<Rightarrow> bool" where
  "implb P V \<rho> v bs ro \<longleftrightarrow> (\<forall>s ks b hd1 as. ctx P V s \<rho> \<longrightarrow> list_all2 (cdb V s) ks bs \<longrightarrow> alloc s [b] \<longrightarrow>
     is_val V s hd1 (fst (fhead v)) \<longrightarrow> list_all2 (den V s) as (snd (fhead v)) \<longrightarrow>
     sim V s (\<lambda>n. run_cases (run_code_internal n False) n b hd1 as ks) ro)"

lemma ctx_ext: "ext s s' \<Longrightarrow> ctx P V s \<rho> \<Longrightarrow> ctx P V s' \<rho>"
  unfolding ctx_def using env_ok_ext run_ok_agree ext_agree run_ok_bounded by blast

lemma ctx_bounded: "ctx P V s \<rho> \<Longrightarrow> bounded s"
  by (simp add: ctx_def run_ok_def)

lemma cd_ext: "ext s s' \<Longrightarrow> ctx P V s \<rho> \<Longrightarrow> cd V s a c \<Longrightarrow> cd V s' a c"
  using cd_agree(1) ext_agree ctx_bounded by blast

lemma node_ext: "ext s s' \<Longrightarrow> ctx P V s \<rho> \<Longrightarrow> node s a = Some nd \<Longrightarrow> node s' a = Some nd"
  using agree_node ctx_bounded by blast

text \<open>The result of a subterm, and the state in which evaluation goes on.\<close>

lemma impl_Some:
  assumes "impl P V \<rho> c (Some v)" "ctx P V s \<rho>" "cd V s a c"
  shows "\<exists>b s1. returns (\<lambda>n. run_code_internal n False a) s (Some b, s1) \<and> ext s s1 \<and> is_val V s1 b v \<and>
    ctx P V s1 \<rho> \<and> alloc s1 [b]"
  using assms ctx_ext alloc_val unfolding impl_def sim_Some by blast

lemma impl_None:
  assumes "impl P V \<rho> c None" "ctx P V s \<rho>" "cd V s a c"
  shows "\<exists>s1. returns (\<lambda>n. run_code_internal n False a) s (None, s1) \<and> ext s s1"
  using assms unfolding impl_def sim_None by blast

lemma impl_null:
  assumes c: "impl P V \<rho> c None"
    and d: "\<And>s a. cd V s a d \<Longrightarrow> \<exists>opr ks i. node s a = Some (CExpr opr ks) \<and> i < length ks \<and> cd V s (ks ! i) c \<and>
      (opr, i) \<in> {(DO, 0), (LET, 1), (ADD, 0), (MUL, 0), (DIV, 0), (NEG, 0), (MPZ_TO_MPQ, 0),
        (IFNEG, 0), (IFZERO, 0), (MATCH, 0)}"
  shows "impl P V \<rho> d None"
  unfolding impl_def sim_None using impl_None [OF c] d run_null by meson

inductive_cases cdE:
  "cd V s a (CInt i)" "cd V s a (CRat q)" "cd V s a (CConst t)" "cd V s a (CVar x)" "cd V s a CFail"
  "cd V s a (CDo c d)" "cd V s a (CLet x c d)" "cd V s a (CArith opr c d)" "cd V s a (CNeg c)"
  "cd V s a (CToQ c)" "cd V s a (CIf opr c d e)" "cd V s a (CCtor h cs)" "cd V s a (CCall p cs)"
  "cd V s a (CMatch c bs)" "cdb V s a (BCase h xs c)" "cdb V s a (BDefault c)"

lemma impl_do:
  assumes "impl P V \<rho> c (Some v)" "impl P V \<rho> d r"
  shows "impl P V \<rho> (CDo c d) r"
  unfolding impl_def
proof (intro allI impI, elim cdE)
  fix s a k l assume x: "ctx P V s \<rho>" and a: "node s a = Some (CExpr DO [k, l])" and k: "cd V s k c" "cd V s l d"
  from impl_Some [OF assms(1) x k(1)] obtain b s1 where
    1: "returns (\<lambda>n. run_code_internal n False k) s (Some b, s1)" "ext s s1" "alloc s1 [b]" by blast
  have e: "ext s (dec_st b s1)" using 1(2) by (rule ext_dec)
  from assms(2) ctx_ext [OF e x] cd_ext [OF e x k(2)] obtain r' s2 where
    2: "returns (\<lambda>n. run_code_internal n False l) (dec_st b s1) (r', s2)" "outcome V (dec_st b s1) r' s2 r"
    unfolding impl_def sim_def by blast
  show "sim V s (\<lambda>n. run_code_internal n False a) r"
    by (rule simI [OF run_do_rule [OF a node_ext [OF 1(2) x a] 1(3,1) 2(1)] outcome_ext [OF e 2(2)]])
qed

lemma impl_arith:
  assumes "impl P V \<rho> c (Some v)" "impl P V \<rho> d (Some w)"
  shows "impl P V \<rho> (CArith opr c d) (arith_val opr v w)"
  unfolding impl_def
proof (intro allI impI, elim cdE)
  fix s a k l assume x: "ctx P V s \<rho>" and a: "node s a = Some (CExpr opr [k, l])"
    and opr: "opr = ADD \<or> opr = MUL \<or> opr = DIV" and k: "cd V s k c" "cd V s l d"
  from impl_Some [OF assms(1) x k(1)] obtain b s1 where
    1: "returns (\<lambda>n. run_code_internal n False k) s (Some b, s1)" "ext s s1" "is_val V s1 b v" "ctx P V s1 \<rho>"
    by blast
  from impl_Some [OF assms(2) 1(4) cd_ext [OF 1(2) x k(2)]] obtain e s2 where
    2: "returns (\<lambda>n. run_code_internal n False l) s1 (Some e, s2)" "ext s1 s2" "is_val V s2 e w" "ctx P V s2 \<rho>"
    by blast
  have b: "is_val V s2 b v" using is_val_ext [OF 2(2) ctx_bounded [OF 1(4)] 1(3)] .
  obtain nb ne where n: "node s2 b = Some nb" "node s2 e = Some ne"
    using is_val_node [OF b] is_val_node [OF 2(3)] by blast
  have ext2: "ext s (dec_st e (dec_st b s2))"
    using 1(2) 2(2) by (blast intro: ext_dec grows.rel_trans)
  have bd: "bounded (dec_st e (dec_st b s2))"
    using ctx_bounded [OF ctx_ext [OF ext2 x]] .
  note r = run_arith_rule [OF a node_ext [OF 1(2) x a] opr n 1(1) 2(1),
      unfolded arith_node_val(1) [OF b 2(3) n]]
  show "sim V s (\<lambda>n. run_code_internal n False a) (arith_val opr v w)"
  proof (cases "arith_val opr v w")
    case None
    with r ext2 show ?thesis by (auto simp: sim_None)
  next
    case (Some t)
    with r have "returns (\<lambda>n. run_code_internal n False a) s
        (Some (brk (dec_st e (dec_st b s2))), snd (projr (new_expr (num_node t) (dec_st e (dec_st b s2)))))"
      by simp
    from sim_new [OF this ext2 bd] Some arith_node_val(2) [OF b 2(3) n Some] show ?thesis by auto
  qed
qed

lemma impl_arith_fail:
  assumes "impl P V \<rho> c (Some v)" "impl P V \<rho> d None"
  shows "impl P V \<rho> (CArith opr c d) None"
  unfolding impl_def sim_None
proof (intro allI impI, elim cdE)
  fix s a k l assume x: "ctx P V s \<rho>" and a: "node s a = Some (CExpr opr [k, l])"
    and opr: "opr = ADD \<or> opr = MUL \<or> opr = DIV" and k: "cd V s k c" "cd V s l d"
  from impl_Some [OF assms(1) x k(1)] obtain b s1 where
    1: "returns (\<lambda>n. run_code_internal n False k) s (Some b, s1)" "ext s s1" "ctx P V s1 \<rho>" by blast
  from impl_None [OF assms(2) 1(3) cd_ext [OF 1(2) x k(2)]] obtain s2 where
    2: "returns (\<lambda>n. run_code_internal n False l) s1 (None, s2)" "ext s1 s2" by blast
  from run_arith_null2 [OF a node_ext [OF 1(2) x a] opr 1(1) 2(1)] 1(2) 2(2)
  show "\<exists>s'. returns (\<lambda>n. run_code_internal n False a) s (None, s') \<and> ext s s'"
    by (blast intro: grows.rel_trans)
qed

lemma impl_unary:
  assumes c: "impl P V \<rho> c (Some v)"
    and d: "\<And>s a. cd V s a d \<Longrightarrow> \<exists>k. node s a = Some (CExpr opr [k]) \<and> cd V s k c"
    and w: "opr = NEG \<and> neg_val v = Some w \<or> opr = MPZ_TO_MPQ \<and> (\<exists>i. v = FInt i \<and> w = FRat (of_int i))"
  shows "impl P V \<rho> d (Some w)"
  unfolding impl_def
proof (intro allI impI)
  fix s a assume x: "ctx P V s \<rho>" and "cd V s a d"
  with d obtain k where a: "node s a = Some (CExpr opr [k])" and k: "cd V s k c" by blast
  from impl_Some [OF c x k] obtain b s1 where
    1: "returns (\<lambda>n. run_code_internal n False k) s (Some b, s1)" "ext s s1" "is_val V s1 b v" by blast
  obtain nb where nb: "node s1 b = Some nb" using is_val_node [OF 1(3)] by blast
  let ?s = "if opr = NEG then dec_st b s1 else s1"
  have e: "ext s ?s" using 1(2) ext_dec by simp
  have "returns (\<lambda>n. run_code_internal n False a) s (Some (brk ?s), snd (projr (new_expr (num_node w) ?s)))"
    using w run_unary_rule [OF a nb _ 1(1), of "num_node w" ?s] is_val_not_num [OF 1(3) nb]
    by (auto simp: neg_val_def split: fterm.splits)
  from sim_new [OF this e ctx_bounded [OF ctx_ext [OF e x]]] w is_val_num
  show "sim V s (\<lambda>n. run_code_internal n False a) (Some w)"
    by (auto simp: neg_val_def split: fterm.splits)
qed

lemma impl_if:
  assumes "impl P V \<rho> c (Some v)" "test_val opr v = Some t" "impl P V \<rho> (if t then d else e) r"
  shows "impl P V \<rho> (CIf opr c d e) r"
  unfolding impl_def
proof (intro allI impI, elim cdE)
  fix s a k l m assume x: "ctx P V s \<rho>" and a: "node s a = Some (CExpr opr [k, l, m])"
    and opr: "opr = IFNEG \<or> opr = IFZERO" and k: "cd V s k c" "cd V s l d" "cd V s m e"
  from impl_Some [OF assms(1) x k(1)] obtain b s1 where
    1: "returns (\<lambda>n. run_code_internal n False k) s (Some b, s1)" "ext s s1" "is_val V s1 b v" by blast
  obtain nb where nb: "node s1 b = Some nb" using is_val_node [OF 1(3)] by blast
  have ex: "ext s (dec_st b s1)" using 1(2) by (rule ext_dec)
  have "cd V (dec_st b s1) (if t then l else m) (if t then d else e)"
    using cd_ext [OF ex x k(2)] cd_ext [OF ex x k(3)] by simp
  with assms(3) ctx_ext [OF ex x] obtain r' s2 where
    2: "returns (\<lambda>n. run_code_internal n False (if t then l else m)) (dec_st b s1) (r', s2)"
      "outcome V (dec_st b s1) r' s2 r"
    unfolding impl_def sim_def by blast
  have "(\<exists>i. nb = IntExpr i \<and> t = (if opr = IFNEG then i < 0 else i = 0)) \<or>
      (\<exists>q. nb = RatExpr q \<and> t = (if opr = IFNEG then q < 0 else q = 0))"
    using assms(2) is_val_not_num [OF 1(3) nb] by (auto simp: test_val_def split: fterm.splits)
  from run_if_rule [OF a node_ext [OF 1(2) x a] opr nb this 1(1) 2(1)] outcome_ext [OF ex 2(2)]
  show "sim V s (\<lambda>n. run_code_internal n False a) r" by (rule simI)
qed

lemma impl_if_stuck:
  assumes "impl P V \<rho> c (Some v)" "test_val opr v = None"
  shows "impl P V \<rho> (CIf opr c d e) None"
  unfolding impl_def sim_None
proof (intro allI impI, elim cdE)
  fix s a k l m assume x: "ctx P V s \<rho>" and a: "node s a = Some (CExpr opr [k, l, m])"
    and opr: "opr = IFNEG \<or> opr = IFZERO" and k: "cd V s k c"
  from impl_Some [OF assms(1) x k(1)] obtain b s1 where
    1: "returns (\<lambda>n. run_code_internal n False k) s (Some b, s1)" "ext s s1" "is_val V s1 b v" by blast
  obtain nb where nb: "node s1 b = Some nb" using is_val_node [OF 1(3)] by blast
  have "\<forall>i. nb \<noteq> IntExpr i" "\<forall>q. nb \<noteq> RatExpr q"
    using assms(2) is_val_not_num [OF 1(3) nb] by (auto simp: test_val_def)
  from run_if_stuck [OF a opr nb this 1(1)] ext_dec [OF 1(2)]
  show "\<exists>s'. returns (\<lambda>n. run_code_internal n False a) s (None, s') \<and> ext s s'" by blast
qed

subsection \<open>Constructs that bind variables\<close>

lemma map_of_zip_rel:
  assumes "list_all2 R as vs" "length xs = length as" "distinct xs" "map_of (zip xs vs) x = Some v"
  shows "\<exists>a. map_of (zip xs as) x = Some a \<and> R a v"
proof -
  from assms obtain i where "i < length xs" "x = xs ! i" "v = vs ! i"
    by (metis in_set_zip map_of_SomeD fst_conv snd_conv)
  with assms show ?thesis
    by (auto simp: map_of_zip_nth list_all2_conv_all_nth)
qed

lemma map_upds_Some:
  "length xs = length ts \<Longrightarrow> distinct xs \<Longrightarrow> (m(xs [\<mapsto>] ts)) x = Some v \<Longrightarrow>
   map_of (zip xs ts) x = Some v \<or> x \<notin> set xs \<and> m x = Some v"
proof (induction xs ts arbitrary: m rule: list_induct2)
  case (Cons y ys u us)
  have "((m(y \<mapsto> u))(ys [\<mapsto>] us)) x = Some v"
    using Cons.prems(2) by (simp only: map_upds_Cons)
  from Cons.IH [OF _ this] Cons.prems(1)
  have "map_of (zip ys us) x = Some v \<or> x \<notin> set ys \<and> (m(y \<mapsto> u)) x = Some v" by simp
  with Cons.prems(1) show ?case by (auto split: if_splits dest: map_of_SomeD set_zip_leftD)
qed simp

lemma ctx_bind:
  assumes x: "ctx P V s \<rho>" and xs: "\<forall>x \<in> set xs. var_cell V s x" "distinct xs" "length xs = length as"
    and as: "list_all2 (den V s) as vs"
    and s1: "rc_only (s\<lparr>sval := upd_vals xs as (sval s)\<rparr>) s1"
    and \<rho>': "\<And>x v. \<rho>' x = Some v \<Longrightarrow> map_of (zip xs vs) x = Some v \<or> x \<notin> set xs \<and> \<rho> x = Some v"
  shows "agree V s s1" "ctx P V s1 \<rho>'"
proof -
  show ag: "agree V s s1"
    using s1 xs(1) by (intro frame_bind) (auto simp: var_cell_def)
  have "env_ok V s1 \<rho>'"
    unfolding env_ok_def
  proof (intro allI impI)
    fix y v assume "\<rho>' y = Some v"
    with \<rho>' consider "map_of (zip xs vs) y = Some v" | "y \<notin> set xs" "\<rho> y = Some v" by blast
    then have "var_cell V s y \<and> (\<exists>b. sval s1 y = Some b \<and> den V s b v)"
    proof cases
      case 1
      with map_of_zip_rel [OF as xs(3,2)] obtain a where "map_of (zip xs as) y = Some a" "den V s a v" by blast
      moreover from this have "y \<in> set xs" by (blast dest: map_of_SomeD set_zip_leftD)
      ultimately show ?thesis using xs(1) s1 by (simp add: rc_only_def upd_vals_def)
    next
      case 2
      then show ?thesis
        using x s1 upd_vals_other [of y xs as "sval s"] by (auto simp: ctx_def env_ok_def rc_only_def)
    qed
    then show "var_cell V s1 y \<and> (\<exists>b. sval s1 y = Some b \<and> den V s1 b v)"
      using var_cell_agree [OF ag ctx_bounded [OF x]] den_agree [OF ag ctx_bounded [OF x]] by blast
  qed
  with run_ok_agree [OF ag] x show "ctx P V s1 \<rho>'" by (simp add: ctx_def)
qed

text \<open>The values found in the extended scope are values in the restored one.\<close>

lemma outcome_frame:
  assumes "rc_only (s\<lparr>sval := upd_vals xs as (sval s)\<rparr>) s1" "set xs \<subseteq> V" "bounded s"
    and o: "outcome V s1 r s2 ro"
    and "rc_only (s2\<lparr>sval := (\<lambda>y. if y \<in> set xs then sval s y else sval s2 y)\<rparr>) s3"
  shows "outcome V s r s3 ro"
proof -
  have 1: "ext s1 s2" using o by (simp add: outcome_def)
  have "bounded s2"
    using frame_bind [OF assms(1,2)] 1 assms(3) agree_bounded by blast
  moreover have "agree V s2 s3"
    using assms(2,5) by (auto simp: rc_only_def agree_def bounded_def)
  ultimately show ?thesis
    using o frame_ext [OF assms(1) 1 assms(5)] is_val_agree by (auto simp: outcome_def split: option.splits)
qed

lemma impl_let:
  assumes "impl P V \<rho> c (Some v)" "impl P V (\<rho>(x \<mapsto> v)) d r"
  shows "impl P V \<rho> (CLet x c d) r"
  unfolding impl_def
proof (intro allI impI, elim cdE)
  fix s a k l assume cx: "ctx P V s \<rho>" and a: "node s a = Some (CExpr LET [x, k, l])"
    and vx: "var_cell V s x" and k: "cd V s k c" "cd V s l d"
  from impl_Some [OF assms(1) cx k(1)] obtain b s1 where
    1: "returns (\<lambda>n. run_code_internal n False k) s (Some b, s1)" "ext s s1" "is_val V s1 b v" "ctx P V s1 \<rho>"
      "alloc s1 [b]"
    by blast
  have vx1: "var_cell V s1 x" using var_cell_agree [OF ext_agree [OF 1(2)] ctx_bounded [OF cx] vx] .
  let ?s = "s1\<lparr>sval := (sval s1)(x \<mapsto> b)\<rparr>"
  have s1: "rc_only (s1\<lparr>sval := upd_vals [x] [b] (sval s1)\<rparr>) ?s"
    by (simp add: upd_vals_simps)
  have den: "list_all2 (den V s1) [b] [v]" using 1(3) by (simp add: is_val_def)
  have bind: "agree V s1 ?s" "ctx P V ?s (\<rho>(x \<mapsto> v))"
    by (rule ctx_bind [OF 1(4) _ _ _ den s1]; use vx1 in \<open>auto split: if_splits\<close>)+
  have "cd V ?s l d"
    using cd_agree(1) [OF bind(1) ctx_bounded [OF 1(4)]] cd_ext [OF 1(2) cx k(2)] by blast
  with assms(2) bind(2) obtain r' s2 where
    2: "returns (\<lambda>n. run_code_internal n False l) ?s (r', s2)" "outcome V ?s r' s2 r"
    unfolding impl_def sim_def by blast
  have e2: "ext ?s s2" using 2(2) by (simp add: outcome_def)
  have x2: "val_cells s1 [x]" "val_cells s2 [x]" "alloc s2 [b]"
    using val_cells_vars [of "[x]" V] vx1 var_cell_agree [OF bind(1) ctx_bounded [OF 1(4)] vx1]
      var_cell_agree [OF ext_agree [OF e2] ctx_bounded [OF bind(2)]] 1(5)
      alloc_ext [OF e2 ctx_bounded [OF bind(2)]] alloc_cong [of ?s s1] by auto
  note ret = run_let_rule [OF a node_ext [OF 1(2) cx a] x2 1(1) 2(1)]
  have "rc_only (s2\<lparr>sval := (\<lambda>y. if y \<in> set [x] then sval s1 y else sval s2 y)\<rparr>)
      (dec_st b (s2\<lparr>sval := (sval s2)(x := sval s1 x)\<rparr>))"
    by (auto simp: rc_only_def fun_eq_iff)
  from outcome_frame [OF s1 _ ctx_bounded [OF 1(4)] 2(2) this] vx1 outcome_ext [OF 1(2)]
  show "sim V s (\<lambda>n. run_code_internal n False a) r"
    by (intro simI [OF ret]) (auto simp: var_cell_def)
qed

subsection \<open>Arguments and applications\<close>

lemma alloc_append: "alloc s (as @ bs) \<longleftrightarrow> alloc s as \<and> alloc s bs"
  by (auto simp: alloc_def)

lemma alloc_vals: "list_all2 (is_val V s) bs vs \<Longrightarrow> alloc s bs"
  using is_val_node by (fastforce simp: alloc_def list_all2_conv_all_nth in_set_conv_nth)

lemma list_all2_cd_ext: "ext s s' \<Longrightarrow> ctx P V s \<rho> \<Longrightarrow> list_all2 (cd V s) ks cs \<Longrightarrow> list_all2 (cd V s') ks cs"
  using cd_ext by (auto elim!: list_all2_mono)

lemma impls_nil: "impls P V \<rho> [] (Some [])"
  unfolding impls_def
proof (intro allI impI)
  fix s ks rs assume "list_all2 (cd V s) ks []"
  then have "returns (\<lambda>n. run_args (run_code_internal n False) rs ks) s (Some rs, s)"
    by (intro returns_all) simp
  then show "\<exists>r s'. returns (\<lambda>n. run_args (run_code_internal n False) rs ks) s (r, s') \<and> ext s s' \<and>
      (case Some [] of None \<Rightarrow> r = None | Some vs \<Rightarrow> \<exists>bs. r = Some (rs @ bs) \<and> list_all2 (is_val V s') bs vs)"
    using grows.rel_refl by force
qed

lemma impls_cons:
  assumes "impl P V \<rho> c (Some v)" "impls P V \<rho> cs ro"
  shows "impls P V \<rho> (c # cs) (map_option ((#) v) ro)"
  unfolding impls_def
proof (intro allI impI)
  fix s ks rs assume x: "ctx P V s \<rho>" and "list_all2 (cd V s) ks (c # cs)" and rs: "alloc s rs"
  then obtain k ks' where k: "ks = k # ks'" "cd V s k c" "list_all2 (cd V s) ks' cs"
    by (auto simp: list_all2_Cons2)
  from impl_Some [OF assms(1) x k(2)] obtain b s1 where
    1: "returns (\<lambda>n. run_code_internal n False k) s (Some b, s1)" "ext s s1" "is_val V s1 b v"
      "ctx P V s1 \<rho>" "alloc s1 [b]" by blast
  have "alloc s1 (rs @ [b])"
    using alloc_ext [OF 1(2) ctx_bounded [OF x] rs] 1(5) by (simp add: alloc_append)
  with assms(2) 1(4) list_all2_cd_ext [OF 1(2) x k(3)] obtain r s2 where
    2: "returns (\<lambda>n. run_args (run_code_internal n False) (rs @ [b]) ks') s1 (r, s2)" "ext s1 s2"
      "case ro of None \<Rightarrow> r = None | Some vs \<Rightarrow> \<exists>bs. r = Some ((rs @ [b]) @ bs) \<and> list_all2 (is_val V s2) bs vs"
    unfolding impls_def by meson
  have "returns (\<lambda>n. run_args (run_code_internal n False) rs ks) s (r, s2)"
    by (rule returns_elim2 [OF 1(1) 2(1)]) (simp add: k(1) run_simps)
  moreover have "ext s s2" using 1(2) 2(2) by (blast intro: grows.rel_trans)
  moreover have "is_val V s2 b v" using is_val_ext [OF 2(2) ctx_bounded [OF 1(4)] 1(3)] .
  ultimately show "\<exists>r s'. returns (\<lambda>n. run_args (run_code_internal n False) rs ks) s (r, s') \<and> ext s s' \<and>
      (case map_option ((#) v) ro of None \<Rightarrow> r = None
       | Some vs \<Rightarrow> \<exists>bs. r = Some (rs @ bs) \<and> list_all2 (is_val V s') bs vs)"
    using 2(3) by (force split: option.splits)
qed

lemma impls_fail:
  assumes "impl P V \<rho> c None"
  shows "impls P V \<rho> (c # cs) None"
  unfolding impls_def
proof (intro allI impI)
  fix s ks rs assume x: "ctx P V s \<rho>" and "list_all2 (cd V s) ks (c # cs)" and rs: "alloc s rs"
  then obtain k ks' where k: "ks = k # ks'" "cd V s k c" by (auto simp: list_all2_Cons2)
  from impl_None [OF assms x k(2)] obtain s1 where
    1: "returns (\<lambda>n. run_code_internal n False k) s (None, s1)" "ext s s1" by blast
  from iter_dec_spec [OF alloc_ext [OF 1(2) ctx_bounded [OF x] rs]] obtain s2 where
    2: "iter_M dec rs s1 = Inr ((), s2)" "rc_only s1 s2" by blast
  have "returns (\<lambda>n. run_args (run_code_internal n False) rs ks) s (None, s2)"
    by (rule returns_elim1 [OF 1(1)]) (simp add: k(1) run_simps 2(1))
  with grows.rel_trans [OF 1(2) rc_ext [OF 2(2)]]
  show "\<exists>r s'. returns (\<lambda>n. run_args (run_code_internal n False) rs ks) s (r, s') \<and> ext s s' \<and>
      (case None of None \<Rightarrow> r = None | Some vs \<Rightarrow> \<exists>bs. r = Some (rs @ bs) \<and> list_all2 (is_val V s') bs vs)"
    by auto
qed

lemma impls_Some:
  assumes "impls P V \<rho> cs (Some vs)" "ctx P V s \<rho>" "list_all2 (cd V s) ks cs"
  shows "\<exists>bs s1. returns (\<lambda>n. run_args (run_code_internal n False) [] ks) s (Some bs, s1) \<and> ext s s1 \<and>
    list_all2 (is_val V s1) bs vs \<and> ctx P V s1 \<rho> \<and> alloc s1 bs"
proof -
  have "alloc s []" by (simp add: alloc_def)
  with assms obtain bs s1 where "returns (\<lambda>n. run_args (run_code_internal n False) [] ks) s (Some bs, s1)"
    "ext s s1" "list_all2 (is_val V s1) bs vs"
    unfolding impls_def by fastforce
  with ctx_ext assms(2) alloc_vals show ?thesis by blast
qed

lemma impls_None:
  assumes "impls P V \<rho> cs None" "ctx P V s \<rho>" "list_all2 (cd V s) ks cs"
  shows "\<exists>s1. returns (\<lambda>n. run_args (run_code_internal n False) [] ks) s (None, s1) \<and> ext s s1"
proof -
  have "alloc s []" by (simp add: alloc_def)
  with assms show ?thesis unfolding impls_def by fastforce
qed

lemma impl_ctor:
  assumes "impls P V \<rho> cs (Some vs)" "length vs = length cs"
  shows "impl P V \<rho> (CCtor h cs) (Some (FApp (FSym h # vs)))"
  unfolding impl_def
proof (intro allI impI, elim cdE)
  fix s a ks assume x: "ctx P V s \<rho>" and a: "node s a = Some (CExpr APP (h # ks))" and ks: "ks \<noteq> []"
    and h: "const_cell V s h" and cs: "list_all2 (cd V s) ks cs"
  from impls_Some [OF assms(1) x cs] obtain bs s1 where
    1: "returns (\<lambda>n. run_args (run_code_internal n False) [] ks) s (Some bs, s1)" "ext s s1"
      "list_all2 (is_val V s1) bs vs" "ctx P V s1 \<rho>" by blast
  have h1: "const_cell V s1 h" using const_cell_agree [OF ext_agree [OF 1(2)] ctx_bounded [OF x] h] .
  have bs: "bs \<noteq> []" using ks cs assms(2) 1(3) by (auto dest!: list_all2_lengthD)
  let ?s = "s1\<lparr>refs := (refs s1)(h := ref_inc (refs s1 h))\<rparr>"
  have e1: "ext s1 ?s" by (rule agree_rc)
  have e: "ext s ?s" using 1(2) e1 by (rule grows.rel_trans)
  have "is_val V s' (brk s1) (FApp (FSym h # vs))"
    if "node s' (brk s1) = Some (CExpr APP (h # bs))" "ext ?s s'" for s'
  proof -
    have "ext s1 s'" using e1 that(2) by (rule grows.rel_trans)
    with 1(3) is_val_sym [OF h1] have "list_all2 (den V s') (h # bs) (FSym h # vs)"
      using is_val_ext [OF _ ctx_bounded [OF 1(4)]] by (auto simp: is_val_def elim!: list_all2_mono)
    with that(1) show ?thesis by (auto simp: is_val_def at_end_def intro: den.den_app)
  qed
  with sim_new [of _ s ?s "CExpr APP (h # bs)"] run_ctor_rule [OF a h h1 bs 1(1)] e
    ctx_bounded [OF ctx_ext [OF e x]]
  show "sim V s (\<lambda>n. run_code_internal n False a) (Some (FApp (FSym h # vs)))" by simp
qed

lemma impl_app_fail:
  assumes "impls P V \<rho> cs None" "c = CCtor h cs \<or> c = CCall h cs"
  shows "impl P V \<rho> c None"
  unfolding impl_def sim_None
proof (intro allI impI)
  fix s a assume x: "ctx P V s \<rho>" and "cd V s a c"
  with assms(2) obtain h' ks where a: "node s a = Some (CExpr APP (h # ks))" "list_all2 (cd V s) ks cs"
    and h: "returns (\<lambda>n. followDefs n h) s (h', s)"
    using followDefs_const followDefs_prog by (fastforce elim!: cdE simp: prog_cell_def)
  from impls_None [OF assms(1) x a(2)] obtain s1 where
    "returns (\<lambda>n. run_args (run_code_internal n False) [] ks) s (None, s1)" "ext s s1" by blast
  with run_app_null [OF a(1) h]
  show "\<exists>s'. returns (\<lambda>n. run_code_internal n False a) s (None, s') \<and> ext s s'" by blast
qed

lemma den_vals: "list_all2 (is_val V s) bs vs \<Longrightarrow> list_all2 (den V s) bs vs"
  by (auto simp: is_val_def elim!: list_all2_mono)

lemma impl_call:
  assumes "impls P V \<rho> cs (Some vs)" "P p = Some (xs, c)" "length xs = length vs"
    and "impl P V (map_of (zip xs vs)) c r"
  shows "impl P V \<rho> (CCall p cs) r"
  unfolding impl_def
proof (intro allI impI, elim cdE)
  fix s a ks assume cx: "ctx P V s \<rho>" and a: "node s a = Some (CExpr APP (p # ks))"
    and cs: "list_all2 (cd V s) ks cs"
  from impls_Some [OF assms(1) cx cs] obtain bs s1 where
    1: "returns (\<lambda>n. run_args (run_code_internal n False) [] ks) s (Some bs, s1)" "ext s s1"
      "list_all2 (is_val V s1) bs vs" "ctx P V s1 \<rho>" "alloc s1 bs" by blast
  from cx 1(4) assms(2) obtain b0 b where p: "prog_cell V s p xs b0" "prog_cell V s1 p xs b" "cd V s1 b c"
    and xs: "distinct xs" "\<forall>x \<in> set xs. var_cell V s1 x"
    unfolding ctx_def run_ok_def progs_ok_def by metis
  have p1: "prog_cell V s1 p xs b0" using prog_cell_agree [OF ext_agree [OF 1(2)] ctx_bounded [OF cx] p(1)] .
  have b0: "b0 = b" using p1 p(2) by (auto simp: prog_cell_def)
  have sv: "sval s1 p = sval s p"
    using 1(2) ctx_bounded [OF cx] p(1) agree_sval [of "{}" s s1 p] by (auto simp: prog_cell_def)
  have scc: "\<not> run_scc s1" using 1(4) by (simp add: ctx_def run_ok_def)
  have len: "length xs = length bs" using assms(3) 1(3) by (simp add: list_all2_lengthD)
  let ?s = "s1\<lparr>sval := upd_vals xs bs (sval s1)\<rparr>"
  have s1: "rc_only (s1\<lparr>sval := upd_vals xs bs (sval s1)\<rparr>) ?s" by simp
  have bind: "agree V s1 ?s" "ctx P V ?s (map_of (zip xs vs))"
    using ctx_bind [OF 1(4) xs(2,1) len den_vals [OF 1(3)] s1, of "map_of (zip xs vs)"] by blast+
  from assms(4) bind(2) cd_agree(1) [OF bind(1) ctx_bounded [OF 1(4)] p(3)] obtain r' s2 where
    2: "returns (\<lambda>n. run_code_internal n False b) ?s (r', s2)" "outcome V ?s r' s2 r"
    unfolding impl_def sim_def by blast
  have e2: "ext ?s s2" using 2(2) by (simp add: outcome_def)
  have x2: "val_cells s1 xs" "val_cells s2 xs" "alloc s2 bs"
    using val_cells_vars [of xs V] xs(2) var_cell_agree [OF bind(1) ctx_bounded [OF 1(4)]]
      var_cell_agree [OF ext_agree [OF e2] ctx_bounded [OF bind(2)]]
      alloc_ext [OF e2 ctx_bounded [OF bind(2)]] alloc_cong [of ?s s1] 1(5) by auto
  from restore_params_spec [OF len x2(2,3), of "sval s1"] obtain s3 where
    3: "iter_M (\<lambda>((var, old), a). sq (dec a) (setval var old)) (zip (map (\<lambda>x. (x, sval s1 x)) xs) bs) s2 = Inr ((), s3)"
      "rc_only (s2\<lparr>sval := (\<lambda>y. if y \<in> set xs then sval s1 y else sval s2 y)\<rparr>) s3" by blast
  note ret = run_call_rule [OF a p(1) [unfolded b0] node_ext [OF 1(2) cx a] p(2) sv scc len xs(1) x2 3(1) 1(1) 2(1)]
  have "set xs \<subseteq> V" using xs(2) by (auto simp: var_cell_def)
  from outcome_ext [OF 1(2) outcome_frame [OF s1 this ctx_bounded [OF 1(4)] 2(2) 3(2)]]
  show "sim V s (\<lambda>n. run_code_internal n False a) r"
    by (intro simI [OF ret]) auto
qed

subsection \<open>Matching\<close>

lemma impl_match:
  assumes "impl P V \<rho> c (Some v)" "implb P V \<rho> v bs r"
  shows "impl P V \<rho> (CMatch c bs) r"
  unfolding impl_def
proof (intro allI impI, elim cdE)
  fix s a k ks assume x: "ctx P V s \<rho>" and a: "node s a = Some (CExpr MATCH (k # ks))"
    and k: "cd V s k c" and bs: "list_all2 (cdb V s) ks bs"
  from impl_Some [OF assms(1) x k] obtain b s1 where
    1: "returns (\<lambda>n. run_code_internal n False k) s (Some b, s1)" "ext s s1" "is_val V s1 b v"
      "ctx P V s1 \<rho>" "alloc s1 [b]" by blast
  from collect_val [OF 1(3)] obtain hd1 as where
    h: "returns (\<lambda>n. collect_args n b True) s1 ((hd1, as), s1)" "is_val V s1 hd1 (fst (fhead v))"
      "list_all2 (den V s1) as (snd (fhead v))" by blast
  have "list_all2 (cdb V s1) ks bs"
    using bs cd_agree(2) [OF ext_agree [OF 1(2)] ctx_bounded [OF x]] by (auto elim!: list_all2_mono)
  with assms(2) 1(4,5) h(2,3) obtain r' s2 where
    2: "returns (\<lambda>n. run_cases (run_code_internal n False) n b hd1 as ks) s1 (r', s2)" "outcome V s1 r' s2 r"
    unfolding implb_def sim_def by meson
  from run_match_rule [OF a node_ext [OF 1(2) x a] 1(3) h(1) 1(1) 2(1)] outcome_ext [OF 1(2) 2(2)]
  show "sim V s (\<lambda>n. run_code_internal n False a) r" by (rule simI)
qed

lemma implb_nil: "implb P V \<rho> v [] None"
  unfolding implb_def sim_None
  by (auto intro!: exI [of _ "_ :: st"] returns_all simp: agree_def)

lemma implb_default:
  assumes "impl P V \<rho> c r"
  shows "implb P V \<rho> v (BDefault c # bs) r"
  unfolding implb_def
proof (intro allI impI)
  fix s ks b hd1 as assume x: "ctx P V s \<rho>" and "list_all2 (cdb V s) ks (BDefault c # bs)"
  then obtain k ks' nd where k: "ks = k # ks'" "node s k = Some nd" "op_of nd \<noteq> CASE" "cd V s k c"
    by (auto simp: list_all2_Cons2 elim!: cdE)
  with assms x obtain r' s' where "returns (\<lambda>n. run_code_internal n False k) s (r', s')" "outcome V s r' s' r"
    unfolding impl_def sim_def by blast
  with run_default_rule [OF k(2,3)] show "sim V s (\<lambda>n. run_cases (run_code_internal n False) n b hd1 as ks) r"
    unfolding k(1) by (intro simI)
qed

lemma implb_skip:
  assumes "fst (fhead v) \<noteq> FSym h" "implb P V \<rho> v bs r"
  shows "implb P V \<rho> v (BCase h xs c # bs) r"
  unfolding implb_def
proof (intro allI impI)
  fix s ks b hd1 as assume x: "ctx P V s \<rho>" and "list_all2 (cdb V s) ks (BCase h xs c # bs)"
    and b: "alloc s [b]" and h: "is_val V s hd1 (fst (fhead v))" and as: "list_all2 (den V s) as (snd (fhead v))"
  then obtain k ks' p d where k: "ks = k # ks'" "list_all2 (cdb V s) ks' bs"
    "node s k = Some (CExpr CASE [p, d])" "pattern_cell V s p h xs"
    by (auto simp: list_all2_Cons2 elim!: cdE)
  have "den V s h (FSym h)" "den V s hd1 (fst (fhead v))"
    using h is_val_sym [of V s h] k(4) by (auto simp: pattern_cell_def is_val_def)
  then have "hd1 \<noteq> h" using assms(1) den_fun by blast
  from assms(2) x k(2) b h as obtain r' s' where
    "returns (\<lambda>n. run_cases (run_code_internal n False) n b hd1 as ks') s (r', s')" "outcome V s r' s' r"
    unfolding implb_def sim_def by meson
  with run_skip_rule [OF k(3,4) \<open>hd1 \<noteq> h\<close>]
  show "sim V s (\<lambda>n. run_cases (run_code_internal n False) n b hd1 as ks) r"
    unfolding k(1) by (intro simI)
qed

lemma implb_case:
  assumes f: "fhead v = (FSym h, ts)" and len: "length xs = length ts" and c: "impl P V (\<rho>(xs [\<mapsto>] ts)) c r"
  shows "implb P V \<rho> v (BCase h xs c # bs) r"
  unfolding implb_def
proof (intro allI impI)
  fix s ks b hd1 as assume x: "ctx P V s \<rho>" and "list_all2 (cdb V s) ks (BCase h xs c # bs)"
    and b: "alloc s [b]" and h: "is_val V s hd1 (fst (fhead v))" and "list_all2 (den V s) as (snd (fhead v))"
  with f have as: "list_all2 (den V s) as ts" and hd1: "hd1 = h"
    using is_val_cases(3) [of V s hd1 h] by simp_all
  from \<open>list_all2 (cdb V s) ks _\<close> obtain k ks' p d where k: "ks = k # ks'"
    "node s k = Some (CExpr CASE [p, d])" "pattern_cell V s p h xs" "cd V s d c"
    by (auto simp: list_all2_Cons2 elim!: cdE)
  have xs: "\<forall>x \<in> set xs. var_cell V s x" "distinct xs" "length xs = length as"
    using k(3) len as by (auto simp: pattern_cell_def list_all2_lengthD)
  have al: "alloc s as" using as den_alloc by (fastforce simp: alloc_def list_all2_conv_all_nth in_set_conv_nth)
  from bind_pattern_spec [OF xs(3,2) val_cells_vars [OF xs(1)] al] obtain s1 where
    1: "bind_pattern xs as s = Inr (map (\<lambda>(x, a). (x, sval s x, a)) (zip xs as), s1)"
      "rc_only (s\<lparr>sval := upd_vals xs as (sval s)\<rparr>) s1" by blast
  have s1: "rc_only (s\<lparr>sval := upd_vals xs as (sval s)\<rparr>) (dec_st b s1)"
    using 1(2) by (simp add: rc_only_def)
  have bind: "agree V s (dec_st b s1)" "ctx P V (dec_st b s1) (\<rho>(xs [\<mapsto>] ts))"
    using ctx_bind [OF x xs as s1, of "\<rho>(xs [\<mapsto>] ts)"] map_upds_Some [OF len xs(2)] by blast+
  from c bind(2) cd_agree(1) [OF bind(1) ctx_bounded [OF x] k(4)] obtain r' s2 where
    2: "returns (\<lambda>n. run_code_internal n False d) (dec_st b s1) (r', s2)" "outcome V (dec_st b s1) r' s2 r"
    unfolding impl_def sim_def by blast
  have e2: "ext (dec_st b s1) s2" using 2(2) by (simp add: outcome_def)
  have n1: "node s1 = node s" using 1(2) by (simp add: rc_only_def)
  have x2: "val_cells s2 xs" "alloc s2 as"
    using val_cells_vars [of xs V s2] xs(1) var_cell_agree [OF bind(1) ctx_bounded [OF x]]
      var_cell_agree [OF ext_agree [OF e2] ctx_bounded [OF bind(2)]]
      alloc_ext [OF e2 ctx_bounded [OF bind(2)]] alloc_cong [of "dec_st b s1" s] n1 al by auto
  from unbind_pattern_spec [OF xs(3) x2, of "sval s"] obtain s3 where
    3: "unbind_pattern (map (\<lambda>(x, a). (x, sval s x, a)) (zip xs as)) s2 = Inr ((), s3)"
      "rc_only (s2\<lparr>sval := (\<lambda>y. if y \<in> set xs then sval s y else sval s2 y)\<rparr>) s3" by blast
  have "returns (\<lambda>n. run_cases (run_code_internal n False) n b hd1 as ks) s (r', s3)"
    unfolding hd1 k(1) using run_case_rule [OF k(2,3) 1(1) _ _ 3(1) 2(1)] k(2) b n1 by (simp add: alloc_def)
  from simI [OF this outcome_frame [OF s1 _ ctx_bounded [OF x] 2(2) 3(2)]] xs(1)
  show "sim V s (\<lambda>n. run_cases (run_code_internal n False) n b hd1 as ks) r" by (auto simp: var_cell_def)
qed

subsection \<open>The refinement\<close>

inductive_cases evalsE: "evals P \<rho> [] r" "evals P \<rho> (c # cs) r"

lemma evals_length: "evals P \<rho> cs (Some vs) \<Longrightarrow> length vs = length cs"
proof (induction cs arbitrary: vs)
  case Nil
  then show ?case by (auto elim: evalsE(1))
next
  case (Cons c cs)
  from Cons.prems show ?case by (rule evalsE(2)) (use Cons.IH in \<open>auto simp: map_option_case split: option.splits\<close>)
qed

lemma impl_int: "impl P V \<rho> (CInt i) (Some (FInt i))"
  unfolding impl_def
proof (intro allI impI, elim cdE)
  fix s a assume "ctx P V s \<rho>" and a: "node s a = Some (IntExpr i)"
  then show "sim V s (\<lambda>n. run_code_internal n False a) (Some (FInt i))"
    using sim_lit [OF ctx_bounded is_val_num(1) [OF a] a] by simp
qed

lemma impl_rat: "impl P V \<rho> (CRat q) (Some (FRat q))"
  unfolding impl_def
proof (intro allI impI, elim cdE)
  fix s a assume "ctx P V s \<rho>" and a: "node s a = Some (RatExpr q)"
  then show "sim V s (\<lambda>n. run_code_internal n False a) (Some (FRat q))"
    using sim_lit [OF ctx_bounded is_val_num(2) [OF a] a] by simp
qed

lemma impl_const: "impl P V \<rho> (CConst t) (Some t)"
  unfolding impl_def using sim_const by (auto simp: ctx_def elim: cdE(3))

lemma impl_var: "\<rho> x = Some v \<Longrightarrow> impl P V \<rho> (CVar x) (Some v)"
  unfolding impl_def using sim_var by (auto simp: ctx_def elim: cdE(4))

lemma impl_fail: "impl P V \<rho> CFail None"
  unfolding impl_def sim_None using run_fail_rule grows.rel_refl by (blast elim: cdE(5))

lemma impl_fails:
  assumes "impl P V \<rho> c None"
  shows "impl P V \<rho> (CDo c d) None" "impl P V \<rho> (CLet x c d) None" "impl P V \<rho> (CArith opr c d) None"
    "impl P V \<rho> (CNeg c) None" "impl P V \<rho> (CToQ c) None" "impl P V \<rho> (CIf opr c d e) None"
    "impl P V \<rho> (CMatch c bs) None"
  by (rule impl_null [OF assms]; elim cdE; force)+

lemma eval_impl:
  shows "eval P \<rho> c r \<Longrightarrow> impl P V \<rho> c r" and "evals P \<rho> cs rs \<Longrightarrow> impls P V \<rho> cs rs"
    and "evalb P \<rho> v bs r' \<Longrightarrow> implb P V \<rho> v bs r'"
proof (induction rule: eval_evals_evalb.inducts)
  case (ev_neg \<rho> c v w)
  show ?case
    by (rule impl_unary [OF ev_neg.IH(2), where opr = NEG]) (use ev_neg.hyps in \<open>auto elim: cdE(9)\<close>)
next
  case (ev_toq \<rho> c i)
  show ?case
    by (rule impl_unary [OF ev_toq.IH(2), where opr = MPZ_TO_MPQ]) (auto elim: cdE(10))
next
  case (ev_ctor \<rho> cs vs h)
  then show ?case using impl_ctor evals_length by blast
next
  case (ev_ctor_fail \<rho> cs h)
  then show ?case using impl_app_fail by blast
next
  case (ev_call_fail \<rho> cs p)
  then show ?case using impl_app_fail by blast
next
  case (ev_call \<rho> cs vs p xs body r)
  then show ?case using impl_call by blast
qed (blast intro: impl_int impl_rat impl_const impl_var impl_fail impl_fails impl_do impl_let impl_arith impl_arith_fail impl_if impl_if_stuck
    impl_match impls_nil impls_cons impls_fail implb_nil implb_default implb_case implb_skip)+

lemma run_internal_refines:
  assumes "eval P \<rho> c ro" "ctx P V s \<rho>" "cd V s a c"
  shows "\<exists>r s'. returns (\<lambda>n. run_code_internal n False a) s (r, s') \<and> outcome V s r s' ro"
  using eval_impl(1) [OF assms(1)] assms(2,3) unfolding impl_def sim_def by blast

text \<open>\<open>run_code\<close> itself: the cache stays empty when no \<open>function\<close> is called.\<close>

lemma run_code_refines_aux:
  assumes "eval P \<rho> c ro" "ctx P V s \<rho>" "cd V s a c"
  shows "\<exists>r s'. returns (\<lambda>n. run_code n a) s (r, s') \<and> outcome V s r s' ro"
proof -
  let ?s = "s\<lparr>cache := empty_etrie\<rparr>"
  have e: "ext s ?s" by (simp add: agree_def bounded_def)
  from run_internal_refines [OF assms(1) ctx_ext [OF e assms(2)] cd_ext [OF e assms(2,3)]] obtain r s1 where
    1: "returns (\<lambda>n. run_code_internal n False a) ?s (r, s1)" "outcome V ?s r s1 ro" by blast
  have c: "cache s1 = empty_etrie" using 1(2) by (auto simp: outcome_def agree_def)
  let ?t = "s1\<lparr>cache := cache s\<rparr>"
  have "returns (\<lambda>n. run_code n a) s (r, ?t)"
    by (rule returns_elim1 [OF 1(1)]) (simp add: run_code_def run_simps c empty_etrie_def)
  moreover have "ext s ?t" using 1(2) by (auto simp: outcome_def agree_def bounded_def)
  moreover have "is_val V ?t b v" if "is_val V s1 b v" for b v
    using that den_cong [of ?t s1 V b v] by (simp add: is_val_def at_end_def)
  ultimately have "returns (\<lambda>n. run_code n a) s (r, ?t) \<and> outcome V s r ?t ro"
    using 1(2) by (auto simp: outcome_def split: option.splits)
  then show ?thesis by blast
qed

end
