(* ===== verification/LFSC_Code.thy ===== *)
theory LFSC_Code
  imports LFSC_Defeq
begin

text \<open>
  The type checker of side condition code: \<open>check_code\<close> of \<open>src/src/code.cpp\<close> and \<open>compute_kind\<close> of
  \<open>src/src/check.cpp\<close>, one definition per \<open>case\<close> of the switch over the recursive call \<open>rec\<close>.

  \<open>check_code\<close> returns a pointer to the type; it is null (\<open>None\<close>) for a \<open>match\<close> without cases, and
  every use of a null type is undefined.  The symbol table is the field \<open>symbols\<close>: a name is bound
  to a value and a type, either of which may be null.
\<close>

section \<open>The symbol table in the state\<close>

definition sym_get :: "string \<Rightarrow> (st, addr option \<times> addr option) M" where
  "sym_get x = gets (\<lambda>s. get_trie (None, None) x (symbols s))"

definition sym_insert :: "string \<Rightarrow> addr option \<times> addr option \<Rightarrow> (st, addr option \<times> addr option) M" where
  "sym_insert x p = (\<lambda>s. case insert_trie (None, None) x p (symbols s) of
     Inl err \<Rightarrow> Inl err
   | Inr (old, t) \<Rightarrow> Inr (old, s\<lparr>symbols := t\<rparr>))"

text \<open>Old bindings are put back from the last to the first.\<close>

definition put_back :: "(string \<times> addr option \<times> addr option) list \<Rightarrow> (st, unit) M" where
  "put_back prevs = iter_M (\<lambda>(x, prev). sq (sym_insert x prev) (ret ())) (rev prevs)"

text \<open>\<open>((SymSExpr* )e)->s\<close>\<close>

definition getname :: "addr \<Rightarrow> (st, string) M" where
  "getname a = bnd (getnode a) (\<lambda>nd. case nd of SymSExpr x \<Rightarrow> ret x | _ \<Rightarrow> stop Undefined)"

section \<open>Kinds\<close>

text \<open>The loop over the arguments of an application; \<open>saved\<close> is the stack of overwritten values.\<close>

primrec kind_args :: "(addr \<Rightarrow> (st, addr) M) \<Rightarrow> nat \<Rightarrow> addr list \<Rightarrow> addr \<Rightarrow> (addr \<times> addr option) list
    \<Rightarrow> (st, addr \<times> addr list \<times> (addr \<times> addr option) list) M" where
  "kind_args rec f [] head saved = ret (head, [], saved)"
| "kind_args rec f (a # as) head saved =
     bnd (getop head) (\<lambda>opr.
     if opr = PI then
       bnd (followDefs f a) (\<lambda>actual_arg.
       bnd (getkid head 2) (\<lambda>range1.
       bnd (getkid head 0) (\<lambda>pi_var.
       bnd (getval pi_var) (\<lambda>old.
       sq (setval pi_var (Some actual_arg)) (
       bnd (rec range1) (\<lambda>head1.
       kind_args rec f as head1 ((pi_var, old) # saved)))))))
     else ret (head, a # as, saved))"

definition kind_app :: "(addr \<Rightarrow> (st, addr) M) \<Rightarrow> nat \<Rightarrow> addr \<Rightarrow> (st, addr) M" where
  "kind_app rec f e =
     bnd (getkids e) (\<lambda>ks.
     bnd (getkid e 0) (\<lambda>k0.
     bnd (rec k0) (\<lambda>head0.
     bnd (kind_args rec f (tl ks) head0 []) (\<lambda>(head, rest, saved).
     bnd (getop head) (\<lambda>opr.
     if rest \<noteq> [] \<and> opr \<noteq> PI then stop (ReportError ''When reducing I got a non-function applied to arguments'')
     else sq (iter_M (\<lambda>(v, old). setval v old) saved) (ret head))))))"

primrec compute_kind :: "nat \<Rightarrow> addr \<Rightarrow> (st, addr) M" where
  "compute_kind 0 e0 = stop OutOfFuel"
| "compute_kind (Suc n) e0 =
     bnd (followDefs n e0) (\<lambda>e.
     bnd (getnode e) (\<lambda>nd. case nd of
       CExpr opr ks \<Rightarrow>
         if opr = APP then kind_app (compute_kind n) n e
         else if opr = MPQ \<or> opr = MPZ then ret statType
         else ret e
     | SymSExpr x \<Rightarrow>
         bnd (sym_get x) (\<lambda>p. case snd p of Some t \<Rightarrow> ret t | None \<Rightarrow> ret e)
     | SymExpr \<Rightarrow> ret e
     | RatExpr q \<Rightarrow> ret e
     | IntExpr i \<Rightarrow> ret e
     | HoleExpr \<Rightarrow> stop (ReportError ''Hole expression have no kind.'')))"

section \<open>Types of code\<close>

text \<open>A type the code dereferences.\<close>

definition type_of :: "(addr \<Rightarrow> (st, addr option) M) \<Rightarrow> addr \<Rightarrow> nat \<Rightarrow> (st, addr) M" where
  "type_of rec e i = bnd (getkid e i) (\<lambda>k. bnd (rec k) deref)"

definition code_atom :: "addr \<Rightarrow> (st, addr option) M" where
  "code_atom e =
     bnd (getnode e) (\<lambda>nd. case nd of
       IntExpr i \<Rightarrow> ret (Some statMpz)
     | RatExpr q \<Rightarrow> ret (Some statMpq)
     | SymExpr \<Rightarrow> stop (ReportError ''Internal error: an LF variable is encountered in code'')
     | SymSExpr x \<Rightarrow>
         bnd (sym_get x) (\<lambda>p. case snd p of
           Some tp \<Rightarrow> ret (Some tp)
         | None \<Rightarrow> stop (ReportError ''A symbol is missing a type in a piece of code.''))
     | HoleExpr \<Rightarrow> stop (ReportError ''Encountered a hole unexpectedly in code.'')
     | CExpr opr ks \<Rightarrow> stop (ReportError ''Unrecognized form of expr in code.''))"

text \<open>Applying a function type to the types of the arguments.\<close>

primrec code_spine :: "nat \<Rightarrow> addr option list \<Rightarrow> addr \<Rightarrow> (st, addr) M" where
  "code_spine f [] cur =
     bnd (getop cur) (\<lambda>opr.
     if opr = PI then stop (ReportError ''A function is not being fully applied in code.'')
     else ret cur)"
| "code_spine f (argtp # argtps) cur =
     bnd (getop cur) (\<lambda>opr.
     if opr = PI then
       bnd (deref argtp) (\<lambda>t.
       bnd (getkid cur 1) (\<lambda>dom1.
       bnd (defeq f t dom1) (\<lambda>types_match.
       bnd (getop t) (\<lambda>to.
       bnd (if to = APP then
              bnd (getkid t 0) (\<lambda>t0. bnd (getkid cur 1) (\<lambda>dom1. defeq f t0 dom1))
            else ret False) (\<lambda>app_types_match.
       if \<not> types_match \<and> \<not> app_types_match then
         stop (ReportError ''Type mismatch for argument in application in code.'')
       else
         bnd (getflag cur) (\<lambda>dep.
         sq (if dep then
               sq (calc_free_in f cur) (
               bnd (getflag cur) (\<lambda>dep1.
               if dep1 then stop (ReportError ''A dependently typed function is being applied in code.'')
               else setflag cur True))
             else ret ()) (
         bnd (getkid cur 2) (code_spine f argtps))))))))
     else stop (ReportError ''A function is being fully applied to too many arguments in code.''))"

definition code_head_type :: "addr \<Rightarrow> addr \<Rightarrow> (st, addr) M" where
  "code_head_type k0 h =
     bnd (getnode h) (\<lambda>hnd.
     bnd (getnode k0) (\<lambda>knd.
     bnd (if op_of hnd = PROG then bnd (getkid h 0) (\<lambda>t. ret (Some t))
          else if class_of hnd = SYMS_EXPR then bnd (getname h) (\<lambda>x. bnd (sym_get x) (\<lambda>p. ret (snd p)))
          else if class_of knd = SYMS_EXPR then bnd (getname k0) (\<lambda>x. bnd (sym_get x) (\<lambda>p. ret (snd p)))
          else stop (ReportError ''An application's head is neither a program nor symbol'')) (\<lambda>tp.
     case tp of
       None \<Rightarrow> stop (ReportError ''The head of an application is missing a type in code.'')
     | Some t \<Rightarrow> ret t)))"

definition code_app :: "(addr \<Rightarrow> (st, addr option) M) \<Rightarrow> nat \<Rightarrow> addr \<Rightarrow> (st, addr option) M" where
  "code_app rec f e =
     bnd (getkids e) (\<lambda>ks.
     bnd (getkid e 0) (\<lambda>k0.
     bnd (followDefs f k0) (\<lambda>h.
     bnd (map_M rec (tl ks)) (\<lambda>argtps.
     bnd (code_head_type k0 h) (\<lambda>tp0.
     bnd (followDefs f tp0) (\<lambda>tp.
     bnd (getop tp) (\<lambda>opr.
     if opr \<noteq> PI then stop (ReportError ''The head of an application does not have functional type in code.'')
     else bnd (code_spine f argtps tp) (\<lambda>r. ret (Some r)))))))))"

definition code_let :: "(addr \<Rightarrow> (st, addr option) M) \<Rightarrow> addr \<Rightarrow> (st, addr option) M" where
  "code_let rec e =
     bnd (getkid e 0) (\<lambda>var.
     bnd (bnd (getkid e 1) rec) (\<lambda>tp1.
     bnd (getname var) (\<lambda>x.
     bnd (sym_insert x (None, tp1)) (\<lambda>prev.
     bnd (bnd (getkid e 2) rec) (\<lambda>tp2.
     sq (sym_insert x prev) (ret tp2))))))"

definition code_arith :: "(addr \<Rightarrow> (st, addr option) M) \<Rightarrow> nat \<Rightarrow> addr \<Rightarrow> (st, addr option) M" where
  "code_arith rec f e =
     bnd (bnd (getkid e 0) rec) (\<lambda>t0.
     bnd (bnd (getkid e 1) rec) (\<lambda>t1.
     bnd (bnd (deref t0) (followDefs f)) (\<lambda>tp0.
     bnd (bnd (deref t1) (followDefs f)) (\<lambda>tp1.
     if tp0 \<noteq> statMpz \<and> tp0 \<noteq> statMpq then
       stop (ReportError ''Argument to mp_[arith] does not have type mpz or mpq.'')
     else if tp0 \<noteq> tp1 then stop (ReportError ''Arguments to mp_[arith] have differing types.'')
     else ret (Some tp0)))))"

definition code_neg :: "(addr \<Rightarrow> (st, addr option) M) \<Rightarrow> nat \<Rightarrow> addr \<Rightarrow> (st, addr option) M" where
  "code_neg rec f e =
     bnd (bnd (type_of rec e 0) (followDefs f)) (\<lambda>tp0.
     if tp0 \<noteq> statMpz \<and> tp0 \<noteq> statMpq then
       stop (ReportError ''Argument to mp_neg does not have type mpz or mpq.'')
     else ret (Some tp0))"

definition code_mpz_to_mpq :: "(addr \<Rightarrow> (st, addr option) M) \<Rightarrow> nat \<Rightarrow> addr \<Rightarrow> (st, addr option) M" where
  "code_mpz_to_mpq rec f e =
     bnd (bnd (type_of rec e 0) (followDefs f)) (\<lambda>tp0.
     if tp0 \<noteq> statMpz then stop (ReportError ''Argument to mpz_to_mpq does not have type mpz.'')
     else ret (Some statMpq))"

text \<open>Two branches of a conditional: their types must be the same pointer.\<close>

definition code_branches :: "(addr \<Rightarrow> (st, addr option) M) \<Rightarrow> nat \<Rightarrow> string \<Rightarrow> nat \<Rightarrow> addr \<Rightarrow> (st, addr option) M" where
  "code_branches rec f msg i e =
     bnd (bnd (getkid e i) rec) (\<lambda>t1.
     bnd (bnd (getkid e (i + 1)) rec) (\<lambda>t2.
     bnd (bnd (deref t1) (followDefs f)) (\<lambda>tp1.
     bnd (bnd (deref t2) (followDefs f)) (\<lambda>tp2.
     if tp1 \<noteq> tp2 then stop (ReportError msg) else ret (Some tp1)))))"

definition code_if :: "(addr \<Rightarrow> (st, addr option) M) \<Rightarrow> nat \<Rightarrow> addr \<Rightarrow> (st, addr option) M" where
  "code_if rec f e =
     bnd (bnd (type_of rec e 0) (followDefs f)) (\<lambda>tp0.
     if tp0 \<noteq> statMpz \<and> tp0 \<noteq> statMpq then
       stop (ReportError ''Argument to mp_if does not have type mpz or mpq.'')
     else code_branches rec f ''mp_if used with expressions that do not have equal datatypes'' 1 e)"

definition code_fail :: "(addr \<Rightarrow> (st, addr option) M) \<Rightarrow> addr \<Rightarrow> (st, addr option) M" where
  "code_fail rec e =
     bnd (getkid e 0) (\<lambda>k.
     bnd (rec k) (\<lambda>tp.
     if tp \<noteq> Some statType then stop (ReportError ''fail is used with an expression which is not a type.'')
     else ret (Some k)))"

text \<open>\<open>markvar\<close> and \<open>ifmarked\<close>: the type of the marked expression is an undefined symbol of type \<open>type\<close>.\<close>

definition code_mark_type :: "(addr \<Rightarrow> (st, addr option) M) \<Rightarrow> nat \<Rightarrow> string \<Rightarrow> addr \<Rightarrow> (st, addr) M" where
  "code_mark_type rec f msg e =
     bnd (type_of rec e 1) (\<lambda>tp.
     bnd (getnode tp) (\<lambda>nd.
     bnd (case nd of
            SymSExpr x \<Rightarrow> bnd (getval tp) (\<lambda>v. if v = None then bnd (sym_get x) (\<lambda>p. ret (snd p)) else ret None)
          | _ \<Rightarrow> ret None) (\<lambda>tptp.
     bnd (case tptp of None \<Rightarrow> ret False | Some t \<Rightarrow> isType f t) (\<lambda>ok.
     if \<not> ok then stop (ReportError msg) else ret tp))))"

definition code_markvar :: "(addr \<Rightarrow> (st, addr option) M) \<Rightarrow> nat \<Rightarrow> addr \<Rightarrow> (st, addr option) M" where
  "code_markvar rec f e =
     bnd (code_mark_type rec f ''markvar is used with an expression which cannot be a non-variable or a lambda-bound variable.'' e)
       (\<lambda>tp. ret (Some tp))"

definition code_ifmarked :: "(addr \<Rightarrow> (st, addr option) M) \<Rightarrow> nat \<Rightarrow> addr \<Rightarrow> (st, addr option) M" where
  "code_ifmarked rec f e =
     sq (code_mark_type rec f ''ifmarked is used with an expression which cannot be a non-variable or a lambda-bound variable.'' e)
       (code_branches rec f ''ifmarked used with expressions that do not have equal datatypes'' 2 e)"

definition code_compare_type :: "(addr \<Rightarrow> (st, addr option) M) \<Rightarrow> string \<Rightarrow> nat \<Rightarrow> addr \<Rightarrow> (st, unit) M" where
  "code_compare_type rec msg i e =
     bnd (type_of rec e i) (\<lambda>tp.
     bnd (getclass tp) (\<lambda>c.
     if c \<noteq> SYMS_EXPR then stop (ReportError msg)
     else bnd (getval tp) (\<lambda>v. if v \<noteq> None then stop (ReportError msg) else ret ())))"

definition code_compare :: "(addr \<Rightarrow> (st, addr option) M) \<Rightarrow> nat \<Rightarrow> addr \<Rightarrow> (st, addr option) M" where
  "code_compare rec f e =
     sq (code_compare_type rec ''compare is used with a first expression which cannot be a lambda-bound variable.'' 0 e) (
     sq (code_compare_type rec ''compare is used with a second expression which cannot be a lambda-bound variable.'' 1 e) (
     code_branches rec f ''compare used with expressions that do not have equal simple datatypes'' 2 e))"

definition code_ifequal :: "(addr \<Rightarrow> (st, addr option) M) \<Rightarrow> nat \<Rightarrow> addr \<Rightarrow> (st, addr option) M" where
  "code_ifequal rec f e =
     bnd (bnd (getkid e 0) rec) (\<lambda>tp0.
     bnd (bnd (getkid e 1) rec) (\<lambda>tp1.
     if tp0 \<noteq> tp1 then stop (ReportError ''ifequal used with compare expressions that do not have equal types'')
     else code_branches rec f ''ifequal used with return expressions that do not have equal datatypes'' 2 e))"

text \<open>The variables of a pattern get the argument types of the constructor.\<close>

primrec code_pattern :: "nat \<Rightarrow> addr list \<Rightarrow> addr \<Rightarrow> (st, addr \<times> (string \<times> addr option \<times> addr option) list) M" where
  "code_pattern f [] curtp = ret (curtp, [])"
| "code_pattern f (v # vars) curtp =
     bnd (followDefs f curtp) (\<lambda>t.
     bnd (getop t) (\<lambda>opr.
     if opr \<noteq> PI then stop (ReportError ''Too many arguments to a constructor in a pattern.'')
     else
       bnd (getname v) (\<lambda>x.
       bnd (getkid t 1) (\<lambda>tp.
       bnd (sym_insert x (None, Some tp)) (\<lambda>prev.
       bnd (getkid t 2) (\<lambda>rest.
       bnd (code_pattern f vars rest) (\<lambda>(curtp', prevs).
       ret (curtp', (x, prev) # prevs))))))))"

definition code_case :: "(addr \<Rightarrow> (st, addr option) M) \<Rightarrow> nat \<Rightarrow> addr \<Rightarrow> (st, addr option) M" where
  "code_case rec f c =
     bnd (getop c) (\<lambda>opr.
     if opr \<noteq> CASE then rec c
     else
       bnd (getkid c 0) (\<lambda>pat.
       bnd (getclass pat) (\<lambda>pc.
       if pc = SYMS_EXPR then bnd (getkid c 1) rec
       else
         bnd (collect_args f pat True) (\<lambda>(ctor, vars).
         bnd (getname ctor) (\<lambda>x.
         bnd (sym_get x) (\<lambda>p.
         bnd (deref (snd p)) (\<lambda>ctortp.
         bnd (code_pattern f vars ctortp) (\<lambda>(curtp, prevs).
         bnd (followDefs f curtp) (\<lambda>t.
         bnd (getop t) (\<lambda>to.
         if to = PI then stop (ReportError ''Too few arguments to a constructor in a pattern.'')
         else
           bnd (bnd (getkid c 1) rec) (\<lambda>tp.
           sq (put_back prevs) (ret tp))))))))))))"

primrec code_cases :: "(addr \<Rightarrow> (st, addr option) M) \<Rightarrow> nat \<Rightarrow> addr list \<Rightarrow> addr option \<Rightarrow> (st, addr option) M" where
  "code_cases rec f [] mtp = ret mtp"
| "code_cases rec f (c # cs) mtp =
     bnd (code_case rec f c) (\<lambda>tp. case mtp of
       None \<Rightarrow> code_cases rec f cs tp
     | Some m \<Rightarrow>
         bnd (bnd (deref tp) (defeq f m)) (\<lambda>b.
         if \<not> b then stop (ReportError ''Types for bodies of match cases or the default differ.'')
         else code_cases rec f cs mtp))"

definition code_match :: "(addr \<Rightarrow> (st, addr option) M) \<Rightarrow> nat \<Rightarrow> addr \<Rightarrow> (st, addr option) M" where
  "code_match rec f e =
     bnd (type_of rec e 0) (\<lambda>scruttp.
     bnd (compute_kind f scruttp) (\<lambda>kind.
     bnd (isDatatype scruttp) (\<lambda>dt.
     if kind \<noteq> statType \<and> \<not> dt then
       stop (ReportError ''The match scrutinee's type is neither proper, nor a datatype'')
     else bnd (getkids e) (\<lambda>ks. code_cases rec f (tl ks) None))))"

definition code_op :: "(addr \<Rightarrow> (st, addr option) M) \<Rightarrow> nat \<Rightarrow> op \<Rightarrow> addr \<Rightarrow> (st, addr option) M" where
  "code_op rec f opr e =
     (if opr = APP then code_app rec f e
      else if opr = MPZ \<or> opr = MPQ then ret (Some statType)
      else if opr = DO then sq (bnd (getkid e 0) rec) (bnd (getkid e 1) rec)
      else if opr = LET then code_let rec e
      else if opr = ADD \<or> opr = MUL \<or> opr = DIV then code_arith rec f e
      else if opr = NEG then code_neg rec f e
      else if opr = MPZ_TO_MPQ then code_mpz_to_mpq rec f e
      else if opr = IFNEG \<or> opr = IFZERO then code_if rec f e
      else if opr = FAIL then code_fail rec e
      else if opr = MARKVAR then code_markvar rec f e
      else if opr = IFMARKED then code_ifmarked rec f e
      else if opr = COMPARE then code_compare rec f e
      else if opr = IFEQUAL then code_ifequal rec f e
      else if opr = MATCH then code_match rec f e
      else stop (ReportError ''Type checking an unrecognized form of code (internal error).''))"

primrec check_code :: "nat \<Rightarrow> addr \<Rightarrow> (st, addr option) M" where
  "check_code 0 e = stop OutOfFuel"
| "check_code (Suc n) e =
     bnd (getop e) (\<lambda>opr.
     if opr = NOT_CEXPR then code_atom e else code_op (check_code n) n opr e)"

section \<open>Fuel\<close>

lemma code_simple_fuel [fuel_mono]:
  assumes r: "\<And>a. fuel_le (rec a) (rec' a)"
  shows "fuel_le (type_of rec e i) (type_of rec' e i)" "fuel_le (code_let rec e) (code_let rec' e)"
    "fuel_le (code_arith rec n e) (code_arith rec' (Suc n) e)" "fuel_le (code_fail rec e) (code_fail rec' e)"
    "fuel_le (code_branches rec n msg i e) (code_branches rec' (Suc n) msg i e)"
    "fuel_le (code_compare_type rec msg i e) (code_compare_type rec' msg i e)"
  unfolding type_of_def code_let_def code_arith_def code_fail_def code_branches_def code_compare_type_def
  by (intro fuel_mono r)+

lemma code_more_fuel [fuel_mono]:
  assumes r: "\<And>a. fuel_le (rec a) (rec' a)"
  shows "fuel_le (code_neg rec n e) (code_neg rec' (Suc n) e)"
    "fuel_le (code_mpz_to_mpq rec n e) (code_mpz_to_mpq rec' (Suc n) e)"
    "fuel_le (code_if rec n e) (code_if rec' (Suc n) e)"
    "fuel_le (code_mark_type rec n msg e) (code_mark_type rec' (Suc n) msg e)"
    "fuel_le (code_compare rec n e) (code_compare rec' (Suc n) e)"
    "fuel_le (code_ifequal rec n e) (code_ifequal rec' (Suc n) e)"
  unfolding code_neg_def code_mpz_to_mpq_def code_if_def code_mark_type_def code_compare_def code_ifequal_def
  by (intro fuel_mono r)+

lemma code_mark_fuel [fuel_mono]:
  assumes r: "\<And>a. fuel_le (rec a) (rec' a)"
  shows "fuel_le (code_markvar rec n e) (code_markvar rec' (Suc n) e)"
    "fuel_le (code_ifmarked rec n e) (code_ifmarked rec' (Suc n) e)"
  unfolding code_markvar_def code_ifmarked_def by (intro fuel_mono r)+

lemma code_spine_fuel [fuel_mono]: "fuel_le (code_spine n ts cur) (code_spine (Suc n) ts cur)"
  by (induction ts arbitrary: cur) (auto intro!: fuel_mono simp del: defeq.simps)

lemma code_app_fuel [fuel_mono]:
  "(\<And>a. fuel_le (rec a) (rec' a)) \<Longrightarrow> fuel_le (code_app rec n e) (code_app rec' (Suc n) e)"
  unfolding code_app_def by (intro fuel_mono)

lemma code_pattern_fuel [fuel_mono]: "fuel_le (code_pattern n vs t) (code_pattern (Suc n) vs t)"
  by (induction vs arbitrary: t) (auto intro!: fuel_mono simp del: followDefs.simps)

lemma code_case_fuel [fuel_mono]:
  "(\<And>a. fuel_le (rec a) (rec' a)) \<Longrightarrow> fuel_le (code_case rec n c) (code_case rec' (Suc n) c)"
  unfolding code_case_def by (intro fuel_mono)

lemma code_cases_fuel [fuel_mono]:
  "(\<And>a. fuel_le (rec a) (rec' a)) \<Longrightarrow> fuel_le (code_cases rec n cs m) (code_cases rec' (Suc n) cs m)"
  by (induction cs arbitrary: m) (auto intro!: fuel_mono simp del: defeq.simps)

lemma kind_args_fuel [fuel_mono]:
  "(\<And>a. fuel_le (rec a) (rec' a)) \<Longrightarrow> fuel_le (kind_args rec n as h sv) (kind_args rec' (Suc n) as h sv)"
  by (induction as arbitrary: h sv) (auto intro!: fuel_mono simp del: followDefs.simps)

lemma kind_app_fuel [fuel_mono]:
  "(\<And>a. fuel_le (rec a) (rec' a)) \<Longrightarrow> fuel_le (kind_app rec n e) (kind_app rec' (Suc n) e)"
  unfolding kind_app_def by (intro fuel_mono)

lemma compute_kind_fuel [fuel_mono]: "fuel_le (compute_kind n e) (compute_kind (Suc n) e)"
proof (induction n arbitrary: e)
  case (Suc n)
  show ?case
    unfolding compute_kind.simps(2) [of "Suc n" e] compute_kind.simps(2) [of n e] by (intro fuel_mono Suc.IH)
qed simp

lemma code_match_fuel [fuel_mono]:
  "(\<And>a. fuel_le (rec a) (rec' a)) \<Longrightarrow> fuel_le (code_match rec n e) (code_match rec' (Suc n) e)"
  unfolding code_match_def by (intro fuel_mono)

lemma check_code_fuel [fuel_mono]: "fuel_le (check_code n e) (check_code (Suc n) e)"
proof (induction n arbitrary: e)
  case (Suc n)
  show ?case
    unfolding check_code.simps(2) [of "Suc n" e] check_code.simps(2) [of n e] code_op_def
    by (intro fuel_mono Suc.IH)
qed simp

end
