(* ===== verification/LFSC_Frame.thy ===== *)
theory LFSC_Frame
  imports LFSC_Run LFSC_Code LFSC_Term
begin

text \<open>
  What no operation on the graph disturbs.  \<open>stable s s'\<close>: the tables are the same, addresses stay
  allocated, and every cell keeps its class, operator, arity, literal value and name; \<open>scoped s s'\<close>: every
  name has the binding it had.  Both are preorders, so the rules of \<open>step_rel\<close> carry them through
  every composition of steps: reduction, unification and evaluation are \<open>stable\<close>, and the type
  checker of code, which binds names while it works, is \<open>scoped\<close>.
\<close>

section \<open>The relations\<close>

fun same_shape :: "node \<Rightarrow> node \<Rightarrow> bool" where
  "same_shape (CExpr o1 ks1) (CExpr o2 ks2) \<longleftrightarrow> o1 = o2 \<and> length ks1 = length ks2"
| "same_shape nd1 nd2 \<longleftrightarrow> nd1 = nd2"

definition stable :: "st \<Rightarrow> st \<Rightarrow> bool" where
  "stable s s' \<longleftrightarrow> symbols s' = symbols s \<and> progs s' = progs s \<and> progFunctions s' = progFunctions s \<and>
     run_scc s' = run_scc s \<and> maddr s' = maddr s \<and> brk s \<le> brk s' \<and>
     (\<forall>a x. node s' a = Some (SymSExpr x) \<longrightarrow> (\<exists>b. node s b = Some (SymSExpr x))) \<and>
     (bounded s \<longrightarrow> bounded s' \<and>
       (\<forall>a nd. node s a = Some nd \<longrightarrow> (\<exists>nd'. node s' a = Some nd' \<and> same_shape nd nd')))"

definition sym_ok :: "st \<Rightarrow> bool" where
  "sym_ok s \<longleftrightarrow> wf_trie (None, None) (symbols s) \<and> (\<forall>a x. node s a = Some (SymSExpr x) \<longrightarrow> key_ok x)"

definition lookup :: "st \<Rightarrow> string \<Rightarrow> addr option \<times> addr option" where
  "lookup s x = get_trie (None, None) x (symbols s)"

definition scoped :: "st \<Rightarrow> st \<Rightarrow> bool" where
  "scoped s s' \<longleftrightarrow> (sym_ok s \<longrightarrow> sym_ok s' \<and> lookup s' = lookup s)"

section \<open>Both are preorders\<close>

lemma same_shape_refl [simp]: "same_shape nd nd"
  by (cases nd) simp_all

lemma same_shape_trans: "same_shape a b \<Longrightarrow> same_shape b c \<Longrightarrow> same_shape a c"
  by (cases a; cases b; cases c) auto

interpretation stab: step_rel stable
proof
  fix s t u assume "stable s t" "stable t u"
  then show "stable s u"
    unfolding stable_def by (intro conjI impI allI) (metis same_shape_trans order_trans)+
qed (auto simp: stable_def)

interpretation scop: step_rel scoped
  by unfold_locales (auto simp: scoped_def)

lemma stable_scoped: "stable s s' \<Longrightarrow> scoped s s'"
  by (auto simp: stable_def scoped_def sym_ok_def lookup_def)

lemma keeps_scoped: "keeps stable m \<Longrightarrow> keeps scoped m"
  by (auto simp: keeps_def dest: stable_scoped)

section \<open>Primitive steps\<close>

named_theorems stable_ops \<open>operations that keep the shape of the graph and the tables\<close>

lemma keeps_node:
  "(\<And>opr ks. nd = CExpr opr ks \<Longrightarrow> keeps R (a opr ks)) \<Longrightarrow> (\<And>i. nd = IntExpr i \<Longrightarrow> keeps R (b i)) \<Longrightarrow>
   (\<And>q. nd = RatExpr q \<Longrightarrow> keeps R (c q)) \<Longrightarrow> (nd = HoleExpr \<Longrightarrow> keeps R d) \<Longrightarrow>
   (nd = SymExpr \<Longrightarrow> keeps R e) \<Longrightarrow> (\<And>x. nd = SymSExpr x \<Longrightarrow> keeps R (f x)) \<Longrightarrow>
   keeps R (case_node a b c d e f nd)"
  by (cases nd) simp_all

lemma stable_same:
  "node s' = node s \<Longrightarrow> symbols s' = symbols s \<Longrightarrow> progs s' = progs s \<Longrightarrow> progFunctions s' = progFunctions s \<Longrightarrow>
   run_scc s' = run_scc s \<Longrightarrow> maddr s' = maddr s \<Longrightarrow> brk s' = brk s \<Longrightarrow> stable s s'"
  by (auto simp: stable_def bounded_def)

lemma stable_accessors [stable_ops]:
  "keeps stable (getnode a)" "keeps stable (getclass a)" "keeps stable (getop a)" "keeps stable (getkids a)"
  "keeps stable (getkid a i)" "keeps stable (getval a)" "keeps stable (setval a v)" "keeps stable (getflag a)"
  "keeps stable (setflag a b)" "keeps stable (inc a)" "keeps stable (dec a)" "keeps stable (isSymbolic a)"
  "keeps stable (isDatatype a)" "keeps stable (getmark a j)" "keeps stable (setmark a j)"
  "keeps stable (clearmark a j)" "keeps stable (sym_get x)" "keeps stable (getname a)"
  unfolding isSymbolic_def isDatatype_def getmark_def setmark_def clearmark_def sym_get_def getname_def
  by (auto simp: keeps_def run_simps stable_same stab.rel_refl split: option.splits node.splits if_splits)

lemma stable_setkid [stable_ops]: "keeps stable (setkid a i v)"
proof (rule keepsI)
  fix s x s' assume "setkid a i v s = Inr (x, s')"
  then obtain opr ks where nd: "node s a = Some (CExpr opr ks)"
    and s': "s' = s\<lparr>node := (node s)(a \<mapsto> CExpr opr (ks[i := v]))\<rparr>"
    by (auto simp: setkid_def run_simps split: option.splits node.splits if_splits)
  then show "stable s s'"
    by (auto simp: stable_def bounded_def split: if_splits)
qed

lemma stable_new: "(\<And>x. nd \<noteq> SymSExpr x) \<Longrightarrow> keeps stable (new_expr nd)"
  by (auto simp: keeps_def stable_def new_expr_def Let_def bounded_def less_Suc_eq split: if_splits)

lemma stable_new_ops [stable_ops]:
  "keeps stable (new_expr (CExpr opr ks))" "keeps stable (new_expr (IntExpr i))" "keeps stable (new_expr (RatExpr q))"
  by (rule stable_new; simp)+

lemma stable_copy_sym [stable_ops]: "keeps stable (copy_sym a)"
  by (auto simp: keeps_def copy_sym_def run_simps stable_def new_expr_def Let_def bounded_def less_Suc_eq
      split: option.splits node.splits if_splits)

lemmas stable_rules = stab.keeps_rules keeps_node

section \<open>Operations of expr.cpp\<close>

lemma stable_followDefs [stable_ops]: "keeps stable (followDefs n a)"
  by (induction n arbitrary: a) (auto intro!: stable_rules stable_ops)

lemma stable_build_app [stable_ops]: "keeps stable (build_app h as i)"
  unfolding build_app_def by (intro stable_rules stable_ops)

lemma stable_make_app [stable_ops]: "keeps stable (make_app a b)"
  unfolding make_app_def by (intro stable_rules stable_ops)

lemma stable_collect_args [stable_ops]: "keeps stable (collect_args f a b)"
  unfolding collect_args_def by (intro stable_rules stable_ops)

lemma stable_get_head [stable_ops]: "keeps stable (get_head n b a)"
  by (induction n arbitrary: a) (auto intro!: stable_rules stable_ops)

lemma stable_clone_parts:
  assumes "\<And>a. keeps stable (rec a)"
  shows "keeps stable (clone_lam rec e)" "keeps stable (clone_pi rec e)" "keeps stable (clone_default rec e)"
  unfolding clone_lam_def clone_pi_def clone_default_def by (intro stable_rules stable_ops assms)+

lemma stable_clone [stable_ops]: "keeps stable (clone n e)"
proof (induction n arbitrary: e)
  case (Suc n)
  show ?case unfolding clone.simps by (intro stable_rules stable_ops stable_clone_parts Suc.IH)
qed auto

lemma stable_whr_bind [stable_ops]: "keeps stable (whr_bind f as h)"
  by (induction as arbitrary: h) (auto intro!: stable_rules stable_ops)

lemma stable_whr [stable_ops]: "keeps stable (whr f e)"
  unfolding whr_def by (intro stable_rules stable_ops)

lemma stable_free_in_kids:
  "(\<And>v a. keeps stable (rec v a)) \<Longrightarrow> keeps stable (free_in_kids rec ks v)"
  by (induction ks arbitrary: v) (auto intro!: stable_rules stable_ops)

lemma stable_free_in_rec: "keeps stable (free_in_rec n x v e)"
proof (induction n arbitrary: v e)
  case (Suc n)
  show ?case unfolding free_in_rec.simps by (intro stable_rules stable_ops stable_free_in_kids Suc.IH)
qed auto

lemma stable_calc_free_in [stable_ops]: "keeps stable (calc_free_in f e)"
  unfolding calc_free_in_def free_in_def by (intro stable_rules stable_ops stable_free_in_rec)

lemma stable_isType [stable_ops]: "keeps stable (isType n e)"
  by (induction n arbitrary: e) (auto intro!: stable_rules stable_ops)

section \<open>Definitional equality\<close>

lemma stable_fill_args [stable_ops]: "keeps stable (fill_args as t)"
  by (induction as arbitrary: t) (auto intro!: stable_rules stable_ops)

lemma stable_defeq_fill_app [stable_ops]: "keeps stable (defeq_fill_app f a e)"
  unfolding defeq_fill_app_def by (intro stable_rules stable_ops)

lemma stable_share_kid [stable_ops]: "keeps stable (share_kid a b i)"
  unfolding share_kid_def by (intro stable_rules stable_ops)

lemma stable_defeq_kids:
  assumes "\<And>a b. keeps stable (rec a b)"
  shows "keeps stable (defeq_kids rec a b is)"
proof (induction "is")
  case (Cons i "is")
  then show ?case unfolding defeq_kids.simps by (intro stable_rules stable_ops assms)
qed (auto intro!: stable_rules stable_ops)

lemma stable_defeq_parts:
  assumes r: "\<And>a b. keeps stable (rec a b)"
  shows "keeps stable (defeq_left rec f a e)" "keeps stable (defeq_right rec f a e)"
    "keeps stable (defeq_same rec f a e)"
  unfolding defeq_left_def defeq_right_def defeq_same_def defeq_binder_def
  by (intro stable_rules stable_ops stable_defeq_kids r)+

lemma stable_defeq [stable_ops]: "keeps stable (defeq n a e)"
proof (induction n arbitrary: a e)
  case (Suc n)
  show ?case unfolding defeq.simps by (intro stable_rules stable_ops stable_defeq_parts Suc.IH)
qed auto

section \<open>The evaluator\<close>

lemma stable_or_null [stable_ops]:
  "keeps stable m \<Longrightarrow> (\<And>x. keeps stable (k x)) \<Longrightarrow> keeps stable (or_null m k)"
  unfolding or_null_def by (intro stable_rules stable_ops)

lemma stable_bind_pattern [stable_ops]: "keeps stable (bind_pattern vs as)"
  by (induction as arbitrary: vs) (auto intro!: stable_rules stable_ops)

lemma stable_unbind_pattern [stable_ops]: "keeps stable (unbind_pattern os)"
  unfolding unbind_pattern_def by (intro stable_rules stable_ops)

lemma stable_bind_params [stable_ops]: "keeps stable (bind_params vs as)"
  by (induction vs arbitrary: as) (auto intro!: stable_rules stable_ops)

lemma stable_cache [stable_ops]: "keeps stable (cache_get k)" "keeps stable (cache_set k d)"
proof -
  have m: "keeps stable (modify (\<lambda>s. s\<lparr>cache := t s\<rparr>))" for t
    by (auto simp: keeps_def intro: stable_same)
  show "keeps stable (cache_get k)" "keeps stable (cache_set k d)"
    unfolding cache_get_def cache_set_def by (intro stable_rules stable_ops m)+
qed

lemma stable_run_cases:
  assumes "\<And>a. keeps stable (rec a)"
  shows "keeps stable (run_cases rec f b h as cs)"
proof (induction cs)
  case (Cons c cs)
  then show ?case unfolding run_cases.simps by (intro stable_rules stable_ops assms)
qed (auto simp: keeps_def stab.rel_refl)

lemma stable_run_args:
  assumes "\<And>a. keeps stable (rec a)"
  shows "keeps stable (run_args rec rs as)"
  by (induction as arbitrary: rs) (auto intro!: stable_rules stable_ops assms)

lemma stable_run_parts:
  assumes r: "\<And>a. keeps stable (rec a)"
  shows "keeps stable (run_do rec e)" "keeps stable (run_let rec e)" "keeps stable (run_arith rec opr e)"
    "keeps stable (run_neg rec e)" "keeps stable (run_mpz_to_mpq rec e)" "keeps stable (run_if rec opr e)"
    "keeps stable (run_ifmarked rec u e)" "keeps stable (run_compare rec e)" "keeps stable (run_ifequal rec f e)"
    "keeps stable (run_markvar rec e)" "keeps stable (run_match rec f e)"
  unfolding run_do_def run_let_def run_arith_def run_neg_def run_mpz_to_mpq_def run_if_def run_ifmarked_def
    run_compare_def run_ifequal_def run_markvar_def run_match_def mark_index_def
  by (intro stable_rules stable_ops stable_run_cases r)+

lemma stable_restore_params:
  "keeps stable (iter_M (\<lambda>((var, old), a). sq (dec a) (setval var old)) os)"
  by (rule stab.keeps_iter_M) (auto split: prod.split intro!: stab.keeps_sq stable_ops)

lemma stable_run_app:
  assumes r: "\<And>u a. keeps stable (rec u a)"
  shows "keeps stable (run_app rec f u e)"
  unfolding run_app_def run_prog_def run_body_def run_compiled_scc_def
  by (intro stable_restore_params stable_run_args stable_rules stable_ops r)

lemma stable_run_code_internal [stable_ops]: "keeps stable (run_code_internal n u e)"
proof (induction n arbitrary: u e)
  case (Suc n)
  show ?case
    unfolding run_code_internal.simps run_op_def run_atom_def
    by (intro stable_rules stable_ops stable_run_parts stable_run_app Suc.IH)
qed auto

lemma stable_run_code [stable_ops]: "keeps stable (run_code n e)"
proof -
  have m: "keeps stable (modify (\<lambda>s. s\<lparr>cache := t\<rparr>))" for t
    by (auto simp: keeps_def intro: stable_same)
  show ?thesis unfolding run_code_def by (intro stable_rules stable_ops m)
qed

section \<open>The type checker of code\<close>

text \<open>It extends the symbol table for \<open>let\<close> and for patterns, and puts the old bindings back.\<close>

lemma sym_insert_spec:
  assumes "sym_ok s" "key_ok x"
  shows "\<exists>s'. sym_insert x p s = Inr (lookup s x, s') \<and> sym_ok s' \<and> node s' = node s \<and>
    lookup s' = (lookup s)(x := p)"
proof -
  have wf: "wf_trie (None, None) (symbols s)" using assms(1) by (simp add: sym_ok_def)
  from trie_tab.ins_returns [OF wf assms(2)] obtain t where
    t: "insert_trie (None, None) x p (symbols s) = Inr (get_trie (None, None) x (symbols s), t)" by blast
  with trie_tab.ins_inv [OF wf assms(2) t] trie_tab.ins_get [OF wf assms(2) t] assms(1) show ?thesis
    by (auto simp: sym_insert_def sym_ok_def lookup_def fun_eq_iff)
qed

lemma getname_key: "getname a s = Inr (x, s') \<Longrightarrow> sym_ok s \<Longrightarrow> key_ok x \<and> s' = s"
  by (auto simp: getname_def run_simps sym_ok_def split: option.splits node.splits)

text \<open>Insert, work, insert the old binding again.\<close>

lemma insert_restore:
  assumes "sym_ok s" "key_ok x" "sym_insert x p s = Inr (old, s1)" "scoped s1 s2"
    and "sym_insert x old s2 = Inr (z, s3)"
  shows "sym_ok s3 \<and> lookup s3 = lookup s"
proof -
  from sym_insert_spec [OF assms(1,2), of p] assms(3) have
    1: "old = lookup s x" "sym_ok s1" "lookup s1 = (lookup s)(x := p)" by auto
  with assms(4) have 2: "sym_ok s2" "lookup s2 = (lookup s)(x := p)" by (auto simp: scoped_def)
  from sym_insert_spec [OF 2(1) assms(2), of old] assms(5) have
    "sym_ok s3" "lookup s3 = (lookup s2)(x := old)" by auto
  with 1 2 show ?thesis by (simp add: fun_eq_iff)
qed

lemma scoped_trans_stable: "sym_ok s \<Longrightarrow> stable s s' \<Longrightarrow> sym_ok s' \<and> lookup s' = lookup s"
  using stable_scoped [of s s'] by (simp add: scoped_def)

lemma iter_M_append: "iter_M f (xs @ ys) s = sq (iter_M f xs) (iter_M f ys) s"
  by (induction xs arbitrary: s) (auto simp: run_simps split: sum.split)

lemma put_back_Cons:
  "put_back ((x, old) # prevs) s = Inr (u, s') \<longleftrightarrow>
   (\<exists>s1 z. put_back prevs s = Inr ((), s1) \<and> sym_insert x old s1 = Inr (z, s'))"
  by (auto simp: put_back_def iter_M_append sq_Inr_iff)

lemma code_pattern_scope:
  assumes "sym_ok s" "code_pattern f vars c s = Inr ((c', prevs), s1)"
  shows "sym_ok s1 \<and> (\<forall>s2 s3. scoped s1 s2 \<longrightarrow> put_back prevs s2 = Inr ((), s3) \<longrightarrow> sym_ok s3 \<and> lookup s3 = lookup s)"
  using assms
proof (induction vars arbitrary: s c prevs)
  case Nil
  then show ?case by (auto simp: put_back_def scoped_def)
next
  case (Cons v vars)
  then obtain t sa opr sb x sc tp sd old se rest sf ps where
    st: "followDefs f c s = Inr (t, sa)" "getop t sa = Inr (opr, sb)" "getname v sb = Inr (x, sc)"
      "getkid t 1 sc = Inr (tp, sd)" and
    ins: "sym_insert x (None, Some tp) sd = Inr (old, se)" and
    st2: "getkid t 2 se = Inr (rest, sf)" and
    rec: "code_pattern f vars rest sf = Inr ((c', ps), s1)" and ps: "prevs = (x, old) # ps"
    by (auto simp: inr_iff split: if_splits prod.splits)
  have eqs: "sa = s" "sb = sa" "sc = sb" "sd = sc" "sf = se"
    using followDefs_sound [OF st(1)] st(2-) st2
    by (auto simp: run_simps getname_def split: option.splits node.splits if_splits)
  have x: "key_ok x" using getname_key [OF st(3)] Cons.prems(1) eqs by simp
  have sd: "sym_ok sd" "lookup sd = lookup s" using Cons.prems(1) eqs by simp_all
  from sym_insert_spec [OF sd(1) x, of "(None, Some tp)"] ins have "sym_ok se" by auto
  with eqs have "sym_ok sf" by simp
  note IH = Cons.IH [OF this rec]
  show ?case
  proof (intro conjI allI impI)
    show "sym_ok s1" using IH by blast
    fix s2 s3 assume s2: "scoped s1 s2" and "put_back prevs s2 = Inr ((), s3)"
    then obtain s2' z where p: "put_back ps s2 = Inr ((), s2')" "sym_insert x old s2' = Inr (z, s3)"
      unfolding ps put_back_Cons by blast
    from IH s2 p(1) have "sym_ok s2' \<and> lookup s2' = lookup sf" by blast
    then have "scoped se s2'" using eqs(5) by (simp add: scoped_def)
    from insert_restore [OF sd(1) x ins this p(2)] sd(2)
    show "sym_ok s3" "lookup s3 = lookup s" by simp_all
  qed
qed

named_theorems scoped_ops \<open>operations after which every name has the binding it had\<close>

lemmas scoped_rules = scop.keeps_rules keeps_node

lemmas scoped_prims [scoped_ops] = stable_accessors [THEN keeps_scoped] stable_followDefs [THEN keeps_scoped]
  stable_defeq [THEN keeps_scoped] stable_isType [THEN keeps_scoped] stable_calc_free_in [THEN keeps_scoped]
  stable_collect_args [THEN keeps_scoped]

lemma stable_kind_args:
  assumes "\<And>a. keeps stable (rec a)"
  shows "keeps stable (kind_args rec f as h sv)"
proof (induction as arbitrary: h sv)
  case (Cons a as)
  show ?case unfolding kind_args.simps by (intro stable_rules stable_ops assms Cons.IH)
qed auto

lemma stable_compute_kind [stable_ops]: "keeps stable (compute_kind n e)"
proof (induction n arbitrary: e)
  case (Suc n)
  show ?case
    unfolding compute_kind.simps kind_app_def by (intro stable_rules stable_ops stable_kind_args Suc.IH)
qed auto

lemma scoped_code_spine [scoped_ops]: "keeps scoped (code_spine f ts cur)"
proof (induction ts arbitrary: cur)
  case (Cons t ts)
  show ?case unfolding code_spine.simps by (intro scoped_rules scoped_ops Cons.IH)
qed (auto intro!: scoped_rules scoped_ops)

lemma scoped_code_let:
  assumes r: "\<And>a. keeps scoped (rec a)"
  shows "keeps scoped (code_let rec e)"
proof (rule keepsI)
  fix s tp s' assume "code_let rec e s = Inr (tp, s')"
  then obtain var s1 tp1 s2 x s3 old s4 s5 z where
    st: "getkid e 0 s = Inr (var, s1)" "bnd (getkid e 1) rec s1 = Inr (tp1, s2)" "getname var s2 = Inr (x, s3)"
    and ins: "sym_insert x (None, tp1) s3 = Inr (old, s4)"
    and body: "bnd (getkid e 2) rec s4 = Inr (tp, s5)" and put: "sym_insert x old s5 = Inr (z, s')"
    unfolding code_let_def by (auto simp: bnd_Inr_iff [of "getkid e 0"] bnd_Inr_iff [of "getname _"]
        bnd_Inr_iff [of "sym_insert _ _"] bnd_Inr_iff [of "bnd _ _"] sq_Inr_iff)
  have k: "keeps scoped (bnd (getkid e i) rec)" for i by (intro scoped_rules scoped_ops r)
  show "scoped s s'"
    unfolding scoped_def
  proof
    assume ok: "sym_ok s"
    have "scoped s s2" using st(1,2) k scoped_prims(5) by (meson keepsD scop.rel_trans)
    with ok have 2: "sym_ok s2" "lookup s2 = lookup s" by (simp_all add: scoped_def)
    with getname_key [OF st(3)] have x: "key_ok x" "s3 = s2" by simp_all
    have "scoped s4 s5" using body k by (meson keepsD)
    from insert_restore [OF 2(1) x(1) ins [unfolded x(2)] this put] 2(2)
    show "sym_ok s' \<and> lookup s' = lookup s" by simp
  qed
qed

lemma pattern_body_scope:
  assumes r: "\<And>a. keeps scoped (rec a)"
  shows "keeps scoped (bnd (code_pattern f vars c) (\<lambda>(curtp, prevs).
     bnd (followDefs f curtp) (\<lambda>t.
     bnd (getop t) (\<lambda>to.
     if to = PI then stop err
     else bnd (bnd (getkid cs 1) rec) (\<lambda>tp. sq (put_back prevs) (ret tp))))))"
proof (rule keepsI)
  fix s tp s'
  assume "bnd (code_pattern f vars c) (\<lambda>(curtp, prevs).
     bnd (followDefs f curtp) (\<lambda>t.
     bnd (getop t) (\<lambda>to.
     if to = PI then stop err
     else bnd (bnd (getkid cs 1) rec) (\<lambda>tp. sq (put_back prevs) (ret tp))))) s = Inr (tp, s')"
  then obtain c' prevs s1 t s2 opr s3 s4 u where
    p: "code_pattern f vars c s = Inr ((c', prevs), s1)" and
    st: "followDefs f c' s1 = Inr (t, s2)" "getop t s2 = Inr (opr, s3)"
      "bnd (getkid cs 1) rec s3 = Inr (tp, s4)" and
    b: "put_back prevs s4 = Inr (u, s')"
    by (auto simp: bnd_Inr_iff [of "code_pattern _ _ _"] bnd_Inr_iff [of "followDefs _ _"]
        bnd_Inr_iff [of "getop _"] bnd_Inr_iff [of "bnd _ _"] sq_Inr_iff split: if_splits)
  have "s2 = s1" "s3 = s2"
    using followDefs_sound [OF st(1)] st(2) by (auto simp: run_simps split: option.splits)
  moreover have "keeps scoped (bnd (getkid cs 1) rec)" by (intro scoped_rules scoped_ops r)
  ultimately have "scoped s1 s4" using st(3) by (metis keepsD)
  with code_pattern_scope [OF _ p] b show "scoped s s'" by (auto simp: scoped_def [of s])
qed

lemma scoped_code_case:
  assumes r: "\<And>a. keeps scoped (rec a)"
  shows "keeps scoped (code_case rec f c)"
  unfolding code_case_def
  by (intro scoped_rules scoped_ops r pattern_body_scope)

lemma scoped_code_cases:
  assumes r: "\<And>a. keeps scoped (rec a)"
  shows "keeps scoped (code_cases rec f cs m)"
proof (induction cs arbitrary: m)
  case (Cons c cs)
  show ?case unfolding code_cases.simps by (intro scoped_rules scoped_ops scoped_code_case r Cons.IH)
qed auto

lemma scoped_code_parts:
  assumes r: "\<And>a. keeps scoped (rec a)"
  shows "keeps scoped (code_op rec f opr e)"
  unfolding code_op_def code_app_def code_head_type_def code_arith_def code_neg_def code_mpz_to_mpq_def code_if_def
    code_branches_def code_fail_def code_mark_type_def code_markvar_def code_ifmarked_def code_compare_type_def
    code_compare_def code_ifequal_def code_match_def type_of_def
  by (intro scoped_rules scoped_ops scoped_code_let scoped_code_cases r keeps_scoped [OF stable_compute_kind])

lemma scoped_check_code: "keeps scoped (check_code n e)"
proof (induction n arbitrary: e)
  case (Suc n)
  have "keeps scoped (code_atom e)" unfolding code_atom_def by (intro scoped_rules scoped_ops)
  then show ?case unfolding check_code.simps by (intro scoped_rules scoped_ops scoped_code_parts Suc.IH)
qed auto

end
