(* ===== verification/LFSC_Unify.thy ===== *)
theory LFSC_Unify
  imports LFSC_Frame
begin

text \<open>
  Definitional equality on first-order terms.  \<open>cmp\<close> is the comparison of two terms that \<open>defeq\<close> of
  \<open>src/src/expr.cpp\<close> computes, without pointers; \<open>defeq\<close> returns its result, and the sharing of equal
  kids on the way changes no term of the graph (\<open>same_terms\<close>).  Comparing a numeral with a symbol or
  with a numeral of the other sort is undefined: the code casts without looking at the class.
\<close>

section \<open>Comparison of terms\<close>

fun cmp :: "fterm \<Rightarrow> fterm \<Rightarrow> error + bool" and cmps :: "fterm list \<Rightarrow> fterm list \<Rightarrow> error + bool" where
  "cmp (FInt i) u = (case u of FInt j \<Rightarrow> Inr (i = j) | FRat q \<Rightarrow> Inl Undefined | FSym x \<Rightarrow> Inl Undefined
     | _ \<Rightarrow> Inr False)"
| "cmp (FRat p) u = (case u of FRat q \<Rightarrow> Inr (p = q) | FInt i \<Rightarrow> Inl Undefined | FSym x \<Rightarrow> Inl Undefined
     | _ \<Rightarrow> Inr False)"
| "cmp (FSym x) u = Inr (u = FSym x)"
| "cmp (FCon opr) u = Inr (u = FCon opr)"
| "cmp (FApp ts) u = (case u of FApp us \<Rightarrow> cmps ts us | _ \<Rightarrow> Inr False)"
| "cmps [] us = Inr (us = [])"
| "cmps (t # ts) [] = Inr False"
| "cmps (t # ts) (u # us) =
     (case cmp t u of Inl e \<Rightarrow> Inl e | Inr b \<Rightarrow> if b then cmps ts us else Inr False)"

text \<open>The two graphs hold the same terms at the same cells.\<close>

definition same_terms :: "st \<Rightarrow> st \<Rightarrow> bool" where
  "same_terms s s' \<longleftrightarrow> sval s' = sval s \<and> (\<forall>a nd. node s a = Some nd \<longrightarrow> (\<exists>nd'. node s' a = Some nd' \<and> same_shape nd nd')) \<and>
     (\<forall>a t. den {} s a t \<longrightarrow> den {} s' a t)"

interpretation terms: step_rel same_terms
proof
  fix s t u assume "same_terms s t" "same_terms t u"
  then show "same_terms s u"
    unfolding same_terms_def by (metis same_shape_trans)
qed (auto simp: same_terms_def)

lemma cmp_True: "cmp t u = Inr True \<Longrightarrow> t = u" and cmps_True: "cmps ts us = Inr True \<Longrightarrow> ts = us"
  by (induction t u and ts us rule: cmp_cmps.induct)
    (auto split: fterm.splits sum.splits if_splits)

lemma cmp_refl: "cmp t t = Inr True" and cmps_refl: "(\<And>t. t \<in> set ts \<Longrightarrow> cmp t t = Inr True) \<Longrightarrow> cmps ts ts = Inr True"
proof -
  show l: "cmps ts ts = Inr True" if "\<And>t. t \<in> set ts \<Longrightarrow> cmp t t = Inr True" for ts
    using that by (induction ts) simp_all
  show "cmp t t = Inr True"
    by (induction t) (simp_all add: l)
qed

section \<open>Replacing a kid by an equal one\<close>

lemma same_shape_has_val: "same_shape nd nd' \<Longrightarrow> has_val nd' = has_val nd"
  by (cases nd; cases nd') auto

lemma at_end_chain:
  assumes "sval s' = sval s" "\<forall>a nd. node s a = Some nd \<longrightarrow> (\<exists>nd'. node s' a = Some nd' \<and> same_shape nd nd')"
  shows "at_end s a \<Longrightarrow> at_end s' a" "points_to s a b \<Longrightarrow> points_to s' a b"
  using assms same_shape_has_val by (fastforce simp: at_end_def points_to_def)+

lemma den_chain:
  "(points_to s)\<^sup>*\<^sup>* a b \<Longrightarrow> den {} s b t \<Longrightarrow> den {} s a t"
  by (induction rule: converse_rtranclp_induct) (auto intro: den.den_def)

text \<open>A step that keeps the terms of all kids, cell by cell, keeps all terms.\<close>

lemma same_termsI:
  assumes sv: "sval s' = sval s"
    and nd: "\<And>a nd. node s a = Some nd \<Longrightarrow> (\<forall>ks. nd \<noteq> CExpr APP ks) \<Longrightarrow> node s' a = Some nd"
    and app: "\<And>a ks. node s a = Some (CExpr APP ks) \<Longrightarrow> \<exists>ks'. node s' a = Some (CExpr APP ks') \<and>
      length ks' = length ks \<and> (\<forall>ts. list_all2 (den {} s) ks ts \<longrightarrow> list_all2 (den {} s) ks' ts)"
  shows "same_terms s s'"
proof -
  have shape: "\<forall>a nd. node s a = Some nd \<longrightarrow> (\<exists>nd'. node s' a = Some nd' \<and> same_shape nd nd')"
    using nd app by (metis same_shape.simps(1) same_shape_refl)
  note chain = at_end_chain [OF sv shape]
  have mono: "(points_to s')\<^sup>*\<^sup>* a b" if "(points_to s)\<^sup>*\<^sup>* a b" for a b
    using that by (rule rtranclp_mono [THEN predicate2D, rotated]) (auto intro: chain)
  have "den {} s' a t" if "den {} s a t" for a t
    using that
  proof (induction t arbitrary: a rule: measure_induct_rule [of size])
    case (less t)
    from den_end [OF less.prems] obtain b where b: "(points_to s)\<^sup>*\<^sup>* a b" "at_end s b" "den {} s b t" by blast
    have "den {} s' b t"
    proof (cases "\<exists>ts. t = FApp ts")
      case True
      then obtain ts ks where t: "t = FApp ts" and ks: "node s b = Some (CExpr APP ks)" "ks \<noteq> []" "list_all2 (den {} s) ks ts"
        using den_at_end [OF b(3,2)] by auto
      with app obtain ks' where ks': "node s' b = Some (CExpr APP ks')" "length ks' = length ks"
        "list_all2 (den {} s) ks' ts" by blast
      have "size (ts ! i) < size t" if "i < length ts" for i
        using that t size_list_estimation' [of "ts ! i" ts "size (ts ! i)" size] by (simp add: less_Suc_eq_le)
      with ks'(3) have "list_all2 (den {} s') ks' ts"
        using less.IH by (auto simp: list_all2_conv_all_nth)
      with t ks ks' show ?thesis by (auto intro: den.den_app)
    next
      case False
      with den_at_end [OF b(3,2)] nd [of b] sv show ?thesis
        by (auto simp: const_op_def split: fterm.splits elim!: is_sym.elims intro: den.intros)
    qed
    with mono [OF b(1)] show ?case by (rule den_chain)
  qed
  with sv shape show ?thesis by (simp add: same_terms_def)
qed

lemma same_terms_rc: "node s' = node s \<Longrightarrow> sval s' = sval s \<Longrightarrow> same_terms s s'"
  by (rule same_termsI) auto

lemma share_kid_spec:
  assumes e: "node s e1 = Some (CExpr APP ks1)" "node s e2 = Some (CExpr APP ks2)" "i < length ks1" "i < length ks2"
    and k: "den {} s (ks1 ! i) t" "den {} s (ks2 ! i) t"
  shows "\<exists>s'. share_kid e1 e2 i s = Inr ((), s') \<and> same_terms s s'"
proof -
  obtain n1 n2 where n: "node s (ks1 ! i) = Some n1" "node s (ks2 ! i) = Some n2"
    using den_alloc [OF k(1)] den_alloc [OF k(2)] by blast
  have upd: "same_terms s s'"
    if "node s a = Some (CExpr APP ks)" "i < length ks" "den {} s (ks ! i) t" "den {} s c t"
      "node s' = (node s)(a \<mapsto> CExpr APP (ks[i := c]))" "sval s' = sval s" for a ks c s'
  proof (rule same_termsI)
    fix b ks' assume "node s b = Some (CExpr APP ks')"
    with that show "\<exists>ks''. node s' b = Some (CExpr APP ks'') \<and> length ks'' = length ks' \<and>
        (\<forall>ts. list_all2 (den {} s) ks' ts \<longrightarrow> list_all2 (den {} s) ks'' ts)"
      using den_fun by (cases "b = a") (fastforce simp: list_all2_conv_all_nth nth_list_update)+
  qed (use that in auto)
  have "\<exists>s'. sq (dec k) (sq (inc k') (setkid a i k')) s = Inr ((), s') \<and>
      node s' = (node s)(a \<mapsto> CExpr APP (ks[i := k'])) \<and> sval s' = sval s"
    if "node s a = Some (CExpr APP ks)" "i < length ks" "node s k = Some nk" "node s k' = Some nk'" for a ks k k' nk nk'
    using that by (simp add: run_simps setkid_def)
  note step = this [OF e(1,3) n] this [OF e(2,4) n(2,1)]
  have "share_kid e1 e2 i s = sq (dec (ks1 ! i)) (sq (inc (ks2 ! i)) (setkid e1 i (ks2 ! i))) s \<or>
      share_kid e1 e2 i s = sq (dec (ks2 ! i)) (sq (inc (ks1 ! i)) (setkid e2 i (ks1 ! i))) s"
    using e n by (simp add: share_kid_def isSymbolic_def bnd_run getkid_run getclass_run)
  with step obtain s' where
    "share_kid e1 e2 i s = Inr ((), s')" "sval s' = sval s"
    "node s' = (node s)(e1 \<mapsto> CExpr APP (ks1[i := ks2 ! i])) \<or> node s' = (node s)(e2 \<mapsto> CExpr APP (ks2[i := ks1 ! i]))"
    by metis
  with upd [OF e(1,3) k, of s'] upd [OF e(2,4) k(2,1), of s'] show ?thesis by auto
qed

section \<open>defeq computes the comparison\<close>

definition decides :: "st \<Rightarrow> addr \<Rightarrow> addr \<Rightarrow> bool \<Rightarrow> bool" where
  "decides s a e b \<longleftrightarrow> (\<exists>s'. returns (\<lambda>n. defeq n a e) s (b, s') \<and> same_terms s s')"

lemma decides_refl: "decides s a a True"
proof -
  have "returns (\<lambda>n. defeq n a a) s (True, s)" by (rule returns_Suc, rule returns_all) simp
  then show ?thesis unfolding decides_def using terms.rel_refl by blast
qed

lemma den_at_end_class:
  assumes "den V s a t" "at_end s a"
  obtains nd where "node s a = Some nd" "op_of nd \<noteq> ASCRIBE" "class_of nd \<noteq> HOLE_EXPR"
    "has_val nd \<Longrightarrow> sval s a = None" "op_of nd = APP \<longleftrightarrow> (\<exists>ts. t = FApp ts)"
  using den_at_end [OF assms] by (auto simp: const_op_def split: fterm.splits elim!: is_sym.elims)

text \<open>Neither side is special when both are at the end of their chains.\<close>

lemma defeq_left_end:
  assumes "den {} s a t" "at_end s a"
  shows "returns (\<lambda>n. defeq_left (defeq n) n a e) s (None, s)"
proof -
  from den_at_end_class [OF assms] obtain nd where nd: "node s a = Some nd" "op_of nd \<noteq> ASCRIBE"
    "class_of nd \<noteq> HOLE_EXPR" "has_val nd \<Longrightarrow> sval s a = None" by blast
  from get_head_den [OF assms] obtain h where h: "returns (\<lambda>n. get_head n True a) s (h, s)" "rigid_head s h" by blast
  from h(2) obtain nh where nh: "node s h = Some nh" "class_of nh \<noteq> HOLE_EXPR" by (auto simp: rigid_head_def)
  show ?thesis
    by (rule returns_elim2 [OF whr_den [OF assms] h(1)])
      (use nd nh in \<open>cases nd; auto simp: defeq_left_def run_simps\<close>)
qed

lemma defeq_right_end:
  assumes "den {} s e u" "at_end s e"
  shows "returns (\<lambda>n. defeq_right (defeq n) n a e) s (None, s)"
proof -
  from den_at_end_class [OF assms] obtain nd where nd: "node s e = Some nd" "op_of nd \<noteq> ASCRIBE"
    "class_of nd \<noteq> HOLE_EXPR" "has_val nd \<Longrightarrow> sval s e = None" by blast
  show ?thesis
    by (rule returns_elim1 [OF whr_den [OF assms]])
      (use nd in \<open>cases nd; auto simp: defeq_right_def run_simps\<close>)
qed

lemma defeq_end:
  assumes "den {} s a t" "at_end s a" "den {} s e u" "at_end s e" "a \<noteq> e"
    and r: "returns (\<lambda>n. defeq_same (defeq n) n a e) s r"
  shows "returns (\<lambda>n. defeq n a e) s r"
  by (rule returns_Suc, rule returns_elim3 [OF defeq_left_end [OF assms(1,2), of e]
        defeq_right_end [OF assms(3,4), of a] r])
    (use assms(5) in \<open>simp add: run_simps\<close>)

lemma defeq_same_atoms:
  assumes "den {} s a t" "at_end s a" "den {} s e u" "at_end s e" "a \<noteq> e" "\<not> (\<exists>ts us. t = FApp ts \<and> u = FApp us)"
    and "cmp t u = Inr b"
  shows "defeq_same r n a e s = Inr (b, s)"
  using den_at_end [OF assms(1,2)] den_at_end [OF assms(3,4)] assms(5-)
  by (cases t; cases u) (auto simp: defeq_same_def run_simps const_op_def elim!: is_sym.elims)

text \<open>One iteration of the loop over the kids.\<close>

lemma defeq_kids_rules:
  assumes k: "node s e1 = Some (CExpr APP ks1)" "node s e2 = Some (CExpr APP ks2)" "i < length ks1"
  shows "length ks2 \<le> i \<Longrightarrow> returns (\<lambda>n. defeq_kids (defeq n) e1 e2 (i # js)) s (False, s)"
    and "i < length ks2 \<Longrightarrow> ks1 ! i = ks2 ! i \<Longrightarrow> returns (\<lambda>n. defeq_kids (defeq n) e1 e2 js) s r \<Longrightarrow>
      returns (\<lambda>n. defeq_kids (defeq n) e1 e2 (i # js)) s r"
    and "i < length ks2 \<Longrightarrow> ks1 ! i \<noteq> ks2 ! i \<Longrightarrow> returns (\<lambda>n. defeq n (ks1 ! i) (ks2 ! i)) s (False, s1) \<Longrightarrow>
      returns (\<lambda>n. defeq_kids (defeq n) e1 e2 (i # js)) s (False, s1)"
    and "i < length ks2 \<Longrightarrow> ks1 ! i \<noteq> ks2 ! i \<Longrightarrow> returns (\<lambda>n. defeq n (ks1 ! i) (ks2 ! i)) s (True, s1) \<Longrightarrow>
      share_kid e1 e2 i s1 = Inr ((), s2) \<Longrightarrow> returns (\<lambda>n. defeq_kids (defeq n) e1 e2 js) s2 r \<Longrightarrow>
      returns (\<lambda>n. defeq_kids (defeq n) e1 e2 (i # js)) s r"
proof -
  show "returns (\<lambda>n. defeq_kids (defeq n) e1 e2 (i # js)) s (False, s)" if "length ks2 \<le> i"
    by (rule returns_all) (use k that in \<open>simp add: run_simps nth_opt_def\<close>)
  show "returns (\<lambda>n. defeq_kids (defeq n) e1 e2 (i # js)) s r"
    if "i < length ks2" "ks1 ! i = ks2 ! i" "returns (\<lambda>n. defeq_kids (defeq n) e1 e2 js) s r"
    by (rule returns_elim1 [OF that(3)]) (use k that in \<open>simp add: run_simps nth_opt_def\<close>)
  show "returns (\<lambda>n. defeq_kids (defeq n) e1 e2 (i # js)) s (False, s1)"
    if "i < length ks2" "ks1 ! i \<noteq> ks2 ! i" "returns (\<lambda>n. defeq n (ks1 ! i) (ks2 ! i)) s (False, s1)"
    by (rule returns_elim1 [OF that(3)]) (use k that in \<open>simp add: run_simps nth_opt_def\<close>)
  show "returns (\<lambda>n. defeq_kids (defeq n) e1 e2 (i # js)) s r"
    if "i < length ks2" "ks1 ! i \<noteq> ks2 ! i" "returns (\<lambda>n. defeq n (ks1 ! i) (ks2 ! i)) s (True, s1)"
      "share_kid e1 e2 i s1 = Inr ((), s2)" "returns (\<lambda>n. defeq_kids (defeq n) e1 e2 js) s2 r"
    by (rule returns_elim2 [OF that(3,5)]) (use k that in \<open>simp add: run_simps nth_opt_def\<close>)
qed

text \<open>Two application cells.\<close>

definition app_cell :: "st \<Rightarrow> addr \<Rightarrow> fterm list \<Rightarrow> addr list \<Rightarrow> bool" where
  "app_cell s e ts ks \<longleftrightarrow> node s e = Some (CExpr APP ks) \<and> list_all2 (den {} s) ks ts \<and> ts \<noteq> []"

lemma app_cell_same: "app_cell s e ts ks \<Longrightarrow> same_terms s s' \<Longrightarrow> \<exists>ks'. app_cell s' e ts ks'"
proof -
  assume a: "app_cell s e ts ks" and st: "same_terms s s'"
  then have "den {} s e (FApp ts)" "at_end s e" "ts \<noteq> []"
    by (auto simp: app_cell_def at_end_def intro: den.den_app)
  then have "den {} s' e (FApp ts)" "at_end s' e" "ts \<noteq> []"
    using st at_end_chain(1) by (auto simp: same_terms_def)
  then show ?thesis using den_at_end [of "{}" s' e "FApp ts"] by (auto simp: app_cell_def)
qed

lemma app_cell_nth: "app_cell s e ts ks \<Longrightarrow> length ks = length ts \<and> (\<forall>i < length ts. den {} s (ks ! i) (ts ! i))"
  by (auto simp: app_cell_def list_all2_conv_all_nth)

lemma share_kid_same:
  assumes "app_cell s e1 ts ks1" "app_cell s e2 us ks2" "i < length ts" "i < length us" "ts ! i = us ! i"
  shows "\<exists>s'. share_kid e1 e2 i s = Inr ((), s') \<and> same_terms s s'"
proof -
  have "den {} s (ks1 ! i) (ts ! i)" "den {} s (ks2 ! i) (ts ! i)" "i < length ks1" "i < length ks2"
    using app_cell_nth [OF assms(1)] app_cell_nth [OF assms(2)] assms(3-) by auto
  with assms(1,2) share_kid_spec show ?thesis unfolding app_cell_def by blast
qed

lemma cmps_drop:
  assumes "i < length ts" "i < length us" "cmps (drop i ts) (drop i us) = Inr b"
  shows "\<exists>b0. cmp (ts ! i) (us ! i) = Inr b0 \<and> (b0 \<longrightarrow> cmps (drop (Suc i) ts) (drop (Suc i) us) = Inr b) \<and>
    (\<not> b0 \<longrightarrow> \<not> b)"
proof -
  have "cmps (ts ! i # drop (Suc i) ts) (us ! i # drop (Suc i) us) = Inr b"
    using assms by (simp only: Cons_nth_drop_Suc)
  then show ?thesis by (auto split: sum.splits if_splits)
qed

lemma defeq_kids_decides:
  assumes IH: "\<And>t s a e u b. t \<in> set ts \<Longrightarrow> den {} s a t \<Longrightarrow> den {} s e u \<Longrightarrow> cmp t u = Inr b \<Longrightarrow> decides s a e b"
    and "app_cell s e1 ts ks1" "app_cell s e2 us ks2"
    and "i \<le> length ts" "i \<le> length us" "cmps (drop i ts) (drop i us) = Inr b"
  shows "\<exists>s'. returns (\<lambda>n. defeq_kids (defeq n) e1 e2 [i..<length ts]) s (b, s') \<and> same_terms s s'"
  using assms(2-)
proof (induction "length ts - i" arbitrary: i s ks1 ks2)
  case 0
  then have "defeq_kids r e1 e2 [i..<length ts] s = Inr (b, s)" for r
    using app_cell_nth [OF "0.prems"(1)] app_cell_nth [OF "0.prems"(2)] by (auto simp: app_cell_def run_simps)
  then show ?case using terms.rel_refl by (blast intro: returns_all)
next
  case (Suc m)
  note a = Suc.prems(1,2) [unfolded app_cell_def] and d = app_cell_nth [OF Suc.prems(1)] app_cell_nth [OF Suc.prems(2)]
  have i: "i < length ts" and ups: "[i..<length ts] = i # [Suc i..<length ts]"
    using Suc.hyps(2) by (simp_all add: upt_conv_Cons)
  note rules = defeq_kids_rules [of s e1 ks1 e2 ks2 i, where js = "[Suc i..<length ts]"]
  have next_i: "\<exists>s'. returns (\<lambda>n. defeq_kids (defeq n) e1 e2 [Suc i..<length ts]) s1 (b, s') \<and> same_terms s1 s'"
    if "same_terms s s1" "cmps (drop (Suc i) ts) (drop (Suc i) us) = Inr b" "i < length us" for s1
    using Suc.hyps(1) [of "Suc i" s1] Suc.hyps(2) app_cell_same [OF Suc.prems(1) that(1)]
      app_cell_same [OF Suc.prems(2) that(1)] that(2,3) i by auto
  consider "length us \<le> i" | "i < length us" "ks1 ! i = ks2 ! i" | "i < length us" "ks1 ! i \<noteq> ks2 ! i" by linarith
  then show ?case
  proof cases
    case 1
    with Suc.prems(5) i have "b = False" by (simp add: Cons_nth_drop_Suc [symmetric])
    with rules(1) a d i 1 terms.rel_refl show ?thesis unfolding ups by auto
  next
    case 2
    with d i den_fun have "ts ! i = us ! i" by metis
    with cmps_drop [OF i 2(1) Suc.prems(5)] cmp_refl have "cmps (drop (Suc i) ts) (drop (Suc i) us) = Inr b"
      by auto
    from next_i [OF terms.rel_refl this 2(1)] rules(2) a d i 2 show ?thesis unfolding ups by auto
  next
    case 3
    from cmps_drop [OF i 3(1) Suc.prems(5)] obtain b0 where b0: "cmp (ts ! i) (us ! i) = Inr b0"
      "b0 \<Longrightarrow> cmps (drop (Suc i) ts) (drop (Suc i) us) = Inr b" "\<not> b0 \<Longrightarrow> \<not> b" by blast
    have "decides s (ks1 ! i) (ks2 ! i) b0"
      using IH [OF nth_mem [OF i] _ _ b0(1)] d i 3(1) by blast
    then obtain s1 where
      s1: "returns (\<lambda>n. defeq n (ks1 ! i) (ks2 ! i)) s (b0, s1)" "same_terms s s1" by (auto simp: decides_def)
    show ?thesis
    proof (cases b0)
      case False
      with rules(3) a d i 3 s1 b0(3) show ?thesis unfolding ups by auto
    next
      case True
      with b0(1) cmp_True have tu: "ts ! i = us ! i" by auto
      from app_cell_same [OF Suc.prems(1) s1(2)] app_cell_same [OF Suc.prems(2) s1(2)] share_kid_same i 3(1) tu
      obtain s2 where s2: "share_kid e1 e2 i s1 = Inr ((), s2)" "same_terms s1 s2" by metis
      from next_i [OF terms.rel_trans [OF s1(2) s2(2)] b0(2) [OF True] 3(1)] obtain s' where
        s': "returns (\<lambda>n. defeq_kids (defeq n) e1 e2 [Suc i..<length ts]) s2 (b, s')" "same_terms s2 s'" by blast
      have "returns (\<lambda>n. defeq_kids (defeq n) e1 e2 (i # [Suc i..<length ts])) s (b, s')"
        using rules(4) [OF _ _ _ _ 3(2) _ s2(1) s'(1)] a d i 3(1) s1(1) True by simp
      with s1(2) s2(2) s'(2) show ?thesis unfolding ups by (blast intro: terms.rel_trans)
    qed
  qed
qed

text \<open>Following the chains of \<open>val\<close> pointers on either side.\<close>

lemma decides_right:
  assumes "den {} s a t" "at_end s a" "points_to s e e'" "decides s a e' b"
  shows "decides s a e b"
proof -
  from assms(4) obtain s' where s': "returns (\<lambda>n. defeq n a e') s (b, s')" "same_terms s s'" by (auto simp: decides_def)
  from assms(3) obtain nd where nd: "node s e = Some nd" "has_val nd" "sval s e = Some e'" by (auto simp: points_to_def)
  have "a \<noteq> e" using assms(2,3) points_to_end by blast
  have "returns (\<lambda>n. defeq n a e) s (b, s')"
    by (rule returns_Suc, rule returns_elim2 [OF defeq_left_end [OF assms(1,2), of e] s'(1)])
      (use nd \<open>a \<noteq> e\<close> in \<open>cases nd; simp add: run_simps defeq_right_def\<close>)
  with s'(2) show ?thesis by (auto simp: decides_def)
qed

lemma decides_left:
  assumes "points_to s a a'" "a \<noteq> e" "decides s a' e b"
  shows "decides s a e b"
proof -
  from assms(3) obtain s' where s': "returns (\<lambda>n. defeq n a' e) s (b, s')" "same_terms s s'" by (auto simp: decides_def)
  from assms(1) obtain nd where nd: "node s a = Some nd" "has_val nd" "sval s a = Some a'" by (auto simp: points_to_def)
  have "returns (\<lambda>n. defeq n a e) s (b, s')"
    by (rule returns_Suc, rule returns_elim1 [OF s'(1)])
      (use nd assms(2) in \<open>cases nd; simp add: run_simps defeq_left_def\<close>)
  with s'(2) show ?thesis by (auto simp: decides_def)
qed

lemma decides_chain_right:
  assumes "(points_to s)\<^sup>*\<^sup>* e e'" "den {} s a t" "at_end s a" "decides s a e' b"
  shows "decides s a e b"
  using assms by (induction rule: converse_rtranclp_induct) (auto intro: decides_right)

lemma decides_chain_left:
  assumes "(points_to s)\<^sup>*\<^sup>* a a'" "den {} s a t" "den {} s e u" "cmp t u = Inr b" "decides s a' e b"
  shows "decides s a e b"
  using assms(1,2,5)
proof (induction rule: converse_rtranclp_induct)
  case (step a c)
  then have "den {} s c t" using den_step by blast
  with step have c: "decides s c e b" by blast
  show ?case
  proof (cases "a = e")
    case True
    with step.prems(1) assms(3,4) den_fun cmp_refl have "b = True" by fastforce
    with True decides_refl show ?thesis by blast
  qed (use decides_left step.hyps(1) c in blast)
qed

lemma decides_ends:
  assumes IH: "\<And>t' s a e u b. size t' < size t \<Longrightarrow> den {} s a t' \<Longrightarrow> den {} s e u \<Longrightarrow> cmp t' u = Inr b \<Longrightarrow> decides s a e b"
    and d: "den {} s a t" "at_end s a" "den {} s e u" "at_end s e" "cmp t u = Inr b"
  shows "decides s a e b"
proof (cases "a = e")
  case True
  with d den_fun cmp_refl have "b = True" by fastforce
  with True decides_refl show ?thesis by blast
next
  case False
  show ?thesis
  proof (cases "\<exists>ts us. t = FApp ts \<and> u = FApp us")
    case True
    then obtain ts us where tu: "t = FApp ts" "u = FApp us" by blast
    with den_at_end [OF d(1,2)] den_at_end [OF d(3,4)] obtain ks1 ks2 where
      k: "app_cell s a ts ks1" "app_cell s e us ks2" by (auto simp: app_cell_def)
    have "size t' < size t" if "t' \<in> set ts" for t'
      using that tu(1) size_list_estimation' [of t' ts "size t'" size] by (simp add: less_Suc_eq_le)
    then have kids: "decides s a e b" if "t' \<in> set ts" "den {} s a t'" "den {} s e u" "cmp t' u = Inr b" for t' s a e u b
      using IH that by blast
    have "cmps (drop 0 ts) (drop 0 us) = Inr b" using d(5) tu by simp
    then have "\<exists>s'. returns (\<lambda>n. defeq_kids (defeq n) a e [0..<length ts]) s (b, s') \<and> same_terms s s'"
      by (intro defeq_kids_decides [OF _ k]) (simp_all add: kids)
    then obtain s' where
      s': "returns (\<lambda>n. defeq_kids (defeq n) a e [0..<length ts]) s (b, s')" "same_terms s s'" by blast
    have "returns (\<lambda>n. defeq_same (defeq n) n a e) s (b, s')"
      by (rule returns_elim1 [OF s'(1)])
        (use k app_cell_nth [OF k(1)] in \<open>simp add: defeq_same_def run_simps app_cell_def\<close>)
    from defeq_end [OF d(1-4) False this] s'(2) show ?thesis by (auto simp: decides_def)
  next
    case atoms: False
    have "returns (\<lambda>n. defeq_same (defeq n) n a e) s (b, s)"
      by (rule returns_all) (rule defeq_same_atoms [OF d(1-4) False atoms d(5)])
    from defeq_end [OF d(1-4) False this] terms.rel_refl show ?thesis by (auto simp: decides_def)
  qed
qed

lemma defeq_decides:
  "den {} s a t \<Longrightarrow> den {} s e u \<Longrightarrow> cmp t u = Inr b \<Longrightarrow> decides s a e b"
proof (induction t arbitrary: s a e u b rule: measure_induct_rule [of size])
  case (less t)
  from den_end [OF less.prems(1)] den_end [OF less.prems(2)] obtain a' e' where
    a: "(points_to s)\<^sup>*\<^sup>* a a'" "at_end s a'" "den {} s a' t" and
    e: "(points_to s)\<^sup>*\<^sup>* e e'" "at_end s e'" "den {} s e' u" by blast
  have "decides s a' e' b"
    by (rule decides_ends [OF less.IH a(3,2) e(3,2) less.prems(3)])
  with decides_chain_right [OF e(1) a(3,2)] have "decides s a' e b" by blast
  with decides_chain_left [OF a(1) less.prems] show ?case by blast
qed

end
