(* ===== verification/LFSC_Findings.thy ===== *)
theory LFSC_Findings
  imports LFSC_Refine LFSC_Unify
begin

text \<open>
  Filling holes, and places where the code does not do what it means to: a hole that is filled
  with itself, the comparison of a numeral with a symbol, sharing that ties two variables together, a cached call that leaves its parameters
  bound, and the byte that the symbol table writes out of bounds.
\<close>

section \<open>Holes\<close>

lemma defeq_hole:
  assumes "node s h = Some HoleExpr" "sval s h = None" "h \<noteq> e" "(points_to s)\<^sup>*\<^sup>* e e'" "at_end s e'"
  shows "\<exists>s'. returns (\<lambda>n. defeq n h e) s (True, s') \<and> node s' = node s \<and> sval s' = (sval s)(h \<mapsto> e')"
proof -
  obtain nd where nd: "node s e' = Some nd" using assms(5) by (auto simp: at_end_def)
  have "returns (\<lambda>n. defeq n h e) s
      (True, s\<lparr>sval := (sval s)(h \<mapsto> e'), refs := (refs s)(e' := ref_inc (refs s e'))\<rparr>)"
    by (rule returns_Suc, rule returns_elim1 [OF followDefs_returns [OF assms(4,5)]])
      (use assms(1-3) nd in \<open>simp add: run_simps defeq_left_def\<close>)
  then show ?thesis by fastforce
qed

text \<open>A filled hole stands for the term it was compared with.\<close>

lemma at_end_upd: "at_end s b \<Longrightarrow> b \<noteq> h \<Longrightarrow> node s' = node s \<Longrightarrow> sval s' = (sval s)(h \<mapsto> c) \<Longrightarrow> at_end s' b"
  by (auto simp: at_end_def)

lemma filled_hole:
  assumes "node s h = Some HoleExpr" "node s' = node s" "sval s' = (sval s)(h \<mapsto> e')" "at_end s e'" "e' \<noteq> h"
  shows "returns (\<lambda>n. followDefs n h) s' (e', s')"
proof (rule followDefs_returns)
  show "(points_to s')\<^sup>*\<^sup>* h e'" using assms by (intro r_into_rtranclp) (simp add: points_to_def)
  show "at_end s' e'" using at_end_upd assms by blast
qed

lemma followDefs_loop: "points_to s a a \<Longrightarrow> followDefs n a s = Inl OutOfFuel"
  by (induction n) (simp_all add: followDefs_step del: followDefs.simps(2))

section \<open>Numerals and symbols\<close>

lemma defeq_int_sym:
  assumes "node s a = Some (IntExpr i)" "node s e = Some nd" "is_sym nd" "sval s e = None"
  shows "defeq (Suc n) a e s = Inl Undefined" and "defeq (Suc n) e a s = Inr (False, s)"
  using assms by (cases nd; auto simp: run_simps defeq_left_def defeq_right_def defeq_same_def)+

section \<open>Sharing\<close>

text \<open>Rules that evaluate the comparison of applications of symbols, kid by kid.\<close>

lemma defeq_app_app:
  assumes "a \<noteq> e" "node s a = Some (CExpr APP (k # ks))" "node s e = Some (CExpr APP (k' # ks'))"
    and "node s k = Some (SymSExpr x)" "sval s k = None" "node s k' = Some (SymSExpr x')" "sval s k' = None"
  shows "defeq (Suc (Suc (Suc n))) a e s = defeq_kids (defeq (Suc (Suc n))) a e [0..<Suc (length ks)] s"
  using assms by (simp add: run_simps defeq_left_def defeq_right_def whr_def defeq_same_def del: defeq_kids.simps upt_Suc)

lemma defeq_val_right:
  assumes "a \<noteq> x" "node s a = Some (SymSExpr y)" "sval s a = None" "node s x = Some (SymSExpr z)" "sval s x = Some a"
  shows "defeq (Suc (Suc n)) a x s = Inr (True, s)"
  using assms by (simp add: run_simps defeq_left_def defeq_right_def)

lemma defeq_val_both:
  assumes "sval s x = Some a" "sval s y = Some a" "x \<noteq> y" "a \<noteq> y" "node s a = Some (SymSExpr u)" "sval s a = None"
    and "node s x = Some (SymSExpr v)" "node s y = Some (SymSExpr w)"
  shows "defeq (Suc (Suc (Suc n))) x y s = Inr (True, s)"
  using assms defeq_val_right [of a y s] by (simp add: run_simps defeq_left_def)

lemma defeq_kids_step:
  assumes "node s e1 = Some (CExpr APP ks1)" "node s e2 = Some (CExpr APP ks2)"
  shows "i < length ks1 \<Longrightarrow> i < length ks2 \<Longrightarrow> ks1 ! i = ks2 ! i \<Longrightarrow> defeq_kids rec e1 e2 (i # js) s = defeq_kids rec e1 e2 js s"
    and "i < length ks1 \<Longrightarrow> i < length ks2 \<Longrightarrow> ks1 ! i \<noteq> ks2 ! i \<Longrightarrow> defeq_kids rec e1 e2 (i # js) s = (case rec (ks1 ! i) (ks2 ! i) s of
      Inl e \<Rightarrow> Inl e
    | Inr (b, s1) \<Rightarrow> if b then sq (share_kid e1 e2 i) (defeq_kids rec e1 e2 js) s1 else Inr (False, s1))"
    and "defeq_kids rec e1 e2 [] s = Inr (length ks2 = length ks1, s)"
  using assms by (simp_all add: run_simps nth_opt_def split: sum.split)


lemma dec_st_shared: "1 < refs s a \<Longrightarrow> refs s a < d_maxRefCount \<Longrightarrow> dec_st a s = s\<lparr>refs := (refs s)(a := refs s a - 1)\<rparr>"
  by (simp add: dec_st_def dec_with_def ref_dec_def Let_def)

lemma share_kid_right:
  assumes "node s e1 = Some (CExpr APP ks1)" "node s e2 = Some (CExpr APP ks2)" "i < length ks1" "i < length ks2"
    and "node s (ks2 ! i) = Some (SymSExpr x)" "node s (ks1 ! i) = Some nd" "1 < refs s (ks1 ! i)" "refs s (ks1 ! i) < d_maxRefCount"
  shows "share_kid e1 e2 i s = Inr ((), s\<lparr>refs := ((refs s)(ks1 ! i := refs s (ks1 ! i) - 1))(ks2 ! i := ref_inc (((refs s)(ks1 ! i := refs s (ks1 ! i) - 1)) (ks2 ! i))),
     node := (node s)(e1 \<mapsto> CExpr APP (ks1[i := ks2 ! i]))\<rparr>)"
  using assms by (simp add: share_kid_def run_simps isSymbolic_def dec_st_shared inc_def setkid_def nth_opt_def)

lemma share_kid_left:
  assumes "node s e1 = Some (CExpr APP ks1)" "node s e2 = Some (CExpr APP ks2)" "i < length ks1" "i < length ks2"
    and "node s (ks2 ! i) = Some (CExpr o2 l2)" "node s (ks1 ! i) = Some (CExpr o1 l1)" "refs s (ks2 ! i) \<le> refs s (ks1 ! i)"
     "1 < refs s (ks2 ! i)" "refs s (ks2 ! i) < d_maxRefCount"
  shows "share_kid e1 e2 i s = Inr ((), s\<lparr>refs := ((refs s)(ks2 ! i := refs s (ks2 ! i) - 1))(ks1 ! i := ref_inc (((refs s)(ks2 ! i := refs s (ks2 ! i) - 1)) (ks1 ! i))),
     node := (node s)(e2 \<mapsto> CExpr APP (ks2[i := ks1 ! i]))\<rparr>)"
  using assms by (simp add: share_kid_def run_simps isSymbolic_def dec_st_shared inc_def setkid_def nth_opt_def)

section \<open>Cached calls\<close>

lemma etrie_data_has: "etrie_data k t = Some d \<Longrightarrow> etrie_has k t"
  by (induction k arbitrary: t) (auto split: option.splits)

lemma etrie_get_has: "etrie_has k t \<Longrightarrow> snd (etrie_get k t) = []"
  by (induction k arbitrary: t) (auto simp: case_prod_unfold Let_def split: option.splits)

lemma cache_get_hit:
  assumes "etrie_data k (cache s) = Some d"
  shows "cache_get k s = Inr (Some d, s\<lparr>cache := etrie_touch k (cache s)\<rparr>)"
proof -
  obtain t new where g: "etrie_get k (cache s) = (t, new)" by fastforce
  with etrie_get_has [OF etrie_data_has [OF assms]] etrie_data_get [of k k "cache s"] assms show ?thesis
    by (simp add: cache_get_def run_simps etrie_touch_def)
qed

lemma run_prog_cache_hit:
  assumes p: "node s pc = Some (CExpr PROG [tp, vs, body])" "node s vs = Some (CExpr opr xs)"
    "get_head n False e s = Inr (p, s)" "node s p = Some nd" "\<not> run_scc s" "progFunctions s p"
    and x: "length xs = length as" "distinct xs" "val_cells s xs"
    and c: "etrie_data (p # as) (cache s) = Some d" "node s d = Some nd'"
  shows "\<exists>s'. run_prog rec n u e pc as s = Inr (Some d, s') \<and> sval s' = upd_vals xs as (sval s)"
  using p c bind_params_spec [OF x] cache_get_hit [of "p # as" "s\<lparr>sval := upd_vals xs as (sval s)\<rparr>" d]
  by (simp add: run_prog_def run_simps)

section \<open>The symbol table\<close>

text \<open>In a node with children, a name that starts with the byte 255 makes \<open>c + 1\<close> wrap to zero before the store.\<close>

lemma trie_byte_255:
  assumes "length nx < 2 ^ 32"
  shows "insert_trie dd (CHR 0xFF # cs) x (Trie None d True nx) = Inl Undefined"
  using assms by (simp add: char_index_def)

end
