(* ===== verification/LFSC_Examples.thy ===== *)
theory LFSC_Examples
  imports LFSC_Findings
begin

text \<open>
  Concrete graphs that the theorems are applied to: a recursive program, terms with a filled hole, and a
  pattern whose variables have values.
\<close>

section \<open>Concrete graphs for the examples\<close>

text \<open>A state whose graph has the given cells and \<open>val\<close> pointers; the tables are empty.\<close>

definition mk_st :: "(addr \<times> node) list \<Rightarrow> (addr \<times> addr) list \<Rightarrow> st" where
  "mk_st ns vs = \<lparr>node = map_of ns, sval = map_of vs, flag = (\<lambda>a. False), refs = (\<lambda>a. 1),
     freed = (\<lambda>a. False), brk = Suc (fold max (map fst ns) 0), maddr = id, mark_map = (\<lambda>a. 0),
     symbols = new_trie (None, None), progs = (\<lambda>x. None), progFunctions = (\<lambda>a. False),
     run_scc = False, cache = empty_etrie\<rparr>"

text \<open>The program \<open>(program fac ((n mpz)) mpz (mp_ifzero n 1 (mp_mul n (fac (mp_add n (~ 1))))))\<close> and the call \<open>(fac 3)\<close>.\<close>

definition fac_st :: st where
  "fac_st = mk_st
     [(2, CExpr MPZ []), (4, SymSExpr ''n''), (5, SymSExpr ''fac''), (6, IntExpr 1), (7, IntExpr (- 1)),
      (8, CExpr ADD [4, 7]), (9, CExpr APP [5, 8]), (10, CExpr MUL [4, 9]), (11, CExpr IFZERO [4, 6, 10]),
      (12, CExpr PROGVARS [4]), (13, CExpr PROG [2, 12, 11]), (14, IntExpr 3), (15, CExpr APP [5, 14])]
     [(5, 13)]"

definition fac_code :: code where
  "fac_code = CIf IFZERO (CVar 4) (CInt 1)
     (CArith MUL (CVar 4) (CCall 5 [CArith ADD (CVar 4) (CInt (- 1))]))"

definition fac_table :: prog_table where
  "fac_table = [5 \<mapsto> ([4], fac_code)]"

text \<open>Two copies of the term \<open>(f c)\<close>, one of them behind a filled hole, and the term \<open>(f d)\<close>.\<close>

definition terms_st :: st where
  "terms_st = mk_st
     [(4, SymSExpr ''f''), (5, SymSExpr ''c''), (6, SymSExpr ''d''), (7, CExpr APP [4, 5]), (8, HoleExpr),
      (9, CExpr APP [4, 8]), (10, CExpr APP [4, 6]), (11, HoleExpr), (12, IntExpr 3),
      (13, CExpr LAM [6, 10]), (14, CExpr APP [13, 7])]
     [(8, 5)]"

lemma mk_st_sel [simp]:
  "node (mk_st ns vs) = map_of ns" "sval (mk_st ns vs) = map_of vs" "flag (mk_st ns vs) = (\<lambda>a. False)"
  "brk (mk_st ns vs) = Suc (fold max (map fst ns) 0)" "progFunctions (mk_st ns vs) = (\<lambda>a. False)"
  "run_scc (mk_st ns vs) = False" "cache (mk_st ns vs) = empty_etrie" "symbols (mk_st ns vs) = new_trie (None, None)"
  by (simp_all add: mk_st_def)

lemma le_fold_max: "b \<le> a \<or> b \<in> set xs \<Longrightarrow> b \<le> fold max xs (a :: nat)"
proof (induction xs arbitrary: a)
  case (Cons x xs)
  then have "b \<le> max x a \<or> b \<in> set xs" by (auto simp: le_max_iff_disj)
  then show ?case unfolding fold_simps by (rule Cons.IH)
qed simp

lemma bounded_mk_st: "bounded (mk_st ns vs)"
proof -
  have "a < Suc (fold max (map fst ns) 0)" if "map_of ns a = Some nd" for a nd
  proof -
    have "a \<in> set (map fst ns)" using map_of_SomeD [OF that] by (metis fst_conv image_eqI list.set_map)
    with le_fold_max [of a 0 "map fst ns"] show ?thesis by (simp only: less_Suc_eq_le) blast
  qed
  then show ?thesis by (auto simp: bounded_def)
qed

lemma fac_eval: "eval fac_table [4 \<mapsto> FInt (int n)] fac_code (Some (FInt (fact n)))"
proof (induction n)
  case 0
  show ?case
    unfolding fac_code_def by (rule ev_if [where b = True and v = "FInt 0"]) (auto simp: test_val_def intro: eval_evals_evalb.intros)
next
  case (Suc n)
  let ?r = "[4 \<mapsto> FInt (int (Suc n))] :: env"
  have v: "eval fac_table ?r (CVar 4) (Some (FInt (int (Suc n))))" by (rule ev_var) simp
  have "eval fac_table ?r (CArith ADD (CVar 4) (CInt (- 1))) (arith_val ADD (FInt (int (Suc n))) (FInt (- 1)))"
    by (rule ev_arith [OF v ev_int])
  then have "eval fac_table ?r (CArith ADD (CVar 4) (CInt (- 1))) (Some (FInt (int n)))"
    by (simp add: arith_val_def arith_int_def)
  from ev_cons [OF this ev_nil] have args: "evals fac_table ?r [CArith ADD (CVar 4) (CInt (- 1))] (Some [FInt (int n)])"
    by simp
  have "eval fac_table ?r (CCall 5 [CArith ADD (CVar 4) (CInt (- 1))]) (Some (FInt (fact n)))"
  proof (rule ev_call [OF args])
    show "fac_table 5 = Some ([4], fac_code)" by (simp add: fac_table_def)
    show "length [4 :: addr] = length [FInt (int n)]" by simp
    show "eval fac_table (map_of (zip [4] [FInt (int n)])) fac_code (Some (FInt (fact n)))"
      using Suc.IH by (simp del: fun_upd_apply)
  qed
  from ev_arith [OF v this, of MUL]
  have "eval fac_table ?r (CArith MUL (CVar 4) (CCall 5 [CArith ADD (CVar 4) (CInt (- 1))])) (Some (FInt (fact (Suc n))))"
    by (simp add: arith_val_def arith_int_def algebra_simps)
  then show ?case
    unfolding fac_code_def by (intro ev_if [OF v, where b = False]) (auto simp: test_val_def)
qed

lemma fac_node:
  "node fac_st 10 = Some (CExpr MUL [4, 9])" "node fac_st 9 = Some (CExpr APP [5, 8])"
  "node fac_st 15 = Some (CExpr APP [5, 14])" "node fac_st 8 = Some (CExpr ADD [4, 7])"
  "node fac_st 7 = Some (IntExpr (- 1))" "node fac_st 11 = Some (CExpr IFZERO [4, 6, 10])"
  by (simp_all add: fac_st_def)

lemma fac_cells:
  "cd {4} fac_st 11 fac_code" "progs_ok fac_table {4} fac_st" "cd {4} fac_st 15 (CCall 5 [CInt 3])"
proof -
  have v: "cd {4} fac_st 4 (CVar 4)" by (rule cd_var) (simp add: fac_st_def var_cell_def)
  have p: "prog_cell {4} fac_st 5 [4] 11" by (simp add: fac_st_def prog_cell_def)
  have s: "cd {4} fac_st 8 (CArith ADD (CVar 4) (CInt (- 1)))"
    by (rule cd_arith [OF fac_node(4) _ v cd_int [OF fac_node(5)]]) simp
  have "cd {4} fac_st 9 (CCall 5 [CArith ADD (CVar 4) (CInt (- 1))])"
    by (rule cd_call [OF fac_node(2) p]) (simp add: s)
  then have m: "cd {4} fac_st 10 (CArith MUL (CVar 4) (CCall 5 [CArith ADD (CVar 4) (CInt (- 1))]))"
    by (intro cd_arith [OF fac_node(1) _ v]) simp_all
  have one: "cd {4} fac_st 6 (CInt 1)" by (rule cd_int) (simp add: fac_st_def)
  show c: "cd {4} fac_st 11 fac_code"
    unfolding fac_code_def by (rule cd_if [OF fac_node(6) _ v one m]) simp
  show "progs_ok fac_table {4} fac_st"
    using c p by (auto simp: progs_ok_def fac_table_def var_cell_def fac_st_def)
  have three: "cd {4} fac_st 14 (CInt 3)" by (rule cd_int) (simp add: fac_st_def)
  show "cd {4} fac_st 15 (CCall 5 [CInt 3])"
    by (rule cd_call [OF fac_node(3) p]) (simp add: three)
qed

lemma fac_call: "eval fac_table Map.empty (CCall 5 [CInt 3]) (Some (FInt 6))"
proof -
  have "evals fac_table Map.empty [CInt 3] (map_option ((#) (FInt 3)) (Some []))"
    by (rule ev_cons [OF ev_int ev_nil])
  then have "evals fac_table Map.empty [CInt 3] (Some [FInt (int 3)])" by simp
  from ev_call [OF this, of 5 "[4]" fac_code "Some (FInt (fact 3))"] fac_eval [of 3] show ?thesis
    by (simp add: fac_table_def fact_numeral)
qed

lemma fac_ctx: "ctx fac_table {4} fac_st Map.empty"
  using fac_cells(2) by (auto simp: ctx_def run_ok_def env_ok_def fac_st_def bounded_mk_st)

lemma terms_den:
  "den {} terms_st 7 (FApp [FSym 4, FSym 5])" "den {} terms_st 9 (FApp [FSym 4, FSym 5])"
  "den {} terms_st 10 (FApp [FSym 4, FSym 6])"
proof -
  have s: "den {} terms_st 4 (FSym 4)" "den {} terms_st 5 (FSym 5)" "den {} terms_st 6 (FSym 6)"
    by (auto intro!: den_sym simp: terms_st_def)
  have h: "den {} terms_st 8 (FSym 5)"
    by (rule den_def [OF _ _ s(2)]) (simp_all add: terms_st_def points_to_def)
  show "den {} terms_st 7 (FApp [FSym 4, FSym 5])" "den {} terms_st 9 (FApp [FSym 4, FSym 5])"
    "den {} terms_st 10 (FApp [FSym 4, FSym 6])"
    by (rule den_app [where ks = "[4, 5]"] den_app [where ks = "[4, 8]"] den_app [where ks = "[4, 6]"],
        simp add: terms_st_def, simp, simp add: s h)+
qed

section \<open>A pattern and an instance of it\<close>

text \<open>
  The pattern \<open>(p (f x) (f y))\<close> with \<open>a\<close> as the value of both variables, and its instance \<open>(p t t)\<close> in which the two
  arguments are one cell \<open>t\<close>, the term \<open>(f a)\<close>.
\<close>

definition share_st :: st where
  "share_st = (mk_st
     [(4, SymSExpr ''p''), (5, SymSExpr ''f''), (6, SymSExpr ''a''), (7, SymSExpr ''b''), (8, SymSExpr ''c''),
      (9, SymSExpr ''x''), (10, SymSExpr ''y''), (11, CExpr APP [5, 6]), (12, CExpr APP [4, 11, 11]),
      (13, CExpr APP [5, 9]), (14, CExpr APP [5, 10]), (15, CExpr APP [4, 13, 14])]
     [(9, 6), (10, 6)])\<lparr>refs := \<lambda>a. 3\<rparr>"

lemma share_run:
  "\<exists>s'. defeq (Suc (Suc (Suc (Suc (Suc (Suc 0)))))) 12 15 share_st = Inr (True, s') \<and>
     node s' = (node share_st)(11 \<mapsto> CExpr APP [5, 10], 15 \<mapsto> CExpr APP [4, 11, 11]) \<and> sval s' = sval share_st"
  by (simp add: share_st_def defeq_app_app defeq_kids_step share_kid_left share_kid_right defeq_val_right
      defeq_val_both sq_run ref_inc_def d_maxRefCount_def del: defeq.simps defeq_kids.simps)

text \<open>The meaning of the pattern when \<open>x\<close> stands for \<open>b\<close> and \<open>y\<close> for \<open>c\<close>.\<close>

definition revalue :: "st \<Rightarrow> st" where
  "revalue s = s\<lparr>sval := (sval s)(9 \<mapsto> 7, 10 \<mapsto> 8)\<rparr>"

lemma revalue_den:
  assumes "node s = (node share_st)(11 \<mapsto> CExpr APP [5, v], 15 \<mapsto> CExpr APP [4, k, k'])" "sval s = sval share_st"
  shows "den {} (revalue s) 4 (FSym 4)" "den {} (revalue s) 5 (FSym 5)" "den {} (revalue s) 9 (FSym 7)"
    "den {} (revalue s) 10 (FSym 8)"
proof -
  have n: "node (revalue s) 4 = Some (SymSExpr ''p'')" "node (revalue s) 5 = Some (SymSExpr ''f'')"
    "node (revalue s) 7 = Some (SymSExpr ''b'')" "node (revalue s) 8 = Some (SymSExpr ''c'')"
    "node (revalue s) 9 = Some (SymSExpr ''x'')" "node (revalue s) 10 = Some (SymSExpr ''y'')"
    using assms by (simp_all add: revalue_def share_st_def)
  have v: "sval (revalue s) = [10 \<mapsto> 8, 9 \<mapsto> 7]" using assms by (auto simp: revalue_def share_st_def fun_eq_iff)
  show "den {} (revalue s) 4 (FSym 4)" "den {} (revalue s) 5 (FSym 5)"
    by (rule den_sym [OF n(1)] den_sym [OF n(2)], simp_all add: v)+
  have "den {} (revalue s) 7 (FSym 7)" "den {} (revalue s) 8 (FSym 8)"
    by (rule den_sym [OF n(3)] den_sym [OF n(4)], simp_all add: v)+
  then show "den {} (revalue s) 9 (FSym 7)" "den {} (revalue s) 10 (FSym 8)"
    using den.den_def [of "revalue s" 9 7 "{}"] den.den_def [of "revalue s" 10 8 "{}"] by (simp_all add: n v points_to_def)
qed

lemma pattern_den:
  "den {} (revalue share_st) 15 (FApp [FSym 4, FApp [FSym 5, FSym 7], FApp [FSym 5, FSym 8]])"
proof -
  have n: "node share_st = (node share_st)(11 \<mapsto> CExpr APP [5, 6], 15 \<mapsto> CExpr APP [4, 13, 14])"
    by (auto simp: share_st_def fun_eq_iff)
  note d = revalue_den [OF n refl]
  have "den {} (revalue share_st) 13 (FApp [FSym 5, FSym 7])" "den {} (revalue share_st) 14 (FApp [FSym 5, FSym 8])"
    by (rule den_app [where ks = "[5, 9]"] den_app [where ks = "[5, 10]"],
        simp add: revalue_def share_st_def, simp, simp add: d)+
  with d show ?thesis
    by (intro den_app [where ks = "[4, 13, 14]"]) (simp_all add: revalue_def share_st_def)
qed

lemma conflated_den:
  assumes "node s = (node share_st)(11 \<mapsto> CExpr APP [5, 10], 15 \<mapsto> CExpr APP [4, 11, 11])" "sval s = sval share_st"
  shows "den {} (revalue s) 15 (FApp [FSym 4, FApp [FSym 5, FSym 8], FApp [FSym 5, FSym 8]])"
proof -
  note d = revalue_den [OF assms]
  have n: "node (revalue s) 11 = Some (CExpr APP [5, 10])" "node (revalue s) 15 = Some (CExpr APP [4, 11, 11])"
    by (simp_all add: revalue_def assms(1))
  have "den {} (revalue s) 11 (FApp [FSym 5, FSym 8])" by (rule den_app [OF n(1)]) (simp_all add: d)
  with d show ?thesis by (intro den_app [OF n(2)]) simp_all
qed

end
