(* ===== verification/LFSC_Reduce.thy ===== *)
theory LFSC_Reduce
  imports LFSC_Term
begin

unbundle bit_operations_syntax

text \<open>
  What the operations of theory \<open>LFSC_Expr\<close> do: applications are taken apart the way they were built,
  weak head reduction binds the variable of an abstraction to the argument, cloning copies a
  first-order term, and marks are independent bits.
\<close>

section \<open>Building and taking apart applications\<close>

lemma build_app_returns:
  "args \<noteq> [] \<Longrightarrow> build_app h args 0 s = new_expr (CExpr APP (h # args)) s"
  "build_app h [] 0 s = Inr (h, s)"
  by (simp_all add: build_app_def)

lemma new_expr_run:
  "new_expr nd s = Inr (brk s, s\<lparr>node := (node s)(brk s \<mapsto> nd), sval := (sval s)(brk s := None),
     flag := (flag s)(brk s := False), refs := (refs s)(brk s := 1), freed := (freed s)(brk s := False),
     brk := Suc (brk s)\<rparr>)"
  by (simp add: new_expr_def Let_def)

lemma followDefs_self: "at_end s h \<Longrightarrow> returns (\<lambda>n. followDefs n h) s (h, s)"
  by (rule followDefs_returns) auto

lemma collect_app:
  assumes "node s a = Some (CExpr APP (h # ks))" "returns (\<lambda>n. followDefs n h) s (h', s)"
  shows "returns (\<lambda>n. collect_args n a True) s ((h', ks), s)"
  by (rule returns_elim1 [OF assms(2)]) (simp add: collect_args_def run_simps assms(1))

lemma at_end_new: "bounded s \<Longrightarrow> at_end s h \<Longrightarrow> new_expr nd s = Inr (a, s') \<Longrightarrow> at_end s' h"
  by (auto simp: new_expr_run at_end_def bounded_def)

lemma build_collect:
  assumes "bounded s" "at_end s h" "args \<noteq> []" "build_app h args 0 s = Inr (a, s')"
  shows "returns (\<lambda>n. collect_args n a True) s' ((h, args), s')"
proof (rule collect_app)
  from assms(3,4) have n: "new_expr (CExpr APP (h # args)) s = Inr (a, s')" by (simp add: build_app_returns)
  then show "node s' a = Some (CExpr APP (h # args))" by (auto simp: new_expr_run)
  show "returns (\<lambda>n. followDefs n h) s' (h, s')"
    using at_end_new [OF assms(1,2) n] by (rule followDefs_self)
qed

lemma iter_inc_spec:
  "\<forall>a \<in> set as. node s a \<noteq> None \<Longrightarrow> \<exists>r. iter_M inc as s = Inr ((), s\<lparr>refs := r\<rparr>)"
proof (induction as arbitrary: s)
  case Nil
  show ?case by (simp add: exI [of _ "refs s"])
next
  case (Cons a as)
  then obtain nd where "node s a = Some nd" by auto
  with Cons.IH [of "s\<lparr>refs := (refs s)(a := ref_inc (refs s a))\<rparr>"] Cons.prems show ?case
    by (auto simp: run_simps)
qed

lemma make_app_collect:
  assumes bd: "bounded s" and h: "at_end s h" "node s h = Some hnd" "class_of hnd \<noteq> CEXPR"
    and e1: "if args = [] then e1 = h else node s e1 = Some (CExpr APP (h # args))"
    and al: "\<forall>a \<in> set args. node s a \<noteq> None" and m: "make_app e1 e2 s = Inr (a, s')"
  shows "returns (\<lambda>n. collect_args n a True) s' ((h, args @ [e2]), s')"
proof (rule collect_app)
  obtain r where r: "iter_M inc (h # args) s = Inr ((), s\<lparr>refs := r\<rparr>)"
    using iter_inc_spec [of "h # args" s] al h(2) by auto
  have n: "new_expr (CExpr APP (h # args @ [e2])) s = Inr (a, s') \<or>
      new_expr (CExpr APP (h # args @ [e2])) (s\<lparr>refs := r\<rparr>) = Inr (a, s')"
    using e1 h m r by (cases args) (auto simp: make_app_def run_simps)
  then show "node s' a = Some (CExpr APP (h # args @ [e2]))" by (auto simp: new_expr_run)
  have "bounded (s\<lparr>refs := r\<rparr>)" "at_end (s\<lparr>refs := r\<rparr>) h" using bd h by (auto simp: bounded_def at_end_def)
  with n bd h have "at_end s' h" using at_end_new by blast
  then show "returns (\<lambda>n. followDefs n h) s' (h, s')" by (rule followDefs_self)
qed

section \<open>Beta reduction\<close>

text \<open>
  An abstraction that was not applied before is used in place: its variable is bound to the argument
  and the body is the result.
\<close>

lemma whr_beta:
  assumes a: "node s a = Some (CExpr APP [l, x])" and l: "node s l = Some (CExpr LAM [v, b])" "\<not> flag s l"
    and v: "node s v = Some nv" "has_val nv" and b: "node s b = Some nb"
    and x: "(points_to s)\<^sup>*\<^sup>* x y" "at_end s y"
  shows "\<exists>r. returns (\<lambda>n. whr n a) s
    (b, s\<lparr>flag := (flag s)(l := True), sval := (sval s)(v \<mapsto> y), refs := r\<rparr>)"
proof -
  let ?s = "s\<lparr>flag := (flag s)(l := True)\<rparr>"
  have [simp]: "points_to ?s = points_to s" "at_end ?s = at_end s"
    by (auto simp: points_to_def at_end_def fun_eq_iff)
  have f: "returns (\<lambda>n. followDefs n l) s (l, s)"
    using l(1) by (intro followDefs_self) (simp add: at_end_def)
  have y: "returns (\<lambda>n. followDefs n x) ?s (y, ?s)" using x by (intro followDefs_returns) simp_all
  obtain ny where ny: "node s y = Some ny" using x(2) by (auto simp: at_end_def)
  have gl: "returns (\<lambda>n. get_head n True l) s (l, s)"
    by (rule returns_Suc, rule returns_all) (use l(1) in \<open>simp add: run_simps\<close>)
  have gh: "returns (\<lambda>n. get_head n True a) s (l, s)"
    by (rule returns_Suc, rule returns_elim2 [OF f gl]) (use a in \<open>simp add: run_simps\<close>)
  have "returns (\<lambda>n. whr n a) s
      (b, s\<lparr>flag := (flag s)(l := True), sval := (sval s)(v \<mapsto> y),
        refs := ((refs s)(y := ref_inc (refs s y)))(b := ref_inc (((refs s)(y := ref_inc (refs s y))) b))\<rparr>)"
    by (rule returns_elim3 [OF gh f y])
      (use a l v b ny in \<open>auto simp: whr_def collect_args_def run_simps build_app_def\<close>)
  then show ?thesis by blast
qed

section \<open>Cloning a first-order term\<close>

definition copies :: "addr set \<Rightarrow> (nat \<Rightarrow> (st, addr) M) \<Rightarrow> st \<Rightarrow> fterm \<Rightarrow> bool" where
  "copies V m s t \<longleftrightarrow> (\<exists>b s'. returns m s (b, s') \<and> ext s s' \<and> den V s' b t)"

lemma copies_self:
  assumes "bounded s" "den V s a t" "node s a = Some nd"
    and "\<And>n. clone (Suc n) a s = sq (inc a) (ret a) s"
  shows "copies V (\<lambda>n. clone n a) s t"
proof -
  let ?s = "s\<lparr>refs := (refs s)(a := ref_inc (refs s a))\<rparr>"
  have "returns (\<lambda>n. clone n a) s (a, ?s)"
    by (rule returns_Suc, rule returns_all) (use assms(3,4) in \<open>simp add: run_simps del: clone.simps\<close>)
  moreover have "den V ?s a t" using den_agree [OF agree_rc(1) assms(1,2)] .
  ultimately show ?thesis unfolding copies_def using agree_rc(1) by blast
qed

lemma clone_kids:
  assumes IH: "list_all2 (\<lambda>k t. den V s k t \<and> (\<forall>s'. ext s s' \<longrightarrow> bounded s' \<longrightarrow> copies V (\<lambda>n. clone n k) s' t)) ks ts"
    and "ext s s1" "bounded s" "bounded s1"
  shows "\<exists>cs s2. returns (\<lambda>n. map_M (clone n) ks) s1 (cs, s2) \<and> ext s1 s2 \<and> list_all2 (den V s2) cs ts"
  using assms
proof (induction ks arbitrary: ts s1)
  case Nil
  have "returns (\<lambda>n. map_M (clone n) []) s1 ([], s1)" by (rule returns_all) simp
  with Nil grows.rel_refl show ?case by fastforce
next
  case (Cons k ks)
  then obtain t ts' where t: "ts = t # ts'" "copies V (\<lambda>n. clone n k) s1 t"
    and rest: "list_all2 (\<lambda>k t. den V s k t \<and> (\<forall>s'. ext s s' \<longrightarrow> bounded s' \<longrightarrow> copies V (\<lambda>n. clone n k) s' t)) ks ts'"
    by (auto simp: list_all2_Cons1)
  from t(2) obtain b s2 where 1: "returns (\<lambda>n. clone n k) s1 (b, s2)" "ext s1 s2" "den V s2 b t"
    by (auto simp: copies_def)
  have bd2: "bounded s2" using agree_bounded [OF 1(2) Cons.prems(4)] .
  from Cons.IH [OF rest grows.rel_trans [OF Cons.prems(2) 1(2)] Cons.prems(3) bd2] obtain cs s3 where
    2: "returns (\<lambda>n. map_M (clone n) ks) s2 (cs, s3)" "ext s2 s3" "list_all2 (den V s3) cs ts'" by blast
  have "returns (\<lambda>n. map_M (clone n) (k # ks)) s1 (b # cs, s3)"
    by (rule returns_elim2 [OF 1(1) 2(1)]) (simp add: run_simps)
  moreover have "den V s3 b t" using den_agree [OF ext_agree [OF 2(2)] bd2 1(3)] .
  ultimately show ?case using t(1) 1(2) 2(2,3) grows.rel_trans by (metis list_all2_Cons)
qed

lemma has_val_op: "has_val nd \<Longrightarrow> op_of nd = NOT_CEXPR"
  by (cases nd) simp_all

lemma den_op: "den V s a t \<Longrightarrow> \<exists>nd. node s a = Some nd \<and> op_of nd \<noteq> PROG"
  by (erule den_nodeE) (auto simp: points_to_def const_op_def has_val_op dest: is_sym_has_val)

lemma alloc_den: "list_all2 (den V s) cs ts \<Longrightarrow> alloc s cs"
  using den_alloc by (fastforce simp: alloc_def list_all2_conv_all_nth in_set_conv_nth)

lemma clone_app:
  assumes "node s a = Some (CExpr APP ks)" "ks \<noteq> []" "bounded s"
    and m: "returns (\<lambda>n. map_M (clone n) ks) s (cs, s1)" "ext s s1" "list_all2 (den V s1) cs ts" "den V s a (FApp ts)"
  shows "copies V (\<lambda>n. clone n a) s (FApp ts)"
proof (cases "cs = ks")
  case False
  have bd1: "bounded s1" using agree_bounded [OF m(2) assms(3)] .
  obtain b s2 where n: "new_expr (CExpr APP cs) s1 = Inr (b, s2)" by (simp add: new_expr_run)
  have "returns (\<lambda>n. clone n a) s (b, s2)"
    by (rule returns_Suc, rule returns_elim1 [OF m(1)])
      (use assms(1) False n in \<open>simp add: run_simps clone_default_def\<close>)
  moreover have e: "ext s1 s2" using agree_new [OF n bd1] .
  moreover have "list_all2 (den V s2) cs ts"
    using m(3) den_agree [OF ext_agree [OF e] bd1] by (auto elim!: list_all2_mono)
  moreover have "node s2 b = Some (CExpr APP cs)" using n by (auto simp: new_expr_run)
  moreover have "cs \<noteq> []" using m(3,4) assms(1,2) by (auto dest: den_head_app)
  ultimately have "returns (\<lambda>n. clone n a) s (b, s2) \<and> ext s s2 \<and> den V s2 b (FApp ts)"
    using m(2) grows.rel_trans by (blast intro: den.den_app)
  then show ?thesis unfolding copies_def by blast
next
  case True
  from iter_dec_spec [OF alloc_den [OF m(3)]] obtain s2 where
    d: "iter_M dec cs s1 = Inr ((), s2)" "rc_only s1 s2" by blast
  let ?s = "s2\<lparr>refs := (refs s2)(a := ref_inc (refs s2 a))\<rparr>"
  have n2: "node s2 a = Some (CExpr APP ks)"
    using agree_node [OF m(2) assms(3,1)] d(2) by (simp add: rc_only_def)
  have "returns (\<lambda>n. clone n a) s (a, ?s)"
    by (rule returns_Suc, rule returns_elim1 [OF m(1)])
      (use assms(1) True d(1) n2 in \<open>simp add: run_simps clone_default_def\<close>)
  moreover have e: "ext s ?s"
    using m(2) rc_ext [OF d(2)] agree_rc(1) grows.rel_trans by blast
  moreover have "den V ?s a (FApp ts)" using den_agree [OF ext_agree [OF e] assms(3) m(4)] .
  ultimately show ?thesis unfolding copies_def by blast
qed

lemma clone_copies:
  "den V s a t \<Longrightarrow> bounded s \<Longrightarrow> ext s s' \<Longrightarrow> bounded s' \<Longrightarrow> copies V (\<lambda>n. clone n a) s' t"
proof (induction arbitrary: s' rule: den.induct)
  case (den_def a b t)
  then obtain nd where nd: "node s a = Some nd" "has_val nd" "sval s a = Some b" by (auto simp: points_to_def)
  have a': "node s' a = Some nd" "sval s' a = Some b"
    using agree_node [OF den_def.prems(2,1) nd(1)] agree_sval [OF den_def.prems(2,1) nd(1)] nd(3) by auto
  from den_op [OF den_agree [OF ext_agree [OF den_def.prems(2)] den_def.prems(1) den_def.hyps(3)]] obtain nb where
    nb: "node s' b = Some nb" "op_of nb \<noteq> PROG" by blast
  from den_def.IH [OF den_def.prems] obtain c s2 where
    c: "returns (\<lambda>n. clone n b) s' (c, s2)" "ext s' s2" "den V s2 c t" by (auto simp: copies_def)
  have "returns (\<lambda>n. clone n a) s' (c, s2)"
    by (rule returns_Suc, rule returns_elim1 [OF c(1)])
      (use a' nb nd(2) in \<open>cases nd; simp add: run_simps\<close>)
  with c(2,3) show ?case by (auto simp: copies_def)
next
  case (den_app a ks ts)
  have "den V s a (FApp ts)"
    using den_app.hyps den_app.IH by (auto intro!: den.den_app elim!: list_all2_mono)
  then have d: "den V s' a (FApp ts)" using den_agree [OF ext_agree [OF den_app.prems(2)] den_app.prems(1)] by blast
  have n: "node s' a = Some (CExpr APP ks)" using agree_node [OF den_app.prems(2,1) den_app.hyps(1)] .
  have "list_all2 (\<lambda>k t. den V s k t \<and> (\<forall>s'. ext s s' \<longrightarrow> bounded s' \<longrightarrow> copies V (\<lambda>n. clone n k) s' t)) ks ts"
    using den_app.IH den_app.prems(1) by (auto elim!: list_all2_mono)
  from clone_kids [OF this den_app.prems(2,1,3)] obtain cs s1 where
    "returns (\<lambda>n. map_M (clone n) ks) s' (cs, s1)" "ext s' s1" "list_all2 (den V s1) cs ts" by blast
  from clone_app [OF n den_app.hyps(2) den_app.prems(3) this d] show ?case .
next
  case (den_sym a nd)
  have "den V s' a (FSym a)"
    using den_agree [OF ext_agree [OF den_sym.prems(2)] den_sym.prems(1) den.den_sym [OF den_sym.hyps]] .
  moreover have "node s' a = Some nd" "sval s' a = None"
    using agree_node [OF den_sym.prems(2,1)] agree_sval [OF den_sym.prems(2,1)] den_sym.hyps by auto
  ultimately show ?case
    using den_sym.prems(3) den_sym.hyps(2) by (intro copies_self) (auto simp: run_simps elim!: is_sym.elims)
next
  case (den_con a opr)
  have "den V s' a (FCon opr)" "node s' a = Some (CExpr opr [])"
    using den_agree [OF ext_agree [OF den_con.prems(2)] den_con.prems(1) den.den_con [OF den_con.hyps]]
      agree_node [OF den_con.prems(2,1) den_con.hyps(1)] by simp_all
  then show ?case
    using den_con.prems(3) den_con.hyps(2)
    by (intro copies_self) (auto simp: run_simps clone_default_def const_op_def)
qed (use agree_node in \<open>intro copies_self; fastforce simp: run_simps intro: den.intros\<close>)+

section \<open>Marks\<close>

lemma mark_flip:
  assumes "i < 32"
  shows "\<exists>s'. bnd (getmark a i) (\<lambda>m. if m then clearmark a i else setmark a i) s = Inr ((), s') \<and>
    (\<forall>b j. bit (mark_map s' b) j = (if b = a \<and> j = i then \<not> bit (mark_map s a) i else bit (mark_map s b) j))"
  using assms
  by (auto simp: getmark_def setmark_def clearmark_def run_simps bit_or_iff bit_and_iff bit_not_iff bit_push_bit_iff
      bit_exp_iff dest: bit_imp_le_length)

end
