(* ===== verification/LFSC_Occurs.thy ===== *)
theory LFSC_Occurs
  imports LFSC_Term
begin

text \<open>
  The occurs check \<open>_free_in\<close> of \<open>src/src/expr.cpp\<close>: a depth first search with a set of visited cells.
  \<open>occ s x a\<close> says when \<open>x\<close> is found from \<open>a\<close>, with no bookkeeping; on every finite piece of the graph
  the search returns, and answers exactly this.
\<close>

section \<open>Occurrence\<close>

inductive occ :: "st \<Rightarrow> addr \<Rightarrow> addr \<Rightarrow> bool" for s x where
  occ_free: "node s x = Some nd \<Longrightarrow> has_val nd \<Longrightarrow> sval s x = None \<Longrightarrow> occ s x x"
| occ_defined: "node s x = Some nd \<Longrightarrow> is_sym nd \<Longrightarrow> sval s x = Some w \<Longrightarrow> node s w = Some nw \<Longrightarrow> nw \<noteq> HoleExpr \<Longrightarrow>
    occ s x x"
| occ_hole: "node s a = Some HoleExpr \<Longrightarrow> sval s a = Some w \<Longrightarrow> occ s x w \<Longrightarrow> occ s x a"
| occ_sym_hole: "node s a = Some nd \<Longrightarrow> is_sym nd \<Longrightarrow> sval s a = Some w \<Longrightarrow> node s w = Some HoleExpr \<Longrightarrow>
    occ s x w \<Longrightarrow> occ s x a"
| occ_kid: "node s a = Some (CExpr opr ks) \<Longrightarrow> \<not> ((opr = LAM \<or> opr = PI) \<and> nth_opt ks 0 = Some x) \<Longrightarrow>
    k \<in> set ks \<Longrightarrow> occ s x k \<Longrightarrow> occ s x a"

text \<open>The graph below a cell is finite and without cycles.\<close>

inductive fin_graph :: "st \<Rightarrow> addr \<Rightarrow> bool" for s where
  fin_num: "node s a = Some nd \<Longrightarrow> \<not> has_val nd \<Longrightarrow> class_of nd \<noteq> CEXPR \<Longrightarrow> fin_graph s a"
| fin_end: "node s a = Some nd \<Longrightarrow> has_val nd \<Longrightarrow> sval s a = None \<Longrightarrow> fin_graph s a"
| fin_val: "points_to s a b \<Longrightarrow> fin_graph s b \<Longrightarrow> fin_graph s a"
| fin_kids: "node s a = Some (CExpr opr ks) \<Longrightarrow> (\<And>k. k \<in> set ks \<Longrightarrow> fin_graph s k) \<Longrightarrow> fin_graph s a"

definition edge :: "st \<Rightarrow> addr \<Rightarrow> addr \<Rightarrow> bool" where
  "edge s a b \<longleftrightarrow> points_to s a b \<or> (\<exists>opr ks. node s a = Some (CExpr opr ks) \<and> b \<in> set ks)"

section \<open>No cycles\<close>

lemma fin_edge: "fin_graph s a \<Longrightarrow> edge s a b \<Longrightarrow> fin_graph s b"
  by (erule fin_graph.cases) (auto simp: edge_def points_to_def)

lemma fin_acyclic: "fin_graph s a \<Longrightarrow> \<not> (edge s)\<^sup>+\<^sup>+ a a"
proof (induction rule: fin_graph.induct)
  case (fin_val a b)
  show ?case
  proof
    assume "(edge s)\<^sup>+\<^sup>+ a a"
    then obtain c where "edge s a c" "(edge s)\<^sup>*\<^sup>* c a" by (meson tranclpD)
    moreover from this fin_val.hyps(1) have "c = b" by (auto simp: edge_def points_to_def)
    ultimately show False using fin_val.IH by (meson rtranclp_into_tranclp1)
  qed
next
  case (fin_kids a opr ks)
  show ?case
  proof
    assume "(edge s)\<^sup>+\<^sup>+ a a"
    then obtain c where "edge s a c" "(edge s)\<^sup>*\<^sup>* c a" by (meson tranclpD)
    moreover from this fin_kids.hyps(1) have "c \<in> set ks" by (auto simp: edge_def points_to_def)
    ultimately show False using fin_kids.IH by (meson rtranclp_into_tranclp1)
  qed
qed (auto dest!: tranclpD simp: edge_def points_to_def)

lemma fin_alloc: "fin_graph s a \<Longrightarrow> \<exists>nd. node s a = Some nd"
  by (erule fin_graph.cases) (auto simp: points_to_def)

inductive_cases occE: "occ s x a"

lemma occ_num: "node s a = Some nd \<Longrightarrow> \<not> has_val nd \<Longrightarrow> class_of nd \<noteq> CEXPR \<Longrightarrow> \<not> occ s x a"
  by (rule notI, erule occE) (auto dest: is_sym_has_val)

lemma occ_end: "node s a = Some nd \<Longrightarrow> has_val nd \<Longrightarrow> sval s a = None \<Longrightarrow> occ s x a \<longleftrightarrow> a = x"
  by (rule iffI, erule occE) (auto intro: occ_free)

lemma occ_through_hole: "node s a = Some HoleExpr \<Longrightarrow> sval s a = Some w \<Longrightarrow> occ s x a \<longleftrightarrow> occ s x w"
  by (rule iffI, erule occE) (auto intro: occ_hole)

lemma occ_sym_to_hole:
  "node s a = Some nd \<Longrightarrow> is_sym nd \<Longrightarrow> sval s a = Some w \<Longrightarrow> node s w = Some HoleExpr \<Longrightarrow>
   occ s x a \<longleftrightarrow> occ s x w"
  by (rule iffI, erule occE) (auto intro: occ_sym_hole)

lemma occ_sym_defined:
  "node s a = Some nd \<Longrightarrow> is_sym nd \<Longrightarrow> sval s a = Some w \<Longrightarrow> node s w = Some nw \<Longrightarrow> nw \<noteq> HoleExpr \<Longrightarrow>
   occ s x a \<longleftrightarrow> a = x"
  by (rule iffI, erule occE) (auto intro: occ_defined)

lemma occ_kids:
  "node s a = Some (CExpr opr ks) \<Longrightarrow> occ s x a \<longleftrightarrow>
     \<not> ((opr = LAM \<or> opr = PI) \<and> nth_opt ks 0 = Some x) \<and> (\<exists>k \<in> set ks. occ s x k)"
  by (rule iffI, erule occE) (auto intro: occ_kid)

section \<open>The search\<close>

definition finds :: "st \<Rightarrow> addr \<Rightarrow> (nat \<Rightarrow> (st, bool \<times> addr list) M) \<Rightarrow> addr list \<Rightarrow> bool \<Rightarrow> bool" where
  "finds s x m vis b \<longleftrightarrow> (\<exists>vis'. returns m s ((b, vis'), s) \<and>
     (\<not> b \<longrightarrow> set vis \<subseteq> set vis' \<and> (\<forall>v \<in> set vis' - set vis. \<not> occ s x v)))"

definition clear :: "st \<Rightarrow> addr \<Rightarrow> addr \<Rightarrow> addr list \<Rightarrow> bool" where
  "clear s x a vis \<longleftrightarrow> (\<forall>v \<in> set vis. (edge s)\<^sup>*\<^sup>* a v \<longrightarrow> \<not> occ s x v)"

lemma findsI:
  "returns m s ((b, vis'), s) \<Longrightarrow> (\<not> b \<Longrightarrow> set vis \<subseteq> set vis' \<and> (\<forall>v \<in> set vis' - set vis. \<not> occ s x v)) \<Longrightarrow>
   finds s x m vis b"
  by (auto simp: finds_def)

lemma free_in_kids_finds:
  assumes IH: "\<And>k vis. k \<in> set ks \<Longrightarrow> clear s x k vis \<Longrightarrow> finds s x (\<lambda>n. free_in_rec n x vis k) vis (occ s x k)"
    and "\<And>k. k \<in> set ks \<Longrightarrow> clear s x k vis"
  shows "finds s x (\<lambda>n. free_in_kids (free_in_rec n x) ks vis) vis (\<exists>k \<in> set ks. occ s x k)"
  using assms
proof (induction ks arbitrary: vis)
  case Nil
  show ?case by (rule findsI [where vis' = vis]) (auto intro: returns_all)
next
  case (Cons k ks)
  from Cons.prems obtain vis1 where
    v1: "returns (\<lambda>n. free_in_rec n x vis k) s ((occ s x k, vis1), s)"
      "\<not> occ s x k \<Longrightarrow> set vis \<subseteq> set vis1 \<and> (\<forall>v \<in> set vis1 - set vis. \<not> occ s x v)"
    unfolding finds_def by (metis list.set_intros(1))
  show ?case
  proof (cases "occ s x k")
    case True
    have "returns (\<lambda>n. free_in_kids (free_in_rec n x) (k # ks) vis) s ((True, vis1), s)"
      by (rule returns_elim1 [OF v1(1)]) (simp add: run_simps True)
    then have "finds s x (\<lambda>n. free_in_kids (free_in_rec n x) (k # ks) vis) vis True" by (rule findsI) simp
    with True show ?thesis by (simp del: free_in_kids.simps)
  next
    case False
    with v1(2) Cons.prems(2) have "clear s x k' vis1" if "k' \<in> set ks" for k'
      using that by (fastforce simp: clear_def)
    with Cons.IH [of vis1] Cons.prems(1) obtain vis2 where
      v2: "returns (\<lambda>n. free_in_kids (free_in_rec n x) ks vis1) s ((\<exists>k \<in> set ks. occ s x k, vis2), s)"
        "\<not> (\<exists>k \<in> set ks. occ s x k) \<Longrightarrow> set vis1 \<subseteq> set vis2 \<and> (\<forall>v \<in> set vis2 - set vis1. \<not> occ s x v)"
      by (auto simp: finds_def)
    have "returns (\<lambda>n. free_in_kids (free_in_rec n x) (k # ks) vis) s ((\<exists>k \<in> set ks. occ s x k, vis2), s)"
      by (rule returns_elim2 [OF v1(1) v2(1)]) (simp add: run_simps False)
    then have "finds s x (\<lambda>n. free_in_kids (free_in_rec n x) (k # ks) vis) vis (\<exists>k \<in> set ks. occ s x k)"
      by (rule findsI) (use v1(2) v2(2) False in blast)
    with False show ?thesis by (simp del: free_in_kids.simps)
  qed
qed

lemma finds_answer:
  assumes "\<And>n. free_in_rec (Suc n) x vis a s = Inr ((occ s x a, vis), s)"
  shows "finds s x (\<lambda>n. free_in_rec n x vis a) vis (occ s x a)"
proof (rule findsI)
  show "returns (\<lambda>n. free_in_rec n x vis a) s ((occ s x a, vis), s)"
    by (rule returns_Suc, rule returns_all) (rule assms)
qed simp

lemma finds_visited: "a \<in> set vis \<Longrightarrow> clear s x a vis \<Longrightarrow> finds s x (\<lambda>n. free_in_rec n x vis a) vis (occ s x a)"
  by (rule finds_answer) (auto simp: clear_def)

lemma finds_follow:
  assumes "\<And>n. free_in_rec (Suc n) x vis a s = free_in_rec n x vis b s" "occ s x a = occ s x b"
    and f: "finds s x (\<lambda>n. free_in_rec n x vis b) vis (occ s x b)"
  shows "finds s x (\<lambda>n. free_in_rec n x vis a) vis (occ s x a)"
proof -
  from f obtain vis' where v: "returns (\<lambda>n. free_in_rec n x vis b) s ((occ s x b, vis'), s)"
    "\<not> occ s x b \<Longrightarrow> set vis \<subseteq> set vis' \<and> (\<forall>v \<in> set vis' - set vis. \<not> occ s x v)"
    by (auto simp: finds_def)
  have "returns (\<lambda>n. free_in_rec n x vis a) s ((occ s x b, vis'), s)"
    by (rule returns_Suc, rule returns_elim1 [OF v(1)]) (simp only: assms(1))
  with v(2) assms(2) show ?thesis by (auto simp: finds_def)
qed

text \<open>A variable or a hole with a value, and an expression with children.\<close>

lemma finds_value:
  assumes ab: "points_to s a b" "fin_graph s b" and c: "clear s x a vis"
    and IH: "finds s x (\<lambda>n. free_in_rec n x vis b) vis (occ s x b)"
  shows "finds s x (\<lambda>n. free_in_rec n x vis a) vis (occ s x a)"
proof (cases "a \<in> set vis")
  case False
  obtain nd nb where nd: "node s a = Some nd" "has_val nd" "sval s a = Some b" and nb: "node s b = Some nb"
    using fin_alloc [OF ab(2)] ab(1) by (auto simp: points_to_def)
  consider "nd = HoleExpr" | "is_sym nd" "nb = HoleExpr" | "is_sym nd" "nb \<noteq> HoleExpr"
    using nd(2) by (cases nd) auto
  then show ?thesis
  proof cases
    case 1
    show ?thesis
      by (rule finds_follow [OF _ _ IH]) (use 1 nd nb False occ_through_hole in \<open>auto simp: run_simps\<close>)
  next
    case 2
    show ?thesis
      by (rule finds_follow [OF _ _ IH])
        (use 2 nd nb False occ_sym_to_hole in \<open>cases nd; auto simp: run_simps\<close>)+
  next
    case 3
    have "class_of nb \<noteq> HOLE_EXPR" using 3(2) by (cases nb) auto
    show ?thesis
      by (rule finds_answer)
        (use 3 nd nb False \<open>class_of nb \<noteq> _\<close> occ_sym_defined [OF nd(1) 3(1) nd(3) nb 3(2)] in
          \<open>cases nd; auto simp: run_simps\<close>)
  qed
qed (use finds_visited c in blast)

lemma finds_node:
  assumes n: "node s a = Some (CExpr opr ks)" "fin_graph s a" and c: "clear s x a vis"
    and IH: "\<And>k vis. k \<in> set ks \<Longrightarrow> clear s x k vis \<Longrightarrow> finds s x (\<lambda>n. free_in_rec n x vis k) vis (occ s x k)"
  shows "finds s x (\<lambda>n. free_in_rec n x vis a) vis (occ s x a)"
proof (cases "a \<in> set vis \<or> (opr = LAM \<or> opr = PI) \<and> nth_opt ks 0 = Some x")
  case True
  show ?thesis
  proof (cases "a \<in> set vis")
    case in_vis: False
    show ?thesis
      by (rule finds_answer) (use True in_vis n(1) occ_kids in \<open>auto simp: run_simps\<close>)
  qed (use finds_visited c in blast)
next
  case False
  have e: "edge s a k" if "k \<in> set ks" for k using n(1) that by (auto simp: edge_def)
  have "\<not> (edge s)\<^sup>*\<^sup>* k a" if "k \<in> set ks" for k
    using fin_acyclic n(2) e [OF that] by (meson rtranclp_into_tranclp2)
  then have "clear s x k (a # vis)" if "k \<in> set ks" for k
    using c e that by (auto simp: clear_def intro: converse_rtranclp_into_rtranclp)
  from free_in_kids_finds [of ks s x "a # vis", OF IH this] obtain vis' where
    v: "returns (\<lambda>n. free_in_kids (free_in_rec n x) ks (a # vis)) s ((\<exists>k \<in> set ks. occ s x k, vis'), s)"
      "\<not> (\<exists>k \<in> set ks. occ s x k) \<Longrightarrow>
        set (a # vis) \<subseteq> set vis' \<and> (\<forall>v \<in> set vis' - set (a # vis). \<not> occ s x v)"
    by (auto simp: finds_def)
  have o: "occ s x a \<longleftrightarrow> (\<exists>k \<in> set ks. occ s x k)" using occ_kids [OF n(1)] False by blast
  have "returns (\<lambda>n. free_in_rec n x vis a) s ((occ s x a, vis'), s)"
    by (rule returns_Suc, rule returns_elim1 [OF v(1)])
      (use False n(1) o in \<open>auto simp: run_simps\<close>)
  then show ?thesis by (rule findsI) (use v(2) o in auto)
qed

lemma free_in_finds:
  "fin_graph s a \<Longrightarrow> clear s x a vis \<Longrightarrow> finds s x (\<lambda>n. free_in_rec n x vis a) vis (occ s x a)"
proof (induction arbitrary: vis rule: fin_graph.induct)
  case (fin_num a nd)
  show ?case
  proof (cases "a \<in> set vis")
    case False
    show ?thesis
      by (rule finds_answer) (use False fin_num occ_num in \<open>cases nd; auto simp: run_simps\<close>)
  qed (use finds_visited fin_num in blast)
next
  case (fin_end a nd)
  show ?case
  proof (cases "a \<in> set vis")
    case False
    show ?thesis
      by (rule finds_answer) (use False fin_end occ_end in \<open>cases nd; auto simp: run_simps\<close>)
  qed (use finds_visited fin_end in blast)
next
  case (fin_val a b)
  have "edge s a b" using fin_val.hyps(1) by (simp add: edge_def)
  then have "clear s x b vis" using fin_val.prems by (auto simp: clear_def intro: converse_rtranclp_into_rtranclp)
  then show ?case using fin_val finds_value by blast
next
  case (fin_kids a opr ks)
  then have "fin_graph s a" by (auto intro: fin_graph.fin_kids)
  with fin_kids show ?case using finds_node by blast
qed

lemma free_in_correct:
  assumes "fin_graph s a"
  shows "returns (\<lambda>n. free_in n a x) s (occ s x a, s)"
proof -
  have "clear s x a []" by (simp add: clear_def)
  from free_in_finds [OF assms this] obtain vis' where
    v: "returns (\<lambda>n. free_in_rec n x [] a) s ((occ s x a, vis'), s)" by (auto simp: finds_def)
  show ?thesis by (rule returns_elim1 [OF v]) (simp add: free_in_def run_simps)
qed

end
