(* ===== verification/LFSC_Token.thy ===== *)
theory LFSC_Token
  imports LFSC_Prelude
begin

text \<open>
  Tokens and the token buffer: \<open>src/src/token.h\<close>, \<open>src/src/token.cpp\<close> and the second half of
  \<open>src/src/lexer.flex\<close>.

  The scanner is in \<open>LFSC_Scan\<close>; here \<open>scanned\<close> is the sequence of tokens it will
  deliver, each with its text, and the end of the file once they are used up.  \<open>s_peeked\<close> is the buffer of two pushed back
  tokens, \<open>yytext\<close> the text of the token scanned last.  The locale \<open>token_stack\<close> is the interface of
  \<open>src/src/lexer.h\<close>: "view it as a stack of tokens".
\<close>

section \<open>Tokens\<close>

datatype token =
    TEof | TDeclare | TDefine | TCheck | TProgram | TFunction | TOpaque | TRun | TType
  | TPercent | TBang | TAt | TColon | TReverseSolidus | TPound | TCaret | THole | TLet | TTilde
  | TDo | TMatch | TDefault | TMpz | TMpq | TMpAdd | TMpNeg | TMpDiv | TMpMul | TMpIfNeg
  | TMpIfZero | TMpzToMpq | TCompare | TIfEqual | TFail | TMarkVar | TIfMarked | TOpen | TClose
  | TNatural | TRational | TIdent | TProvided | TForall | TLam | TDeclareRule | TDefineConst
  | TDeclareType | TArrow | TCheckAssuming | TokenErr

text \<open>\<open>operator<<\<close> on tokens.\<close>

fun token_name :: "token \<Rightarrow> string" where
  "token_name TEof = ''Eof''"
| "token_name TDeclare = ''Declare''"
| "token_name TDefine = ''Define''"
| "token_name TCheck = ''Check''"
| "token_name TOpaque = ''Opaque''"
| "token_name TRun = ''Run''"
| "token_name TProgram = ''Program''"
| "token_name TFunction = ''Function''"
| "token_name TType = ''Type''"
| "token_name TPercent = ''Percent''"
| "token_name TBang = ''Bang''"
| "token_name TAt = ''At''"
| "token_name TColon = ''Colon''"
| "token_name TReverseSolidus = ''ReverseSolidus''"
| "token_name TCaret = ''Caret''"
| "token_name THole = ''Hole''"
| "token_name TLet = ''Let''"
| "token_name TTilde = ''Tilde''"
| "token_name TPound = ''Pound''"
| "token_name TDo = ''Do''"
| "token_name TMatch = ''Match''"
| "token_name TDefault = ''Default''"
| "token_name TMpz = ''Mpz''"
| "token_name TMpq = ''Mpq''"
| "token_name TMpAdd = ''MpAdd''"
| "token_name TMpNeg = ''MpNeg''"
| "token_name TMpDiv = ''MpDiv''"
| "token_name TMpMul = ''MpMul''"
| "token_name TMpIfNeg = ''MpIfNeg''"
| "token_name TMpIfZero = ''MpIfZero''"
| "token_name TMpzToMpq = ''MpzToMpq''"
| "token_name TCompare = ''Compare''"
| "token_name TIfEqual = ''IfEqual''"
| "token_name TFail = ''Fail''"
| "token_name TMarkVar = ''MarkVar''"
| "token_name TIfMarked = ''IfMarked''"
| "token_name TOpen = ''Open''"
| "token_name TClose = ''Close''"
| "token_name TNatural = ''Natural''"
| "token_name TRational = ''Rational''"
| "token_name TIdent = ''Ident''"
| "token_name TokenErr = ''TokenErr''"
| "token_name TProvided = ''Provided''"
| "token_name TDeclareRule = ''DeclareRule''"
| "token_name TDeclareType = ''DeclareType''"
| "token_name TDefineConst = ''DefineConst''"
| "token_name TForall = ''Forall''"
| "token_name TArrow = ''Arrow''"
| "token_name TLam = ''Lam''"
| "token_name TCheckAssuming = ''CheckAssuming''"

definition all_tokens :: "token list" where
  "all_tokens =
     [TEof, TDeclare, TDefine, TCheck, TProgram, TFunction, TOpaque, TRun, TType, TPercent,
      TBang, TAt, TColon, TReverseSolidus, TPound, TCaret, THole, TLet, TTilde, TDo, TMatch,
      TDefault, TMpz, TMpq, TMpAdd, TMpNeg, TMpDiv, TMpMul, TMpIfNeg, TMpIfZero, TMpzToMpq,
      TCompare, TIfEqual, TFail, TMarkVar, TIfMarked, TOpen, TClose, TNatural, TRational,
      TIdent, TProvided, TForall, TLam, TDeclareRule, TDefineConst, TDeclareType, TArrow,
      TCheckAssuming, TokenErr]"

section \<open>The buffer\<close>

record lex =
  s_peeked0 :: token
  s_peeked1 :: token
  scanned :: "(token \<times> string) list"
  yytext :: string

definition init_lex :: "(token \<times> string) list \<Rightarrow> lex" where
  "init_lex ts = \<lparr>s_peeked0 = TokenErr, s_peeked1 = TokenErr, scanned = ts, yytext = []\<rparr>"

definition yylex :: "(lex, token) M" where
  "yylex = (\<lambda>s. case scanned s of
     [] \<Rightarrow> Inr (TEof, s\<lparr>yytext := []\<rparr>)
   | (t, x) # ts \<Rightarrow> Inr (t, s\<lparr>scanned := ts, yytext := x\<rparr>))"

text \<open>A full buffer fails the assertion.\<close>

definition reinsert_token :: "token \<Rightarrow> (lex, unit) M" where
  "reinsert_token t = (\<lambda>s.
     if s_peeked0 s = TokenErr then Inr ((), s\<lparr>s_peeked0 := t\<rparr>)
     else if s_peeked1 s = TokenErr then Inr ((), s\<lparr>s_peeked1 := s_peeked0 s, s_peeked0 := t\<rparr>)
     else Inl Aborted)"

text \<open>The desugaring at the end of \<open>next_token\<close>.\<close>

definition desugar :: "token \<Rightarrow> token" where
  "desugar t =
     (case t of
        TProvided \<Rightarrow> TCaret
      | TForall \<Rightarrow> TBang
      | TLam \<Rightarrow> TReverseSolidus
      | TLet \<Rightarrow> TAt
      | _ \<Rightarrow> t)"

definition next_token :: "(lex, token) M" where
  "next_token =
     bnd (gets s_peeked0) (\<lambda>p.
     bnd (if p = TokenErr then yylex
          else sq (modify (\<lambda>s. s\<lparr>s_peeked0 := s_peeked1 s, s_peeked1 := TokenErr\<rparr>)) (ret p)) (\<lambda>t.
     ret (desugar t)))"

definition token_str :: "(lex, string) M" where
  "token_str = gets yytext"

definition unexpected_token_error :: "token \<Rightarrow> string \<Rightarrow> (lex, 'a) M" where
  "unexpected_token_error t info = stop (ReportError ''Scanned token, which is invalid in this position'')"

definition prefix_id :: "(lex, string) M" where
  "prefix_id = sq next_token token_str"

definition eat_token :: "token \<Rightarrow> (lex, unit) M" where
  "eat_token t =
     bnd next_token (\<lambda>tt.
     if t \<noteq> tt then unexpected_token_error tt ''Expected a token, but got a different one''
     else ret ())"

section \<open>Source locations\<close>

text \<open>\<open>uint32_t\<close> counters.\<close>

record location =
  line :: "32 word"
  column :: "32 word"

record span =
  span_start :: location
  span_end :: location

definition init_s_span :: span where
  "init_s_span = \<lparr>span_start = \<lparr>line = 1, column = 1\<rparr>, span_end = \<lparr>line = 1, column = 1\<rparr>\<rparr>"

definition bump_span :: "span \<Rightarrow> span" where
  "bump_span p = p\<lparr>span_start := span_end p\<rparr>"

definition add_columns :: "32 word \<Rightarrow> span \<Rightarrow> span" where
  "add_columns n p = p\<lparr>span_end := (span_end p)\<lparr>column := column (span_end p) + n\<rparr>\<rparr>"

definition add_lines :: "32 word \<Rightarrow> span \<Rightarrow> span" where
  "add_lines n p = p\<lparr>span_end := \<lparr>line = line (span_end p) + n, column = 1\<rparr>\<rparr>"

section \<open>Names of tokens\<close>

lemma all_tokens_complete: "t \<in> set all_tokens"
  by (cases t) (simp_all add: all_tokens_def)

lemma distinct_map_inj: "distinct (map f xs) \<Longrightarrow> x \<in> set xs \<Longrightarrow> y \<in> set xs \<Longrightarrow> f x = f y \<Longrightarrow> x = y"
  by (simp add: distinct_map inj_on_def)

lemma distinct_token_names: "distinct (map token_name all_tokens)"
  by code_simp

lemma token_name_inj: "token_name t = token_name u \<longleftrightarrow> t = u"
  using distinct_map_inj [OF distinct_token_names all_tokens_complete all_tokens_complete] by blast

section \<open>The stack of tokens\<close>

text \<open>The pushed back tokens, topmost first, and the well-formed states of the buffer.\<close>

definition pushed :: "lex \<Rightarrow> token list" where
  "pushed s = filter (\<lambda>t. t \<noteq> TokenErr) [s_peeked0 s, s_peeked1 s]"

definition lex_ok :: "lex \<Rightarrow> bool" where
  "lex_ok s \<longleftrightarrow> (s_peeked0 s = TokenErr \<longrightarrow> s_peeked1 s = TokenErr) \<and>
     (\<forall>(t, x) \<in> set (scanned s). t \<noteq> TokenErr)"

definition stack :: "lex \<Rightarrow> token list" where
  "stack s = pushed s @ map fst (scanned s)"

definition pop :: "token list \<Rightarrow> token \<times> token list" where
  "pop ts = (case ts of [] \<Rightarrow> (TEof, []) | t # ts \<Rightarrow> (desugar t, ts))"

text \<open>The interface of \<open>src/src/lexer.h\<close>: an abstract stack with room for \<open>room\<close> more tokens.\<close>

locale token_stack =
  fixes inv :: "'s \<Rightarrow> bool"
    and view :: "'s \<Rightarrow> token list"
    and room :: "'s \<Rightarrow> nat"
    and nxt :: "('s, token) M"
    and psh :: "token \<Rightarrow> ('s, unit) M"
  assumes nxt_pop: "inv s \<Longrightarrow> \<exists>s'. nxt s = Inr (fst (pop (view s)), s') \<and> inv s' \<and>
        view s' = snd (pop (view s)) \<and> room s \<le> room s'"
    and psh_push: "inv s \<Longrightarrow> 0 < room s \<Longrightarrow> t \<noteq> TokenErr \<Longrightarrow>
        \<exists>s'. psh t s = Inr ((), s') \<and> inv s' \<and> view s' = t # view s \<and> Suc (room s') = room s"
begin

text \<open>Looking one token ahead and putting it back changes the stream at most by desugaring its head.\<close>

lemma peek:
  assumes "inv s" "0 < room s" "view s = t # ts" "t \<noteq> TokenErr"
  shows "\<exists>s'. bnd nxt psh s = Inr ((), s') \<and> inv s' \<and> view s' = desugar t # ts"
proof -
  from nxt_pop [OF assms(1)] assms(3) obtain s1 where
    s1: "nxt s = Inr (desugar t, s1)" "inv s1" "view s1 = ts" "room s \<le> room s1"
    by (auto simp: pop_def)
  moreover have "desugar t \<noteq> TokenErr"
    using assms(4) by (cases t) (simp_all add: desugar_def)
  ultimately obtain s2 where "psh (desugar t) s1 = Inr ((), s2)" "inv s2" "view s2 = desugar t # ts"
    using psh_push [of s1 "desugar t"] assms(2) by auto
  with s1 show ?thesis by (simp add: bnd_run)
qed

text \<open>Two tokens may be pushed back: they come out in reverse order.\<close>

lemma push_push_pop:
  assumes "inv s" "2 \<le> room s" "t \<noteq> TokenErr" "u \<noteq> TokenErr"
  shows "\<exists>s'. sq (psh t) (sq (psh u) (bnd nxt (\<lambda>a. bnd nxt (\<lambda>b. ret (a, b))))) s =
      Inr ((desugar u, desugar t), s') \<and> inv s' \<and> view s' = view s"
proof -
  from psh_push [OF assms(1) _ assms(3)] assms(2) obtain s1 where
    s1: "psh t s = Inr ((), s1)" "inv s1" "view s1 = t # view s" "Suc (room s1) = room s" by auto
  with psh_push [of s1 u] assms obtain s2 where
    s2: "psh u s1 = Inr ((), s2)" "inv s2" "view s2 = u # t # view s" by auto
  from nxt_pop [OF s2(2)] s2(3) obtain s3 where
    s3: "nxt s2 = Inr (desugar u, s3)" "inv s3" "view s3 = t # view s" by (auto simp: pop_def)
  from nxt_pop [OF s3(2)] s3(3) obtain s4 where
    "nxt s3 = Inr (desugar t, s4)" "inv s4" "view s4 = view s" by (auto simp: pop_def)
  with s1 s2 s3 show ?thesis by (simp add: run_simps)
qed

end

lemma next_token_run:
  "next_token s =
     (if s_peeked0 s \<noteq> TokenErr
      then Inr (desugar (s_peeked0 s), s\<lparr>s_peeked0 := s_peeked1 s, s_peeked1 := TokenErr\<rparr>)
      else case scanned s of
        [] \<Rightarrow> Inr (TEof, s\<lparr>yytext := []\<rparr>)
      | (t, x) # ts \<Rightarrow> Inr (desugar t, s\<lparr>scanned := ts, yytext := x\<rparr>))"
  by (simp add: next_token_def run_simps yylex_def desugar_def split: list.split prod.split)

interpretation lexer: token_stack lex_ok stack "\<lambda>s. 2 - length (pushed s)" next_token reinsert_token
proof
  fix s assume ok: "lex_ok s"
  obtain t s1 where n: "next_token s = Inr (t, s1)"
    by (cases "next_token s") (auto simp: next_token_run split: if_splits list.splits prod.splits)
  then have "t = fst (pop (stack s)) \<and> lex_ok s1 \<and> stack s1 = snd (pop (stack s)) \<and>
      2 - length (pushed s) \<le> 2 - length (pushed s1)"
    using ok by (auto simp: next_token_run pop_def stack_def pushed_def lex_ok_def
        split: if_splits list.splits)
  with n show "\<exists>s'. next_token s = Inr (fst (pop (stack s)), s') \<and> lex_ok s' \<and>
      stack s' = snd (pop (stack s)) \<and> 2 - length (pushed s) \<le> 2 - length (pushed s')"
    by auto
next
  fix s t assume "lex_ok s" "0 < 2 - length (pushed s)" "t \<noteq> TokenErr"
  then show "\<exists>s'. reinsert_token t s = Inr ((), s') \<and> lex_ok s' \<and> stack s' = t # stack s \<and>
      Suc (2 - length (pushed s')) = 2 - length (pushed s)"
    by (auto simp: reinsert_token_def pushed_def lex_ok_def stack_def split: if_splits)
qed

end
