(* ===== verification/LFSC_Text.thy ===== *)
theory LFSC_Text
  imports LFSC_Prelude
begin

text \<open>
  Numerals as text: the conversions of GMP and of the C library that the program uses on the text of a
  token and when it prints.  The scanner hands over digits only, so of \<open>mpz_set_str\<close> and \<open>atoi\<close> the model
  has no signs and no white space.
\<close>

section \<open>Writing\<close>

definition digit_char :: "nat \<Rightarrow> char" where
  "digit_char d = char_of (if d < 10 then 48 + d else 87 + d)"

text \<open>Digits in a base between 2 and 16.\<close>

fun show_base :: "nat \<Rightarrow> nat \<Rightarrow> string" where
  "show_base b n = (if b < 2 \<or> n < b then [digit_char n] else show_base b (n div b) @ [digit_char (n mod b)])"

declare show_base.simps [simp del]

definition mpz_get_str :: "nat \<Rightarrow> string" where
  "mpz_get_str n = show_base 10 n"

text \<open>A pointer on an output stream.\<close>

definition show_ptr :: "nat \<Rightarrow> string" where
  "show_ptr p = ''0x'' @ show_base 16 p"

section \<open>Reading\<close>

definition is_digit :: "char \<Rightarrow> bool" where
  "is_digit c \<longleftrightarrow> 48 \<le> (of_char c :: nat) \<and> (of_char c :: nat) \<le> 57"

definition digit_value :: "char \<Rightarrow> nat" where
  "digit_value c = of_char c - 48"

definition read_digits :: "string \<Rightarrow> nat" where
  "read_digits s = foldl (\<lambda>n c. 10 * n + digit_value c) 0 s"

definition mpz_set_str :: "string \<Rightarrow> int option" where
  "mpz_set_str s = (if s \<noteq> [] \<and> list_all is_digit s then Some (int (read_digits s)) else None)"

text \<open>Numerator and denominator, before they are made canonical.\<close>

definition mpq_set_str :: "string \<Rightarrow> (int \<times> int) option" where
  "mpq_set_str s =
     (let p = takeWhile (\<lambda>c. c \<noteq> CHR ''/'') s; q = dropWhile (\<lambda>c. c \<noteq> CHR ''/'') s
      in case mpz_set_str p of
           None \<Rightarrow> None
         | Some i \<Rightarrow>
             (if q = [] then Some (i, 1)
              else case mpz_set_str (tl q) of None \<Rightarrow> None | Some j \<Rightarrow> Some (i, j)))"

text \<open>\<open>atoi\<close>: the leading digits; a value that does not fit an \<open>int\<close> is undefined.\<close>

definition atoi :: "string \<Rightarrow> ('s, int) M" where
  "atoi s =
     (let n = read_digits (takeWhile is_digit s)
      in if n < 2 ^ 31 then ret (int n) else stop Undefined)"

section \<open>What is written is read back\<close>

lemma digit_char_digit: "d < 10 \<Longrightarrow> is_digit (digit_char d) \<and> digit_value (digit_char d) = d"
  by (simp add: is_digit_def digit_value_def digit_char_def of_char_of)

lemma show_base_digits: "list_all is_digit (show_base 10 n) \<and> show_base 10 n \<noteq> []"
proof (induction n rule: less_induct)
  case (less n)
  show ?case
  proof (cases "n < 10")
    case True
    then show ?thesis by (simp add: show_base.simps [of 10 n] digit_char_digit)
  next
    case False
    then have "n div 10 < n" by simp
    with less.IH False show ?thesis by (simp add: show_base.simps [of 10 n] digit_char_digit)
  qed
qed

lemma read_digits_snoc: "read_digits (s @ [c]) = 10 * read_digits s + digit_value c"
  by (simp add: read_digits_def)

lemma read_show: "read_digits (show_base 10 n) = n"
proof (induction n rule: less_induct)
  case (less n)
  show ?case
  proof (cases "n < 10")
    case True
    then show ?thesis by (simp add: show_base.simps [of 10 n] digit_char_digit read_digits_def)
  next
    case False
    then have "read_digits (show_base 10 (n div 10)) = n div 10" by (intro less.IH) simp
    with False show ?thesis
      by (simp add: show_base.simps [of 10 n] digit_char_digit read_digits_snoc)
  qed
qed

lemma mpz_set_get_str: "mpz_set_str (mpz_get_str n) = Some (int n)"
  using show_base_digits [of n] by (simp add: mpz_set_str_def mpz_get_str_def read_show)

lemma digits_no_slash: "list_all is_digit s \<Longrightarrow> c \<in> set s \<Longrightarrow> c \<noteq> CHR ''/''"
  by (auto simp: list_all_iff is_digit_def)

lemma mpq_set_get_str: "mpq_set_str (mpz_get_str p @ CHR ''/'' # mpz_get_str q) = Some (int p, int q)"
proof -
  have "c \<noteq> CHR ''/''" if "c \<in> set (mpz_get_str p)" for c
    using digits_no_slash [OF _ that] show_base_digits [of p] by (simp add: mpz_get_str_def)
  then have "takeWhile (\<lambda>c. c \<noteq> CHR ''/'') (mpz_get_str p @ CHR ''/'' # mpz_get_str q) = mpz_get_str p"
    "dropWhile (\<lambda>c. c \<noteq> CHR ''/'') (mpz_get_str p @ CHR ''/'' # mpz_get_str q) = CHR ''/'' # mpz_get_str q"
    by (simp_all add: takeWhile_append2 dropWhile_append2)
  then show ?thesis by (simp add: mpq_set_str_def mpz_set_get_str)
qed

end
