(* ===== verification/LFSC_State.thy ===== *)
theory LFSC_State
  imports LFSC_Code LFSC_Run LFSC_Token LFSC_Text
begin

text \<open>
  The state of the checker as a whole: the expression graph with its tables, the token buffer, and the
  global variables of \<open>src/src/check.cpp\<close>.  The operations of the graph and of the buffer are lifted to it;
  the parser of code and the checker of terms are written over it.
\<close>

section \<open>State\<close>

text \<open>
  \<open>out\<close> is what has been written to the standard output by \<open>check_file\<close>, oldest line first; \<open>compiling\<close> says whether programs are given
  to the compiler of side conditions, and \<open>handed\<close> are those it has been given.
\<close>

record cs =
  heap :: st
  lx :: lex
  open_parens :: int
  allow_run :: bool
  tail_calls :: bool
  big_check :: bool
  ascHoles :: "addr list"
  local_sym_names :: "(string \<times> addr option \<times> addr option) list"
  out :: "string list"
  compiling :: bool
  handed :: "(string \<times> addr) list"

definition onheap :: "(st, 'a) M \<Rightarrow> (cs, 'a) M" where
  "onheap m = (\<lambda>c. case m (heap c) of Inl e \<Rightarrow> Inl e | Inr (x, h) \<Rightarrow> Inr (x, c\<lparr>heap := h\<rparr>))"

definition onlex :: "(lex, 'a) M \<Rightarrow> (cs, 'a) M" where
  "onlex m = (\<lambda>c. case m (lx c) of Inl e \<Rightarrow> Inl e | Inr (x, l) \<Rightarrow> Inr (x, c\<lparr>lx := l\<rparr>))"

definition report_error :: "string \<Rightarrow> ('s, 'a) M" where
  "report_error msg = stop (ReportError msg)"

abbreviation next_tok :: "(cs, token) M" where
  "next_tok \<equiv> onlex next_token"

abbreviation eat :: "token \<Rightarrow> (cs, unit) M" where
  "eat t \<equiv> onlex (eat_token t)"

abbreviation reinsert :: "token \<Rightarrow> (cs, unit) M" where
  "reinsert t \<equiv> onlex (reinsert_token t)"

text \<open>\<open>while ((c = next_token()) != Token::Close) { reinsert_token(c); ... }\<close>\<close>

primrec until_close :: "nat \<Rightarrow> ('x \<Rightarrow> (cs, 'x) M) \<Rightarrow> 'x \<Rightarrow> (cs, 'x) M" where
  "until_close 0 body x = stop OutOfFuel"
| "until_close (Suc n) body x =
     bnd next_tok (\<lambda>c.
     if c = TClose then ret x
     else sq (reinsert c) (bnd (body x) (until_close n body)))"

text \<open>
  \<open>new CExpr(op, e1, ...)\<close> where an argument may be null: the array of kids ends at the first null
  pointer.
\<close>

definition mk_cexpr :: "op \<Rightarrow> addr option list \<Rightarrow> (st, addr) M" where
  "mk_cexpr opr es = new_expr (CExpr opr (map the (takeWhile (\<lambda>e. e \<noteq> None) es)))"

text \<open>\<open>new RatExpr(num)\<close>: making a quotient with denominator 0 canonical is a division by zero.\<close>

definition new_rat :: "int \<times> int \<Rightarrow> (st, addr) M" where
  "new_rat pq = (if snd pq = 0 then stop Aborted else new_expr (RatExpr (Fract (fst pq) (snd pq))))"

text \<open>\<open>mpz_neg(ee->n, ee->n)\<close> and \<open>mpq_neg\<close>: a literal is negated in place; \<open>False\<close> if it is not one.\<close>

definition neg_literal :: "addr \<Rightarrow> (st, bool) M" where
  "neg_literal e =
     bnd (getnode e) (\<lambda>nd. case nd of
       IntExpr i \<Rightarrow> sq (modify (\<lambda>s. s\<lparr>node := (node s)(e \<mapsto> IntExpr (- i))\<rparr>)) (ret True)
     | RatExpr q \<Rightarrow> sq (modify (\<lambda>s. s\<lparr>node := (node s)(e \<mapsto> RatExpr (- q))\<rparr>)) (ret True)
     | _ \<Rightarrow> ret False)"

section \<open>Evaluation rules and fuel\<close>

lemma onheap_run [run_simps]:
  "onheap m c = (case m (heap c) of Inl e \<Rightarrow> Inl e | Inr (x, h) \<Rightarrow> Inr (x, c\<lparr>heap := h\<rparr>))"
  by (simp add: onheap_def)

lemma onlex_run [run_simps]:
  "onlex m c = (case m (lx c) of Inl e \<Rightarrow> Inl e | Inr (x, l) \<Rightarrow> Inr (x, c\<lparr>lx := l\<rparr>))"
  by (simp add: onlex_def)

lemma report_error_run [simp, run_simps]: "report_error msg s = Inl (ReportError msg)"
  by (simp add: report_error_def)

lemma fuel_le_onheap [fuel_mono]: "fuel_le m m' \<Longrightarrow> fuel_le (onheap m) (onheap m')"
  unfolding fuel_le_def onheap_def
proof
  fix c assume "\<forall>s. m s = Inl OutOfFuel \<or> m' s = m s"
  then have "m (heap c) = Inl OutOfFuel \<or> m' (heap c) = m (heap c)" by blast
  then show "(case m (heap c) of Inl e \<Rightarrow> Inl e | Inr (x, h) \<Rightarrow> Inr (x, c\<lparr>heap := h\<rparr>)) = Inl OutOfFuel \<or>
    (case m' (heap c) of Inl e \<Rightarrow> Inl e | Inr (x, h) \<Rightarrow> Inr (x, c\<lparr>heap := h\<rparr>)) =
    (case m (heap c) of Inl e \<Rightarrow> Inl e | Inr (x, h) \<Rightarrow> Inr (x, c\<lparr>heap := h\<rparr>))"
    by (elim disjE) simp_all
qed

lemma until_close_fuel [fuel_mono]:
  assumes b: "\<And>x. fuel_le (b x) (b' x)"
  shows "fuel_le (until_close n b x) (until_close (Suc n) b' x)"
proof (induction n arbitrary: x)
  case (Suc n)
  show ?case
    unfolding until_close.simps(2) [of "Suc n" b' x] until_close.simps(2) [of n b x] by (intro fuel_mono Suc.IH b)
qed simp

end
