(* ===== verification/LFSC_Read.thy ===== *)
theory LFSC_Read
  imports LFSC_State
begin

text \<open>
  The parser of side condition code: \<open>read_ctor\<close>, \<open>read_case\<close> and \<open>read_code\<close> of \<open>src/src/code.cpp\<close>.  There is one
  definition per group of cases of the switch, over the recursive call \<open>rec\<close>.  A null result (\<open>None\<close>) is
  possible: an index out of range in \<open>markvar\<close> or \<open>ifmarked\<close> is reported on the standard output only.
\<close>

section \<open>The code\<close>

text \<open>\<open>read_ctor\<close>: null on \<open>default\<close>.\<close>

definition read_ctor :: "(cs, addr option) M" where
  "read_ctor =
     bnd (onlex prefix_id) (\<lambda>id1.
     if id1 = ''default'' then ret None
     else
       bnd (onheap (sym_get id1)) (\<lambda>(s, stp).
       if stp = None then report_error ''Undeclared identifier parsing a pattern.''
       else
         bnd (deref s) (\<lambda>a.
         bnd (onheap (getclass a)) (\<lambda>c.
         bnd (if c \<noteq> SYMS_EXPR then ret True else bnd (onheap (getval a)) (\<lambda>v. ret (v \<noteq> None))) (\<lambda>bad.
         if bad then report_error ''The head of a pattern is not a constructor.''
         else sq (onheap (inc a)) (ret (Some a)))))))"

text \<open>The reference to an application is dropped once it has been extended by \<open>make_app\<close>.\<close>

definition extend_app :: "addr \<Rightarrow> addr option \<Rightarrow> (st, addr) M" where
  "extend_app e1 e2 =
     bnd (case e2 of Some a \<Rightarrow> make_app e1 a
          | None \<Rightarrow>
              bnd (getclass e1) (\<lambda>c.
              if c = CEXPR then bnd (getkids e1) (\<lambda>ks. sq (iter_M inc ks) (new_expr (CExpr APP ks)))
              else new_expr (CExpr APP [e1]))) (\<lambda>r.
     bnd (getclass e1) (\<lambda>c.
     sq (if c = CEXPR then dec e1 else ret ()) (ret r)))"

text \<open>A variable of a pattern.\<close>

definition case_var :: "addr \<times> (string \<times> addr option \<times> addr option) list
    \<Rightarrow> (cs, addr \<times> (string \<times> addr option \<times> addr option) list) M" where
  "case_var pv =
     bnd (onlex prefix_id) (\<lambda>varstr.
     if varstr = [] then report_error ''Could not read identifier in a pattern of match expression.''
     else
       bnd (onheap (new_expr (SymSExpr varstr))) (\<lambda>var.
       bnd (onheap (sym_insert varstr (Some var, None))) (\<lambda>prev.
       bnd (onheap (extend_app (fst pv) (Some var))) (\<lambda>pat.
       ret (pat, snd pv @ [(varstr, prev)])))))"

text \<open>The body of a case, after its pattern.\<close>

definition case_body :: "(cs, addr option) M \<Rightarrow> addr option \<Rightarrow> (string \<times> addr option \<times> addr option) list
    \<Rightarrow> (cs, addr option) M" where
  "case_body rec pat prevs =
     bnd rec (\<lambda>r0.
     bnd (case pat of None \<Rightarrow> ret r0
          | Some p \<Rightarrow> bnd (onheap (mk_cexpr CASE [Some p, r0])) (\<lambda>c. ret (Some c))) (\<lambda>r.
     sq (onheap (put_back prevs)) (
     sq (eat TClose) (ret r))))"

definition read_case :: "(cs, addr option) M \<Rightarrow> nat \<Rightarrow> (cs, addr option) M" where
  "read_case rec n =
     sq (eat TOpen) (
     bnd next_tok (\<lambda>d.
     if d = TOpen then
       bnd read_ctor (\<lambda>s. case s of
         None \<Rightarrow> report_error ''Could not read constructor in a match case.''
       | Some p \<Rightarrow>
           bnd (until_close n case_var (p, [])) (\<lambda>(pat, prevs).
           case_body rec (Some pat) prevs))
     else if d = TEof then report_error ''Unexpected end of file parsing a pattern.''
     else sq (reinsert d) (bnd read_ctor (\<lambda>pat. case_body rec pat []))))"

text \<open>A fixed number of arguments and the closing parenthesis.\<close>

definition read_op :: "(cs, addr option) M \<Rightarrow> op \<Rightarrow> nat \<Rightarrow> (cs, addr option) M" where
  "read_op rec opr k =
     bnd (map_M (\<lambda>_. rec) [0..<k]) (\<lambda>es.
     bnd (onheap (mk_cexpr opr es)) (\<lambda>r.
     sq (eat TClose) (ret (Some r))))"

definition read_fail :: "(cs, addr option) M \<Rightarrow> (cs, addr option) M" where
  "read_fail rec =
     bnd rec (\<lambda>c.
     sq (eat TClose) (
     bnd (onheap (mk_cexpr FAIL [c])) (\<lambda>r. ret (Some r))))"

definition read_compare :: "(cs, addr option) M \<Rightarrow> (cs, addr option) M" where
  "read_compare rec =
     bnd (map_M (\<lambda>_. rec) [0..<4]) (\<lambda>es.
     sq (eat TClose) (
     bnd (onheap (mk_cexpr COMPARE es)) (\<lambda>r. ret (Some r))))"

definition read_do :: "(cs, addr option) M \<Rightarrow> nat \<Rightarrow> (cs, addr option) M" where
  "read_do rec n =
     bnd rec (\<lambda>r0.
     until_close n (\<lambda>r. bnd rec (\<lambda>e. bnd (onheap (mk_cexpr DO [r, e])) (\<lambda>d. ret (Some d)))) r0)"

definition read_let :: "(cs, addr option) M \<Rightarrow> (cs, addr option) M" where
  "read_let rec =
     bnd (onlex prefix_id) (\<lambda>id1.
     bnd (onheap (new_expr (SymSExpr id1))) (\<lambda>var.
     bnd rec (\<lambda>t1.
     bnd (onheap (sym_insert id1 (Some var, None))) (\<lambda>prev.
     bnd rec (\<lambda>t2.
     sq (onheap (sym_insert id1 prev)) (
     sq (eat TClose) (
     bnd (onheap (mk_cexpr LET [Some var, t1, t2])) (\<lambda>r. ret (Some r)))))))))"

text \<open>The index that follows \<open>markvar\<close> or \<open>ifmarked\<close> in the text of the token.\<close>

definition mark_suffix :: "nat \<Rightarrow> (cs, int) M" where
  "mark_suffix k =
     bnd (onlex token_str) (\<lambda>txt.
     if length txt > k then atoi (drop k txt) else ret 1)"

definition read_ifmarked :: "(cs, addr option) M \<Rightarrow> (cs, addr option) M" where
  "read_ifmarked rec =
     bnd (mark_suffix 8) (\<lambda>index.
     bnd (map_M (\<lambda>_. rec) [0..<3]) (\<lambda>es.
     bnd (if 1 \<le> index \<and> index \<le> 32 then
            bnd (onheap (new_expr (IntExpr (index - 1)))) (\<lambda>i.
            bnd (onheap (mk_cexpr IFMARKED (Some i # es))) (\<lambda>r. ret (Some r)))
          else ret None) (\<lambda>r.
     sq (eat TClose) (ret r))))"

definition read_markvar :: "(cs, addr option) M \<Rightarrow> (cs, addr option) M" where
  "read_markvar rec =
     bnd (mark_suffix 7) (\<lambda>index.
     bnd (if 1 \<le> index \<and> index \<le> 32 then
            bnd (onheap (new_expr (IntExpr (index - 1)))) (\<lambda>i.
            bnd rec (\<lambda>e.
            bnd (onheap (mk_cexpr MARKVAR [Some i, e])) (\<lambda>r. ret (Some r))))
          else ret None) (\<lambda>r.
     sq (eat TClose) (ret r)))"

definition read_match :: "(cs, addr option) M \<Rightarrow> nat \<Rightarrow> (cs, addr option) M" where
  "read_match rec n =
     bnd rec (\<lambda>scrut.
     bnd (until_close n (\<lambda>cs1. bnd (read_case rec n) (\<lambda>c. ret (cs1 @ [c]))) [scrut]) (\<lambda>cases.
     if length cases = 1 then report_error ''A match has no cases.''
     else bnd (onheap (mk_cexpr MATCH cases)) (\<lambda>r. ret (Some r))))"

definition read_tilde :: "(cs, addr option) M \<Rightarrow> (cs, addr option) M" where
  "read_tilde rec =
     bnd (bnd rec deref) (\<lambda>e.
     bnd (onheap (neg_literal e)) (\<lambda>ok.
     if ok then sq (eat TClose) (ret (Some e))
     else report_error ''Negative sign with expr that is not an numeric literal.''))"

text \<open>\<open>progs[pref]\<close>: a missing key is inserted with a null pointer.\<close>

definition progs_at :: "string \<Rightarrow> (st, addr option) M" where
  "progs_at x =
     bnd (gets (\<lambda>s. progs s x)) (\<lambda>p. case p of
       Some a \<Rightarrow> ret a
     | None \<Rightarrow> sq (modify (\<lambda>s. s\<lparr>progs := (progs s)(x \<mapsto> None)\<rparr>)) (ret None))"

text \<open>The application case: a program, or else a symbol, and its arguments.\<close>

definition read_app :: "(cs, addr option) M \<Rightarrow> nat \<Rightarrow> (cs, addr option) M" where
  "read_app rec n =
     bnd (onlex token_str) (\<lambda>pref.
     bnd (onheap (progs_at pref)) (\<lambda>p.
     bnd (case p of Some a \<Rightarrow> ret p | None \<Rightarrow> bnd (onheap (sym_get pref)) (\<lambda>q. ret (fst q))) (\<lambda>r. case r of
       None \<Rightarrow> report_error ''Undeclared identifier at head of an application''
     | Some a \<Rightarrow>
         sq (onheap (inc a)) (
         bnd (until_close n (\<lambda>e. bnd rec (\<lambda>ke. onheap (extend_app e ke))) a) (\<lambda>e.
         ret (Some e))))))"

definition read_natural :: "(cs, addr option) M" where
  "read_natural =
     bnd (onlex token_str) (\<lambda>txt. case mpz_set_str txt of
       None \<Rightarrow> report_error ''Error reading a numeral.''
     | Some i \<Rightarrow> bnd (onheap (new_expr (IntExpr i))) (\<lambda>r. ret (Some r)))"

definition read_rational :: "(cs, addr option) M" where
  "read_rational =
     bnd (onlex token_str) (\<lambda>txt. case mpq_set_str txt of
       None \<Rightarrow> report_error ''Error reading a mpq numeral.''
     | Some pq \<Rightarrow> bnd (onheap (new_rat pq)) (\<lambda>r. ret (Some r)))"

definition read_symbol :: "(cs, addr option) M" where
  "read_symbol =
     bnd (onlex token_str) (\<lambda>id1.
     bnd (onheap (sym_get id1)) (\<lambda>p.
     bnd (case fst p of Some a \<Rightarrow> ret (Some a) | None \<Rightarrow> onheap (progs_at id1)) (\<lambda>r. case r of
       None \<Rightarrow> report_error ''Undeclared identifier''
     | Some a \<Rightarrow> sq (onheap (inc a)) (ret (Some a)))))"

text \<open>The switch on the token after an opening parenthesis.\<close>

definition read_form :: "(cs, addr option) M \<Rightarrow> nat \<Rightarrow> token \<Rightarrow> (cs, addr option) M" where
  "read_form rec n c = (case c of
       TDo \<Rightarrow> read_do rec n
     | TFail \<Rightarrow> read_fail rec
     | TAt \<Rightarrow> read_let rec
     | TIfMarked \<Rightarrow> read_ifmarked rec
     | TIfEqual \<Rightarrow> read_op rec IFEQUAL 4
     | TMatch \<Rightarrow> read_match rec n
     | TMarkVar \<Rightarrow> read_markvar rec
     | TMpAdd \<Rightarrow> read_op rec ADD 2
     | TMpMul \<Rightarrow> read_op rec MUL 2
     | TMpDiv \<Rightarrow> read_op rec DIV 2
     | TMpNeg \<Rightarrow> read_op rec NEG 1
     | TMpzToMpq \<Rightarrow> read_op rec MPZ_TO_MPQ 1
     | TMpIfNeg \<Rightarrow> read_op rec IFNEG 3
     | TMpIfZero \<Rightarrow> read_op rec IFZERO 3
     | TTilde \<Rightarrow> read_tilde rec
     | TCompare \<Rightarrow> read_compare rec
     | TEof \<Rightarrow> report_error ''Unexpected end of file.''
     | _ \<Rightarrow> read_app rec n)"

text \<open>The switch on the first token.\<close>

definition read_start :: "(cs, addr option) M \<Rightarrow> nat \<Rightarrow> token \<Rightarrow> (cs, addr option) M" where
  "read_start rec n d = (case d of
       TOpen \<Rightarrow> bnd next_tok (read_form rec n)
     | TNatural \<Rightarrow> read_natural
     | TRational \<Rightarrow> read_rational
     | TEof \<Rightarrow> report_error ''Unexpected end of file.''
     | _ \<Rightarrow> read_symbol)"

primrec read_code :: "nat \<Rightarrow> (cs, addr option) M" where
  "read_code 0 = stop OutOfFuel"
| "read_code (Suc n) = bnd next_tok (read_start (read_code n) n)"

section \<open>Fuel\<close>

lemma read_parts_fuel [fuel_mono]:
  assumes r: "fuel_le rec rec'"
  shows "fuel_le (case_body rec p vs) (case_body rec' p vs)" "fuel_le (read_op rec opr k) (read_op rec' opr k)"
    "fuel_le (read_fail rec) (read_fail rec')" "fuel_le (read_compare rec) (read_compare rec')"
    "fuel_le (read_do rec n) (read_do rec' (Suc n))" "fuel_le (read_let rec) (read_let rec')"
    "fuel_le (read_ifmarked rec) (read_ifmarked rec')" "fuel_le (read_markvar rec) (read_markvar rec')"
    "fuel_le (read_tilde rec) (read_tilde rec')" "fuel_le (read_app rec n) (read_app rec' (Suc n))"
  unfolding case_body_def read_op_def read_fail_def read_compare_def read_do_def read_let_def read_ifmarked_def
    read_markvar_def read_tilde_def read_app_def
  by (intro fuel_mono r)+

lemma read_case_fuel [fuel_mono]:
  "fuel_le rec rec' \<Longrightarrow> fuel_le (read_case rec n) (read_case rec' (Suc n))"
  unfolding read_case_def by (intro fuel_mono)

lemma read_match_fuel [fuel_mono]:
  "fuel_le rec rec' \<Longrightarrow> fuel_le (read_match rec n) (read_match rec' (Suc n))"
  unfolding read_match_def by (intro fuel_mono)

lemma read_form_fuel [fuel_mono]:
  "fuel_le rec rec' \<Longrightarrow> fuel_le (read_form rec n c) (read_form rec' (Suc n) c)"
  by (cases c) (auto simp: read_form_def intro!: fuel_mono)

lemma read_start_fuel [fuel_mono]:
  "fuel_le rec rec' \<Longrightarrow> fuel_le (read_start rec n d) (read_start rec' (Suc n) d)"
  by (cases d) (auto simp: read_start_def intro!: fuel_mono)

lemma read_code_fuel [fuel_mono]: "fuel_le (read_code n) (read_code (Suc n))"
proof (induction n)
  case (Suc n)
  show ?case
    unfolding read_code.simps(2) [of "Suc n"]
    by (subst (1) read_code.simps(2) [of n]) (intro fuel_mono Suc.IH)
qed (simp only: read_code.simps fuel_le_stop)

end
