(* ===== verification/LFSC_Check.thy ===== *)
theory LFSC_Check
  imports LFSC_Read
begin

text \<open>
  The checker of terms and types: \<open>check\<close>, the declaration lists and the helpers of \<open>src/src/check.cpp\<close>.

  \<open>check\<close> parses a term and computes its classifier, or checks it against one, in a single pass; with
  \<open>create\<close> it also builds the term.  Its parameters are the record \<open>cargs\<close>, where the pointers \<open>computed\<close> and
  \<open>is_hole\<close> are represented by whether they are null.  Its result is the returned pointer, the value written
  to \<open>*computed\<close> (\<open>None\<close>: not written), and whether \<open>*is_hole\<close> was set.  \<open>goto start_check\<close> is a call in
  tail position.  There is one definition per case of the switch over the recursive call \<open>rec\<close>.
\<close>

section \<open>Parameters\<close>

record cargs =
  create :: bool
  expected :: "addr option"
  computed :: bool
  is_hole :: bool
  return_pos :: bool
  inAsc :: bool

type_synonym cres = "addr option \<times> addr option \<times> bool"

text \<open>\<open>check(create, expected)\<close>, the other parameters at their defaults.\<close>

definition ask :: "bool \<Rightarrow> addr option \<Rightarrow> cargs" where
  "ask cr ex = \<lparr>create = cr, expected = ex, computed = False, is_hole = False, return_pos = False, inAsc = False\<rparr>"

text \<open>\<open>*computed = v\<close>\<close>

definition put_computed :: "cargs \<Rightarrow> addr \<Rightarrow> (cs, addr option) M" where
  "put_computed a v = (if computed a then ret (Some v) else stop Undefined)"

section \<open>Helpers\<close>

definition eat_rparen :: "(cs, unit) M" where
  "eat_rparen = sq (eat TClose) (modify (\<lambda>c. c\<lparr>open_parens := open_parens c - 1\<rparr>))"

text \<open>\<open>while (open_parens > prev) eat_rparen();\<close>: every round takes one off.\<close>

primrec repeat_M :: "nat \<Rightarrow> ('s, unit) M \<Rightarrow> ('s, unit) M" where
  "repeat_M 0 m = ret ()"
| "repeat_M (Suc n) m = sq m (repeat_M n m)"

definition eat_excess :: "int \<Rightarrow> (cs, unit) M" where
  "eat_excess prev = bnd (gets open_parens) (\<lambda>o1. repeat_M (nat (o1 - prev)) eat_rparen)"

definition inc_opt :: "addr option \<Rightarrow> (st, unit) M" where
  "inc_opt v = (case v of None \<Rightarrow> ret () | Some a \<Rightarrow> inc a)"

definition dec_opt :: "addr option \<Rightarrow> (st, unit) M" where
  "dec_opt v = (case v of None \<Rightarrow> ret () | Some a \<Rightarrow> dec a)"

definition insertAndBindSymbol :: "nat \<Rightarrow> string \<Rightarrow> addr \<Rightarrow> addr \<Rightarrow> addr option \<Rightarrow> (st, addr option \<times> addr option) M" where
  "insertAndBindSymbol f s sy e t =
     bnd (getop e) (\<lambda>opr.
     bnd (if opr = APP then
            bnd (whr f e) (\<lambda>er.
            if er \<noteq> e then sq (inc er) (sq (dec e) (ret er)) else ret e)
          else ret e) (\<lambda>e'.
     sq (setval sy (Some e')) (sym_insert s (Some sy, t))))"

definition is_type_or_kind :: "op \<Rightarrow> bool" where
  "is_type_or_kind opr \<longleftrightarrow> opr = TYPE_E \<or> opr = KIND"

text \<open>A side condition: its result, or an error.\<close>

definition run_side :: "nat \<Rightarrow> addr \<Rightarrow> addr \<Rightarrow> (st, addr) M" where
  "run_side f code expected_result =
     bnd (run_code f code) (\<lambda>r. case r of
       None \<Rightarrow> report_error ''A side condition failed.''
     | Some computed_result \<Rightarrow>
         bnd (defeq f expected_result computed_result) (\<lambda>b.
         if \<not> b then report_error ''The expected result of a side condition does not match the computed result.''
         else ret computed_result))"

section \<open>Declaration lists\<close>

definition check_decl_list_item :: "(cargs \<Rightarrow> (cs, cres) M) \<Rightarrow> (cs, string \<times> addr option) M" where
  "check_decl_list_item rec =
     bnd next_tok (\<lambda>t.
     if t = TOpen then
       bnd next_tok (\<lambda>t2.
       if t2 = TColon then
         bnd (onlex prefix_id) (\<lambda>id1.
         bnd (rec (ask True (Some statType))) (\<lambda>(ty, _, _).
         sq (eat TClose) (ret (id1, ty))))
       else
         sq (reinsert t2) (
         sq (reinsert t) (
         bnd (rec ((ask True None)\<lparr>computed := True\<rparr>)) (\<lambda>(ty, dummy, _).
         bnd (deref dummy) (\<lambda>d.
         sq (onheap (dec d)) (ret ([], ty)))))))
     else
       sq (reinsert t) (
       bnd (rec (ask True (Some statType))) (\<lambda>(ty, _, _). ret ([], ty))))"

text \<open>One item of the list: the declarations and the old bindings collected so far.\<close>

definition decl_item :: "(cargs \<Rightarrow> (cs, cres) M) \<Rightarrow> bool
    \<Rightarrow> (addr \<times> addr option) list \<times> (string \<times> addr option \<times> addr option) list
    \<Rightarrow> (cs, (addr \<times> addr option) list \<times> (string \<times> addr option \<times> addr option) list) M" where
  "decl_item rec cr p =
     bnd (check_decl_list_item rec) (\<lambda>(x, ty).
     bnd (if x \<noteq> [] then
            bnd (onheap (new_expr (SymSExpr x))) (\<lambda>sym.
            bnd (onheap (sym_insert x (Some sym, ty))) (\<lambda>old.
            ret (sym, snd p @ [(x, old)])))
          else bnd (onheap (new_expr (SymSExpr ''_''))) (\<lambda>sym. ret (sym, snd p))) (\<lambda>(sym, olds).
     ret (if cr then fst p @ [(sym, ty)] else fst p, olds)))"

definition check_decl_list :: "(cargs \<Rightarrow> (cs, cres) M) \<Rightarrow> nat \<Rightarrow> bool
    \<Rightarrow> (cs, (addr \<times> addr option) list \<times> (string \<times> addr option \<times> addr option) list) M" where
  "check_decl_list rec n cr = sq (eat TOpen) (until_close n (decl_item rec cr) ([], []))"

text \<open>The loops of \<open>build_validate_pi\<close> and \<open>build_macro\<close>, from the last argument to the first.\<close>

primrec build_pis :: "nat \<Rightarrow> (addr \<times> addr option) list \<Rightarrow> addr option \<Rightarrow> (st, addr option) M" where
  "build_pis f [] r = ret r"
| "build_pis f (p # ps) r =
     bnd (build_pis f ps r) (\<lambda>r1.
     bnd (mk_cexpr PI [Some (fst p), snd p, r1]) (\<lambda>e.
     sq (calc_free_in f e) (ret (Some e))))"

definition build_validate_pi :: "nat \<Rightarrow> (addr \<times> addr option) list \<Rightarrow> addr option \<Rightarrow> addr \<Rightarrow> bool
    \<Rightarrow> (st, addr option \<times> addr) M" where
  "build_validate_pi f args r ret_kind cr =
     bnd (getop ret_kind) (\<lambda>opr.
     if is_type_or_kind opr then
       (if cr then bnd (build_pis f args r) (\<lambda>e. ret (e, ret_kind)) else ret (None, ret_kind))
     else bnd (deref r) (\<lambda>_. report_error ''Invalid Pi-range''))"

primrec build_macro :: "nat \<Rightarrow> (addr \<times> addr option) list \<Rightarrow> addr option \<Rightarrow> addr option
    \<Rightarrow> (st, addr option \<times> addr option) M" where
  "build_macro f [] r ret_ty = ret (r, ret_ty)"
| "build_macro f (p # ps) r ret_ty =
     bnd (build_macro f ps r ret_ty) (\<lambda>(r1, ty1).
     bnd (deref (snd p)) (\<lambda>dom1.
     sq (inc dom1) (
     bnd (mk_cexpr PI [Some (fst p), Some dom1, ty1]) (\<lambda>tmp.
     sq (calc_free_in f tmp) (
     bnd (getflag tmp) (\<lambda>dep.
     if dep then report_error ''The type of an annotated lambda is dependent.''
     else
       bnd (getname (fst p)) (\<lambda>x.
       bnd (new_expr (SymSExpr x)) (\<lambda>v.
       sq (setkid tmp 0 v) (
       bnd (mk_cexpr LAM [Some (fst p), r1]) (\<lambda>e.
       sq (setflag e True) (ret (Some e, Some tmp))))))))))))"

section \<open>Abstractions\<close>

text \<open>\<open>allow_run = true; domain = check(true, statType); eat_excess(prevo); allow_run = false;\<close>\<close>

definition check_domain :: "(cargs \<Rightarrow> (cs, cres) M) \<Rightarrow> (cs, int \<times> addr option) M" where
  "check_domain rec =
     sq (modify (\<lambda>c. c\<lparr>allow_run := True\<rparr>)) (
     bnd (gets open_parens) (\<lambda>prevo.
     bnd (rec (ask True (Some statType))) (\<lambda>(domain, _, _).
     sq (eat_excess prevo) (
     sq (modify (\<lambda>c. c\<lparr>allow_run := False\<rparr>)) (ret (prevo, domain))))))"

definition check_pi :: "(cargs \<Rightarrow> (cs, cres) M) \<Rightarrow> nat \<Rightarrow> cargs \<Rightarrow> (cs, cres) M" where
  "check_pi rec f a =
     bnd (onlex prefix_id) (\<lambda>id1.
     bnd (onheap (new_expr (SymSExpr id1))) (\<lambda>sym.
     bnd (check_domain rec) (\<lambda>(prevo, domain).
     bnd (onheap (sym_insert id1 (Some sym, domain))) (\<lambda>prev.
     sq (onheap (inc_opt (expected a))) (
     bnd (rec (a\<lparr>is_hole := False, inAsc := False\<rparr>)) (\<lambda>(range1, comp, _).
     sq (eat_excess prevo) (
     sq eat_rparen (
     sq (onheap (sym_insert id1 prev)) (
     sq (case expected a of
           Some e \<Rightarrow>
             bnd (onheap (bnd (followDefs f e) getop)) (\<lambda>opr.
             sq (onheap (dec e)) (
             if \<not> is_type_or_kind opr then report_error ''The expected classifier for a pi abstraction is neither type nor kind.''
             else ret ()))
         | None \<Rightarrow>
             if create a then ret ()
             else
               bnd (deref comp) (\<lambda>v.
               bnd (onheap (bnd (followDefs f v) getop)) (\<lambda>opr.
               if \<not> is_type_or_kind opr then report_error ''The classifier for the range of a pi abstraction is neither type nor kind.''
               else ret ()))) (
     if create a then
       bnd (onheap (mk_cexpr PI [Some sym, domain, range1])) (\<lambda>r.
       sq (onheap (calc_free_in f r)) (ret (Some r, comp, False)))
     else ret (None, comp, False)))))))))))"

definition check_arrow :: "(cargs \<Rightarrow> (cs, cres) M) \<Rightarrow> nat \<Rightarrow> cargs \<Rightarrow> (cs, cres) M" where
  "check_arrow rec f a =
     bnd (check_decl_list rec f (create a)) (\<lambda>(decls, olds).
     bnd (rec ((ask (create a) None)\<lparr>computed := True\<rparr>)) (\<lambda>(r, kind0, _).
     sq (onheap (put_back olds)) (
     sq eat_rparen (
     bnd (deref kind0) (\<lambda>ret_kind.
     bnd (onheap (build_validate_pi f decls r ret_kind (create a))) (\<lambda>(p1, p2).
     bnd (if expected a \<noteq> None then sq (onheap (dec p2)) (ret None) else put_computed a p2) (\<lambda>comp.
     ret (p1, comp, False))))))))"

text \<open>The annotated lambda \<open>(# x T body)\<close>: what is expected of its body, and its type.\<close>

definition pound_expected :: "nat \<Rightarrow> addr option \<Rightarrow> addr option \<Rightarrow> (st, addr option) M" where
  "pound_expected f ex domain = (case ex of
       None \<Rightarrow> ret None
     | Some e \<Rightarrow>
         sq (inc e) (
         bnd (followDefs f e) (\<lambda>ce.
         bnd (getop ce) (\<lambda>opr.
         if opr \<noteq> PI then report_error ''The expected classifier for a # (annotated lambda) abstraction is not a pi''
         else
           bnd (getkid ce 1) (\<lambda>k1.
           bnd (deref domain) (\<lambda>dom1.
           bnd (defeq f k1 dom1) (\<lambda>b.
           if \<not> b then report_error ''The expected domain for a # (annotated lambda) abstraction differs''
           else bnd (getkid ce 2) (\<lambda>k2. ret (Some k2)))))))))"

definition pound_type :: "nat \<Rightarrow> string \<Rightarrow> addr \<Rightarrow> addr option \<Rightarrow> addr option \<Rightarrow> (st, addr) M" where
  "pound_type f id1 sy domain rec_computed =
     bnd (mk_cexpr PI [Some sy, domain, rec_computed]) (\<lambda>tmp.
     sq (calc_free_in f tmp) (
     bnd (getflag tmp) (\<lambda>dep.
     if dep then report_error ''The type of an annotated lambda is dependent.''
     else
       bnd (new_expr (SymSExpr id1)) (\<lambda>v.
       sq (setkid tmp 0 v) (ret tmp)))))"

definition check_pound :: "(cargs \<Rightarrow> (cs, cres) M) \<Rightarrow> nat \<Rightarrow> cargs \<Rightarrow> (cs, cres) M" where
  "check_pound rec f a =
     bnd (onlex prefix_id) (\<lambda>id1.
     bnd (onheap (new_expr (SymSExpr id1))) (\<lambda>sym.
     bnd (check_domain rec) (\<lambda>(prevo, domain).
     bnd (onheap (sym_insert id1 (Some sym, domain))) (\<lambda>prev.
     bnd (onheap (pound_expected f (expected a) domain)) (\<lambda>rec_expected.
     bnd (rec (a\<lparr>expected := rec_expected, computed := True, is_hole := False, inAsc := False\<rparr>)) (\<lambda>(range1, rec_computed, _).
     sq (onheap (dec_opt (expected a))) (
     sq (eat_excess prevo) (
     sq eat_rparen (
     bnd (onheap (pound_type f id1 sym domain rec_computed)) (\<lambda>tmp.
     bnd (put_computed a tmp) (\<lambda>comp.
     sq (onheap (sym_insert id1 prev)) (
     if create a then
       bnd (onheap (mk_cexpr LAM [Some sym, range1])) (\<lambda>r.
       sq (onheap (setflag r True)) (ret (Some r, comp, False)))
     else ret (None, comp, False)))))))))))))"

text \<open>The big lambda \<open>(% x T body)\<close>.\<close>

definition check_percent :: "(cargs \<Rightarrow> (cs, cres) M) \<Rightarrow> nat \<Rightarrow> cargs \<Rightarrow> (cs, cres) M" where
  "check_percent rec f a =
     bnd (gets big_check) (\<lambda>big.
     if expected a \<noteq> None \<or> create a \<or> \<not> return_pos a \<or> \<not> big then
       report_error ''Big lambda abstractions can only be used in the return position of a bigcheck command.''
     else
       bnd (onlex prefix_id) (\<lambda>id1.
       bnd (onheap (new_expr (SymSExpr id1))) (\<lambda>sym.
       bnd (gets open_parens) (\<lambda>prevo.
       bnd (rec (ask True (Some statType))) (\<lambda>(domain, _, _).
       sq (eat_excess prevo) (
       bnd (onheap (sym_insert id1 (Some sym, domain))) (\<lambda>prevpr.
       bnd (deref domain) (\<lambda>dom1.
       sq (onheap (inc dom1)) (
       sq (modify (\<lambda>c. c\<lparr>local_sym_names := local_sym_names c @ [(id1, prevpr)]\<rparr>)) (
       sq (onheap (dec_opt (fst prevpr))) (
       sq (onheap (dec_opt (snd prevpr))) (
       rec (a\<lparr>create := False, expected := None, is_hole := False\<rparr>)))))))))))))"

text \<open>The lambda: in return position of a check the binding of the variable is left to the end of the command.\<close>

definition lambda_tail :: "(cargs \<Rightarrow> (cs, cres) M) \<Rightarrow> cargs \<Rightarrow> string \<Rightarrow> addr option \<times> addr option \<Rightarrow> addr option
    \<Rightarrow> addr \<Rightarrow> addr \<Rightarrow> (cs, cres) M" where
  "lambda_tail rec a id1 prevpr pv orig rng =
     sq (modify (\<lambda>c. c\<lparr>local_sym_names := local_sym_names c @ [(id1, prevpr)]\<rparr>)) (
     sq (onheap (dec_opt pv)) (
     sq (onheap (dec_opt (fst prevpr))) (
     sq (onheap (dec_opt (snd prevpr))) (
     sq (onheap (dec orig)) (
     rec (a\<lparr>create := False, expected := Some rng, computed := False, is_hole := False\<rparr>))))))"

definition lambda_body :: "(cargs \<Rightarrow> (cs, cres) M) \<Rightarrow> cargs \<Rightarrow> string \<Rightarrow> addr \<Rightarrow> addr option \<times> addr option \<Rightarrow> addr option
    \<Rightarrow> addr \<Rightarrow> addr \<Rightarrow> addr \<Rightarrow> addr \<Rightarrow> (cs, cres) M" where
  "lambda_body rec a id1 sy prevpr pv pivar orig dom1 rng =
     bnd (gets open_parens) (\<lambda>prev.
     bnd (rec ((ask (create a) (Some rng))\<lparr>return_pos := return_pos a\<rparr>)) (\<lambda>(range1, _, _).
     sq (eat_excess prev) (
     sq eat_rparen (
     sq (onheap (sym_insert id1 prevpr)) (
     sq (onheap (dec dom1)) (
     sq (onheap (setval pivar pv)) (
     sq (onheap (dec orig)) (
     sq (onheap (dec sy)) (
     if create a then
       bnd (onheap (mk_cexpr LAM [Some sy, range1])) (\<lambda>r. ret (Some r, None, False))
     else sq (onheap (dec sy)) (ret (None, None, False)))))))))))"

definition check_lambda :: "(cargs \<Rightarrow> (cs, cres) M) \<Rightarrow> nat \<Rightarrow> cargs \<Rightarrow> (cs, cres) M" where
  "check_lambda rec f a = (case expected a of
       None \<Rightarrow> report_error ''We are computing a type for a lambda abstraction, but we can only check such against a type.''
     | Some orig \<Rightarrow>
         bnd (onheap (followDefs f orig)) (\<lambda>ex.
         bnd (onheap (getop ex)) (\<lambda>opr.
         if opr \<noteq> PI then report_error ''We are type-checking a lambda abstraction, but the expected type is not a pi abstraction.''
         else
           bnd (onlex prefix_id) (\<lambda>id1.
           bnd (onheap (new_expr (SymSExpr id1))) (\<lambda>sym.
           bnd (onheap (getkid ex 1)) (\<lambda>dom1.
           bnd (onheap (getkid ex 2)) (\<lambda>rng.
           bnd (onheap (getkid ex 0)) (\<lambda>pivar.
           bnd (onheap (bnd (followDefs f rng) getop)) (\<lambda>ro.
           if ro = TYPE_E then report_error ''The expected classifier for a lambda abstraction a kind, not a type.''
           else
             bnd (onheap (sym_insert id1 (Some sym, Some dom1))) (\<lambda>prevpr.
             bnd (onheap (getval pivar)) (\<lambda>pv.
             sq (onheap (inc sym)) (
             sq (onheap (setval pivar (Some sym))) (
             sq (onheap (inc dom1)) (
             sq (onheap (inc rng)) (
             bnd (gets (\<lambda>c. tail_calls c \<and> big_check c \<and> return_pos a \<and> \<not> create a)) (\<lambda>tail.
             if tail then lambda_tail rec a id1 prevpr pv orig rng
             else lambda_body rec a id1 sym prevpr pv pivar orig dom1 rng))))))))))))))))"

section \<open>Side conditions, ascriptions, local definitions, signs\<close>

definition check_run :: "(cargs \<Rightarrow> (cs, cres) M) \<Rightarrow> nat \<Rightarrow> cargs \<Rightarrow> (cs, cres) M" where
  "check_run rec f a =
     bnd (gets allow_run) (\<lambda>allowed.
     if \<not> allowed \<or> \<not> create a \<or> expected a = None then
       report_error ''A run expression (operator ^) appears in a disallowed position.''
     else
       bnd (deref (expected a)) (\<lambda>ex.
       bnd (bnd (read_code f) deref) (\<lambda>code.
       bnd (onheap (check_code f code)) (\<lambda>progret0.
       bnd (gets open_parens) (\<lambda>prev.
       bnd (deref progret0) (\<lambda>progret.
       sq (onheap (inc progret)) (
       bnd (rec (ask True (Some progret))) (\<lambda>(trm, _, _).
       sq (eat_excess prev) (
       sq eat_rparen (
       bnd (onheap (getop ex)) (\<lambda>opr.
       if opr \<noteq> TYPE_E then report_error ''The expected type for a run expression is not type.''
       else
         sq (onheap (dec ex)) (
         bnd (onheap (mk_cexpr RUN [Some code, trm])) (\<lambda>r. ret (Some r, None, False))))))))))))))"

definition check_ascription :: "(cargs \<Rightarrow> (cs, cres) M) \<Rightarrow> nat \<Rightarrow> cargs \<Rightarrow> (cs, cres) M" where
  "check_ascription rec f a =
     sq (onheap (inc statType)) (
     bnd (gets open_parens) (\<lambda>prev.
     bnd (rec ((ask True (Some statType))\<lparr>inAsc := True\<rparr>)) (\<lambda>(tp0, _, _).
     sq (eat_excess prev) (
     bnd (deref tp0) (\<lambda>tp.
     sq (if expected a = None then onheap (inc tp) else ret ()) (
     bnd (rec ((ask (create a) (Some tp))\<lparr>return_pos := return_pos a\<rparr>)) (\<lambda>(trm, _, _).
     sq (eat_excess prev) (
     sq eat_rparen (
     case expected a of
       Some ex \<Rightarrow>
         bnd (onheap (defeq f ex tp)) (\<lambda>b.
         if \<not> b then report_error ''The expected type does not match the ascribed type in an ascription.''
         else
           sq (onheap (dec ex)) (
           if create a then ret (trm, None, False)
           else
             bnd (deref trm) (\<lambda>t.
             sq (onheap (dec t)) (ret (None, None, False)))))
     | None \<Rightarrow>
         bnd (put_computed a tp) (\<lambda>comp.
         ret (if create a then trm else None, comp, False)))))))))))"

definition check_local :: "(cargs \<Rightarrow> (cs, cres) M) \<Rightarrow> nat \<Rightarrow> cargs \<Rightarrow> (cs, cres) M" where
  "check_local rec f a =
     bnd (onlex prefix_id) (\<lambda>id1.
     bnd (onheap (new_expr (SymSExpr id1))) (\<lambda>sym.
     bnd (gets open_parens) (\<lambda>prev_open.
     bnd (rec ((ask True None)\<lparr>computed := True\<rparr>)) (\<lambda>(trm0, tp_of_trm, _).
     sq (eat_excess prev_open) (
     bnd (deref trm0) (\<lambda>trm.
     bnd (onheap (insertAndBindSymbol f id1 sym trm tp_of_trm)) (\<lambda>prevpr.
     bnd (gets (\<lambda>c. tail_calls c \<and> big_check c \<and> return_pos a \<and> \<not> create a)) (\<lambda>tail.
     if tail then
       sq (onheap (dec_opt (fst prevpr))) (
       sq (onheap (dec_opt (snd prevpr))) (
       rec a))
     else
       bnd (gets open_parens) (\<lambda>prev_open.
       bnd (rec (a\<lparr>inAsc := False\<rparr>)) (\<lambda>(body, comp, h).
       sq (eat_excess prev_open) (
       sq eat_rparen (
       sq (onheap (sym_insert id1 prevpr)) (
       bnd (deref tp_of_trm) (\<lambda>tp.
       sq (onheap (dec tp)) (
       sq (onheap (dec sym)) (ret (body, comp, h)))))))))))))))))"

definition check_tilde :: "(cargs \<Rightarrow> (cs, cres) M) \<Rightarrow> cargs \<Rightarrow> (cs, cres) M" where
  "check_tilde rec a =
     bnd (gets open_parens) (\<lambda>prev.
     bnd (rec (a\<lparr>inAsc := False\<rparr>)) (\<lambda>(e, comp, h).
     sq (eat_excess prev) (
     sq eat_rparen (
     bnd (case expected a of Some ex \<Rightarrow> ret ex | None \<Rightarrow> deref comp) (\<lambda>tp.
     if tp \<noteq> statMpz \<and> tp \<noteq> statMpq then report_error ''Negative sign where an numeric expression is expected.''
     else if create a then
       bnd (deref e) (\<lambda>e1.
       bnd (onheap (neg_literal e1)) (\<lambda>ok.
       if ok then ret (Some e1, comp, h)
       else report_error ''Negative sign with expr that is not an int. literal.''))
     else ret (None, comp, h))))))"

section \<open>Applications\<close>

text \<open>The loop over the arguments ends at the closing parenthesis, or with a tail call for the last argument.\<close>

datatype app_step = TailDone cres | ArgsDone "addr option" addr "addr list"

definition tail_hole :: "nat \<Rightarrow> addr \<Rightarrow> addr \<Rightarrow> (st, unit) M" where
  "tail_hole f dom1 h =
     bnd (getval h) (\<lambda>v.
     sq (if v = None then
           bnd (free_in f dom1 h) (\<lambda>b.
           if \<not> b then report_error ''A hole was left unfilled after checking an application.'' else ret ())
         else ret ())
       (dec h))"

definition app_tail :: "(cargs \<Rightarrow> (cs, cres) M) \<Rightarrow> nat \<Rightarrow> cargs \<Rightarrow> addr \<Rightarrow> addr \<Rightarrow> addr \<Rightarrow> addr list \<Rightarrow> (cs, cres) M" where
  "app_tail rec f a headtp dom1 rng holes =
     bnd (case expected a of
            Some e \<Rightarrow>
              bnd (onheap (defeq f e rng)) (\<lambda>b.
              if \<not> b then report_error ''The type expected for an application does not match the computed type.''
              else sq (onheap (dec e)) (ret None))
          | None \<Rightarrow> sq (onheap (inc rng)) (put_computed a rng)) (\<lambda>comp.
     sq (onheap (dec headtp)) (
     sq (onheap (iter_M (tail_hole f dom1) holes)) (
     bnd (rec (a\<lparr>create := False, expected := Some dom1, computed := False, is_hole := False\<rparr>)) (\<lambda>(r, _, _).
     ret (r, comp, False)))))"

text \<open>One checked argument: the new head term and the holes.\<close>

definition app_arg :: "(cargs \<Rightarrow> (cs, cres) M) \<Rightarrow> nat \<Rightarrow> cargs \<Rightarrow> int \<Rightarrow> bool \<Rightarrow> addr \<Rightarrow> addr \<Rightarrow> addr option \<Rightarrow> addr list
    \<Rightarrow> (cs, addr option \<times> addr list) M" where
  "app_arg rec f a prev var_in_range var dom1 headtrm holes =
     bnd (rec ((ask (create a \<or> var_in_range) (Some dom1))\<lparr>is_hole := True\<rparr>)) (\<lambda>(arg, _, arg_is_hole).
     sq (eat_excess prev) (
     bnd (if create a then
            bnd (deref headtrm) (\<lambda>h. bnd (onheap (extend_app h arg)) (\<lambda>r. ret (Some r)))
          else ret headtrm) (\<lambda>headtrm'.
     sq (if var_in_range then
           bnd (deref arg) (\<lambda>x.
           onheap (bnd (followDefs f x) (\<lambda>tmp. sq (inc tmp) (setval var (Some tmp)))))
         else ret ()) (
     bnd (if arg_is_hole then
            bnd (deref arg) (\<lambda>h.
            sq (if create a then onheap (inc h) else ret ()) (ret (holes @ [h])))
          else ret holes) (\<lambda>holes'.
     ret (headtrm', holes'))))))"

primrec app_args :: "(cargs \<Rightarrow> (cs, cres) M) \<Rightarrow> nat \<Rightarrow> nat \<Rightarrow> cargs \<Rightarrow> int \<Rightarrow> addr option \<Rightarrow> addr \<Rightarrow> addr list
    \<Rightarrow> (cs, app_step) M" where
  "app_args rec f 0 a prev headtrm headtp holes = stop OutOfFuel"
| "app_args rec f (Suc n) a prev headtrm headtp holes =
     bnd next_tok (\<lambda>c.
     if c = TClose then ret (ArgsDone headtrm headtp holes)
     else
       sq (reinsert c) (
       bnd (onheap (getop headtp)) (\<lambda>opr.
       if opr \<noteq> PI then report_error ''The type of an applied term is not a pi-type.''
       else
         bnd (onheap (getkid headtp 0)) (\<lambda>var.
         bnd (onheap (getkid headtp 1)) (\<lambda>dom1.
         bnd (onheap (getkid headtp 2)) (\<lambda>rng.
         bnd (onheap (getop dom1)) (\<lambda>dop.
         if dop = RUN then
           bnd (onheap (getkid dom1 0)) (\<lambda>code.
           bnd (onheap (getkid dom1 1)) (\<lambda>er.
           bnd (onheap (run_side f code er)) (\<lambda>cr.
           sq (onheap (dec cr)) (
           sq (onheap (inc rng)) (
           sq (onheap (dec headtp)) (
           app_args rec f n a prev headtrm rng holes))))))
         else
           bnd (onheap (getflag headtp)) (\<lambda>var_in_range.
           sq (onheap (inc dom1)) (
           bnd (gets tail_calls) (\<lambda>tc.
           bnd (onheap (getop rng)) (\<lambda>ro.
           if tc \<and> \<not> (create a \<or> var_in_range) \<and> ro \<noteq> PI then
             bnd (app_tail rec f a headtp dom1 rng holes) (\<lambda>r. ret (TailDone r))
           else
             bnd (app_arg rec f a prev var_in_range var dom1 headtrm holes) (\<lambda>(headtrm', holes').
             sq (onheap (inc rng)) (
             sq (onheap (dec headtp)) (
             app_args rec f n a prev headtrm' rng holes'))))))))))))))"

text \<open>A side condition that is left in the type of the head after the last argument.\<close>

definition app_last_run :: "nat \<Rightarrow> addr \<Rightarrow> (st, addr) M" where
  "app_last_run f headtp =
     bnd (getop headtp) (\<lambda>opr.
     if opr \<noteq> PI then ret headtp
     else
       bnd (getkid headtp 1) (\<lambda>run.
       bnd (getop run) (\<lambda>ro.
       if ro \<noteq> RUN then ret headtp
       else
         bnd (bnd (getkid run 0) (followDefs f)) (\<lambda>code.
         bnd (getkid run 1) (\<lambda>er.
         bnd (run_side f code er) (\<lambda>cr.
         bnd (getkid headtp 2) (\<lambda>tmp.
         sq (inc tmp) (
         sq (dec headtp) (
         sq (dec cr) (ret tmp))))))))))"

definition app_hole :: "bool \<Rightarrow> addr \<Rightarrow> (cs, unit) M" where
  "app_hole asc h =
     bnd (onheap (getval h)) (\<lambda>v.
     sq (if v = None then
           (if asc then modify (\<lambda>c. c\<lparr>ascHoles := ascHoles c @ [h]\<rparr>)
            else report_error ''A hole was left unfilled after checking an application (2).'')
         else ret ())
       (onheap (dec h)))"

definition app_finish :: "nat \<Rightarrow> cargs \<Rightarrow> addr option \<Rightarrow> addr \<Rightarrow> addr list \<Rightarrow> (cs, cres) M" where
  "app_finish f a headtrm headtp0 holes =
     sq (modify (\<lambda>c. c\<lparr>open_parens := open_parens c - 1\<rparr>)) (
     bnd (onheap (app_last_run f headtp0)) (\<lambda>headtp.
     bnd (case expected a of
            Some e \<Rightarrow>
              bnd (onheap (defeq f e headtp)) (\<lambda>b.
              if \<not> b then report_error ''The type expected for an application does not match the computed type.(2)''
              else sq (onheap (dec e)) (sq (onheap (dec headtp)) (ret None)))
          | None \<Rightarrow> put_computed a headtp) (\<lambda>comp.
     sq (iter_M (app_hole (inAsc a)) holes)
       (ret (if create a then headtrm else None, comp, False)))))"

definition check_app :: "(cargs \<Rightarrow> (cs, cres) M) \<Rightarrow> nat \<Rightarrow> cargs \<Rightarrow> token \<Rightarrow> (cs, cres) M" where
  "check_app rec f a c =
     sq (reinsert c) (
     bnd (gets open_parens) (\<lambda>prev.
     bnd (rec ((ask (create a) None)\<lparr>computed := True\<rparr>)) (\<lambda>(headtrm, comp, _).
     sq (eat_excess prev) (
     bnd (deref comp) (\<lambda>head_computed.
     bnd (onheap (followDefs f head_computed)) (\<lambda>h.
     sq (onheap (inc h)) (
     sq (onheap (dec head_computed)) (
     bnd (onheap (getflag h)) (\<lambda>cl.
     bnd (onheap (if cl then bnd (clone f h) (\<lambda>k. sq (dec h) (ret k)) else sq (setflag h True) (ret h))) (\<lambda>headtp.
     bnd (app_args rec f f a prev headtrm headtp []) (\<lambda>st. case st of
       TailDone r \<Rightarrow> ret r
     | ArgsDone ht tp holes \<Rightarrow> app_finish f a ht tp holes)))))))))))"

section \<open>Atoms and the switch\<close>

definition check_hole :: "cargs \<Rightarrow> (cs, cres) M" where
  "check_hole a =
     (if \<not> is_hole a then report_error ''A hole is being used in a disallowed position.''
      else
        sq (onheap (dec_opt (expected a))) (
        bnd (onheap (new_expr HoleExpr)) (\<lambda>h. ret (Some h, None, True))))"

text \<open>A numeral: its type is the given predefined one.\<close>

definition check_literal :: "cargs \<Rightarrow> addr \<Rightarrow> string \<Rightarrow> (string \<Rightarrow> (st, addr) M) \<Rightarrow> (cs, cres) M" where
  "check_literal a tp msg mk =
     bnd (case expected a of
            Some e \<Rightarrow> if e \<noteq> tp then report_error msg else sq (onheap (dec e)) (ret None)
          | None \<Rightarrow> sq (onheap (inc tp)) (put_computed a tp)) (\<lambda>comp.
     if create a then
       bnd (onlex token_str) (\<lambda>txt.
       bnd (onheap (mk txt)) (\<lambda>r. ret (Some r, comp, False)))
     else ret (None, comp, False))"

definition mk_int :: "string \<Rightarrow> (st, addr) M" where
  "mk_int txt = (case mpz_set_str txt of
     None \<Rightarrow> report_error ''Error reading a numeral.'' | Some i \<Rightarrow> new_expr (IntExpr i))"

definition mk_rat :: "string \<Rightarrow> (st, addr) M" where
  "mk_rat txt = (case mpq_set_str txt of
     None \<Rightarrow> report_error ''Error reading a numeral.'' | Some pq \<Rightarrow> new_rat pq)"

definition check_symbol :: "nat \<Rightarrow> cargs \<Rightarrow> (cs, cres) M" where
  "check_symbol f a =
     bnd (onlex token_str) (\<lambda>id1.
     bnd (onheap (sym_get id1)) (\<lambda>(r0, rettp). case r0 of
       None \<Rightarrow> report_error ''Undeclared identifier''
     | Some r \<Rightarrow>
         bnd (case expected a of
                Some e \<Rightarrow>
                  bnd (deref rettp) (\<lambda>tp.
                  bnd (onheap (defeq f e tp)) (\<lambda>b.
                  if \<not> b then report_error ''The type expected for a symbol does not match the symbol's type.''
                  else sq (onheap (dec e)) (ret None)))
              | None \<Rightarrow>
                  if computed a then bnd (deref rettp) (\<lambda>tp. sq (onheap (inc tp)) (ret (Some tp)))
                  else ret None) (\<lambda>comp.
         if create a then sq (onheap (inc r)) (ret (Some r, comp, False))
         else ret (None, comp, False))))"

text \<open>The switch on the token after an opening parenthesis.\<close>

definition check_form :: "(cargs \<Rightarrow> (cs, cres) M) \<Rightarrow> nat \<Rightarrow> cargs \<Rightarrow> token \<Rightarrow> (cs, cres) M" where
  "check_form rec f a c = (case c of
       TEof \<Rightarrow> report_error ''Unexpected end of file.''
     | TBang \<Rightarrow> check_pi rec f a
     | TArrow \<Rightarrow> check_arrow rec f a
     | TPound \<Rightarrow> check_pound rec f a
     | TPercent \<Rightarrow> check_percent rec f a
     | TReverseSolidus \<Rightarrow> check_lambda rec f a
     | TCaret \<Rightarrow> check_run rec f a
     | TColon \<Rightarrow> check_ascription rec f a
     | TAt \<Rightarrow> check_local rec f a
     | TTilde \<Rightarrow> check_tilde rec a
     | _ \<Rightarrow> check_app rec f a c)"

definition check_start :: "(cargs \<Rightarrow> (cs, cres) M) \<Rightarrow> nat \<Rightarrow> cargs \<Rightarrow> token \<Rightarrow> (cs, cres) M" where
  "check_start rec f a t = (case t of
       TOpen \<Rightarrow>
         sq (modify (\<lambda>c. c\<lparr>open_parens := open_parens c + 1\<rparr>)) (bnd next_tok (check_form rec f a))
     | TEof \<Rightarrow> report_error ''Unexpected end of file.''
     | THole \<Rightarrow> check_hole a
     | TNatural \<Rightarrow> check_literal a statMpz ''We parsed an integer, but were expecting a term of a different type.'' mk_int
     | TRational \<Rightarrow> check_literal a statMpq ''We parsed a rational, but were expecting a term of a different type.'' mk_rat
     | _ \<Rightarrow> check_symbol f a)"

primrec check :: "nat \<Rightarrow> cargs \<Rightarrow> (cs, cres) M" where
  "check 0 a = stop OutOfFuel"
| "check (Suc n) a = bnd next_tok (check_start (check n) n a)"

section \<open>Fuel\<close>

lemma fuel_le_app_step [fuel_mono]:
  "(\<And>r. v = TailDone r \<Longrightarrow> fuel_le (f r) (f' r)) \<Longrightarrow> (\<And>t h hs. v = ArgsDone t h hs \<Longrightarrow> fuel_le (g t h hs) (g' t h hs)) \<Longrightarrow>
   fuel_le (case_app_step f g v) (case_app_step f' g' v)"
  by (cases v) simp_all

lemma helper_fuel [fuel_mono]:
  "fuel_le (insertAndBindSymbol n x sy e t) (insertAndBindSymbol (Suc n) x sy e t)"
  "fuel_le (run_side n c r) (run_side (Suc n) c r)"
  "fuel_le (pound_expected n ex d) (pound_expected (Suc n) ex d)"
  "fuel_le (pound_type n x sy d rc) (pound_type (Suc n) x sy d rc)"
  "fuel_le (tail_hole n k h) (tail_hole (Suc n) k h)"
  unfolding insertAndBindSymbol_def run_side_def pound_expected_def pound_type_def tail_hole_def
  by (intro fuel_mono run_code_fuel)+

lemma app_last_run_fuel [fuel_mono]: "fuel_le (app_last_run n h) (app_last_run (Suc n) h)"
  unfolding app_last_run_def by (intro fuel_mono)

lemma build_pis_fuel [fuel_mono]: "fuel_le (build_pis n ps r) (build_pis (Suc n) ps r)"
  by (induction ps arbitrary: r) (auto intro!: fuel_mono)

lemma build_fuel [fuel_mono]:
  "fuel_le (build_validate_pi n ps r k b) (build_validate_pi (Suc n) ps r k b)"
  "fuel_le (build_macro n ps r t) (build_macro (Suc n) ps r t)"
  unfolding build_validate_pi_def by (intro fuel_mono, induction ps arbitrary: r t) (auto intro!: fuel_mono)

lemma decl_fuel [fuel_mono]:
  assumes r: "\<And>a. fuel_le (rec a) (rec' a)"
  shows "fuel_le (check_decl_list_item rec) (check_decl_list_item rec')"
    "fuel_le (decl_item rec b p) (decl_item rec' b p)"
    "fuel_le (check_decl_list rec n b) (check_decl_list rec' (Suc n) b)"
    "fuel_le (check_domain rec) (check_domain rec')"
  unfolding check_decl_list_item_def decl_item_def check_decl_list_def check_domain_def
  by (intro fuel_mono r)+

lemma check_binder_fuel [fuel_mono]:
  assumes r: "\<And>a. fuel_le (rec a) (rec' a)"
  shows "fuel_le (check_pi rec n a) (check_pi rec' (Suc n) a)"
    "fuel_le (check_arrow rec n a) (check_arrow rec' (Suc n) a)"
    "fuel_le (check_pound rec n a) (check_pound rec' (Suc n) a)"
    "fuel_le (check_percent rec n a) (check_percent rec' (Suc n) a)"
  unfolding check_pi_def check_arrow_def check_pound_def check_percent_def
  by (intro fuel_mono r)+

lemma check_lambda_fuel [fuel_mono]:
  assumes r: "\<And>a. fuel_le (rec a) (rec' a)"
  shows "fuel_le (check_lambda rec n a) (check_lambda rec' (Suc n) a)"
  unfolding check_lambda_def lambda_tail_def lambda_body_def by (intro fuel_mono r)

lemma check_other_fuel [fuel_mono]:
  assumes r: "\<And>a. fuel_le (rec a) (rec' a)"
  shows "fuel_le (check_run rec n a) (check_run rec' (Suc n) a)"
    "fuel_le (check_ascription rec n a) (check_ascription rec' (Suc n) a)"
    "fuel_le (check_local rec n a) (check_local rec' (Suc n) a)"
    "fuel_le (check_tilde rec a) (check_tilde rec' a)"
    "fuel_le (app_tail rec n a h d g hs) (app_tail rec' (Suc n) a h d g hs)"
    "fuel_le (app_arg rec n a p v x d t hs) (app_arg rec' (Suc n) a p v x d t hs)"
  unfolding check_run_def check_ascription_def check_local_def check_tilde_def app_tail_def app_arg_def
  by (intro fuel_mono r)+

lemma app_args_fuel [fuel_mono]:
  assumes r: "\<And>a. fuel_le (rec a) (rec' a)"
  shows "fuel_le (app_args rec f n a p t h hs) (app_args rec' (Suc f) (Suc n) a p t h hs)"
proof (induction n arbitrary: t h hs)
  case (Suc n)
  show ?case
    unfolding app_args.simps(2) [of rec' "Suc f" "Suc n"] app_args.simps(2) [of rec f n]
    by (intro fuel_mono r Suc.IH)
qed (simp only: app_args.simps fuel_le_stop)

lemma check_app_fuel [fuel_mono]:
  assumes r: "\<And>a. fuel_le (rec a) (rec' a)"
  shows "fuel_le (check_app rec n a c) (check_app rec' (Suc n) a c)"
  unfolding check_app_def app_finish_def by (intro fuel_mono r)

lemma check_symbol_fuel [fuel_mono]: "fuel_le (check_symbol n a) (check_symbol (Suc n) a)"
  unfolding check_symbol_def by (intro fuel_mono)

lemma check_start_fuel [fuel_mono]:
  assumes r: "\<And>a. fuel_le (rec a) (rec' a)"
  shows "fuel_le (check_start rec n a t) (check_start rec' (Suc n) a t)"
proof -
  have "fuel_le (check_form rec n a c) (check_form rec' (Suc n) a c)" for c
    by (cases c) (auto simp: check_form_def intro!: fuel_mono r)
  then show ?thesis
    by (cases t) (auto simp: check_start_def intro!: fuel_mono)
qed

lemma check_fuel [fuel_mono]: "fuel_le (check n a) (check (Suc n) a)"
proof (induction n arbitrary: a)
  case (Suc n)
  show ?case
    unfolding check.simps(2) [of "Suc n" a] check.simps(2) [of n a] by (intro fuel_mono Suc.IH)
qed (simp only: check.simps fuel_le_stop)

end
