(* ===== verification/LFSC_Print.thy ===== *)
theory LFSC_Print
  imports LFSC_Expr LFSC_Text LFSC_Term
begin

text \<open>
  \<open>Expr::print\<close> and \<open>Expr::toString\<close> of \<open>src/src/expr.cpp\<close>: the text of an expression.  Definitions of symbols
  and filled holes are printed in place of them, except for the names of programs.  An unfilled hole is
  printed with its address.
\<close>

section \<open>The code\<close>

text \<open>\<open>print_kids\<close> and \<open>print_vector\<close>.\<close>

primrec print_kids :: "(addr \<Rightarrow> (st, string) M) \<Rightarrow> addr list \<Rightarrow> (st, string) M" where
  "print_kids rec [] = ret []"
| "print_kids rec (k # ks) =
     bnd (rec k) (\<lambda>x.
     bnd (print_kids rec ks) (\<lambda>xs.
     ret ('' '' @ x @ xs)))"

definition print_int :: "int \<Rightarrow> string" where
  "print_int i = (if i < 0 then ''(~ '' @ mpz_get_str (nat (- i)) @ '')'' else mpz_get_str (nat i))"

definition print_rat :: "rat \<Rightarrow> string" where
  "print_rat q =
     (let (num, den) = quotient_of \<bar>q\<bar>;
          body = mpz_get_str (nat num) @ ''/'' @ mpz_get_str (nat den)
      in if q < 0 then ''(~ '' @ body @ '')'' else body)"

text \<open>What is printed before the kids of an operator.\<close>

definition op_text :: "op \<Rightarrow> string option" where
  "op_text opr = (case opr of
       LAM \<Rightarrow> Some [CHR ''('', CHR 0x5C]
     | PI \<Rightarrow> Some ''(!''
     | ADD \<Rightarrow> Some ''(mp_add''
     | MUL \<Rightarrow> Some ''(mp_mul''
     | DIV \<Rightarrow> Some ''(mp_div''
     | NEG \<Rightarrow> Some ''(mp_neg''
     | MPZ_TO_MPQ \<Rightarrow> Some ''(mpz_to_mpq''
     | IFNEG \<Rightarrow> Some ''(ifneg''
     | IFZERO \<Rightarrow> Some ''(ifzero''
     | RUN \<Rightarrow> Some ''(run''
     | PROG \<Rightarrow> Some ''(prog''
     | PROGVARS \<Rightarrow> Some ''(''
     | MATCH \<Rightarrow> Some ''(match''
     | CASE \<Rightarrow> Some ''(''
     | LET \<Rightarrow> Some ''(let''
     | DO \<Rightarrow> Some ''(do''
     | IFMARKED \<Rightarrow> Some ''(ifmarked''
     | COMPARE \<Rightarrow> Some ''(compare''
     | IFEQUAL \<Rightarrow> Some ''(ifequal''
     | MARKVAR \<Rightarrow> Some ''(markvar''
     | FAIL \<Rightarrow> Some ''(fail ''
     | ASCRIBE \<Rightarrow> Some ''(:''
     | _ \<Rightarrow> None)"

definition print_cexpr :: "(addr \<Rightarrow> (st, string) M) \<Rightarrow> op \<Rightarrow> addr list \<Rightarrow> (st, string) M" where
  "print_cexpr rec opr ks =
     (case op_text opr of
        Some x \<Rightarrow> bnd (print_kids rec ks) (\<lambda>y. ret (x @ y @ '')''))
      | None \<Rightarrow>
          if opr = APP then
            bnd (deref (nth_opt ks 0)) (\<lambda>hd1.
            bnd (rec hd1) (\<lambda>x.
            bnd (print_kids rec (tl ks)) (\<lambda>y.
            ret (''('' @ x @ y @ '')''))))
          else if opr = TYPE_E then ret ''type''
          else if opr = KIND then ret ''kind''
          else if opr = MPZ then ret ''mpz''
          else if opr = MPQ then ret ''mpq''
          else ret (''; unrecognized form of expr(2) '' @ mpz_get_str (unat (op_code opr)) @ '' '' @
                    mpz_get_str (unat (class_code CEXPR))))"

primrec print :: "nat \<Rightarrow> addr \<Rightarrow> (st, string) M" where
  "print 0 e = stop OutOfFuel"
| "print (Suc n) e =
     bnd (getnode e) (\<lambda>nd. case nd of
       IntExpr i \<Rightarrow> ret (print_int i)
     | RatExpr q \<Rightarrow> ret (print_rat q)
     | SymExpr \<Rightarrow>
         bnd (getval e) (\<lambda>v. case v of
           Some w \<Rightarrow> bnd (getop w) (\<lambda>wo. if wo = PROG then stop Undefined else print n w)
         | None \<Rightarrow> stop Undefined)
     | SymSExpr x \<Rightarrow>
         bnd (getval e) (\<lambda>v. case v of
           Some w \<Rightarrow> bnd (getop w) (\<lambda>wo. if wo = PROG then ret x else print n w)
         | None \<Rightarrow> ret x)
     | HoleExpr \<Rightarrow>
         bnd (getval e) (\<lambda>v. case v of
           Some w \<Rightarrow> print n w
         | None \<Rightarrow> bnd (gets (\<lambda>s. maddr s e)) (\<lambda>p. ret (''_[ '' @ show_ptr p @ '']'')))
     | CExpr opr ks \<Rightarrow> print_cexpr (print n) opr ks)"

section \<open>Fuel\<close>

lemma print_kids_fuel [fuel_mono]:
  "(\<And>a. fuel_le (r a) (r' a)) \<Longrightarrow> fuel_le (print_kids r ks) (print_kids r' ks)"
  by (induction ks) (auto intro!: fuel_mono)

lemma print_cexpr_fuel [fuel_mono]:
  assumes r: "\<And>a. fuel_le (r a) (r' a)"
  shows "fuel_le (print_cexpr r opr ks) (print_cexpr r' opr ks)"
  unfolding print_cexpr_def by (intro fuel_mono r)

lemma print_fuel [fuel_mono]: "fuel_le (print n e) (print (Suc n) e)"
proof (induction n arbitrary: e)
  case (Suc n)
  show ?case
    unfolding print.simps(2) [of "Suc n" e] print.simps(2) [of n e] by (intro fuel_mono Suc.IH)
qed simp

section \<open>The text of a first-order term\<close>

text \<open>The text depends on the term only, not on how the graph shares or defines its parts.\<close>

fun term_text :: "(addr \<Rightarrow> string) \<Rightarrow> fterm \<Rightarrow> string" where
  "term_text nm (FInt i) = print_int i"
| "term_text nm (FRat q) = print_rat q"
| "term_text nm (FSym a) = nm a"
| "term_text nm (FCon opr) = (if opr = TYPE_E then ''type'' else if opr = KIND then ''kind'' else ''mpz'')"
| "term_text nm (FApp ts) = ''('' @ tl (concat (map (\<lambda>t. '' '' @ term_text nm t) ts)) @ '')''"

definition names :: "st \<Rightarrow> (addr \<Rightarrow> string) \<Rightarrow> bool" where
  "names s nm \<longleftrightarrow> (\<forall>a nd. node s a = Some nd \<longrightarrow> is_sym nd \<longrightarrow> nd = SymSExpr (nm a))"

lemma print_kids_returns:
  "list_all2 (\<lambda>k x. returns (\<lambda>n. print n k) s (x, s)) ks xs \<Longrightarrow>
   returns (\<lambda>n. print_kids (print n) ks) s (concat (map (\<lambda>x. '' '' @ x) xs), s)"
proof (induction rule: list_all2_induct)
  case Nil
  show ?case by (rule returns_all) simp
next
  case (Cons k ks x xs)
  show ?case by (rule returns_elim2 [OF Cons.hyps(1) Cons.IH]) (simp add: run_simps)
qed

lemma den_not_prog: "den V s a t \<Longrightarrow> node s a = Some nd \<Longrightarrow> op_of nd \<noteq> PROG"
  by (erule den_nodeE) (auto simp: points_to_def const_op_def elim!: is_sym.elims has_val.elims)

lemma print_den:
  assumes "names s nm"
  shows "den V s a t \<Longrightarrow> returns (\<lambda>n. print n a) s (term_text nm t, s)"
proof (induction rule: den.induct)
  case (den_def a b t)
  then obtain nd nb where nd: "node s a = Some nd" "has_val nd" "sval s a = Some b" and nb: "node s b = Some nb" "op_of nb \<noteq> PROG"
    using den_alloc den_not_prog by (fastforce simp: points_to_def)
  show ?case
    by (rule returns_Suc, rule returns_elim1 [OF den_def.IH]) (use nd nb in \<open>cases nd; simp add: run_simps\<close>)
next
  case (den_app a ks ts)
  have l: "list_all2 (\<lambda>k x. returns (\<lambda>n. print n k) s (x, s)) ks (map (term_text nm) ts)"
    unfolding list_all2_map2 by (rule list_all2_mono [OF den_app.IH]) blast
  with den_app.hyps(2) obtain k ks' t ts' where k: "ks = k # ks'" "ts = t # ts'"
    "returns (\<lambda>n. print n k) s (term_text nm t, s)"
    "list_all2 (\<lambda>k x. returns (\<lambda>n. print n k) s (x, s)) ks' (map (term_text nm) ts')"
    by (cases ks; cases ts) auto
  show ?case
    by (rule returns_Suc, rule returns_elim2 [OF k(3) print_kids_returns [OF k(4)]])
      (use den_app.hyps(1) k(1,2) in \<open>simp add: run_simps print_cexpr_def op_text_def comp_def\<close>)
next
  case (den_con a opr)
  show ?case
    by (rule returns_Suc, rule returns_all)
      (use den_con in \<open>auto simp: run_simps print_cexpr_def op_text_def const_op_def\<close>)
next
  case (den_sym a nd)
  with assms have "nd = SymSExpr (nm a)" by (simp add: names_def)
  with den_sym show ?case by (intro returns_Suc [OF returns_all]) (simp add: run_simps)
qed (rule returns_Suc, rule returns_all, simp add: run_simps)+

end
