(* ===== verification/LFSC_File.thy ===== *)
theory LFSC_File
  imports LFSC_Check LFSC_Print
begin

text \<open>
  The top level commands: \<open>check_file\<close> and \<open>init\<close> of \<open>src/src/check.cpp\<close>, one definition per command.  The input is
  the sequence of scanned tokens.  The programs that are to be compiled are collected in the field \<open>handed\<close> of
  the state; of the standard output the lines written by the commands \<open>check\<close> and \<open>run\<close> are kept.
\<close>

section \<open>Options\<close>

record args =
  files :: "string list"
  show_runs :: bool
  no_tail_calls :: bool
  compile_scc :: bool
  compile_scc_debug :: bool
  use_run_scc :: bool
  use_nested_app :: bool

section \<open>Declarations and definitions\<close>

definition rebind_error :: "string \<Rightarrow> ('s, 'a) M" where
  "rebind_error id1 = report_error ''The top-level identifier was already bound''"

text \<open>\<open>if (prev.first || prev.second) rebind_error(id);\<close>\<close>

definition no_rebind :: "string \<Rightarrow> addr option \<times> addr option \<Rightarrow> (cs, unit) M" where
  "no_rebind id1 prev = (if fst prev \<noteq> None \<or> snd prev \<noteq> None then rebind_error id1 else ret ())"

text \<open>\<open>check(create, 0, &ttp, NULL, true); eat_excess(prevo);\<close>\<close>

definition check_top :: "nat \<Rightarrow> bool \<Rightarrow> (cs, addr option \<times> addr) M" where
  "check_top f cr =
     bnd (gets open_parens) (\<lambda>prevo.
     bnd (check f ((ask cr None)\<lparr>computed := True, return_pos := True\<rparr>)) (\<lambda>(t, ttp0, _).
     sq (eat_excess prevo) (
     bnd (deref ttp0) (\<lambda>ttp. ret (t, ttp)))))"

definition cmd_define :: "nat \<Rightarrow> (cs, unit) M" where
  "cmd_define f =
     bnd (onlex prefix_id) (\<lambda>id1.
     bnd (check_top f True) (\<lambda>(t0, ttp).
     bnd (onheap (bnd (followDefs f ttp) getop)) (\<lambda>opr.
     if opr = KIND then report_error ''Kind-level definitions are not supported.''
     else
       bnd (onheap (new_expr (SymSExpr id1))) (\<lambda>s.
       bnd (deref t0) (\<lambda>t.
       bnd (onheap (insertAndBindSymbol f id1 s t (Some ttp))) (no_rebind id1))))))"

definition cmd_declare :: "nat \<Rightarrow> (cs, unit) M" where
  "cmd_declare f =
     bnd (onlex prefix_id) (\<lambda>id1.
     bnd (check_top f True) (\<lambda>(t, ttp0).
     bnd (onheap (followDefs f ttp0)) (\<lambda>ttp.
     bnd (onheap (getop ttp)) (\<lambda>opr.
     if \<not> is_type_or_kind opr then report_error ''The expression declared is neither a type nor a kind.''
     else
       sq (onheap (dec ttp)) (
       bnd (onheap (new_expr (SymSExpr id1))) (\<lambda>s.
       bnd (onheap (sym_insert id1 (Some s, t))) (no_rebind id1)))))))"

definition cmd_declare_rule :: "nat \<Rightarrow> (cs, unit) M" where
  "cmd_declare_rule f =
     bnd (onlex prefix_id) (\<lambda>id1.
     bnd (check_decl_list (check f) f True) (\<lambda>(decls, olds).
     bnd (check f ((ask True None)\<lparr>computed := True\<rparr>)) (\<lambda>(r, kind0, _).
     sq (onheap (put_back olds)) (
     bnd (deref kind0) (\<lambda>ret_kind.
     bnd (onheap (build_validate_pi f decls r ret_kind True)) (\<lambda>(p1, p2).
     sq (onheap (dec p2)) (
     bnd (onheap (new_expr (SymSExpr id1))) (\<lambda>s.
     bnd (onheap (sym_insert id1 (Some s, p1))) (no_rebind id1)))))))))"

definition cmd_declare_type :: "nat \<Rightarrow> (cs, unit) M" where
  "cmd_declare_type f =
     bnd (onlex prefix_id) (\<lambda>id1.
     bnd (check_decl_list (check f) f True) (\<lambda>(decls, olds).
     sq (onheap (put_back olds)) (
     bnd (onheap (build_validate_pi f decls (Some statType) statKind True)) (\<lambda>(p1, p2).
     sq (onheap (dec p2)) (
     bnd (onheap (new_expr (SymSExpr id1))) (\<lambda>s.
     bnd (onheap (sym_insert id1 (Some s, p1))) (no_rebind id1)))))))"

definition cmd_define_const :: "nat \<Rightarrow> (cs, unit) M" where
  "cmd_define_const f =
     bnd (onlex prefix_id) (\<lambda>id1.
     bnd (check_decl_list (check f) f True) (\<lambda>(decls, olds).
     bnd (check f ((ask True None)\<lparr>computed := True\<rparr>)) (\<lambda>(r, ret_ty, _).
     bnd (onheap (build_macro f decls r ret_ty)) (\<lambda>(m1, m2).
     sq (onheap (put_back olds)) (
     bnd (onheap (new_expr (SymSExpr id1))) (\<lambda>s.
     bnd (deref m1) (\<lambda>e.
     bnd (onheap (insertAndBindSymbol f id1 s e m2)) (no_rebind id1))))))))"

definition cmd_opaque :: "nat \<Rightarrow> (cs, unit) M" where
  "cmd_opaque f =
     bnd (onlex prefix_id) (\<lambda>id1.
     bnd (check_top f False) (\<lambda>(t, ttp).
     bnd (onheap (bnd (followDefs f ttp) getop)) (\<lambda>opr.
     if opr = KIND then report_error ''Kind-level definitions are not supported.''
     else
       bnd (onheap (new_expr (SymSExpr id1))) (\<lambda>s.
       bnd (onheap (sym_insert id1 (Some s, Some ttp))) (no_rebind id1)))))"

section \<open>Proofs\<close>

definition print_line :: "string \<Rightarrow> (cs, unit) M" where
  "print_line x = modify (\<lambda>c. c\<lparr>out := out c @ [x]\<rparr>)"

text \<open>The holes of ascriptions, one per line, and an empty line.\<close>

definition print_ascHoles :: "nat \<Rightarrow> (cs, unit) M" where
  "print_ascHoles f =
     bnd (gets ascHoles) (\<lambda>hs.
     sq (iter_M (\<lambda>h. bnd (onheap (print f h)) print_line) hs) (
     sq (if hs \<noteq> [] then print_line [] else ret ())
       (modify (\<lambda>c. c\<lparr>ascHoles := []\<rparr>))))"

text \<open>Restoring the names bound by tail calls, and dropping the marks.\<close>

definition clean_locals :: "(cs, unit) M" where
  "clean_locals =
     bnd (gets local_sym_names) (\<lambda>ls.
     sq (onheap (put_back ls)) (
     modify (\<lambda>c. c\<lparr>local_sym_names := [], heap := (heap c)\<lparr>mark_map := \<lambda>a. 0\<rparr>\<rparr>)))"

definition cmd_check :: "nat \<Rightarrow> (cs, unit) M" where
  "cmd_check f =
     bnd (gets open_parens) (\<lambda>prev.
     sq (modify (\<lambda>c. c\<lparr>big_check := True\<rparr>)) (
     bnd (check f ((ask False None)\<lparr>computed := True, return_pos := True\<rparr>)) (\<lambda>(_, comp, _).
     sq (print_ascHoles f) (
     bnd (deref comp) (\<lambda>tp.
     sq (onheap (dec tp)) (
     sq clean_locals (
     sq (eat_excess prev) (print_line ''success''))))))))"

definition cmd_check_assuming :: "nat \<Rightarrow> (cs, unit) M" where
  "cmd_check_assuming f =
     bnd (gets open_parens) (\<lambda>prev.
     bnd (check_decl_list (check f) f False) (\<lambda>(decls, olds).
     bnd (check f (ask True (Some statType))) (\<lambda>(ex_type, _, _).
     sq (check f (ask False ex_type)) (
     sq (onheap (put_back olds)) (
     sq clean_locals (
     sq (eat_excess prev) (print_line ''success'')))))))"

definition cmd_run :: "nat \<Rightarrow> (cs, unit) M" where
  "cmd_run f =
     bnd (bnd (read_code f) deref) (\<lambda>code.
     sq (onheap (check_code f code)) (
     bnd (onheap (print f code)) (\<lambda>txt.
     bnd (onheap (run_code f code)) (\<lambda>tmp.
     sq (print_line (''[Running-sc '' @ txt @ ''] = '')) (
     sq (case tmp of
           Some t \<Rightarrow> bnd (onheap (print f t)) (\<lambda>x. sq (print_line x) (onheap (dec t)))
         | None \<Rightarrow> print_line ''fail'')
       (onheap (dec code)))))))"

section \<open>Programs\<close>

definition proper_type :: "nat \<Rightarrow> string \<Rightarrow> addr \<Rightarrow> (st, unit) M" where
  "proper_type f msg tp =
     bnd (compute_kind f tp) (\<lambda>kind.
     bnd (isDatatype tp) (\<lambda>dt.
     if kind \<noteq> statType \<and> \<not> dt then report_error msg else ret ()))"

text \<open>One parameter \<open>(x T)\<close> of a program.\<close>

definition prog_param :: "nat \<Rightarrow> (addr \<times> addr) list \<Rightarrow> (cs, (addr \<times> addr) list) M" where
  "prog_param f ps =
     sq (eat TOpen) (
     bnd (onlex prefix_id) (\<lambda>varstr.
     bnd (onheap (sym_get varstr)) (\<lambda>p.
     if fst p \<noteq> None then report_error ''A program variable is already declared (as a constant).''
     else
       bnd (onheap (new_expr (SymSExpr varstr))) (\<lambda>var.
       sq (onheap (inc statType)) (
       bnd (gets open_parens) (\<lambda>prev.
       bnd (check f ((ask True None)\<lparr>computed := True, return_pos := True\<rparr>)) (\<lambda>(tp0, _, _).
       bnd (deref tp0) (\<lambda>tp.
       sq (onheap (proper_type f ''A program argument's type is neither proper, nor a datatype.'' tp)) (
       sq (eat_excess prev) (
       sq (eat TClose) (
       sq (onheap (sym_insert varstr (Some var, Some tp)))
         (ret (ps @ [(var, tp)])))))))))))))"

text \<open>The type of a program: a pi for every parameter, from the last to the first.\<close>

primrec prog_type :: "nat \<Rightarrow> (addr \<times> addr) list \<Rightarrow> addr \<Rightarrow> (st, addr) M" where
  "prog_type f [] r = ret r"
| "prog_type f (p # ps) r =
     bnd (prog_type f ps r) (\<lambda>r1.
     sq (inc (fst p)) (
     bnd (new_expr (CExpr PI [fst p, snd p, r1])) (\<lambda>e.
     sq (calc_free_in f e) (ret e))))"

text \<open>The type checked program replaces the cell with its type only.\<close>

definition prog_define :: "nat \<Rightarrow> addr \<Rightarrow> (addr \<times> addr) list \<Rightarrow> addr \<Rightarrow> addr \<Rightarrow> (st, addr) M" where
  "prog_define f prog ps progtpret progcode =
     bnd (prog_type f ps progtpret) (\<lambda>progtp.
     bnd (new_expr (CExpr PROG [progtp])) (\<lambda>pv.
     sq (setval prog (Some pv)) (
     bnd (bnd (check_code f progcode) deref) (\<lambda>rettp.
     bnd (defeq f rettp progtpret) (\<lambda>b.
     if \<not> b then report_error ''Return type for a program does not match its body.''
     else
       bnd (new_expr (CExpr PROGVARS (map fst ps))) (\<lambda>pvars.
       bnd (new_expr (CExpr PROG [progtp, pvars, progcode])) (\<lambda>pc.
       sq (iter_M (\<lambda>p. bnd (getname (fst p)) (\<lambda>x. sq (sym_insert x (None, None)) (ret ()))) ps) (
       sq (inc progtp) (
       sq (bnd (bnd (getval prog) deref) dec) (
       sq (setval prog (Some pc)) (ret pc)))))))))))"

text \<open>\<open>if (a.compile_scc) if (scw) scw->add_scc(progstr, progcode)\<close>\<close>

definition hand_over :: "string \<Rightarrow> addr \<Rightarrow> (cs, unit) M" where
  "hand_over progstr pc = modify (\<lambda>c. if compiling c then c\<lparr>handed := handed c @ [(progstr, pc)]\<rparr> else c)"

definition cmd_program :: "nat \<Rightarrow> bool \<Rightarrow> (cs, unit) M" where
  "cmd_program f is_function =
     bnd (onlex prefix_id) (\<lambda>progstr.
     bnd (onheap (new_expr (SymSExpr progstr))) (\<lambda>prog.
     bnd (onheap (gets (\<lambda>s. progs s progstr))) (\<lambda>old.
     if old \<noteq> None then report_error ''Redeclaring program''
     else
       sq (onheap (modify (\<lambda>s. s\<lparr>progs := (progs s)(progstr \<mapsto> Some prog)\<rparr>))) (
       sq (if is_function then onheap (markProgramAsFunction prog) else ret ()) (
       sq (eat TOpen) (
       bnd (until_close f (prog_param f) []) (\<lambda>ps.
       if ps = [] then report_error ''A program lacks input variables.''
       else
         sq (onheap (inc statType)) (
         bnd (gets open_parens) (\<lambda>prev.
         bnd (check f ((ask True (Some statType))\<lparr>computed := True, return_pos := True\<rparr>)) (\<lambda>(tp0, _, _).
         sq (eat_excess prev) (
         bnd (deref tp0) (\<lambda>progtpret.
         sq (onheap (proper_type f ''A program's return type is neither proper, nor a datatype.'' progtpret)) (
         bnd (bnd (read_code f) deref) (\<lambda>progcode.
         bnd (onheap (prog_define f prog ps progtpret progcode)) (hand_over progstr)))))))))))))))"

section \<open>Files\<close>

definition command :: "nat \<Rightarrow> token \<Rightarrow> (cs, unit) M" where
  "command f c = (case c of
       TDefine \<Rightarrow> cmd_define f
     | TDeclare \<Rightarrow> cmd_declare f
     | TDeclareRule \<Rightarrow> cmd_declare_rule f
     | TDeclareType \<Rightarrow> cmd_declare_type f
     | TDefineConst \<Rightarrow> cmd_define_const f
     | TCheck \<Rightarrow> cmd_check f
     | TCheckAssuming \<Rightarrow> cmd_check_assuming f
     | TOpaque \<Rightarrow> cmd_opaque f
     | TRun \<Rightarrow> cmd_run f
     | TProgram \<Rightarrow> cmd_program f False
     | TFunction \<Rightarrow> cmd_program f True
     | _ \<Rightarrow> onlex (unexpected_token_error c ''Acceptable top-level commands are: ...''))"

primrec commands :: "nat \<Rightarrow> (cs, unit) M" where
  "commands 0 = stop OutOfFuel"
| "commands (Suc n) =
     bnd next_tok (\<lambda>c.
     if c = TEof then ret ()
     else
       sq (if c = TOpen then bnd next_tok (command n)
           else if c = TClose then ret ()
           else onlex (unexpected_token_error c ''Top-level commands must start with parentheses''))
         (commands n))"

text \<open>
  \<open>check_file(in, ...)\<close>: a new scanner; the buffer of pushed back tokens is not reset.  \<open>scw\<close> says whether a compiler of side conditions
  is given.
\<close>

definition check_file :: "nat \<Rightarrow> args \<Rightarrow> bool \<Rightarrow> (token \<times> string) list \<Rightarrow> (cs, unit) M" where
  "check_file f a scw ts =
     sq (modify (\<lambda>c. c\<lparr>heap := (heap c)\<lparr>run_scc := use_run_scc a\<rparr>, tail_calls := \<not> no_tail_calls a,
           lx := (lx c)\<lparr>scanned := ts, yytext := []\<rparr>, compiling := compile_scc a \<and> scw\<rparr>))
       (commands f)"

text \<open>
  \<open>check_file(_filename, ...)\<close>: \<open>fs\<close> gives the tokens of the files that can be opened.  A file called
  \<open>stdin\<close> that cannot be opened is read as an empty stream.
\<close>

definition check_file_named :: "nat \<Rightarrow> args \<Rightarrow> bool \<Rightarrow> (string \<Rightarrow> (token \<times> string) list option) \<Rightarrow> string \<Rightarrow> (cs, unit) M" where
  "check_file_named f a scw fs name = (case fs name of
       Some ts \<Rightarrow> check_file f a scw ts
     | None \<Rightarrow> if name \<noteq> ''stdin'' then report_error ''Could not open file for reading.'' else check_file f a scw [])"

section \<open>The initial state\<close>

definition init :: "(st, unit) M" where
  "init =
     sq (sym_insert ''type'' (Some statType, Some statKind)) (
     sq (inc statType) (
     sq (sym_insert ''mpz'' (Some statMpz, Some statType)) (
     sq (sym_insert ''mpq'' (Some statMpq, Some statType)) (ret ()))))"

text \<open>The global variables before \<open>init\<close>; \<open>ma\<close> are the addresses the allocator will choose.\<close>

definition start_st :: "(addr \<Rightarrow> nat) \<Rightarrow> st" where
  "start_st ma = \<lparr>node = [statType \<mapsto> CExpr TYPE_E [], statKind \<mapsto> CExpr KIND [], statMpz \<mapsto> CExpr MPZ [], statMpq \<mapsto> CExpr MPQ []],
     sval = (\<lambda>a. None), flag = (\<lambda>a. False), refs = (\<lambda>a. if a < 4 then 1 else 0), freed = (\<lambda>a. False), brk = 4,
     maddr = ma, mark_map = (\<lambda>a. 0), symbols = new_trie (None, None), progs = (\<lambda>x. None),
     progFunctions = (\<lambda>a. False), run_scc = False, cache = empty_etrie\<rparr>"

definition start_cs :: "(addr \<Rightarrow> nat) \<Rightarrow> cs" where
  "start_cs ma = \<lparr>heap = start_st ma, lx = init_lex [], open_parens = 0, allow_run = False, tail_calls = True,
     big_check = True, ascHoles = [], local_sym_names = [], out = [], compiling = False, handed = []\<rparr>"

end
