(* ===== verification/LFSC_Scope.thy ===== *)
theory LFSC_Scope
  imports LFSC_File LFSC_Frame
begin

text \<open>
  Lexical scoping of the parser and of the checker.  \<open>tidy c c'\<close>: every name has the binding it had.  A
  piece of code that runs with names bound and puts them back is described by \<open>closes\<close>: it ends with the
  given old bindings restored.  The rules for \<open>tidy\<close>, \<open>closes\<close> and for loops that collect old bindings (\<open>saves\<close>)
  follow the shape of the code, so that each operation is one application of them.
\<close>

section \<open>The relations\<close>

text \<open>
  Names are keys of the symbol table, and no binding is left for the end of the command to restore.
\<close>

definition keys_ok :: "(string \<times> 'a) list \<Rightarrow> bool" where
  "keys_ok olds \<longleftrightarrow> (\<forall>(x, p) \<in> set olds. key_ok x)"

definition names_ok :: "cs \<Rightarrow> bool" where
  "names_ok c \<longleftrightarrow> sym_ok (heap c) \<and> key_ok (yytext (lx c)) \<and> (\<forall>(t, x) \<in> set (scanned (lx c)). key_ok x) \<and>
     local_sym_names c = []"

abbreviation binds :: "cs \<Rightarrow> string \<Rightarrow> addr option \<times> addr option" where
  "binds c \<equiv> lookup (heap c)"

definition tidy :: "cs \<Rightarrow> cs \<Rightarrow> bool" where
  "tidy c c' \<longleftrightarrow> (names_ok c \<longrightarrow> names_ok c' \<and> binds c' = binds c)"

definition restore :: "(string \<times> 'v) list \<Rightarrow> (string \<Rightarrow> 'v) \<Rightarrow> string \<Rightarrow> 'v" where
  "restore olds l = foldr (\<lambda>(x, p) l. l(x := p)) olds l"

definition closes :: "(string \<times> addr option \<times> addr option) list \<Rightarrow> (cs, 'a) M \<Rightarrow> bool" where
  "closes olds m \<longleftrightarrow> (\<forall>c y c'. names_ok c \<longrightarrow> m c = Inr (y, c') \<longrightarrow> names_ok c' \<and> binds c' = restore olds (binds c))"

text \<open>\<open>m\<close> binds \<open>x\<close> and returns its old binding.\<close>

definition inserts :: "string \<Rightarrow> addr option \<times> addr option \<Rightarrow> (cs, addr option \<times> addr option) M \<Rightarrow> bool" where
  "inserts x p m \<longleftrightarrow> (\<forall>c old c'. names_ok c \<longrightarrow> m c = Inr (old, c') \<longrightarrow>
     old = binds c x \<and> names_ok c' \<and> binds c' = (binds c)(x := p))"

definition saves :: "('x \<Rightarrow> (string \<times> addr option \<times> addr option) list) \<Rightarrow> ('x \<Rightarrow> (cs, 'x) M) \<Rightarrow> bool" where
  "saves sel body \<longleftrightarrow> (\<forall>x c x' c'. names_ok c \<longrightarrow> keys_ok (sel x) \<longrightarrow> body x c = Inr (x', c') \<longrightarrow>
     names_ok c' \<and> keys_ok (sel x') \<and> restore (sel x') (binds c') = restore (sel x) (binds c))"

interpretation tid: step_rel tidy
  by unfold_locales (auto simp: tidy_def)

section \<open>Rules\<close>

lemma restore_simps [simp]:
  "restore [] l = l" "restore ((x, p) # olds) l = (restore olds l)(x := p)"
  by (simp_all add: restore_def)

lemma restore_append: "restore (olds @ olds') l = restore olds (restore olds' l)"
  by (simp add: restore_def)

lemma tidyI: "(\<And>c y c'. names_ok c \<Longrightarrow> m c = Inr (y, c') \<Longrightarrow> names_ok c' \<and> binds c' = binds c) \<Longrightarrow> keeps tidy m"
  by (auto simp: keeps_def tidy_def)

lemma tidyD: "keeps tidy m \<Longrightarrow> names_ok c \<Longrightarrow> m c = Inr (y, c') \<Longrightarrow> names_ok c' \<and> binds c' = binds c"
  by (auto simp: keeps_def tidy_def)

lemma tidy_onheap: "keeps scoped m \<Longrightarrow> keeps tidy (onheap m)"
  by (auto simp: keeps_def tidy_def names_ok_def scoped_def onheap_def split: sum.splits)

lemma tidy_closes: "keeps tidy m \<Longrightarrow> closes [] m"
  by (auto simp: closes_def dest: tidyD)

lemma closes_tidy: "closes [] m \<Longrightarrow> keeps tidy m"
  by (auto simp: closes_def intro: tidyI)

lemma closes_bnd: "keeps tidy m \<Longrightarrow> (\<And>y. closes olds (k y)) \<Longrightarrow> closes olds (bnd m k)"
  unfolding closes_def bnd_Inr_iff by (metis tidyD)

lemma closes_sq: "keeps tidy m \<Longrightarrow> closes olds k \<Longrightarrow> closes olds (sq m k)"
  by (simp add: sq_def closes_bnd)

lemma closes_stop: "closes olds (stop e)" "closes olds (report_error msg)"
  by (simp_all add: closes_def)

lemma closes_if: "(b \<Longrightarrow> closes olds m) \<Longrightarrow> (\<not> b \<Longrightarrow> closes olds k) \<Longrightarrow> closes olds (if b then m else k)"
  by simp

lemma closes_option:
  "(v = None \<Longrightarrow> closes olds m) \<Longrightarrow> (\<And>x. v = Some x \<Longrightarrow> closes olds (f x)) \<Longrightarrow>
   closes olds (case v of None \<Rightarrow> m | Some x \<Rightarrow> f x)"
  by (cases v) simp_all

lemma closes_prod: "(\<And>x y. v = (x, y) \<Longrightarrow> closes olds (f x y)) \<Longrightarrow> closes olds (case v of (x, y) \<Rightarrow> f x y)"
  by (cases v) simp

lemma insertsD:
  assumes "inserts x p m" "names_ok c" "m c = Inr (old, c')"
  shows "old = binds c x" "names_ok c'" "binds c' = (binds c)(x := p)"
  using assms unfolding inserts_def by blast+

lemma inserts_sym: "key_ok x \<Longrightarrow> inserts x p (onheap (sym_insert x p))"
  using sym_insert_spec [of _ x p]
  by (fastforce simp: inserts_def names_ok_def onheap_def split: sum.splits prod.splits)

lemma inserts_bnd: "keeps tidy m \<Longrightarrow> (\<And>y. inserts x p (k y)) \<Longrightarrow> inserts x p (bnd m k)"
  unfolding inserts_def bnd_Inr_iff by (metis tidyD)

lemmas insert_binds = insertsD [OF inserts_sym]

text \<open>Binding a name, and putting the old binding back.\<close>

lemma tidy_open:
  assumes "inserts x p m" "\<And>old. closes [(x, old)] (k old)"
  shows "keeps tidy (bnd m k)"
proof (rule tidyI)
  fix c y c' assume c: "names_ok c" and "bnd m k c = Inr (y, c')"
  then obtain old c1 where 1: "m c = Inr (old, c1)" "k old c1 = Inr (y, c')"
    unfolding bnd_Inr_iff by blast
  note i = insertsD [OF assms(1) c 1(1)]
  from assms(2) [of old] 1(2) i(2) have "names_ok c'" "binds c' = (binds c1)(x := old)"
    unfolding closes_def by fastforce+
  with i(1,3) show "names_ok c' \<and> binds c' = binds c" by simp
qed

lemma closes_insert:
  assumes "key_ok x" "keeps tidy k"
  shows "closes [(x, old)] (sq (onheap (sym_insert x old)) k)"
  unfolding closes_def
proof (intro allI impI)
  fix c y c' assume c: "names_ok c" and "sq (onheap (sym_insert x old)) k c = Inr (y, c')"
  then obtain z c1 where 1: "onheap (sym_insert x old) c = Inr (z, c1)" "k c1 = Inr (y, c')"
    unfolding sq_Inr_iff by blast
  note i = insert_binds [OF assms(1) c 1(1)]
  from tidyD [OF assms(2) i(2) 1(2)] i(3) show "names_ok c' \<and> binds c' = restore [(x, old)] (binds c)" by simp
qed

lemma put_back_binds:
  "names_ok c \<Longrightarrow> keys_ok olds \<Longrightarrow> onheap (put_back olds) c = Inr (u, c') \<Longrightarrow>
   names_ok c' \<and> binds c' = restore olds (binds c)"
proof (induction olds arbitrary: u c')
  case Nil
  then show ?case by (simp add: put_back_def onheap_def)
next
  case (Cons o1 olds)
  obtain x p where o1: "o1 = (x, p)" by (cases o1)
  from Cons.prems(3) obtain h where h: "put_back (o1 # olds) (heap c) = Inr ((), h)" "c' = c\<lparr>heap := h\<rparr>"
    by (auto simp: onheap_def split: sum.splits)
  then obtain z h1 where 1: "put_back olds (heap c) = Inr ((), h1)" "sym_insert x p h1 = Inr (z, h)"
    unfolding o1 put_back_Cons by blast
  have 2: "names_ok (c\<lparr>heap := h1\<rparr>)" "binds (c\<lparr>heap := h1\<rparr>) = restore olds (binds c)"
    using Cons.IH [of "()" "c\<lparr>heap := h1\<rparr>"] Cons.prems 1(1) by (auto simp: onheap_def keys_ok_def)
  have x: "key_ok x" using Cons.prems(2) by (simp add: keys_ok_def o1)
  have "onheap (sym_insert x p) (c\<lparr>heap := h1\<rparr>) = Inr (z, c')" using 1(2) h(2) by (simp add: onheap_def)
  from insert_binds [OF x 2(1) this] 2(2) show ?case by (simp add: o1)
qed

lemma closes_put_back:
  assumes "keys_ok olds" "keeps tidy k"
  shows "closes olds (sq (onheap (put_back olds)) k)"
  unfolding closes_def sq_Inr_iff using put_back_binds [OF _ assms(1)] tidyD [OF assms(2)] by metis

lemma saves_until_close:
  assumes "saves sel body" "keeps tidy next_tok" "\<And>t. keeps tidy (reinsert t)"
  shows "saves sel (until_close n body)"
proof (induction n)
  case (Suc n)
  show ?case
    unfolding saves_def
  proof (intro allI impI)
    fix x c x' c' assume c: "names_ok c" "keys_ok (sel x)" and r: "until_close (Suc n) body x c = Inr (x', c')"
    from r obtain t c1 where 1: "next_tok c = Inr (t, c1)"
      and 2: "(if t = TClose then ret x else sq (reinsert t) (bnd (body x) (until_close n body))) c1 = Inr (x', c')"
      unfolding until_close.simps bnd_Inr_iff by blast
    note t1 = tidyD [OF assms(2) c(1) 1]
    show "names_ok c' \<and> keys_ok (sel x') \<and> restore (sel x') (binds c') = restore (sel x) (binds c)"
    proof (cases "t = TClose")
      case True
      with 2 t1 c show ?thesis by simp
    next
      case False
      with 2 obtain u c2 x1 c3 where 3: "reinsert t c1 = Inr (u, c2)" "body x c2 = Inr (x1, c3)"
        "until_close n body x1 c3 = Inr (x', c')"
        by (auto simp: sq_Inr_iff bnd_Inr_iff)
      note t2 = tidyD [OF assms(3) _ 3(1)]
      from t1 t2 c(2) 3(2) assms(1) have 4: "names_ok c3" "keys_ok (sel x1)"
        "restore (sel x1) (binds c3) = restore (sel x) (binds c)"
        unfolding saves_def by metis+
      with Suc.IH 3(3) show ?thesis unfolding saves_def by metis
    qed
  qed
qed (simp add: saves_def)

lemma tidy_saving:
  assumes "saves sel f" "sel x = []" "\<And>y. keys_ok (sel y) \<Longrightarrow> closes (sel y) (k y)"
  shows "keeps tidy (bnd (f x) k)"
proof (rule tidyI)
  fix c z c' assume c: "names_ok c" and "bnd (f x) k c = Inr (z, c')"
  then obtain y c1 where 1: "f x c = Inr (y, c1)" "k y c1 = Inr (z, c')" unfolding bnd_Inr_iff by blast
  with assms(1,2) c have "names_ok c1" "keys_ok (sel y)" "restore (sel y) (binds c1) = binds c"
    unfolding saves_def by (metis keys_ok_def empty_iff list.set(1) restore_simps(1))+
  with assms(3) [of y] 1(2) show "names_ok c' \<and> binds c' = binds c" unfolding closes_def by metis
qed

section \<open>The lexer\<close>

lemma lex_keys:
  assumes "names_ok c" "next_token (lx c) = Inr (t, l)"
  shows "names_ok (c\<lparr>lx := l\<rparr>)"
  using assms by (auto simp: names_ok_def next_token_run key_ok_def [of "[]"] split: if_splits list.splits)

lemma tidy_next [intro]: "keeps tidy next_tok"
  by (rule tidyI) (auto simp: onlex_def lex_keys split: sum.splits)

lemma tidy_reinsert: "keeps tidy (reinsert t)"
  by (rule tidyI) (auto simp: onlex_def reinsert_token_def names_ok_def split: sum.splits if_splits)

lemma tidy_eat: "keeps tidy (eat t)"
  by (rule tidyI)
    (auto simp: onlex_def eat_token_def unexpected_token_error_def bnd_run lex_keys split: sum.splits if_splits)

lemma tidy_unexpected: "keeps tidy (onlex (unexpected_token_error t x))"
  by (simp add: keeps_def onlex_def unexpected_token_error_def)

text \<open>The text of a token is a key of the symbol table.\<close>

lemma tidy_token_str:
  assumes "\<And>x. key_ok x \<Longrightarrow> keeps tidy (k x)"
  shows "keeps tidy (bnd (onlex token_str) k)"
proof (rule tidyI)
  fix c y c' assume c: "names_ok c" and "bnd (onlex token_str) k c = Inr (y, c')"
  then have "k (yytext (lx c)) c = Inr (y, c')" by (simp add: bnd_run onlex_def token_str_def)
  moreover have "key_ok (yytext (lx c))" using c by (simp add: names_ok_def)
  ultimately show "names_ok c' \<and> binds c' = binds c" using tidyD [OF assms c] by blast
qed

lemma tidy_prefix_id:
  assumes "\<And>x. key_ok x \<Longrightarrow> keeps tidy (k x)"
  shows "keeps tidy (bnd (onlex prefix_id) k)"
proof (rule tidyI)
  fix c y c' assume c: "names_ok c" and "bnd (onlex prefix_id) k c = Inr (y, c')"
  then obtain t l where 1: "next_token (lx c) = Inr (t, l)" "k (yytext l) (c\<lparr>lx := l\<rparr>) = Inr (y, c')"
    by (auto simp: bnd_run onlex_def prefix_id_def token_str_def sq_run split: sum.splits)
  have "names_ok (c\<lparr>lx := l\<rparr>)" by (rule lex_keys [OF c 1(1)])
  moreover from this have "key_ok (yytext l)" by (simp add: names_ok_def)
  ultimately show "names_ok c' \<and> binds c' = binds c" using tidyD [OF assms _ 1(2)] by simp
qed

section \<open>Steps on the graph\<close>

named_theorems tidy_ops \<open>operations of the checker after which every name has the binding it had\<close>

lemma scoped_new_sym: "key_ok x \<Longrightarrow> keeps scoped (new_expr (SymSExpr x))"
  by (auto simp: keeps_def scoped_def new_expr_def Let_def sym_ok_def lookup_def split: if_splits)

lemma scoped_new: "(\<And>x. nd \<noteq> SymSExpr x) \<Longrightarrow> keeps scoped (new_expr nd)"
  by (rule keeps_scoped [OF stable_new])

lemma scoped_same_syms:
  assumes "\<And>s x s'. m s = Inr (x, s') \<Longrightarrow> symbols s' = symbols s \<and>
    (\<forall>a y. node s' a = Some (SymSExpr y) \<longrightarrow> node s a = Some (SymSExpr y))"
  shows "keeps scoped m"
  unfolding keeps_def
proof (intro allI impI)
  fix s x s' assume "m s = Inr (x, s')"
  from assms [OF this] show "scoped s s'" by (auto simp: scoped_def sym_ok_def lookup_def)
qed

lemma scoped_state_ops [scoped_ops]:
  "keeps scoped (mk_cexpr opr es)" "keeps scoped (new_rat pq)" "keeps scoped (neg_literal e)"
  "keeps scoped (progs_at x)" "keeps scoped (new_expr HoleExpr)" "keeps scoped (new_expr (IntExpr i))"
  "keeps scoped (new_expr (CExpr opr ks))" "keeps scoped (markProgramAsFunction b)"
  unfolding mk_cexpr_def new_rat_def
  by (auto intro!: scoped_new simp: keeps_def [of _ "stop _"])
    (rule scoped_same_syms, auto simp: neg_literal_def progs_at_def markProgramAsFunction_def run_simps
      split: option.splits node.splits if_splits)+

lemma scoped_graph_ops [scoped_ops]:
  "keeps scoped (make_app a b)" "keeps scoped (whr f a)" "keeps scoped (clone f a)" "keeps scoped (run_code f a)"
  "keeps scoped (free_in f a b)" "keeps scoped (compute_kind f a)" "keeps scoped (setkid a j b)"
  "keeps scoped (get_head f v a)" "keeps scoped (build_app a bs j)"
  unfolding free_in_def by (intro keeps_scoped stable_ops stable_rules stable_free_in_rec)+

lemma scoped_report [scoped_ops]: "keeps scoped (report_error msg)" "keeps tidy (report_error msg)"
  by (simp_all add: keeps_def)

lemma scoped_helpers [scoped_ops]:
  "keeps scoped (extend_app a v)" "keeps scoped (inc_opt v)" "keeps scoped (dec_opt v)" "keeps scoped (run_side f a b)"
  "keeps scoped (pound_expected f v d)" "keeps scoped (tail_hole f a b)" "keeps scoped (app_last_run f a)"
  "keeps scoped (proper_type f msg a)"
  unfolding extend_app_def inc_opt_def dec_opt_def run_side_def pound_expected_def tail_hole_def app_last_run_def
    proper_type_def
  by (intro scoped_rules scoped_ops)+

lemma scoped_pound_type: "key_ok x \<Longrightarrow> keeps scoped (pound_type f x sy d rc)"
  unfolding pound_type_def by (intro scoped_rules scoped_ops scoped_new_sym)

lemma scoped_build_pis [scoped_ops]: "keeps scoped (build_pis f ps r)"
  by (induction ps arbitrary: r) (auto intro!: scoped_rules scoped_ops)

lemma scoped_build_validate [scoped_ops]: "keeps scoped (build_validate_pi f ps r k b)"
  unfolding build_validate_pi_def by (intro scoped_rules scoped_ops)

text \<open>The name of a symbol of the graph is a key of the symbol table.\<close>

lemma scoped_getname:
  assumes "\<And>x. key_ok x \<Longrightarrow> keeps scoped (k x)"
  shows "keeps scoped (bnd (getname a) k)"
  unfolding keeps_def bnd_Inr_iff
proof (intro allI impI, elim exE conjE)
  fix s y s' x s1 assume g: "getname a s = Inr (x, s1)" and k: "k x s1 = Inr (y, s')"
  show "scoped s s'"
  proof (cases "sym_ok s")
    case True
    with getname_key [OF g] k show ?thesis using keepsD [OF assms] by blast
  qed (simp add: scoped_def)
qed

lemma scoped_build_macro [scoped_ops]: "keeps scoped (build_macro f ps r t)"
  by (induction ps arbitrary: r t) (auto intro!: scoped_rules scoped_ops scoped_getname scoped_new_sym)

lemma scoped_prog_type [scoped_ops]: "keeps scoped (prog_type f ps r)"
  by (induction ps arbitrary: r) (auto intro!: scoped_rules scoped_ops)

lemmas tidy_rules = tid.keeps_rules tidy_next tidy_reinsert tidy_eat tidy_onheap scoped_rules

lemma tidy_modify:
  assumes "\<And>c. heap (f c) = heap c" "\<And>c. lx (f c) = lx c" "\<And>c. local_sym_names (f c) = local_sym_names c"
  shows "keeps tidy (modify f)"
  by (rule tidyI) (auto simp: assms names_ok_def)

lemma tidy_put_computed [tidy_ops]: "keeps tidy (put_computed a v)"
  by (simp add: put_computed_def keeps_def tidy_def)

lemma tidy_excess [tidy_ops]: "keeps tidy eat_rparen" "keeps tidy (eat_excess prev)"
proof -
  show r: "keeps tidy eat_rparen"
    unfolding eat_rparen_def by (intro tid.keeps_rules tidy_eat tidy_modify) simp_all
  have "keeps tidy (repeat_M n eat_rparen)" for n
    by (induction n) (simp_all only: repeat_M.simps tid.keeps_ret tid.keeps_sq r)
  then show "keeps tidy (eat_excess prev)" unfolding eat_excess_def by (intro tid.keeps_rules)
qed

section \<open>The parser of code\<close>

lemma tidy_read_ctor [tidy_ops]: "keeps tidy read_ctor"
  unfolding read_ctor_def by (rule tidy_prefix_id, intro tidy_rules scoped_ops)

lemma saves_case_var: "saves snd case_var"
  unfolding saves_def
proof (intro allI impI)
  fix pv c pv' c' assume c: "names_ok c" "keys_ok (snd pv)" and r: "case_var pv c = Inr (pv', c')"
  then obtain t l x where 1: "next_token (lx c) = Inr (t, l)" "x = yytext l" "names_ok (c\<lparr>lx := l\<rparr>)"
    using lex_keys by (auto simp: case_var_def bnd_Inr_iff onlex_def prefix_id_def sq_run split: sum.splits)
  have x: "key_ok x" using 1 by (simp add: names_ok_def)
  from r 1 obtain var c1 old c2 pat where
    2: "onheap (new_expr (SymSExpr x)) (c\<lparr>lx := l\<rparr>) = Inr (var, c1)"
    "onheap (sym_insert x (Some var, None)) c1 = Inr (old, c2)"
    "onheap (extend_app (fst pv) (Some var)) c2 = Inr (pat, c')" "pv' = (pat, snd pv @ [(x, old)])"
    by (auto simp: case_var_def bnd_Inr_iff onlex_def prefix_id_def token_str_def sq_run split: if_splits)
  from tidyD [OF tidy_onheap [OF scoped_new_sym [OF x]] 1(3) 2(1)] have 3: "names_ok c1" "binds c1 = binds c" by simp_all
  note i = insert_binds [OF x 3(1) 2(2)]
  from tidyD [OF tidy_onheap [OF scoped_helpers(1)] i(2) 2(3)] have "names_ok c'" "binds c' = binds c2" by simp_all
  then show "names_ok c' \<and> keys_ok (snd pv') \<and> restore (snd pv') (binds c') = restore (snd pv) (binds c)"
    using c(2) x 2(4) i(1,3) 3(2) by (auto simp: keys_ok_def restore_append)
qed

lemma closes_case_body:
  assumes "keys_ok prevs" "keeps tidy rec"
  shows "closes prevs (case_body rec pat prevs)"
  unfolding case_body_def
  by (intro closes_bnd closes_put_back assms tidy_rules scoped_ops)

lemma tidy_read_case:
  assumes r: "keeps tidy rec"
  shows "keeps tidy (read_case rec n)"
proof -
  have p: "keeps tidy (bnd (until_close n case_var (p, [])) (\<lambda>(pat, prevs). case_body rec (Some pat) prevs))" for p
  proof (rule tidy_saving [OF saves_until_close [OF saves_case_var tidy_next tidy_reinsert]])
    fix pv :: "addr \<times> (string \<times> addr option \<times> addr option) list" assume "keys_ok (snd pv)"
    from closes_case_body [OF this r] show "closes (snd pv) ((\<lambda>(pat, prevs). case_body rec (Some pat) prevs) pv)"
      by (cases pv) simp
  qed simp
  have q: "keeps tidy (case_body rec pat [])" for pat
    by (rule closes_tidy [OF closes_case_body]) (simp_all add: keys_ok_def r)
  show ?thesis
    unfolding read_case_def by (intro p q tidy_rules tidy_ops scoped_ops)
qed

lemma tidy_until_close:
  assumes "\<And>x. keeps tidy (body x)"
  shows "keeps tidy (until_close n body x)"
  using assms by (induction n arbitrary: x) (auto intro!: tidy_rules)

lemma tidy_atoi: "keeps tidy (atoi x)"
  by (simp add: atoi_def Let_def keeps_def tidy_def)

lemma tidy_mark_suffix [tidy_ops]: "keeps tidy (mark_suffix k)"
  unfolding mark_suffix_def by (rule tidy_token_str, intro tidy_rules tidy_atoi)

lemma tidy_read_let:
  assumes r: "keeps tidy rec"
  shows "keeps tidy (read_let rec)"
  unfolding read_let_def
proof (rule tidy_prefix_id)
  fix x assume x: "key_ok x"
  show "keeps tidy (bnd (onheap (new_expr (SymSExpr x))) (\<lambda>var. bnd rec (\<lambda>t1.
     bnd (onheap (sym_insert x (Some var, None))) (\<lambda>prev. bnd rec (\<lambda>t2. sq (onheap (sym_insert x prev)) (
     sq (eat TClose) (bnd (onheap (mk_cexpr LET [Some var, t1, t2])) (\<lambda>r. ret (Some r)))))))))"
    by (intro tid.keeps_bnd [OF tidy_onheap [OF scoped_new_sym [OF x]]] tid.keeps_bnd [OF r] tidy_open [OF inserts_sym [OF x]]
        closes_bnd [OF r] closes_insert [OF x] tid.keeps_sq [OF tidy_eat] tid.keeps_bnd [OF tidy_onheap]
        scoped_ops tid.keeps_ret)
qed

lemma tidy_read_forms:
  assumes r: "keeps tidy rec"
  shows "keeps tidy (read_op rec opr k)" "keeps tidy (read_fail rec)" "keeps tidy (read_compare rec)"
    "keeps tidy (read_do rec n)" "keeps tidy (read_ifmarked rec)" "keeps tidy (read_markvar rec)"
    "keeps tidy (read_match rec n)" "keeps tidy (read_tilde rec)"
  unfolding read_op_def read_fail_def read_compare_def read_do_def read_ifmarked_def read_markvar_def
    read_match_def read_tilde_def
  by (intro tidy_rules tidy_ops scoped_ops r tidy_until_close tidy_read_case)+

lemma tidy_read_atoms:
  "keeps tidy read_natural" "keeps tidy read_rational" "keeps tidy read_symbol"
  unfolding read_natural_def read_rational_def read_symbol_def
  by (rule tidy_token_str, intro tidy_rules tidy_ops scoped_ops)+

lemma tidy_read_app:
  assumes r: "keeps tidy rec"
  shows "keeps tidy (read_app rec n)"
  unfolding read_app_def by (rule tidy_token_str, intro tidy_rules tidy_ops scoped_ops r tidy_until_close)

lemma tidy_read_code [tidy_ops]: "keeps tidy (read_code n)"
proof (induction n)
  case (Suc n)
  note forms = tidy_read_forms [OF Suc.IH] tidy_read_app [OF Suc.IH] tidy_read_let [OF Suc.IH] scoped_report(2)
  have "keeps tidy (read_form (read_code n) n c)" for c
    by (cases c) (simp_all only: read_form_def token.case forms)
  then have "keeps tidy (read_start (read_code n) n d)" for d
    by (cases d) (simp_all only: read_start_def token.case tidy_read_atoms scoped_report tid.keeps_bnd tidy_next)
  then show ?case unfolding read_code.simps by (intro tid.keeps_bnd tidy_next)
qed (simp only: read_code.simps tid.keeps_stop)

end
