(* ===== verification/LFSC_Cells.thy ===== *)
theory LFSC_Cells
  imports LFSC_Scope
begin

text \<open>
  What the whole checker keeps of the graph.  \<open>kept s s'\<close>: addresses stay allocated and every cell keeps its
  class, its operator, the number of its kids and its name; only the value of a literal may change, since a
  negative sign is applied in place.  The relation is carried from the primitive steps through the parser,
  the checker and every command.
\<close>

section \<open>The relation\<close>

fun alike :: "node \<Rightarrow> node \<Rightarrow> bool" where
  "alike (CExpr o1 ks1) (CExpr o2 ks2) \<longleftrightarrow> o1 = o2 \<and> length ks1 = length ks2"
| "alike (IntExpr i) (IntExpr j) \<longleftrightarrow> True"
| "alike (RatExpr p) (RatExpr q) \<longleftrightarrow> True"
| "alike nd1 nd2 \<longleftrightarrow> nd1 = nd2"

definition kept :: "st \<Rightarrow> st \<Rightarrow> bool" where
  "kept s s' \<longleftrightarrow> brk s \<le> brk s' \<and> maddr s' = maddr s \<and>
     (bounded s \<longrightarrow> bounded s' \<and> (\<forall>a nd. node s a = Some nd \<longrightarrow> (\<exists>nd'. node s' a = Some nd' \<and> alike nd nd')))"

definition kept_cs :: "cs \<Rightarrow> cs \<Rightarrow> bool" where
  "kept_cs c c' \<longleftrightarrow> kept (heap c) (heap c')"

lemma alike_refl [simp]: "alike nd nd"
  by (cases nd) simp_all

lemma same_shape_alike: "same_shape nd nd' \<Longrightarrow> alike nd nd'"
  by (cases nd; cases nd') auto

lemma alike_trans: "alike a b \<Longrightarrow> alike b c \<Longrightarrow> alike a c"
  by (cases a; cases b; cases c) auto

interpretation kep: step_rel kept
proof
  fix s t u assume "kept s t" "kept t u"
  then show "kept s u"
    unfolding kept_def by (intro conjI impI allI) (metis alike_trans order_trans)+
qed (auto simp: kept_def)

interpretation kec: step_rel kept_cs
  by unfold_locales (auto simp: kept_cs_def intro: kep.rel_refl kep.rel_trans)

lemma stable_kept: "stable s s' \<Longrightarrow> kept s s'"
  unfolding stable_def kept_def using same_shape_alike by blast

lemma keeps_kept: "keeps stable m \<Longrightarrow> keeps kept m"
  by (auto simp: keeps_def dest: stable_kept)

section \<open>Steps on the graph\<close>

named_theorems kept_ops \<open>operations that keep the cells of the graph\<close>

lemma kept_same: "node s' = node s \<Longrightarrow> brk s' = brk s \<Longrightarrow> maddr s' = maddr s \<Longrightarrow> kept s s'"
  by (auto simp: kept_def bounded_def)

lemma kept_modify: "(\<And>s. kept s (f s)) \<Longrightarrow> keeps kept (modify f)"
  by (simp add: keeps_def)

lemma kept_new [kept_ops]: "keeps kept (new_expr nd)"
  by (auto simp: keeps_def kept_def new_expr_def Let_def bounded_def less_Suc_eq)

lemma kept_neg [kept_ops]: "keeps kept (neg_literal e)"
  by (auto simp: keeps_def neg_literal_def run_simps kept_def bounded_def split: option.splits node.splits if_splits)

lemma kept_tables [kept_ops]:
  "keeps kept (sym_insert x p)" "keeps kept (progs_at x)" "keeps kept (markProgramAsFunction a)"
  "keeps kept (report_error msg)"
  by (auto simp: keeps_def sym_insert_def progs_at_def markProgramAsFunction_def run_simps kept_same kep.rel_refl
      split: option.splits if_splits sum.splits prod.splits)

lemmas kept_prims [kept_ops] = stable_ops [THEN keeps_kept]

lemmas kept_rules = kep.keeps_rules keeps_node

lemma kept_free_in [kept_ops]: "keeps kept (free_in f a b)"
  unfolding free_in_def by (intro keeps_kept stable_rules stable_ops stable_free_in_rec)

lemma kept_put_back [kept_ops]: "keeps kept (put_back olds)"
  unfolding put_back_def by (intro kept_rules kept_ops)

lemma kept_helpers [kept_ops]:
  "keeps kept (mk_cexpr opr es)" "keeps kept (new_rat pq)" "keeps kept (extend_app a v)" "keeps kept (inc_opt v)"
  "keeps kept (dec_opt v)" "keeps kept (run_side f a b)" "keeps kept (pound_expected f v d)"
  "keeps kept (pound_type f x sy d rc)" "keeps kept (tail_hole f a b)" "keeps kept (app_last_run f a)"
  "keeps kept (insertAndBindSymbol f x sy e t)" "keeps kept (proper_type f msg a)" "keeps kept (mk_int x)"
  "keeps kept (mk_rat x)"
  unfolding mk_cexpr_def new_rat_def extend_app_def inc_opt_def dec_opt_def run_side_def pound_expected_def
    pound_type_def tail_hole_def app_last_run_def insertAndBindSymbol_def proper_type_def mk_int_def mk_rat_def
  by (intro kept_rules kept_ops)+

lemma kept_build [kept_ops]:
  "keeps kept (build_pis f ps r)" "keeps kept (build_macro f ps r t)" "keeps kept (prog_type f qs b)"
  by (induction ps arbitrary: r t, auto intro!: kept_rules kept_ops)
    (induction qs arbitrary: b, auto intro!: kept_rules kept_ops)

lemma kept_build_validate [kept_ops]: "keeps kept (build_validate_pi f ps r k b)"
  unfolding build_validate_pi_def by (intro kept_rules kept_ops)

section \<open>The type checker of code and the printer\<close>

lemma kept_code_spine [kept_ops]: "keeps kept (code_spine f ts cur)"
proof (induction ts arbitrary: cur)
  case (Cons t ts)
  show ?case unfolding code_spine.simps by (intro kept_rules kept_ops Cons.IH)
qed (auto intro!: kept_rules kept_ops)

lemma kept_code_pattern [kept_ops]: "keeps kept (code_pattern f vs c)"
proof (induction vs arbitrary: c)
  case (Cons v vs)
  show ?case unfolding code_pattern.simps by (intro kept_rules kept_ops Cons.IH)
qed auto

lemma kept_code_cases:
  assumes r: "\<And>a. keeps kept (rec a)"
  shows "keeps kept (code_cases rec f cs m)"
proof (induction cs arbitrary: m)
  case (Cons c cs)
  show ?case unfolding code_cases.simps code_case_def by (intro kept_rules kept_ops r Cons.IH)
qed auto

lemma kept_check_code [kept_ops]: "keeps kept (check_code n e)"
proof (induction n arbitrary: e)
  case (Suc n)
  have "keeps kept (code_atom e)" unfolding code_atom_def by (intro kept_rules kept_ops)
  moreover have "keeps kept (code_op (check_code n) f opr e)" for f opr
    unfolding code_op_def code_app_def code_head_type_def code_arith_def code_neg_def code_mpz_to_mpq_def code_if_def
      code_branches_def code_fail_def code_mark_type_def code_markvar_def code_ifmarked_def code_compare_type_def
      code_compare_def code_ifequal_def code_match_def type_of_def code_let_def
    by (intro kept_rules kept_ops kept_code_cases Suc.IH)
  ultimately show ?case unfolding check_code.simps by (intro kept_rules kept_ops)
qed auto

lemma kept_print [kept_ops]: "keeps kept (print n e)"
proof (induction n arbitrary: e)
  case (Suc n)
  have "keeps kept (print_kids (print n) ks)" for ks
    by (induction ks) (simp_all only: print_kids.simps kept_rules Suc.IH)
  then show ?case
    unfolding print.simps print_cexpr_def by (intro kept_rules kept_ops Suc.IH)
qed auto

section \<open>The parser of code\<close>

named_theorems kept_steps \<open>steps of the checker that keep the cells of the graph\<close>

lemma kept_onheap [kept_steps]: "keeps kept m \<Longrightarrow> keeps kept_cs (onheap m)"
  by (auto simp: keeps_def kept_cs_def onheap_def split: sum.splits)

lemma kept_onlex [kept_steps]: "keeps kept_cs (onlex m)"
  by (auto simp: keeps_def kept_cs_def onlex_def kep.rel_refl split: sum.splits)

lemma kept_cs_modify: "(\<And>c. heap (f c) = heap c) \<Longrightarrow> keeps kept_cs (modify f)"
  by (simp add: keeps_def kept_cs_def kep.rel_refl)

lemma kept_until_close [kept_steps]:
  assumes "\<And>x. keeps kept_cs (body x)"
  shows "keeps kept_cs (until_close n body x)"
proof (induction n arbitrary: x)
  case (Suc n)
  show ?case unfolding until_close.simps by (intro kec.keeps_rules kept_steps assms Suc.IH)
qed (simp only: until_close.simps kec.keeps_stop)

lemma kept_report [kept_steps]: "keeps kept_cs (report_error msg)"
  by (simp add: keeps_def)

lemma kept_put_computed [kept_steps]: "keeps kept_cs (put_computed a v)"
  unfolding put_computed_def by (intro kec.keeps_rules)

lemma kept_atoi [kept_steps]: "keeps kept_cs (atoi x)"
  unfolding atoi_def Let_def by (intro kec.keeps_rules)

lemma kept_read_parts [kept_steps]:
  "keeps kept_cs read_ctor" "keeps kept_cs (case_var pv)" "keeps kept_cs (mark_suffix k)" "keeps kept_cs read_natural"
  "keeps kept_cs read_rational" "keeps kept_cs read_symbol"
  unfolding read_ctor_def case_var_def mark_suffix_def read_natural_def read_rational_def read_symbol_def
  by (intro kec.keeps_rules kept_steps kept_ops kept_rules)+

lemma kept_read_code [kept_steps]: "keeps kept_cs (read_code n)"
proof (induction n)
  case (Suc n)
  have "keeps kept_cs (read_form (read_code n) n c)" for c
    unfolding read_form_def read_op_def read_fail_def read_compare_def read_do_def read_let_def read_ifmarked_def
      read_markvar_def read_match_def read_case_def case_body_def read_tilde_def read_app_def
    by (cases c; simp only: token.case; intro kec.keeps_rules kept_steps kept_ops kept_rules Suc.IH)
  then have "keeps kept_cs (read_start (read_code n) n d)" for d
    by (cases d) (simp_all only: read_start_def token.case kept_steps kec.keeps_bnd)
  then show ?case unfolding read_code.simps by (intro kec.keeps_rules kept_steps)
qed (simp only: read_code.simps kec.keeps_stop)

section \<open>The checker\<close>

lemma kept_excess [kept_steps]: "keeps kept_cs eat_rparen" "keeps kept_cs (eat_excess prev)"
proof -
  show r: "keeps kept_cs eat_rparen"
    unfolding eat_rparen_def by (intro kec.keeps_rules kept_steps kept_cs_modify) simp
  have "keeps kept_cs (repeat_M n eat_rparen)" for n
    by (induction n) (simp_all only: repeat_M.simps kec.keeps_ret kec.keeps_sq r)
  then show "keeps kept_cs (eat_excess prev)" unfolding eat_excess_def by (intro kec.keeps_rules)
qed

lemma kept_modifies [kept_steps]:
  "keeps kept_cs (modify (\<lambda>c. c\<lparr>allow_run := b\<rparr>))" "keeps kept_cs (modify (\<lambda>c. c\<lparr>open_parens := i c\<rparr>))"
  "keeps kept_cs (modify (\<lambda>c. c\<lparr>local_sym_names := l c\<rparr>))" "keeps kept_cs (modify (\<lambda>c. c\<lparr>ascHoles := hs c\<rparr>))"
  "keeps kept_cs (modify (\<lambda>c. c\<lparr>out := os c\<rparr>))" "keeps kept_cs (modify (\<lambda>c. c\<lparr>big_check := b\<rparr>))"
  by (rule kept_cs_modify; simp)+

lemma kept_decls:
  assumes r: "\<And>a. keeps kept_cs (rec a)"
  shows "keeps kept_cs (check_decl_list rec n b)" "keeps kept_cs (check_domain rec)"
  unfolding check_decl_list_def decl_item_def check_decl_list_item_def check_domain_def
  by (intro kec.keeps_rules kept_steps kept_ops kept_rules r)+

lemma kept_app_args:
  assumes r: "\<And>a. keeps kept_cs (rec a)"
  shows "keeps kept_cs (app_args rec f n a prev t h hs)"
proof (induction n arbitrary: t h hs)
  case (Suc n)
  show ?case
    unfolding app_args.simps app_tail_def app_arg_def by (intro kec.keeps_rules kept_steps kept_ops kept_rules r Suc.IH)
qed (simp only: app_args.simps kec.keeps_stop)

lemma kept_check_app:
  assumes r: "\<And>a. keeps kept_cs (rec a)"
  shows "keeps kept_cs (check_app rec f a c)"
proof -
  have s: "keeps kept_cs (case st of TailDone r \<Rightarrow> ret r | ArgsDone t h hs \<Rightarrow> app_finish f a t h hs)" for st
    unfolding app_finish_def app_hole_def
    by (cases st; simp only: app_step.case; intro kec.keeps_rules kept_steps kept_ops kept_rules)
  show ?thesis
    unfolding check_app_def by (intro s kept_app_args r kec.keeps_rules kept_steps kept_ops kept_rules)
qed

lemma kept_check_start:
  assumes r: "\<And>a. keeps kept_cs (rec a)"
  shows "keeps kept_cs (check_start rec f a t)"
proof -
  have "keeps kept_cs (check_form rec f a c)" for c
    unfolding check_form_def check_pi_def check_arrow_def check_pound_def check_percent_def check_lambda_def
      lambda_tail_def lambda_body_def check_run_def check_ascription_def check_local_def check_tilde_def
    by (cases c; simp only: token.case; intro kec.keeps_rules kept_steps kept_ops kept_rules kept_decls kept_check_app r)
  then show ?thesis
    unfolding check_start_def check_hole_def check_literal_def check_symbol_def
    by (cases t; simp only: token.case; intro kec.keeps_rules kept_steps kept_ops kept_rules)
qed

lemma kept_check [kept_steps]: "keeps kept_cs (check n a)"
proof (induction n arbitrary: a)
  case (Suc n)
  show ?case unfolding check.simps by (intro kec.keeps_rules kept_steps kept_check_start Suc.IH)
qed (simp only: check.simps kec.keeps_stop)

section \<open>The commands\<close>

lemma kept_clean: "keeps kept_cs clean_locals"
  unfolding clean_locals_def
  by (intro kec.keeps_rules kept_steps kept_ops kept_rules) (auto simp: keeps_def kept_cs_def intro: kept_same)

lemma kept_command: "keeps kept_cs (command f c)"
proof -
  have p: "keeps kept (modify (\<lambda>s. s\<lparr>progs := g s\<rparr>))" for g
    by (intro kept_modify kept_same) simp_all
  have h: "keeps kept_cs (hand_over x e)" for x e
    unfolding hand_over_def by (auto simp: keeps_def kept_cs_def intro: kept_same)
  show ?thesis
    unfolding command_def cmd_define_def cmd_declare_def cmd_declare_rule_def cmd_declare_type_def cmd_define_const_def
      cmd_check_def cmd_check_assuming_def cmd_opaque_def cmd_run_def cmd_program_def check_top_def no_rebind_def
      rebind_error_def print_ascHoles_def print_line_def prog_param_def prog_define_def
    by (cases c; simp only: token.case;
        intro kec.keeps_rules kept_steps kept_ops kept_rules kept_decls kept_clean p h)
qed

lemma kept_check_file: "keeps kept_cs (check_file n a w ts)"
proof -
  have "keeps kept_cs (commands n)" for n
  proof (induction n)
    case (Suc n)
    show ?case unfolding commands.simps by (intro kec.keeps_rules kept_steps kept_command Suc.IH)
  qed (simp only: commands.simps kec.keeps_stop)
  then show ?thesis
    unfolding check_file_def
    by (intro kec.keeps_rules kec.keeps_sq) (auto simp: keeps_def kept_cs_def intro: kept_same)
qed

end
