(* ===== verification/LFSC_Binding.thy ===== *)
theory LFSC_Binding
  imports LFSC_Cells
begin

text \<open>
  Lexical scoping of the checker and of the commands.  A call of \<open>check\<close> that creates its term, or is not in
  return position, leaves every name with the binding it had (\<open>tidy_check\<close>); a command that declares or
  defines a name changes the binding of this name only.
\<close>

section \<open>Declaration lists\<close>

text \<open>A step after which every name has the binding it had, and whose result has a property.\<close>

definition tidy_gives :: "('a \<Rightarrow> bool) \<Rightarrow> (cs, 'a) M \<Rightarrow> bool" where
  "tidy_gives Q m \<longleftrightarrow> (\<forall>c y c'. names_ok c \<longrightarrow> m c = Inr (y, c') \<longrightarrow> names_ok c' \<and> binds c' = binds c \<and> Q y)"

lemma tidy_givesD: "tidy_gives Q m \<Longrightarrow> names_ok c \<Longrightarrow> m c = Inr (y, c') \<Longrightarrow> names_ok c' \<and> binds c' = binds c \<and> Q y"
  by (simp add: tidy_gives_def)

lemma tidy_gives_tidy: "keeps tidy m \<Longrightarrow> tidy_gives (\<lambda>y. True) m"
  by (auto simp: tidy_gives_def dest: tidyD)

lemma tidy_gives_bnd: "tidy_gives Q m \<Longrightarrow> (\<And>y. Q y \<Longrightarrow> tidy_gives R (k y)) \<Longrightarrow> tidy_gives R (bnd m k)"
  unfolding tidy_gives_def bnd_Inr_iff by metis

lemma tidy_gives_after: "keeps tidy m \<Longrightarrow> (\<And>y. tidy_gives R (k y)) \<Longrightarrow> tidy_gives R (bnd m k)"
  by (rule tidy_gives_bnd [OF tidy_gives_tidy])

lemma tidy_gives_sq: "keeps tidy m \<Longrightarrow> tidy_gives R k \<Longrightarrow> tidy_gives R (sq m k)"
  unfolding sq_def by (rule tidy_gives_after)

lemma tidy_gives_ret: "Q y \<Longrightarrow> tidy_gives Q (ret y)"
  by (simp add: tidy_gives_def)

lemma tidy_gives_if: "(b \<Longrightarrow> tidy_gives Q m) \<Longrightarrow> (\<not> b \<Longrightarrow> tidy_gives Q k) \<Longrightarrow> tidy_gives Q (if b then m else k)"
  by simp

lemma tidy_gives_prod: "(\<And>x y. v = (x, y) \<Longrightarrow> tidy_gives Q (f x y)) \<Longrightarrow> tidy_gives Q (case v of (x, y) \<Rightarrow> f x y)"
  by (cases v) simp

lemma tidy_gives_prefix_id: "tidy_gives key_ok (onlex prefix_id)"
  unfolding tidy_gives_def
proof (intro allI impI)
  fix c x c' assume c: "names_ok c" and r: "onlex prefix_id c = Inr (x, c')"
  then obtain t l where "next_token (lx c) = Inr (t, l)" "x = yytext l" "c' = c\<lparr>lx := l\<rparr>"
    by (auto simp: onlex_def prefix_id_def token_str_def sq_run split: sum.splits)
  with lex_keys [OF c] have "names_ok c'" "key_ok x" by (auto simp: names_ok_def)
  with \<open>c' = _\<close> show "names_ok c' \<and> binds c' = binds c \<and> key_ok x" by simp
qed

text \<open>The calls of \<open>check\<close> that restore the bindings themselves.\<close>

definition calm :: "cargs \<Rightarrow> bool" where
  "calm a \<longleftrightarrow> create a \<or> \<not> return_pos a"

lemma calm_simps [simp]:
  "calm (ask b e)" "calm ((ask b e)\<lparr>computed := v\<rparr>)" "calm ((ask b e)\<lparr>is_hole := v\<rparr>)" "calm ((ask b e)\<lparr>inAsc := v\<rparr>)"
  "calm ((ask True e)\<lparr>computed := v, return_pos := p\<rparr>)"
  by (simp_all add: calm_def ask_def)

lemma key_ok_Nil [simp]: "key_ok []"
  by (simp add: key_ok_def)

lemma decl_item_key:
  assumes r: "\<And>a. calm a \<Longrightarrow> keeps tidy (rec a)"
  shows "tidy_gives (\<lambda>(x, ty). key_ok x) (check_decl_list_item rec)"
  unfolding check_decl_list_item_def
  by (intro tidy_gives_after [OF tidy_next] tidy_gives_if tidy_gives_bnd [OF tidy_gives_prefix_id]
      tidy_gives_after [OF r] tidy_gives_sq tidy_gives_prod tidy_gives_after tidy_gives_ret tidy_rules scoped_ops tidy_ops)
    simp_all

lemma saves_decl_item:
  assumes r: "\<And>a. calm a \<Longrightarrow> keeps tidy (rec a)"
  shows "saves snd (decl_item rec b)"
  unfolding saves_def
proof (intro allI impI)
  fix p c p' c' assume c: "names_ok c" "keys_ok (snd p)" and d: "decl_item rec b p c = Inr (p', c')"
  then obtain x ty c1 where 1: "check_decl_list_item rec c = Inr ((x, ty), c1)"
    by (fastforce simp: decl_item_def bnd_Inr_iff)
  from tidy_givesD [OF decl_item_key [OF r] c(1) 1] have 2: "names_ok c1" "binds c1 = binds c" "key_ok x" by simp_all
  show "names_ok c' \<and> keys_ok (snd p') \<and> restore (snd p') (binds c') = restore (snd p) (binds c)"
  proof (cases "x = []")
    case True
    with d 1 obtain sy where "onheap (new_expr (SymSExpr ''_'')) c1 = Inr (sy, c')" "snd p' = snd p"
      by (auto simp: decl_item_def bnd_Inr_iff)
    moreover have "keeps tidy (onheap (new_expr (SymSExpr ''_'')))"
      by (intro tidy_onheap scoped_new_sym) (simp add: key_ok_def)
    ultimately show ?thesis using tidyD [OF _ 2(1)] 2(2) c(2) by metis
  next
    case False
    with d 1 obtain sy c2 old where 3: "onheap (new_expr (SymSExpr x)) c1 = Inr (sy, c2)"
      "onheap (sym_insert x (Some sy, ty)) c2 = Inr (old, c')" "snd p' = snd p @ [(x, old)]"
      by (auto simp: decl_item_def bnd_Inr_iff)
    from tidyD [OF tidy_onheap [OF scoped_new_sym [OF 2(3)]] 2(1) 3(1)] have 4: "names_ok c2" "binds c2 = binds c"
      using 2(2) by simp_all
    note i = insert_binds [OF 2(3) 4(1) 3(2)]
    show ?thesis using i 3(3) 4(2) c(2) 2(3) by (auto simp: keys_ok_def restore_append)
  qed
qed

lemma bnd_assoc: "bnd (bnd m f) g = bnd m (\<lambda>x. bnd (f x) g)"
  by (simp add: fun_eq_iff bnd_run split: sum.splits)

lemma tidy_decl_list:
  assumes "\<And>a. calm a \<Longrightarrow> keeps tidy (rec a)"
    and "\<And>ds olds. keys_ok olds \<Longrightarrow> closes olds (k ds olds)"
  shows "keeps tidy (bnd (check_decl_list rec n b) (\<lambda>(ds, olds). k ds olds))"
proof -
  have "keeps tidy (bnd (until_close n (decl_item rec b) ([], [])) (\<lambda>(ds, olds). k ds olds))"
  proof (rule tidy_saving [OF saves_until_close [OF saves_decl_item [OF assms(1)] tidy_next tidy_reinsert]])
    fix p :: "(addr \<times> addr option) list \<times> (string \<times> addr option \<times> addr option) list" assume "keys_ok (snd p)"
    with assms(2) show "closes (snd p) ((\<lambda>(ds, olds). k ds olds) p)" by (cases p) simp
  qed simp_all
  then show ?thesis
    unfolding check_decl_list_def sq_def bnd_assoc by (intro tid.keeps_bnd [OF tidy_eat])
qed

section \<open>The checker\<close>

lemma inserts_bind [intro]: "key_ok x \<Longrightarrow> inserts x (Some sy, t) (onheap (insertAndBindSymbol f x sy e t))"
proof -
  assume x: "key_ok x"
  have "onheap (insertAndBindSymbol f x sy e t) =
     bnd (onheap (bnd (getop e) (\<lambda>opr.
       bnd (if opr = APP then bnd (whr f e) (\<lambda>er. if er \<noteq> e then sq (inc er) (sq (dec e) (ret er)) else ret e)
            else ret e) (\<lambda>e'. setval sy (Some e'))))) (\<lambda>_. onheap (sym_insert x (Some sy, t)))"
    by (auto simp: fun_eq_iff insertAndBindSymbol_def onheap_def bnd_run sq_run split: sum.splits)
  then show ?thesis
    by (simp only:) (intro inserts_bnd inserts_sym x tidy_rules scoped_ops)
qed

lemma tidy_check_domain:
  assumes r: "\<And>a. calm a \<Longrightarrow> keeps tidy (rec a)"
  shows "keeps tidy (check_domain rec)"
  unfolding check_domain_def
  by (intro tidy_rules tidy_ops scoped_ops r tidy_modify calm_simps) simp_all

text \<open>A name is bound, the rest is checked, and the name gets its old binding.\<close>

lemmas tidy_binders = tidy_open [OF inserts_sym] tidy_open [OF inserts_bind] closes_insert
  closes_if closes_option closes_prod closes_stop closes_sq closes_bnd tidy_onheap [OF scoped_new_sym]

lemma tidy_check_pi:
  assumes r: "\<And>a. calm a \<Longrightarrow> keeps tidy (rec a)" and a: "calm a"
  shows "keeps tidy (check_pi rec f a)"
proof -
  have b: "calm (a\<lparr>is_hole := False, inAsc := False\<rparr>)" using a by (simp add: calm_def)
  show ?thesis
    unfolding check_pi_def
    by (rule tidy_prefix_id, intro tidy_binders tidy_check_domain [OF r] r b tidy_rules tidy_ops scoped_ops)
qed

lemma tidy_check_arrow:
  assumes r: "\<And>a. calm a \<Longrightarrow> keeps tidy (rec a)"
  shows "keeps tidy (check_arrow rec f a)"
  unfolding check_arrow_def
  by (rule tidy_decl_list [OF r], assumption)
    (intro closes_bnd closes_prod closes_put_back r calm_simps tidy_rules tidy_ops scoped_ops)

lemma tidy_check_pound:
  assumes r: "\<And>a. calm a \<Longrightarrow> keeps tidy (rec a)" and a: "calm a"
  shows "keeps tidy (check_pound rec f a)"
proof -
  have b: "calm (a\<lparr>expected := e, computed := True, is_hole := False, inAsc := False\<rparr>)" for e
    using a by (simp add: calm_def)
  show ?thesis
    unfolding check_pound_def
    by (rule tidy_prefix_id, intro tidy_binders tidy_check_domain [OF r] r b scoped_pound_type tidy_rules tidy_ops scoped_ops)
qed

lemma tidy_check_percent: "calm a \<Longrightarrow> keeps tidy (check_percent rec f a)"
  unfolding check_percent_def by (intro tidy_rules scoped_ops) (auto simp: calm_def)

lemma calm_not_tail: "calm a \<Longrightarrow> bnd (gets (\<lambda>c. tail_calls c \<and> big_check c \<and> return_pos a \<and> \<not> create a)) k = k False"
  by (auto simp: calm_def fun_eq_iff bnd_run gets_def)

lemma tidy_lambda_body:
  assumes r: "\<And>a. calm a \<Longrightarrow> keeps tidy (rec a)" and a: "calm a" and x: "key_ok x"
  shows "closes [(x, old)] (lambda_body rec a x sy old pv pivar orig dom1 rng)"
proof -
  have b: "calm ((ask (create a) e)\<lparr>return_pos := return_pos a\<rparr>)" for e using a by (simp add: calm_def ask_def)
  show ?thesis
    unfolding lambda_body_def by (intro tidy_binders r b x tidy_rules tidy_ops scoped_ops)
qed

lemma tidy_check_lambda:
  assumes r: "\<And>a. calm a \<Longrightarrow> keeps tidy (rec a)" and a: "calm a"
  shows "keeps tidy (check_lambda rec f a)"
  unfolding check_lambda_def calm_not_tail [OF a] if_False
  by (intro tidy_prefix_id tidy_binders tidy_lambda_body r a tidy_rules tidy_ops scoped_ops)

lemma tidy_check_run:
  assumes r: "\<And>a. calm a \<Longrightarrow> keeps tidy (rec a)"
  shows "keeps tidy (check_run rec f a)"
  unfolding check_run_def by (intro r calm_simps tidy_rules tidy_ops scoped_ops scoped_check_code)

lemma tidy_check_ascription:
  assumes r: "\<And>a. calm a \<Longrightarrow> keeps tidy (rec a)" and a: "calm a"
  shows "keeps tidy (check_ascription rec f a)"
proof -
  have b: "calm ((ask (create a) e)\<lparr>return_pos := return_pos a\<rparr>)" for e using a by (simp add: calm_def ask_def)
  show ?thesis
    unfolding check_ascription_def by (intro r b calm_simps tidy_rules tidy_ops scoped_ops)
qed

lemma tidy_check_local:
  assumes r: "\<And>a. calm a \<Longrightarrow> keeps tidy (rec a)" and a: "calm a"
  shows "keeps tidy (check_local rec f a)"
proof -
  have b: "calm (a\<lparr>inAsc := False\<rparr>)" using a by (simp add: calm_def)
  show ?thesis
    unfolding check_local_def calm_not_tail [OF a] if_False
    by (intro tidy_prefix_id tidy_binders r b calm_simps tidy_rules tidy_ops scoped_ops)
qed

lemma tidy_check_tilde:
  assumes r: "\<And>a. calm a \<Longrightarrow> keeps tidy (rec a)" and a: "calm a"
  shows "keeps tidy (check_tilde rec a)"
proof -
  have b: "calm (a\<lparr>inAsc := False\<rparr>)" using a by (simp add: calm_def)
  show ?thesis unfolding check_tilde_def by (intro r b tidy_rules tidy_ops scoped_ops)
qed

lemma tidy_app_args:
  assumes r: "\<And>a. calm a \<Longrightarrow> keeps tidy (rec a)" and a: "calm a"
  shows "keeps tidy (app_args rec f n a prev t h hs)"
proof (induction n arbitrary: t h hs)
  case (Suc n)
  have b: "calm (a\<lparr>create := False, expected := e, computed := False, is_hole := False\<rparr>)" if "\<not> create a" for e
    using a that by (simp add: calm_def)
  have "keeps tidy (app_tail rec f a h' d g hs')" if "\<not> create a" for h' d g hs'
    unfolding app_tail_def by (intro r b that tidy_rules tidy_ops scoped_ops)
  moreover have "keeps tidy (app_arg rec f a prev v x d t' hs')" for v x d t' hs'
    unfolding app_arg_def by (intro r calm_simps tidy_rules tidy_ops scoped_ops)
  ultimately show ?case
    unfolding app_args.simps by (intro Suc.IH tidy_rules tidy_ops scoped_ops) blast+
qed (simp only: app_args.simps tid.keeps_stop)

lemma tidy_iter: "(\<And>x. keeps tidy (f x)) \<Longrightarrow> keeps tidy (iter_M f xs)"
  by (induction xs) (simp_all only: iter_M.simps tid.keeps_ret tid.keeps_sq)

lemma tidy_app_finish: "keeps tidy (app_finish f a t h hs)"
proof -
  have "keeps tidy (app_hole b x)" for b x
    unfolding app_hole_def by (intro tidy_rules tidy_ops scoped_ops tidy_modify) simp_all
  then show ?thesis
    unfolding app_finish_def by (intro tidy_iter tidy_rules tidy_ops scoped_ops tidy_modify) simp_all
qed

lemma tidy_check_app:
  assumes r: "\<And>a. calm a \<Longrightarrow> keeps tidy (rec a)" and a: "calm a"
  shows "keeps tidy (check_app rec f a c)"
proof -
  have s: "keeps tidy (case st of TailDone r \<Rightarrow> ret r | ArgsDone t h hs \<Rightarrow> app_finish f a t h hs)" for st
    by (cases st) (simp_all only: app_step.case tid.keeps_ret tidy_app_finish)
  show ?thesis
    unfolding check_app_def by (intro s tidy_app_args [OF r a] r calm_simps tidy_rules tidy_ops scoped_ops)
qed

lemma tidy_check_atoms:
  "keeps tidy (check_hole a)" "keeps tidy (check_literal a tp msg mk_int)" "keeps tidy (check_literal a tp msg mk_rat)"
  "keeps tidy (check_symbol f a)"
proof -
  have m: "keeps scoped (mk_int x)" "keeps scoped (mk_rat x)" for x
    unfolding mk_int_def mk_rat_def by (intro scoped_rules scoped_ops)+
  show "keeps tidy (check_hole a)" "keeps tidy (check_literal a tp msg mk_int)" "keeps tidy (check_literal a tp msg mk_rat)"
    "keeps tidy (check_symbol f a)"
    unfolding check_hole_def check_literal_def check_symbol_def
    by (intro tidy_token_str m tidy_rules tidy_ops scoped_ops)+
qed

lemma tidy_check: "calm a \<Longrightarrow> keeps tidy (check n a)"
proof (induction n arbitrary: a)
  case (Suc n)
  note forms = tidy_check_pi [OF Suc.IH Suc.prems] tidy_check_arrow [OF Suc.IH] tidy_check_pound [OF Suc.IH Suc.prems]
    tidy_check_percent [OF Suc.prems] tidy_check_lambda [OF Suc.IH Suc.prems] tidy_check_run [OF Suc.IH]
    tidy_check_ascription [OF Suc.IH Suc.prems] tidy_check_local [OF Suc.IH Suc.prems]
    tidy_check_tilde [OF Suc.IH Suc.prems] tidy_check_app [OF Suc.IH Suc.prems] scoped_report(2)
  have "keeps tidy (check_form (check n) n a c)" for c
    by (cases c) (simp_all only: check_form_def token.case forms)
  then have o: "keeps tidy (sq (modify (\<lambda>c. c\<lparr>open_parens := open_parens c + 1\<rparr>)) (bnd next_tok (check_form (check n) n a)))"
    by (intro tidy_rules tidy_modify) simp_all
  have "keeps tidy (check_start (check n) n a t)" for t
    by (cases t) (simp_all only: check_start_def token.case tidy_check_atoms scoped_report(2) o)
  then show ?case unfolding check.simps by (intro tid.keeps_bnd tidy_next)
qed (simp only: check.simps tid.keeps_stop)

section \<open>The commands\<close>

text \<open>At most one name is bound, and it was not bound before.\<close>

definition extends :: "(string \<Rightarrow> addr option \<times> addr option) \<Rightarrow> (string \<Rightarrow> addr option \<times> addr option) \<Rightarrow> bool" where
  "extends l l' \<longleftrightarrow> l' = l \<or> (\<exists>x a t. l x = (None, None) \<and> l' = l(x := (Some a, t)))"

text \<open>Ends with the old bindings restored, except for at most one new name.\<close>

definition grows :: "(string \<times> addr option \<times> addr option) list \<Rightarrow> (cs, 'a) M \<Rightarrow> bool" where
  "grows olds m \<longleftrightarrow> (\<forall>c y c'. names_ok c \<longrightarrow> m c = Inr (y, c') \<longrightarrow> names_ok c' \<and> extends (restore olds (binds c)) (binds c'))"

lemma grows_closes: "closes olds m \<Longrightarrow> grows olds m"
  by (auto simp: closes_def grows_def extends_def)

lemma grows_tidy: "keeps tidy m \<Longrightarrow> grows [] m"
  by (intro grows_closes tidy_closes)

lemma grows_bnd: "keeps tidy m \<Longrightarrow> (\<And>y. grows olds (k y)) \<Longrightarrow> grows olds (bnd m k)"
  unfolding grows_def bnd_Inr_iff by (metis tidyD)

lemma grows_sq: "keeps tidy m \<Longrightarrow> grows olds k \<Longrightarrow> grows olds (sq m k)"
  by (simp add: sq_def grows_bnd)

lemma grows_stop: "grows olds (report_error msg)"
  by (simp add: grows_def)

lemma grows_if: "(b \<Longrightarrow> grows olds m) \<Longrightarrow> (\<not> b \<Longrightarrow> grows olds k) \<Longrightarrow> grows olds (if b then m else k)"
  by simp

lemma grows_prod: "(\<And>x y. v = (x, y) \<Longrightarrow> grows olds (f x y)) \<Longrightarrow> grows olds (case v of (x, y) \<Rightarrow> f x y)"
  by (cases v) simp

lemma grows_prefix_id:
  assumes "\<And>x. key_ok x \<Longrightarrow> grows olds (k x)"
  shows "grows olds (bnd (onlex prefix_id) k)"
  unfolding grows_def bnd_Inr_iff using tidy_givesD [OF tidy_gives_prefix_id] assms unfolding grows_def by metis

lemma grows_insert:
  assumes "inserts x (Some a, t) m"
  shows "grows [] (bnd m (no_rebind y))"
  unfolding grows_def bnd_Inr_iff
proof (intro allI impI, elim exE conjE)
  fix c u c' old c1 assume c: "names_ok c" and 1: "m c = Inr (old, c1)" "no_rebind y old c1 = Inr (u, c')"
  then have "c' = c1" "old = (None, None)" by (cases old; auto simp: no_rebind_def rebind_error_def split: if_splits)+
  with insertsD [OF assms c 1(1)] show "names_ok c' \<and> extends (restore [] (binds c)) (binds c')"
    by (auto simp: extends_def)
qed

lemma grows_put_back:
  assumes "keys_ok olds" "grows [] k"
  shows "grows olds (sq (onheap (put_back olds)) k)"
  using put_back_binds [OF _ assms(1)] assms(2) unfolding grows_def sq_Inr_iff by (metis restore_simps(1))

lemma savesD:
  assumes "saves sel f" "names_ok c" "keys_ok (sel x)" "f x c = Inr (x', c')"
  shows "names_ok c'" "keys_ok (sel x')" "restore (sel x') (binds c') = restore (sel x) (binds c)"
  using assms unfolding saves_def by blast+

lemma grows_decl_list:
  assumes "\<And>a. calm a \<Longrightarrow> keeps tidy (rec a)"
    and "\<And>ds olds. keys_ok olds \<Longrightarrow> grows olds (k ds olds)"
  shows "grows [] (bnd (check_decl_list rec n b) (\<lambda>(ds, olds). k ds olds))"
proof -
  have "grows [] (bnd (until_close n (decl_item rec b) ([], [])) (\<lambda>(ds, olds). k ds olds))"
    unfolding grows_def bnd_Inr_iff
  proof (intro allI impI, elim exE conjE)
    fix c y c' p c1 assume c: "names_ok c" and 1: "until_close n (decl_item rec b) ([], []) c = Inr (p, c1)"
      "(case p of (ds, olds) \<Rightarrow> k ds olds) c1 = Inr (y, c')"
    obtain ds olds where p: "p = (ds, olds)" by (cases p)
    have "saves snd (until_close n (decl_item rec b))"
      by (intro saves_until_close saves_decl_item assms(1) tidy_next tidy_reinsert)
    from savesD [OF this c _ 1(1)] have 2: "names_ok c1" "keys_ok olds" "restore olds (binds c1) = binds c"
      by (simp_all add: keys_ok_def p)
    with assms(2) [OF 2(2), of ds] 1(2) show "names_ok c' \<and> extends (restore [] (binds c)) (binds c')"
      unfolding grows_def p by auto
  qed
  then show ?thesis
    unfolding check_decl_list_def sq_def bnd_assoc by (intro grows_bnd [OF tidy_eat])
qed

lemmas grows_rules = grows_if grows_prod grows_stop grows_put_back grows_insert [OF inserts_sym]
  grows_insert [OF inserts_bind] grows_sq grows_bnd

lemma tidy_check_top: "keeps tidy (check_top f True)"
  unfolding check_top_def by (intro tidy_check calm_simps tidy_rules tidy_ops)

lemma grows_declarations:
  "grows [] (cmd_define f)" "grows [] (cmd_declare f)" "grows [] (cmd_declare_rule f)"
  "grows [] (cmd_declare_type f)" "grows [] (cmd_define_const f)"
  unfolding cmd_define_def cmd_declare_def cmd_declare_rule_def cmd_declare_type_def cmd_define_const_def
  by (rule grows_prefix_id, intro grows_decl_list grows_rules tidy_check_top tidy_check calm_simps
      tidy_rules tidy_ops scoped_ops scoped_new_sym, (assumption | simp)+)+

section \<open>Running code and checking under assumptions\<close>

lemma scoped_print [scoped_ops]: "keeps scoped (print n e)"
proof (induction n arbitrary: e)
  case (Suc n)
  have "keeps scoped (print_kids (print n) ks)" for ks
    by (induction ks) (simp_all only: print_kids.simps scoped_rules Suc.IH)
  then show ?case
    unfolding print.simps print_cexpr_def by (intro scoped_rules scoped_ops Suc.IH)
qed auto

lemma tidy_clean: "keeps tidy clean_locals"
proof (rule tidyI)
  fix c y c' assume "names_ok c" "clean_locals c = Inr (y, c')"
  then show "names_ok c' \<and> binds c' = binds c"
    by (auto simp: names_ok_def clean_locals_def put_back_def run_simps sym_ok_def lookup_def)
qed

lemma tidy_print_line: "keeps tidy (print_line x)"
  unfolding print_line_def by (rule tidy_modify) simp_all

lemma tidy_cmd_run: "keeps tidy (cmd_run f)"
  unfolding cmd_run_def by (intro tidy_rules tidy_ops scoped_ops scoped_check_code tidy_print_line)

lemma tidy_cmd_check_assuming: "keeps tidy (cmd_check_assuming f)"
  unfolding cmd_check_assuming_def
  by (rule tid.keeps_bnd [OF tid.keeps_gets], rule tidy_decl_list, erule tidy_check)
    (intro closes_bnd closes_prod closes_put_back closes_sq [OF tidy_check] tidy_check calm_simps tidy_clean
      tidy_print_line tidy_rules tidy_ops)

section \<open>Programs\<close>

text \<open>A name without a value has no type, as after every command.\<close>

definition paired :: "cs \<Rightarrow> bool" where
  "paired c \<longleftrightarrow> (\<forall>x. fst (binds c x) = None \<longrightarrow> binds c x = (None, None))"

definition ready :: "cs \<Rightarrow> bool" where
  "ready c \<longleftrightarrow> names_ok c \<and> bounded (heap c) \<and> paired c"

definition blank :: "string list \<Rightarrow> (string \<Rightarrow> addr option \<times> addr option) \<Rightarrow> string \<Rightarrow> addr option \<times> addr option" where
  "blank xs l x = (if x \<in> set xs then (None, None) else l x)"

text \<open>The parameters read so far have the names \<open>xs\<close>; without them the bindings are \<open>l\<close>.\<close>

definition params :: "(string \<Rightarrow> addr option \<times> addr option) \<Rightarrow> (addr \<times> addr) list \<Rightarrow> cs \<Rightarrow> bool" where
  "params l ps c \<longleftrightarrow> ready c \<and> (\<exists>xs. list_all2 (\<lambda>p x. node (heap c) (fst p) = Some (SymSExpr x)) ps xs \<and> blank xs (binds c) = l)"

lemma alike_name: "alike (SymSExpr x) nd \<longleftrightarrow> nd = SymSExpr x"
  by (cases nd) auto

lemma kept_name: "kept s s' \<Longrightarrow> bounded s \<Longrightarrow> node s a = Some (SymSExpr x) \<Longrightarrow> node s' a = Some (SymSExpr x)"
  unfolding kept_def by (metis alike_name)

text \<open>Assertions about names only are not disturbed by a step that keeps bindings and cells.\<close>

definition undisturbed :: "cs \<Rightarrow> cs \<Rightarrow> bool" where
  "undisturbed c c' \<longleftrightarrow> names_ok c' \<and> bounded (heap c') \<and> binds c' = binds c \<and>
     (\<forall>a x. node (heap c) a = Some (SymSExpr x) \<longrightarrow> node (heap c') a = Some (SymSExpr x))"

definition firm :: "(cs \<Rightarrow> bool) \<Rightarrow> bool" where
  "firm P \<longleftrightarrow> (\<forall>c. P c \<longrightarrow> ready c) \<and> (\<forall>c c'. P c \<longrightarrow> undisturbed c c' \<longrightarrow> P c')"

definition post :: "(cs \<Rightarrow> bool) \<Rightarrow> (cs, 'a) M \<Rightarrow> ('a \<Rightarrow> cs \<Rightarrow> bool) \<Rightarrow> bool" where
  "post P m Q \<longleftrightarrow> (\<forall>c y c'. P c \<longrightarrow> m c = Inr (y, c') \<longrightarrow> Q y c')"

lemma firm_step:
  assumes "firm P" "P c" "keeps tidy m" "keeps kept_cs m" "m c = Inr (y, c')"
  shows "P c'"
proof -
  have c: "names_ok c" "bounded (heap c)" using assms(1,2) by (auto simp: firm_def ready_def)
  have k: "kept (heap c) (heap c')" using keepsD [OF assms(4,5)] by (simp add: kept_cs_def)
  then have "undisturbed c c'"
    using tidyD [OF assms(3) c(1) assms(5)] c(2) kept_name [OF k c(2)] by (auto simp: undisturbed_def kept_def)
  then show ?thesis using assms(1,2) unfolding firm_def by blast
qed

lemma post_step: "firm P \<Longrightarrow> keeps tidy m \<Longrightarrow> keeps kept_cs m \<Longrightarrow> (\<And>y. post P (k y) Q) \<Longrightarrow> post P (bnd m k) Q"
  unfolding post_def bnd_Inr_iff using firm_step by metis

lemma post_sq: "firm P \<Longrightarrow> keeps tidy m \<Longrightarrow> keeps kept_cs m \<Longrightarrow> post P k Q \<Longrightarrow> post P (sq m k) Q"
  unfolding sq_def by (rule post_step)

lemma post_stop: "post P (report_error msg) Q"
  by (simp add: post_def)

lemma post_if: "(b \<Longrightarrow> post P m Q) \<Longrightarrow> (\<not> b \<Longrightarrow> post P k Q) \<Longrightarrow> post P (if b then m else k) Q"
  by simp

lemma post_prod: "(\<And>x y. v = (x, y) \<Longrightarrow> post P (f x y) Q) \<Longrightarrow> post P (case v of (x, y) \<Rightarrow> f x y) Q"
  by (cases v) simp

lemma post_prefix_id:
  assumes "firm P" "\<And>x. key_ok x \<Longrightarrow> post P (k x) Q"
  shows "post P (bnd (onlex prefix_id) k) Q"
proof -
  have t: "keeps tidy (onlex prefix_id)"
    using tidy_gives_prefix_id by (auto simp: tidy_gives_def intro: tidyI)
  show ?thesis
    unfolding post_def bnd_Inr_iff
  proof (intro allI impI, elim exE conjE)
    fix c y c' x c1 assume p: "P c" "onlex prefix_id c = Inr (x, c1)" "k x c1 = Inr (y, c')"
    with assms(1) have "names_ok c" by (auto simp: firm_def ready_def)
    with tidy_givesD [OF tidy_gives_prefix_id] p(2) have "key_ok x" by blast
    with assms(2) p(3) firm_step [OF assms(1) p(1) t kept_onlex p(2)] show "Q y c'" by (auto simp: post_def)
  qed
qed

lemma onheap_rules:
  "onheap (bnd m k) = bnd (onheap m) (\<lambda>x. onheap (k x))" "onheap (sq m n) = sq (onheap m) (onheap n)"
  "onheap (if b then m1 else m2) = (if b then onheap m1 else onheap m2)" "onheap (ret x) = ret x" "onheap (report_error msg) = report_error msg"
  by (auto simp: fun_eq_iff onheap_def bnd_run sq_run report_error_def split: sum.splits)

text \<open>The parameters are taken out of the symbol table at the end.\<close>

definition unbind :: "addr \<times> addr \<Rightarrow> (st, unit) M" where
  "unbind p = bnd (getname (fst p)) (\<lambda>x. sq (sym_insert x (None, None)) (ret ()))"

lemma unbind_run:
  assumes "node (heap c) (fst p) = Some (SymSExpr x)" "onheap (unbind p) c = Inr (u, c')"
  obtains old where "onheap (sym_insert x (None, None)) c = Inr (old, c')"
  using assms
  by (cases "sym_insert x (None, None) (heap c)")
    (auto simp: unbind_def onheap_def getname_def getnode_def bnd_run sq_run split: prod.splits)

lemma blank_params:
  assumes "names_ok c" "list_all2 (\<lambda>p x. node (heap c) (fst p) = Some (SymSExpr x)) ps xs"
    and "onheap (iter_M unbind ps) c = Inr (u, c')"
  shows "names_ok c' \<and> binds c' = blank xs (binds c)"
  using assms
proof (induction ps arbitrary: xs c)
  case Nil
  then show ?case by (auto simp: onheap_def blank_def fun_eq_iff)
next
  case (Cons p ps)
  from Cons.prems(2) obtain x xs' where xs: "xs = x # xs'" "node (heap c) (fst p) = Some (SymSExpr x)"
    "list_all2 (\<lambda>p x. node (heap c) (fst p) = Some (SymSExpr x)) ps xs'"
    by (auto simp: list_all2_Cons1)
  with Cons.prems(1) have x: "key_ok x" by (auto simp: names_ok_def sym_ok_def)
  from Cons.prems(3) obtain v c1 where u: "onheap (unbind p) c = Inr (v, c1)"
    "onheap (iter_M unbind ps) c1 = Inr (u, c')"
    by (auto simp: onheap_rules sq_Inr_iff)
  from unbind_run [OF xs(2) u(1)] obtain old where 1: "onheap (sym_insert x (None, None)) c = Inr (old, c1)" .
  note i = insert_binds [OF x Cons.prems(1) 1(1)]
  have "node (heap c1) = node (heap c)"
    using 1(1) by (auto simp: onheap_def sym_insert_def split: sum.splits prod.splits)
  with Cons.IH [OF i(2) _ u(2)] xs(3) i(3) show ?case by (auto simp: xs(1) blank_def fun_eq_iff)
qed

lemma firm_params: "firm (params l ps)"
  unfolding firm_def
proof (intro conjI allI impI)
  fix c c' assume "params l ps c" "undisturbed c c'"
  then show "params l ps c'"
    unfolding params_def ready_def undisturbed_def paired_def by (metis (mono_tags, lifting) list_all2_mono)
qed (simp add: params_def)

text \<open>The variable \<open>v\<close> called \<open>x\<close> is about to be bound.\<close>

definition unbound_var :: "(string \<Rightarrow> addr option \<times> addr option) \<Rightarrow> (addr \<times> addr) list \<Rightarrow> addr \<Rightarrow> string \<Rightarrow> cs \<Rightarrow> bool" where
  "unbound_var l ps v x c \<longleftrightarrow> params l ps c \<and> key_ok x \<and> binds c x = (None, None) \<and> node (heap c) v = Some (SymSExpr x)"

lemma firm_unbound: "firm (unbound_var l ps v x)"
  using firm_params [of l ps] unfolding firm_def unbound_var_def by (auto simp: undisturbed_def)

lemma post_unused:
  assumes "key_ok x" "\<And>v. post (unbound_var l ps v x) (k v) Q"
  shows "post (params l ps) (bnd (onheap (sym_get x)) (\<lambda>p. if fst p \<noteq> None then report_error msg
    else bnd (onheap (new_expr (SymSExpr x))) k)) Q"
  unfolding post_def
proof (intro allI impI)
  fix c y c' assume p: "params l ps c" and "bnd (onheap (sym_get x)) (\<lambda>p. if fst p \<noteq> None then report_error msg
    else bnd (onheap (new_expr (SymSExpr x))) k) c = Inr (y, c')"
  then obtain v c1 where 1: "fst (binds c x) = None" "onheap (new_expr (SymSExpr x)) c = Inr (v, c1)" "k v c1 = Inr (y, c')"
    by (auto simp: onheap_def sym_get_def lookup_def bnd_run split: if_splits sum.splits)
  from p have "ready c" by (simp add: params_def)
  with 1(1) have b: "binds c x = (None, None)" by (simp add: ready_def paired_def)
  have t: "keeps tidy (onheap (new_expr (SymSExpr x)))" by (intro tidy_onheap scoped_new_sym assms(1))
  have k: "keeps kept_cs (onheap (new_expr (SymSExpr x)))" by (intro kept_onheap kept_ops)
  have "binds c1 = binds c" using \<open>ready c\<close> tidyD [OF t _ 1(2)] by (simp add: ready_def)
  moreover have "node (heap c1) v = Some (SymSExpr x)"
    using 1(2) by (auto simp: onheap_def new_expr_def Let_def)
  ultimately have "unbound_var l ps v x c1"
    using firm_step [OF firm_params p t k 1(2)] assms(1) b by (simp add: unbound_var_def)
  with assms(2) 1(3) show "Q y c'" unfolding post_def by blast
qed

lemma post_bind:
  "post (unbound_var l ps v x) (sq (onheap (sym_insert x (Some v, Some t))) (ret (ps @ [(v, t)]))) (\<lambda>ps'. params l ps')"
  unfolding post_def
proof (intro allI impI)
  fix c ps' c' assume p: "unbound_var l ps v x c"
    and r: "sq (onheap (sym_insert x (Some v, Some t))) (ret (ps @ [(v, t)])) c = Inr (ps', c')"
  then obtain old where 1: "onheap (sym_insert x (Some v, Some t)) c = Inr (old, c')" and ps': "ps' = ps @ [(v, t)]"
    by (auto simp: sq_Inr_iff)
  from p obtain xs where c: "names_ok c" "bounded (heap c)" "paired c" "key_ok x" "binds c x = (None, None)"
    "node (heap c) v = Some (SymSExpr x)" "blank xs (binds c) = l"
    "list_all2 (\<lambda>p x. node (heap c) (fst p) = Some (SymSExpr x)) ps xs"
    by (auto simp: unbound_var_def params_def ready_def)
  note i = insert_binds [OF c(4,1) 1]
  have n: "node (heap c') = node (heap c)" "brk (heap c') = brk (heap c)"
    using 1 by (auto simp: onheap_def sym_insert_def split: sum.splits prod.splits)
  have "ready c'" using i c(2,3) n by (auto simp: ready_def paired_def bounded_def)
  moreover have "blank (xs @ [x]) (binds c') = l"
    using i(3) c(5) by (auto simp: c(7) [symmetric] blank_def fun_eq_iff)
  moreover have "list_all2 (\<lambda>p x. node (heap c') (fst p) = Some (SymSExpr x)) ps' (xs @ [x])"
    using c(6,8) n(1) by (simp add: ps' list_all2_appendI)
  ultimately show "params l ps' c'" unfolding params_def by blast
qed

lemma post_param: "post (params l ps) (prog_param f ps) (\<lambda>ps'. params l ps')"
  unfolding prog_param_def
  by (rule post_sq [OF firm_params tidy_eat kept_onlex], rule post_prefix_id [OF firm_params], erule post_unused)
    (intro post_bind post_sq [OF firm_unbound] post_step [OF firm_unbound] post_prod tidy_check calm_simps
      tidy_rules tidy_ops scoped_ops kec.keeps_rules kept_steps kept_ops)

lemma post_params: "post (params l ps) (until_close n (prog_param f) ps) (\<lambda>ps'. params l ps')"
proof (induction n arbitrary: ps)
  case (Suc n)
  have b: "post (params l ps) (bnd (prog_param f ps) (until_close n (prog_param f))) (\<lambda>ps'. params l ps')"
    using post_param [of l ps f] Suc.IH unfolding post_def bnd_Inr_iff by blast
  have r: "post (params l ps) (ret ps) (\<lambda>ps'. params l ps')" by (simp add: post_def)
  show ?case
    unfolding until_close.simps
    by (intro post_step [OF firm_params tidy_next kept_onlex] post_if r
        post_sq [OF firm_params tidy_reinsert kept_onlex] b)
qed (simp add: post_def)

lemma post_unbind:
  assumes "keeps tidy k"
  shows "post (params l ps) (sq (onheap (iter_M unbind ps)) k) (\<lambda>u c. names_ok c \<and> binds c = l)"
  unfolding post_def sq_Inr_iff
proof (intro allI impI, elim exE conjE)
  fix c y c' u c1 assume p: "params l ps c" and 1: "onheap (iter_M unbind ps) c = Inr (u, c1)" "k c1 = Inr (y, c')"
  then obtain xs where c: "names_ok c" "list_all2 (\<lambda>p x. node (heap c) (fst p) = Some (SymSExpr x)) ps xs"
    "blank xs (binds c) = l"
    by (auto simp: params_def ready_def)
  from blank_params [OF c(1,2) 1(1)] c(3) tidyD [OF assms _ 1(2)] show "names_ok c' \<and> binds c' = l" by simp
qed

lemma post_define: "post (params l ps) (onheap (prog_define f v ps t e)) (\<lambda>u c. names_ok c \<and> binds c = l)"
proof -
  have "keeps tidy (sq (onheap (inc progtp)) (sq (onheap (bnd (bnd (getval v) deref) dec)) (sq (onheap (setval v w)) (ret pc))))" for progtp w pc
    by (intro tidy_rules scoped_ops)
  note u = post_unbind [OF this, unfolded onheap_rules]
  show ?thesis
    unfolding prog_define_def unbind_def [symmetric] onheap_rules
    by (intro u post_stop post_if post_sq [OF firm_params] post_step [OF firm_params]
        tidy_rules scoped_ops scoped_check_code kec.keeps_rules kept_steps kept_ops kept_rules)
qed

lemma post_hand:
  "post (params l ps) (bnd (onheap (prog_define f v ps t e)) (hand_over x)) (\<lambda>u c. names_ok c \<and> binds c = l)"
proof -
  have "post (\<lambda>c. names_ok c \<and> binds c = l) (hand_over x pc) (\<lambda>u c. names_ok c \<and> binds c = l)" for pc
    by (auto simp: post_def hand_over_def names_ok_def)
  with post_define [of l ps f v t e] show ?thesis unfolding post_def bnd_Inr_iff by blast
qed

lemma tidy_new_program:
  "keeps tidy (onheap (gets g))" "keeps tidy (onheap (modify (\<lambda>s. s\<lparr>progs := p s\<rparr>)))"
  "keeps kept_cs (onheap (gets g))" "keeps kept_cs (onheap (modify (\<lambda>s. s\<lparr>progs := p s\<rparr>)))"
  by (auto simp: keeps_def tidy_def names_ok_def onheap_def sym_ok_def lookup_def kept_cs_def intro: kept_same)

lemma program_binds:
  assumes "ready c" "cmd_program f b c = Inr (u, c')"
  shows "names_ok c' \<and> binds c' = binds c"
proof -
  let ?Q = "\<lambda>u c'. names_ok c' \<and> binds c' = binds c"
  have p: "params (binds c) [] c" using assms(1) by (auto simp: params_def blank_def fun_eq_iff)
  have l: "post (params (binds c) []) (bnd (until_close f (prog_param f) []) k) ?Q"
    if "\<And>ps. post (params (binds c) ps) (k ps) ?Q" for k :: "(addr \<times> addr) list \<Rightarrow> (cs, unit) M"
    using post_params [of "binds c" "[]" f f] that unfolding post_def bnd_Inr_iff by blast
  have "post (params (binds c) []) (cmd_program f b) ?Q"
    unfolding cmd_program_def
    by (rule post_prefix_id [OF firm_params],
        intro post_step [OF firm_params tidy_onheap [OF scoped_new_sym]] l post_hand post_stop post_if post_prod
        post_sq [OF firm_params] post_step [OF firm_params] tidy_check calm_simps tidy_new_program
        tidy_rules tidy_ops scoped_ops kec.keeps_rules kept_steps kept_ops)
  with p assms(2) show ?thesis unfolding post_def by blast
qed

section \<open>All commands\<close>

lemma extends_paired: "extends (binds c) (binds c') \<Longrightarrow> paired c \<Longrightarrow> paired c'"
  by (auto simp: extends_def paired_def)

lemma command_extends:
  assumes "ready c" "command n t c = Inr (u, c')" "t \<noteq> TCheck" "t \<noteq> TOpaque"
  shows "ready c' \<and> extends (binds c) (binds c')"
proof -
  have n: "names_ok c" using assms(1) by (simp add: ready_def)
  have "grows [] (command n t) \<or> t = TProgram \<or> t = TFunction"
    using assms(3,4) grows_declarations grows_tidy [OF tidy_cmd_run] grows_tidy [OF tidy_cmd_check_assuming]
      grows_tidy [OF tidy_unexpected]
    by (cases t) (simp_all only: command_def token.case, blast+)
  then have g: "names_ok c' \<and> extends (binds c) (binds c')"
    using assms(2) n program_binds [OF assms(1)] by (auto simp: grows_def command_def extends_def)
  moreover have "bounded (heap c')"
    using keepsD [OF kept_command assms(2)] assms(1) by (simp add: kept_cs_def kept_def ready_def)
  ultimately show ?thesis using assms(1) extends_paired by (auto simp: ready_def)
qed

end
