(* ===== verification/LFSC_Start.thy ===== *)
theory LFSC_Start
  imports LFSC_Binding
begin

text \<open>
  The state in which the first command of a file is read, and small files that the theorems about the
  checker are applied to.
\<close>

section \<open>The first state\<close>

text \<open>The state after \<open>init\<close>, with the tokens of a file in front of the scanner.\<close>

definition fresh :: "(token \<times> string) list \<Rightarrow> cs" where
  "fresh ts = (case init (start_st id) of
       Inl e \<Rightarrow> start_cs id
     | Inr (u, s) \<Rightarrow> (start_cs id)\<lparr>heap := s, lx := init_lex ts\<rparr>)"

lemma init_spec:
  "\<exists>s. init (start_st ma) = Inr ((), s) \<and> sym_ok s \<and> node s = node (start_st ma) \<and> sval s = (\<lambda>a. None) \<and> brk s = 4 \<and>
     lookup s = (\<lambda>x. (None, None))(''type'' := (Some statType, Some statKind), ''mpz'' := (Some statMpz, Some statType),
       ''mpq'' := (Some statMpq, Some statType))"
proof -
  let ?s0 = "start_st ma"
  have i0: "sym_ok ?s0" "lookup ?s0 = (\<lambda>x. (None, None))"
    by (auto simp: sym_ok_def start_st_def lookup_def fun_eq_iff split: if_splits)
  have k: "key_ok ''type''" "key_ok ''mpz''" "key_ok ''mpq''" by (simp_all add: key_ok_def)
  from sym_insert_spec [OF i0(1) k(1)] obtain s1 where 1: "sym_insert ''type'' (Some statType, Some statKind) ?s0 = Inr ((None, None), s1)"
    "sym_ok s1" "node s1 = node ?s0" "lookup s1 = (lookup ?s0)(''type'' := (Some statType, Some statKind))"
    using i0(2) by fastforce
  have n: "node s1 statType = Some (CExpr TYPE_E [])" using 1(3) by (simp add: start_st_def statType_def statKind_def statMpz_def statMpq_def)
  define s2 where "s2 = s1\<lparr>refs := (refs s1)(statType := ref_inc (refs s1 statType))\<rparr>"
  have 2: "inc statType s1 = Inr ((), s2)" "sym_ok s2" "node s2 = node s1" "lookup s2 = lookup s1"
    using 1(2) n by (simp_all add: s2_def inc_def run_simps sym_ok_def lookup_def fun_eq_iff)
  from sym_insert_spec [OF 2(2) k(2)] obtain o3 s3 where 3: "sym_insert ''mpz'' (Some statMpz, Some statType) s2 = Inr (o3, s3)"
    "sym_ok s3" "node s3 = node s2" "lookup s3 = (lookup s2)(''mpz'' := (Some statMpz, Some statType))" by blast
  from sym_insert_spec [OF 3(2) k(3)] obtain o4 s4 where 4: "sym_insert ''mpq'' (Some statMpq, Some statType) s3 = Inr (o4, s4)"
    "sym_ok s4" "node s4 = node s3" "lookup s4 = (lookup s3)(''mpq'' := (Some statMpq, Some statType))" by blast
  have r: "init ?s0 = Inr ((), s4)" using 1(1) 2(1) 3(1) 4(1) by (simp add: init_def sq_run)
  have keep: "sval s' = sval s \<and> brk s' = brk s" if "sym_insert x p s = Inr (o1, s')" for x p s o1 s'
    using that by (auto simp: sym_insert_def split: sum.splits prod.splits)
  have "sval s4 = sval ?s0" "brk s4 = brk ?s0"
    using keep [OF 1(1)] keep [OF 3(1)] keep [OF 4(1)] by (simp_all add: s2_def)
  with r 1 2 3 4 i0(2) show ?thesis by (auto simp: start_st_def fun_eq_iff)
qed

text \<open>What \<open>init\<close> establishes: the invariant of the commands, and the three predefined names.\<close>

lemma fresh_spec:
  shows fresh_lx: "lx (fresh ts) = init_lex ts"
    and fresh_node: "node (heap (fresh ts)) = [statType \<mapsto> CExpr TYPE_E [], statKind \<mapsto> CExpr KIND [], statMpz \<mapsto> CExpr MPZ [], statMpq \<mapsto> CExpr MPQ []]"
    and fresh_val: "sval (heap (fresh ts)) = (\<lambda>a. None)"
    and fresh_binds: "binds (fresh ts) = (\<lambda>x. (None, None))(''type'' := (Some statType, Some statKind),
       ''mpz'' := (Some statMpz, Some statType), ''mpq'' := (Some statMpq, Some statType))"
    and fresh_parens: "open_parens (fresh ts) = 0"
    and fresh_brk: "brk (heap (fresh ts)) = 4"
    and fresh_modes: "tail_calls (fresh ts)" "big_check (fresh ts)" "local_sym_names (fresh ts) = []" "ascHoles (fresh ts) = []"
proof -
  from init_spec [of id] obtain s where s: "init (start_st id) = Inr ((), s)" "node s = node (start_st id)" "sval s = (\<lambda>a. None)" "brk s = 4"
    "lookup s = (\<lambda>x. (None, None))(''type'' := (Some statType, Some statKind), ''mpz'' := (Some statMpz, Some statType),
       ''mpq'' := (Some statMpq, Some statType))" by blast
  have f: "fresh ts = (start_cs id)\<lparr>heap := s, lx := init_lex ts\<rparr>" by (simp add: fresh_def s(1))
  show "lx (fresh ts) = init_lex ts" "sval (heap (fresh ts)) = (\<lambda>a. None)" "open_parens (fresh ts) = 0" "brk (heap (fresh ts)) = 4"
    "tail_calls (fresh ts)" "big_check (fresh ts)" "local_sym_names (fresh ts) = []" "ascHoles (fresh ts) = []"
    "binds (fresh ts) = (\<lambda>x. (None, None))(''type'' := (Some statType, Some statKind),
       ''mpz'' := (Some statMpz, Some statType), ''mpq'' := (Some statMpq, Some statType))"
    "node (heap (fresh ts)) = [statType \<mapsto> CExpr TYPE_E [], statKind \<mapsto> CExpr KIND [], statMpz \<mapsto> CExpr MPZ [], statMpq \<mapsto> CExpr MPQ []]"
    by (simp_all add: f s start_st_def start_cs_def)
qed

lemma fresh_ready:
  assumes "\<forall>(t, x) \<in> set ts. key_ok x"
  shows "ready (fresh ts)"
proof -
  from init_spec [of id] obtain s where s: "init (start_st id) = Inr ((), s)" "sym_ok s" "node s = node (start_st id)" "brk s = 4"
    by blast
  have f: "fresh ts = (start_cs id)\<lparr>heap := s, lx := init_lex ts\<rparr>" by (simp add: fresh_def s(1))
  have "bounded s" using s(3,4) by (auto simp: bounded_def start_st_def statType_def statKind_def statMpz_def statMpq_def split: if_splits)
  moreover have "paired (fresh ts)" unfolding paired_def fresh_binds by simp
  ultimately show ?thesis
    using assms s(2) by (auto simp: ready_def names_ok_def f start_cs_def init_lex_def key_ok_def [of "[]"])
qed

section \<open>Reading a name\<close>

text \<open>Only counts and the position in the input change when a declared name is read.\<close>

definition just_read :: "(token \<times> string) list \<Rightarrow> string \<Rightarrow> cs \<Rightarrow> cs \<Rightarrow> bool" where
  "just_read ts x c c' \<longleftrightarrow> (\<exists>h. c' = c\<lparr>lx := (lx c)\<lparr>scanned := ts, yytext := x\<rparr>, heap := h\<rparr> \<and> rc_only (heap c) h)"

lemma check_name:
  assumes "s_peeked0 (lx c) = TokenErr" "scanned (lx c) = (TIdent, x) # ts" "binds c x = (Some r, Some tp)"
    and "node (heap c) r = Some nd" "node (heap c) tp = Some nd'"
    and "create a" "expected a = None" "computed a"
  shows "\<exists>c'. check (Suc n) a c = Inr ((Some r, Some tp, False), c') \<and> just_read ts x c c'"
  using assms
  by (auto simp: check_start_def check_symbol_def run_simps next_token_run token_str_def desugar_def sym_get_def lookup_def
      inc_def just_read_def rc_only_def)

lemma check_mpz:
  "\<exists>c'. check 1 ((ask True None)\<lparr>computed := True\<rparr>) (fresh [(TIdent, ''mpz'')]) = Inr ((Some statMpz, Some statType, False), c')"
proof -
  have "\<exists>c'. check (Suc 0) ((ask True None)\<lparr>computed := True\<rparr>) (fresh [(TIdent, ''mpz'')]) =
      Inr ((Some statMpz, Some statType, False), c') \<and> just_read [] ''mpz'' (fresh [(TIdent, ''mpz'')]) c'"
    by (rule check_name) (simp_all add: fresh_lx init_lex_def fresh_binds fresh_node ask_def statMpz_def statType_def
        statKind_def statMpq_def)
  then show ?thesis by auto
qed

text \<open>\<open>(declare a mpz)\<close>, after its first two tokens.\<close>

lemma declare_runs:
  "\<exists>c'. command 2 TDeclare (fresh [(TIdent, ''a''), (TIdent, ''mpz''), (TClose, '')'')]) = Inr ((), c')"
proof -
  let ?c = "fresh [(TIdent, ''a''), (TIdent, ''mpz''), (TClose, '')'')]"
  let ?a = "(ask True None)\<lparr>computed := True, return_pos := True\<rparr>"
  define c1 where "c1 = ?c\<lparr>lx := (lx ?c)\<lparr>scanned := [(TIdent, ''mpz''), (TClose, '')'')], yytext := ''a''\<rparr>\<rparr>"
  have h1: "heap c1 = heap ?c" "open_parens c1 = 0" by (simp_all add: c1_def fresh_parens)
  have 1: "onlex prefix_id ?c = Inr (''a'', c1)"
    by (simp add: onlex_def prefix_id_def next_token_run token_str_def sq_run fresh_lx init_lex_def desugar_def c1_def)
  have "\<exists>c'. check (Suc 1) ?a c1 = Inr ((Some statMpz, Some statType, False), c') \<and> just_read [(TClose, '')'')] ''mpz'' c1 c'"
    by (rule check_name) (simp_all add: c1_def fresh_lx init_lex_def fresh_binds fresh_node ask_def statMpz_def statType_def
        statKind_def statMpq_def)
  then obtain c2 h where 2: "check 2 ?a c1 = Inr ((Some statMpz, Some statType, False), c2)" "heap c2 = h" "rc_only (heap ?c) h"
    "open_parens c2 = 0"
    by (auto simp: just_read_def h1 numeral_2_eq_2)
  have 3: "check_top 2 True c1 = Inr ((Some statMpz, statType), c2)"
    using 2(1,4) h1(2) by (simp add: check_top_def eat_excess_def run_simps)
  have n: "node h statType = Some (CExpr TYPE_E [])"
    using 2(3) by (simp add: rc_only_def fresh_node statMpz_def statType_def statKind_def statMpq_def)
  have r: "ready ?c" by (rule fresh_ready) (simp add: key_ok_def)
  define h2 where "h2 = dec_st statType h"
  have rc: "rc_only (heap ?c) h2" unfolding h2_def using rc_only_trans [OF 2(3) dec_rc_only] .
  obtain v h3 where 4: "new_expr (SymSExpr ''a'') h2 = Inr (v, h3)" by (simp add: new_expr_def Let_def)
  have s2: "sym_ok h2" "lookup h2 = binds ?c"
    using rc r by (auto simp: rc_only_def sym_ok_def lookup_def ready_def names_ok_def fun_eq_iff)
  with keepsD [OF scoped_new_sym 4] have s3: "sym_ok h3" "lookup h3 = binds ?c" by (auto simp: scoped_def key_ok_def)
  from sym_insert_spec [OF s3(1), of "''a''" "(Some v, Some statMpz)"] s3(2) obtain h4 where
    5: "sym_insert ''a'' (Some v, Some statMpz) h3 = Inr ((None, None), h4)"
    by (auto simp: key_ok_def fresh_binds)
  have "cmd_declare 2 ?c = Inr ((), c2\<lparr>heap := h4\<rparr>)"
    using 1 3 2(2) n 4 5
    by (simp add: cmd_declare_def run_simps is_type_or_kind_def no_rebind_def dec_def h2_def numeral_2_eq_2)
  then show ?thesis by (simp add: command_def)
qed

section \<open>A local definition in return position\<close>

text \<open>The file \<open>(check (@ x 3 x))\<close>, after its first two tokens.\<close>

definition local_toks :: "(token \<times> string) list" where
  "local_toks = [(TOpen, ''(''), (TAt, ''@''), (TIdent, ''x''), (TNatural, ''3''), (TIdent, ''x''), (TClose, '')''), (TClose, '')'')]"

text \<open>The state after \<open>(@ x 3\<close>.\<close>

lemma local_bound:
  assumes c: "c = fresh local_toks" and m: "m = Suc k"
  shows "\<exists>h. check (Suc m) ((ask False None)\<lparr>computed := True, return_pos := True\<rparr>) c =
      check m ((ask False None)\<lparr>computed := True, return_pos := True\<rparr>)
        (c\<lparr>open_parens := 1, lx := (init_lex (drop 4 local_toks))\<lparr>yytext := ''3''\<rparr>, heap := h\<rparr>) \<and>
     sym_ok h \<and> lookup h = (binds c)(''x'' := (Some 4, Some statMpz)) \<and> node h statMpz = Some (CExpr MPZ [])"
proof -
  let ?x = "''x''" and ?a = "(ask False None)\<lparr>computed := True, return_pos := True\<rparr>"
  have ok: "sym_ok (heap c)" using fresh_ready [of local_toks] by (simp add: ready_def names_ok_def key_ok_def local_toks_def c)
  have l: "lx c = init_lex ((TOpen, ''('') # (TAt, ''@'') # (TIdent, ''x'') # drop 3 local_toks)"
    "drop 3 local_toks = (TNatural, ''3'') # drop 4 local_toks" "open_parens c = 0" "tail_calls c" "big_check c"
    by (simp_all add: c fresh_lx fresh_parens fresh_modes local_toks_def)
  obtain h1 where 1: "new_expr (SymSExpr ?x) (heap c) = Inr (4, h1)" "node h1 4 = Some (SymSExpr ?x)"
    "node h1 statMpz = Some (CExpr MPZ [])" "brk h1 = 5"
    by (simp add: c new_expr_def Let_def fresh_brk fresh_node statMpz_def statType_def statKind_def statMpq_def)
  from keepsD [OF scoped_new_sym 1(1)] ok have s1: "sym_ok h1" "lookup h1 = binds c" by (auto simp: scoped_def key_ok_def)
  define h2 where "h2 = h1\<lparr>refs := (refs h1)(statMpz := ref_inc (refs h1 statMpz))\<rparr>"
  obtain h3 where 3: "new_expr (IntExpr 3) h2 = Inr (5, h3)" "node h3 4 = Some (SymSExpr ?x)"
    "node h3 5 = Some (IntExpr 3)" "node h3 statMpz = Some (CExpr MPZ [])"
    using 1 by (simp add: new_expr_def Let_def h2_def statMpz_def)
  have 2: "inc statMpz h1 = Inr ((), h2)" using 1(3) by (simp add: inc_def run_simps h2_def)
  define h4 where "h4 = h3\<lparr>sval := (sval h3)(4 \<mapsto> 5)\<rparr>"
  have 4: "setval 4 (Some 5) h3 = Inr ((), h4)" using 3(2) by (simp add: setval_def run_simps h4_def)
  have s4: "sym_ok h4" "lookup h4 = binds c" "node h4 = node h3"
    using keepsD [OF scoped_prims(10) 2] keepsD [OF scoped_new 3(1)] keepsD [OF scoped_prims(7) 4] s1
    by (auto simp: scoped_def h4_def)
  from sym_insert_spec [OF s4(1), of ?x "(Some 4, Some statMpz)"] s4(2) obtain h5 where
    5: "sym_insert ?x (Some 4, Some statMpz) h4 = Inr ((None, None), h5)" "sym_ok h5" "node h5 = node h4"
      "lookup h5 = (binds c)(?x := (Some 4, Some statMpz))"
    by (auto simp: key_ok_def fresh_binds c)
  have t: "mpz_set_str ''3'' = Some 3"
    by (simp add: mpz_set_str_def is_digit_def read_digits_def digit_value_def)
  let ?c1 = "c\<lparr>open_parens := 1, lx := (init_lex (drop 3 local_toks))\<lparr>yytext := ''x''\<rparr>, heap := h1\<rparr>"
  let ?c3 = "c\<lparr>open_parens := 1, lx := (init_lex (drop 4 local_toks))\<lparr>yytext := ''3''\<rparr>, heap := h3\<rparr>"
  have n: "check m ((ask True None)\<lparr>computed := True\<rparr>) ?c1 = Inr ((Some 5, Some statMpz, False), ?c3)"
    using 2 3(1) t
    by (simp add: m check_start_def check_literal_def mk_int_def put_computed_def onheap_def onlex_def bnd_run sq_run
        next_token_run token_str_def desugar_def init_lex_def l(2) ask_def)
  have b: "insertAndBindSymbol m ?x 4 5 (Some statMpz) h3 = Inr ((None, None), h5)"
    using 3(3) 4 5(1) by (simp add: insertAndBindSymbol_def bnd_run sq_run getop_def getnode_def)
  have "check (Suc m) ?a c = check m ?a (?c3\<lparr>heap := h5\<rparr>)"
    using 1(1) n b l(1,3-)
    by (simp add: check_start_def check_form_def check_local_def eat_excess_def dec_opt_def onheap_def onlex_def bnd_run sq_run
        next_token_run prefix_id_def token_str_def desugar_def init_lex_def ask_def)
  then show ?thesis using 5(2-) 3(4) s4(3) by (intro exI [of _ h5]) simp
qed

text \<open>The whole command: the name is still bound when the next one is read.\<close>

lemma local_leaks:
  "\<exists>c'. command 3 TCheck (fresh local_toks) = Inr ((), c') \<and> binds c' ''x'' = (Some 4, Some statMpz)"
proof -
  define c where "c = fresh local_toks"
  let ?a = "(ask False None)\<lparr>computed := True, return_pos := True\<rparr>"
  from local_bound [OF c_def, of "Suc 1" 1] obtain h where h: "check (Suc (Suc 1)) ?a c = check (Suc 1) ?a
      (c\<lparr>open_parens := 1, lx := (init_lex (drop 4 local_toks))\<lparr>yytext := ''3''\<rparr>, heap := h\<rparr>)"
    "sym_ok h" "lookup h = (binds c)(''x'' := (Some 4, Some statMpz))" "node h statMpz = Some (CExpr MPZ [])" by blast
  have g: "get_trie (None, None) ''x'' (symbols h) = (Some 4, Some statMpz)"
    using fun_cong [OF h(3), of "''x''"] by (simp add: lookup_def)
  have l: "drop 4 local_toks = [(TIdent, ''x''), (TClose, '')''), (TClose, '')'')]" by (simp add: local_toks_def)
  have b: "c\<lparr>big_check := True\<rparr> = c" by (simp add: c_def fresh_modes)
  have o: "open_parens c = 0" "ascHoles c = []" "local_sym_names c = []" by (simp_all add: c_def fresh_parens fresh_modes)
  define h2 where "h2 = h\<lparr>refs := (refs h)(statMpz := ref_inc (refs h statMpz))\<rparr>"
  define h3 where "h3 = (dec_st statMpz h2)\<lparr>mark_map := \<lambda>a. 0\<rparr>"
  have s: "symbols h3 = symbols h" using dec_rc_only [of h2 statMpz] by (simp add: h3_def h2_def rc_only_def)
  have "check 3 ?a c = Inr ((None, Some statMpz, False),
      c\<lparr>open_parens := 1, lx := (init_lex [(TClose, '')''), (TClose, '')'')])\<lparr>yytext := ''x''\<rparr>, heap := h2\<rparr>)"
    using h(1,4) g
    by (simp add: numeral_3_eq_3 check_start_def check_symbol_def onheap_def onlex_def bnd_run sq_run next_token_run token_str_def
        desugar_def init_lex_def l ask_def sym_get_def inc_def getnode_def h2_def)
  then have "cmd_check 3 c = Inr ((), c\<lparr>open_parens := 0, lx := (init_lex [(TClose, '')'')])\<lparr>yytext := '')''\<rparr>, heap := h3, out := out c @ [''success'']\<rparr>)"
    using h(4) b o
    by (simp add: cmd_check_def print_ascHoles_def clean_locals_def put_back_def eat_excess_def eat_rparen_def print_line_def
        eat_token_def dec_def getnode_def onheap_def onlex_def bnd_run sq_run next_token_run desugar_def init_lex_def
        h2_def h3_def)
  then show ?thesis
    using g by (auto simp: command_def c_def lookup_def s)
qed

end
