(* ===== verification/LFSC_Write.thy ===== *)
theory LFSC_Write
  imports LFSC_Code LFSC_Run LFSC_Text "HOL-Library.AList"
begin

unbundle bit_operations_syntax

text \<open>
  The compiler of side conditions, \<open>src/src/sccwriter.cpp\<close>: it writes a C++ function for every program.  An operation that
  writes to a stream returns the text it writes.  The members of \<open>sccwriter\<close> and its static counters are the record \<open>scw\<close>,
  which also holds the expression graph the writer reads.  What \<open>mpz_get_si\<close> of GMP returns is the field \<open>get_si\<close>.
\<close>

section \<open>State and names\<close>

record scw =
  graph :: st
  scw_options :: int
  scw_progs :: "(string \<times> addr) list"
  progPtrs :: "addr list"
  progNames :: "string list"
  currProgram :: nat
  scw_vars :: "string list"
  globalSyms :: "string list"
  exprCount :: nat
  argsCount :: nat
  rnumCount :: nat
  get_si :: "int \<Rightarrow> int"

definition new_scw :: "st \<Rightarrow> (int \<Rightarrow> int) \<Rightarrow> int \<Rightarrow> scw" where
  "new_scw s si opts = \<lparr>graph = s, scw_options = opts, scw_progs = [], progPtrs = [], progNames = [], currProgram = 0,
     scw_vars = [], globalSyms = [], exprCount = 0, argsCount = 0, rnumCount = 0, get_si = si\<rparr>"

definition opt_write_case_body :: int where "opt_write_case_body = 1"
definition opt_write_check_sym_expr :: int where "opt_write_check_sym_expr = 2"
definition opt_write_add_args :: int where "opt_write_add_args = 4"
definition opt_write_call_debug :: int where "opt_write_call_debug = 16"

definition has_opt :: "int \<Rightarrow> int \<Rightarrow> bool" where
  "has_opt opts b \<longleftrightarrow> opts AND b \<noteq> 0"

definition ongraph :: "(st, 'a) M \<Rightarrow> (scw, 'a) M" where
  "ongraph m = (\<lambda>w. case m (graph w) of Inl e \<Rightarrow> Inl e | Inr (x, g) \<Rightarrow> Inr (x, w\<lparr>graph := g\<rparr>))"

text \<open>The first position of a value in a vector.\<close>

fun index_of :: "'a \<Rightarrow> 'a list \<Rightarrow> nat option" where
  "index_of x [] = None"
| "index_of x (y # ys) = (if y = x then Some 0 else map_option Suc (index_of x ys))"

definition get_prog_index :: "string \<Rightarrow> (scw, nat option) M" where
  "get_prog_index x = gets (\<lambda>w. index_of x (progNames w))"

definition get_prog_index_by_expr :: "addr \<Rightarrow> (scw, nat option) M" where
  "get_prog_index_by_expr e = gets (\<lambda>w. index_of e (progPtrs w))"

definition is_var :: "string \<Rightarrow> (scw, bool) M" where
  "is_var x = gets (\<lambda>w. x \<in> set (scw_vars w))"

definition push_var :: "string \<Rightarrow> (scw, unit) M" where
  "push_var x = modify (\<lambda>w. w\<lparr>scw_vars := scw_vars w @ [x]\<rparr>)"

definition add_global_sym :: "string \<Rightarrow> (scw, unit) M" where
  "add_global_sym x = modify (\<lambda>w. if x \<in> set (globalSyms w) then w else w\<lparr>globalSyms := globalSyms w @ [x]\<rparr>)"

definition add_scc :: "string \<Rightarrow> addr \<Rightarrow> (scw, unit) M" where
  "add_scc pname e = modify (\<lambda>w. w\<lparr>scw_progs := AList.update pname e (scw_progs w), progPtrs := progPtrs w @ [e],
     progNames := progNames w @ [pname]\<rparr>)"

definition get_prog :: "nat \<Rightarrow> (scw, addr) M" where
  "get_prog n = bnd (gets (\<lambda>w. nth_opt (progNames w) n)) (\<lambda>x. bnd (deref x) (\<lambda>x. bnd (gets (\<lambda>w. map_of (scw_progs w) x)) deref))"

definition prog_name :: "nat \<Rightarrow> (scw, string) M" where
  "prog_name n = bnd (gets (\<lambda>w. nth_opt (progNames w) n)) deref"

text \<open>\<open>char\<close> is signed.  No name contains the null character.\<close>

definition var_char :: "char \<Rightarrow> char" where
  "var_char ch =
     (let c = (if of_char ch < (128 :: int) then of_char ch else of_char ch - (256 :: int));
          c1 = (if c \<le> 47 then c + 65 else if 58 \<le> c \<and> c \<le> 64 then c + (97 - 58) else c);
          c2 = (if 91 \<le> c1 \<and> c1 \<le> 94 \<or> c1 = 96 then c1 + (104 - 91) else if 123 \<le> c1 then c1 - 4 else c1)
      in char_of (nat (c2 mod 256)))"

definition get_var_name :: "string \<Rightarrow> string" where
  "get_var_name n = map var_char n"

definition get_function_name :: "string \<Rightarrow> string" where
  "get_function_name pname = ''f_'' @ pname"

section \<open>Text\<close>

definition nl :: string where
  "nl = [CHR 0x0A]"

definition indent :: "nat \<Rightarrow> string" where
  "indent ind = concat (replicate ind ''   '')"

text \<open>\<open>indent(os, ind); os << x << std::endl;\<close>\<close>

definition line :: "nat \<Rightarrow> string \<Rightarrow> string" where
  "line ind x = indent ind @ x @ nl"

definition write_dec :: "string \<Rightarrow> nat \<Rightarrow> string" where
  "write_dec e ind = line ind (e @ ''->dec();'')"

definition show_long :: "int \<Rightarrow> string" where
  "show_long i = (if i < 0 then ''-'' @ mpz_get_str (nat (- i)) else mpz_get_str (nat i))"

definition commas :: "string list \<Rightarrow> string" where
  "commas xs = (case xs of [] \<Rightarrow> [] | x # ys \<Rightarrow> x @ concat (map (\<lambda>y. '', '' @ y) ys))"

text \<open>\<open>retModString\<close> and \<open>incString\<close>\<close>

definition ret_mod :: "string option \<Rightarrow> string" where
  "ret_mod r = (case r of None \<Rightarrow> [] | Some x \<Rightarrow> x @ '' = '')"

definition inc_string :: "string option \<Rightarrow> string" where
  "inc_string r = (case r of None \<Rightarrow> [] | Some x \<Rightarrow> x @ ''->inc();'')"

text \<open>A name that is not used yet in the function: \<open>e0, e1, ...\<close> and \<open>rnum0, rnum1, ...\<close>\<close>

definition next_expr :: "(scw, string) M" where
  "next_expr = bnd (gets exprCount) (\<lambda>n. sq (modify (\<lambda>w. w\<lparr>exprCount := Suc n\<rparr>)) (ret (''e'' @ mpz_get_str n)))"

definition next_rnum :: "(scw, string) M" where
  "next_rnum = bnd (gets rnumCount) (\<lambda>n. sq (modify (\<lambda>w. w\<lparr>rnumCount := Suc n\<rparr>)) (ret (''rnum'' @ mpz_get_str n)))"

section \<open>Expressions\<close>

type_synonym writer = "addr \<Rightarrow> nat \<Rightarrow> string option \<Rightarrow> int \<Rightarrow> (scw, string) M"

text \<open>The name of a \<open>SymSExpr\<close> and whether it is a variable in scope.\<close>

definition sym_var :: "addr \<Rightarrow> (scw, (string \<times> bool) option) M" where
  "sym_var code =
     bnd (ongraph (getclass code)) (\<lambda>cl.
     if cl = SYMS_EXPR then bnd (ongraph (getname code)) (\<lambda>x. bnd (is_var x) (\<lambda>v. ret (Some (x, v))))
     else ret None)"

text \<open>\<open>write_expr\<close> returns the name that holds the value, and the text.\<close>

definition write_expr :: "writer \<Rightarrow> addr \<Rightarrow> nat \<Rightarrow> int \<Rightarrow> (scw, string \<times> string) M" where
  "write_expr rec code ind opts =
     bnd (sym_var code) (\<lambda>sv. case sv of
       Some (x, True) \<Rightarrow> ret (get_var_name x, line ind (get_var_name x @ ''->inc();''))
     | _ \<Rightarrow>
         bnd next_expr (\<lambda>e.
         bnd (rec code ind (Some e) opts) (\<lambda>body.
         sq (push_var e) (
         ret (e, line ind ((if sv \<noteq> None then ''static '' else []) @ ''Expr* '' @ e @ '' = NULL;'') @ body @
           (if has_opt opts opt_write_check_sym_expr then
              line ind (''if ('' @ e @ ''->getclass() != SYM_EXPR) {'') @ line (ind + 1) ''exit( 1 );'' @ line ind ''}''
            else []))))))"

definition write_expr_kid :: "writer \<Rightarrow> addr \<Rightarrow> nat \<Rightarrow> nat \<Rightarrow> int \<Rightarrow> (scw, string \<times> string) M" where
  "write_expr_kid rec code i ind opts = bnd (ongraph (getkid code i)) (\<lambda>k. write_expr rec k ind opts)"

definition write_code_kid :: "writer \<Rightarrow> addr \<Rightarrow> nat \<Rightarrow> nat \<Rightarrow> string option \<Rightarrow> (scw, string) M" where
  "write_code_kid rec code i ind r = bnd (ongraph (getkid code i)) (\<lambda>k. rec k ind r 0)"

text \<open>Several expressions, one after the other.\<close>

primrec write_exprs :: "writer \<Rightarrow> addr list \<Rightarrow> nat \<Rightarrow> (scw, string list \<times> string) M" where
  "write_exprs rec [] ind = ret ([], [])"
| "write_exprs rec (a # as) ind =
     bnd (write_expr rec a ind 0) (\<lambda>(e, t).
     bnd (write_exprs rec as ind) (\<lambda>(es, ts).
     ret (e # es, t @ ts)))"

text \<open>The loop of \<open>write_args\<close>; \<open>seen\<close> is \<open>encounterCase\<close>.\<close>

primrec write_args :: "writer \<Rightarrow> addr list \<Rightarrow> bool \<Rightarrow> nat \<Rightarrow> (scw, string list \<times> string) M" where
  "write_args rec [] seen ind = ret ([], [])"
| "write_args rec (k # ks) seen ind =
     bnd (ongraph (getop k)) (\<lambda>opr.
     if seen \<and> opr \<noteq> CASE then ret ([], [])
     else
       bnd (ongraph (getclass k)) (\<lambda>cl.
       bnd (if cl = SYMS_EXPR then bnd (ongraph (getname k)) (\<lambda>x. ret (x, []))
            else write_expr rec k ind 0) (\<lambda>(e, t).
       bnd (write_args rec ks (seen \<or> opr = CASE) ind) (\<lambda>(es, ts).
       ret (e # es, t @ ts)))))"

section \<open>Code\<close>

text \<open>One definition per case of \<open>write_code\<close>.\<close>

definition w_int :: "int \<Rightarrow> nat \<Rightarrow> string option \<Rightarrow> (scw, string) M" where
  "w_int i ind r = gets (\<lambda>w.
     line ind (ret_mod r @ ''new IntExpr( (signed long int)'' @ show_long (get_si w i) @ '' );'') @ line ind (inc_string r))"

definition w_rat :: "rat \<Rightarrow> nat \<Rightarrow> string option \<Rightarrow> (scw, string) M" where
  "w_rat q ind r = gets (\<lambda>w.
     let (num, den) = quotient_of q
     in line ind (ret_mod r @ ''new RatExpr( '' @ show_long (get_si w num) @ '', '' @ show_long (get_si w den) @ '' );'') @
        line ind (inc_string r))"

definition w_sym :: "string \<Rightarrow> nat \<Rightarrow> string option \<Rightarrow> (scw, string) M" where
  "w_sym x ind r =
     bnd (is_var x) (\<lambda>v.
     bnd (if v then ret (line ind (ret_mod r @ get_var_name x @ '';''))
          else sq (add_global_sym (get_var_name x)) (ret (line ind (ret_mod r @ ''e_'' @ get_var_name x @ '';'')))) (\<lambda>t.
     ret (t @ line ind (inc_string r))))"

definition w_app :: "writer \<Rightarrow> nat \<Rightarrow> addr \<Rightarrow> nat \<Rightarrow> string option \<Rightarrow> (scw, string) M" where
  "w_app rec f code ind r =
     bnd (ongraph (collect_args f code True)) (\<lambda>(_, argVector).
     bnd (write_exprs rec argVector ind) (\<lambda>(args, t).
     bnd (ongraph (get_head f True code)) (\<lambda>h.
     bnd (ongraph (getop h)) (\<lambda>opr.
     bnd (if opr = PROG then get_prog_index_by_expr h else ret None) (\<lambda>ix. case ix of
       Some n \<Rightarrow>
         bnd (prog_name n) (\<lambda>pn.
         ret (t @ line ind (ret_mod r @ ''f_'' @ pn @ ''( '' @ commas args @ '' );'') @ concat (map (\<lambda>a. write_dec a ind) args)))
     | None \<Rightarrow>
         bnd (write_expr rec h ind 0) (\<lambda>(e, t').
         ret (t @ t' @ line ind (ret_mod r @ ''new CExpr( APP, '' @ e @ '', '' @ commas args @ '' );''))))))))"

text \<open>The variables of a pattern are declared with the arguments of the scrutinee; \<open>b\<close> counts from 0.\<close>

primrec w_pattern :: "string \<Rightarrow> nat \<Rightarrow> nat \<Rightarrow> addr list \<Rightarrow> (scw, string) M" where
  "w_pattern e ind b [] = ret []"
| "w_pattern e ind b (v # vs) =
     bnd (ongraph (getname v)) (\<lambda>x.
     sq (push_var x) (
     bnd (w_pattern e ind (Suc b) vs) (\<lambda>ts.
     ret (line ind (''Expr* '' @ get_var_name x @ '' = ((CExpr*)'' @ e @ ''->followDefs())->kids['' @ mpz_get_str (b + 1) @ ''];'') @ ts))))"

text \<open>The loop over the cases; \<open>a\<close> counts from 0 and \<open>d\<close> is \<open>encounterDefault\<close>.\<close>

primrec w_cases :: "writer \<Rightarrow> nat \<Rightarrow> string \<Rightarrow> string \<Rightarrow> string list \<Rightarrow> nat \<Rightarrow> string option \<Rightarrow> nat \<Rightarrow> bool \<Rightarrow> addr list
    \<Rightarrow> (scw, string \<times> bool) M" where
  "w_cases rec f e h args ind r a d [] = ret ([], d)"
| "w_cases rec f e h args ind r a d (k # ks) =
     bnd (ongraph (getop k)) (\<lambda>opr.
     bnd (if opr \<noteq> CASE then
            bnd (rec k (ind + 1) r 0) (\<lambda>t.
            ret (indent ind @ (if a \<noteq> 0 then ''}else'' else []) @ ''{'' @ nl @ t @ line ind ''}''))
          else
            bnd (deref (nth_opt args a)) (\<lambda>arg.
            sq (modify (\<lambda>w. w\<lparr>argsCount := Suc (argsCount w)\<rparr>)) (
            bnd (ongraph (bnd (getkid k 0) (\<lambda>p. collect_args f p True))) (\<lambda>(_, caseArgs).
            bnd (w_pattern e (ind + 1) 0 caseArgs) (\<lambda>tp.
            bnd (rec k (ind + 1) r opt_write_case_body) (\<lambda>t.
            ret (indent ind @ (if a \<noteq> 0 then ''}else '' else []) @ ''if( '' @ h @ ''=='' @ arg @ '' ){'' @ nl @ tp @ t)))))))
       (\<lambda>t.
     bnd (w_cases rec f e h args ind r (Suc a) (d \<or> opr \<noteq> CASE) ks) (\<lambda>(ts, d').
     ret (t @ ts, d'))))"

definition w_no_match :: "string \<Rightarrow> string \<Rightarrow> nat \<Rightarrow> string" where
  "w_no_match h pn ind =
     line ind ''}else{'' @
     line (ind + 1) (''std::cout << '' @ [CHR 0x22] @ ''Could not find match for expression in function f_'' @ pn @ '' '' @ [CHR 0x22] @ '';'') @
     line (ind + 1) (h @ ''->print( std::cout );'') @
     line (ind + 1) ''std::cout << std::endl;'' @
     line (ind + 1) ''exit( 1 );'' @
     line ind ''}''"

definition w_match :: "writer \<Rightarrow> nat \<Rightarrow> addr \<Rightarrow> nat \<Rightarrow> string option \<Rightarrow> (scw, string) M" where
  "w_match rec f code ind r =
     bnd (write_expr_kid rec code 0 ind 0) (\<lambda>(e, t1).
     bnd next_expr (\<lambda>h.
     bnd (ongraph (getkids code)) (\<lambda>ks.
     bnd (write_args rec (tl ks) False ind) (\<lambda>(args, t2).
     bnd (w_cases rec f e h args ind r 0 False (tl ks)) (\<lambda>(t3, d).
     bnd (if d then ret [] else bnd (bnd (gets currProgram) prog_name) (\<lambda>pn. ret (w_no_match h pn ind))) (\<lambda>t4.
     ret (t1 @ line ind (''Expr* '' @ h @ '' = '' @ e @ ''->followDefs()->get_head();'') @ t2 @ t3 @ t4 @
       write_dec e ind @ concat (map (\<lambda>a. write_dec a ind) args))))))))"

primrec w_do :: "writer \<Rightarrow> nat \<Rightarrow> string option \<Rightarrow> addr list \<Rightarrow> (scw, string) M" where
  "w_do rec ind r [] = ret []"
| "w_do rec ind r (k # ks) =
     (if ks = [] then rec k ind r 0
      else
        bnd (write_expr rec k ind 0) (\<lambda>(e, t).
        bnd (w_do rec ind r ks) (\<lambda>ts.
        ret (t @ write_dec e ind @ ts))))"

definition w_let :: "writer \<Rightarrow> addr \<Rightarrow> nat \<Rightarrow> string option \<Rightarrow> (scw, string) M" where
  "w_let rec code ind r =
     bnd (ongraph (bnd (getkid code 0) getname)) (\<lambda>x.
     bnd (write_code_kid rec code 1 ind (Some (get_var_name x))) (\<lambda>t1.
     sq (push_var x) (
     bnd (write_code_kid rec code 2 ind r) (\<lambda>t2.
     ret (line ind (''Expr* '' @ get_var_name x @ '' = NULL;'') @ t1 @ t2 @ write_dec (get_var_name x) ind)))))"

text \<open>\<open>get_num()\<close> of the first kid as text, on a platform where \<open>unsigned long\<close> has 64 bits.\<close>

definition w_num :: "addr \<Rightarrow> (scw, string) M" where
  "w_num code = ongraph (bnd (getkid code 0) (\<lambda>k. bnd (getnode k) (\<lambda>nd. case nd of
     IntExpr i \<Rightarrow> ret (mpz_get_str (nat (\<bar>i\<bar> mod 2 ^ 64))) | _ \<Rightarrow> stop Undefined)))"

definition w_markvar :: "writer \<Rightarrow> addr \<Rightarrow> nat \<Rightarrow> string option \<Rightarrow> (scw, string) M" where
  "w_markvar rec code ind r =
     bnd (write_expr_kid rec code 1 ind opt_write_check_sym_expr) (\<lambda>(e, t).
     bnd (w_num code) (\<lambda>num.
     ret (t @
       line ind (''if ( ((SymExpr*)'' @ e @ ''->followDefs())->getmark('' @ num @ ''))'') @
       line (ind + 1) (''((SymExpr*)'' @ e @ ''->followDefs())->clearmark('' @ num @ '');'') @
       line ind ''else'' @
       line (ind + 1) (''((SymExpr*)'' @ e @ ''->followDefs())->setmark('' @ num @ '');'') @
       (if r \<noteq> None then line ind (ret_mod r @ e @ '';'') @ line ind (inc_string r) else []) @
       write_dec e ind)))"

text \<open>An if statement with the code of two kids as its branches.\<close>

definition w_branches :: "writer \<Rightarrow> addr \<Rightarrow> nat \<Rightarrow> nat \<Rightarrow> string option \<Rightarrow> nat \<Rightarrow> string \<Rightarrow> (scw, string) M" where
  "w_branches rec code i ind r ind' cond =
     bnd (write_code_kid rec code i ind' r) (\<lambda>t1.
     bnd (write_code_kid rec code (Suc i) ind' r) (\<lambda>t2.
     ret (line ind (cond @ ''){'') @ t1 @ line ind ''}else{'' @ t2 @ line ind ''}'')))"

definition w_compare :: "writer \<Rightarrow> addr \<Rightarrow> nat \<Rightarrow> string option \<Rightarrow> (scw, string) M" where
  "w_compare rec code ind r =
     bnd (write_expr_kid rec code 0 ind opt_write_check_sym_expr) (\<lambda>(e1, t1).
     bnd (write_expr_kid rec code 1 ind opt_write_check_sym_expr) (\<lambda>(e2, t2).
     bnd (w_branches rec code 2 ind r (ind + 1)
       (''if( ((SymExpr*)'' @ e1 @ '')->followDefs() < ((SymExpr*)'' @ e2 @ '')->followDefs() '')) (\<lambda>t3.
     ret (t1 @ t2 @ t3 @ write_dec e1 ind @ write_dec e2 ind))))"

definition w_ifequal :: "writer \<Rightarrow> addr \<Rightarrow> nat \<Rightarrow> string option \<Rightarrow> (scw, string) M" where
  "w_ifequal rec code ind r =
     bnd (write_expr_kid rec code 0 ind opt_write_check_sym_expr) (\<lambda>(e1, t1).
     bnd (write_expr_kid rec code 1 ind opt_write_check_sym_expr) (\<lambda>(e2, t2).
     bnd (w_branches rec code 2 ind r (ind + 1) (''if( '' @ e1 @ ''->defeq( '' @ e2 @ '') '')) (\<lambda>t3.
     ret (t1 @ t2 @ t3 @ write_dec e1 ind @ write_dec e2 ind))))"

definition w_ifmarked :: "writer \<Rightarrow> addr \<Rightarrow> nat \<Rightarrow> string option \<Rightarrow> (scw, string) M" where
  "w_ifmarked rec code ind r =
     bnd (write_expr_kid rec code 1 ind opt_write_check_sym_expr) (\<lambda>(e, t1).
     bnd (w_num code) (\<lambda>num.
     bnd (w_branches rec code 2 ind r (ind + 1) (''if ( ((SymExpr*)'' @ e @ ''->followDefs())->getmark('' @ num @ '')'')) (\<lambda>t2.
     ret (t1 @ t2 @ write_dec e ind))))"

text \<open>
  The two halves of an arithmetic operation, for integers (\<open>mpz\<close>, \<open>IntExpr\<close>, \<open>INT_EXPR\<close>) and for rationals (\<open>mpq\<close>, \<open>RatExpr\<close>,
  \<open>RAT_EXPR\<close>): a block that computes with the function \<open>mpz_fn\<close> or \<open>mpq_fn\<close> of GMP.
\<close>

definition w_num_block :: "string \<Rightarrow> string \<Rightarrow> string \<Rightarrow> string \<Rightarrow> nat \<Rightarrow> string option \<Rightarrow> string" where
  "w_num_block mp ex call rnum ind r =
     line (ind + 1) (mp @ ''_t '' @ rnum @ '';'') @
     line (ind + 1) (mp @ ''_init('' @ rnum @ '');'') @
     line (ind + 1) (mp @ ''_'' @ call) @
     line (ind + 1) (ret_mod r @ ''new '' @ ex @ ''('' @ rnum @ '');'')"

definition w_by_class :: "string \<Rightarrow> nat \<Rightarrow> string \<Rightarrow> string \<Rightarrow> string" where
  "w_by_class e1 ind b1 b2 =
     line ind (''if( '' @ e1 @ ''->followDefs()->getclass()==INT_EXPR ){'') @ b1 @
     line ind (''}else if( '' @ e1 @ ''->followDefs()->getclass()==RAT_EXPR ){'') @ b2 @
     line ind ''}''"

definition arith_fn_int :: "op \<Rightarrow> string" where
  "arith_fn_int opr = (if opr = ADD then ''add'' else ''mul'')"

definition arith_fn_rat :: "op \<Rightarrow> string" where
  "arith_fn_rat opr = (if opr = ADD then ''add'' else if opr = MUL then ''mul'' else ''div'')"

definition w_arith :: "writer \<Rightarrow> op \<Rightarrow> addr \<Rightarrow> nat \<Rightarrow> string option \<Rightarrow> (scw, string) M" where
  "w_arith rec opr code ind r =
     bnd (write_expr_kid rec code 0 ind 0) (\<lambda>(e1, t1).
     bnd (write_expr_kid rec code 1 ind 0) (\<lambda>(e2, t2).
     bnd next_rnum (\<lambda>rnum.
     ret (t1 @ t2 @
       w_by_class e1 ind
         (w_num_block ''mpz'' ''IntExpr'' (arith_fn_int opr @ ''( '' @ rnum @ '', ((IntExpr*)'' @ e1 @ ''->followDefs())->n, ((IntExpr*)'' @ e2
            @ ''->followDefs())->n);'') rnum ind r)
         (w_num_block ''mpq'' ''RatExpr'' (arith_fn_rat opr @ ''( '' @ rnum @ '', ((RatExpr*)'' @ e1 @ ''->followDefs())->n, ((RatExpr*)'' @ e2
            @ ''->followDefs())->n);'') rnum ind r) @
       write_dec e1 ind @ write_dec e2 ind))))"

definition w_neg :: "writer \<Rightarrow> addr \<Rightarrow> nat \<Rightarrow> string option \<Rightarrow> (scw, string) M" where
  "w_neg rec code ind r =
     bnd (write_expr_kid rec code 0 ind 0) (\<lambda>(e1, t1).
     bnd next_rnum (\<lambda>rnum.
     ret (t1 @
       w_by_class e1 ind
         (w_num_block ''mpz'' ''IntExpr'' (''neg( '' @ rnum @ '', ((IntExpr*)'' @ e1 @ ''->followDefs())->n );'') rnum ind r)
         (w_num_block ''mpq'' ''RatExpr'' (''neg( '' @ rnum @ '', ((RatExpr*)'' @ e1 @ ''->followDefs())->n );'') rnum ind r) @
       write_dec e1 ind)))"

definition w_mpz_to_mpq :: "writer \<Rightarrow> addr \<Rightarrow> nat \<Rightarrow> string option \<Rightarrow> (scw, string) M" where
  "w_mpz_to_mpq rec code ind r =
     bnd (write_expr_kid rec code 0 ind 0) (\<lambda>(e1, t1).
     bnd next_rnum (\<lambda>rnum.
     ret (t1 @
       line ind (''mpq_t '' @ rnum @ '';'') @
       line ind (''mpq_init('' @ rnum @ '');'') @
       line ind (''mpq_set_num( '' @ rnum @ '', ((IntExpr*)'' @ e1 @ ''->followDefs())->n );'') @
       line ind (ret_mod r @ ''new RatExpr('' @ rnum @ '');'') @
       write_dec e1 ind)))"

text \<open>Both branches are written twice.\<close>

definition w_if :: "writer \<Rightarrow> op \<Rightarrow> addr \<Rightarrow> nat \<Rightarrow> string option \<Rightarrow> (scw, string) M" where
  "w_if rec opr code ind r =
     bnd (write_expr_kid rec code 0 ind 0) (\<lambda>(e1, t1).
     bnd (w_branches rec code 1 (ind + 1) r (ind + 2)
       (''if( mpz_sgn( ((IntExpr *)'' @ e1 @ ''->followDefs())->n ) '' @ (if opr = IFNEG then ''<'' else ''=='') @ '' 0 '')) (\<lambda>b1.
     bnd (w_branches rec code 1 (ind + 1) r (ind + 2)
       (''if( mpq_sgn( ((RatExpr *)'' @ e1 @ ''->followDefs())->n ) '' @ (if opr = IFNEG then ''<'' else ''=='') @ '' 0 '')) (\<lambda>b2.
     ret (t1 @ w_by_class e1 ind b1 b2 @ write_dec e1 ind))))"

definition w_case :: "writer \<Rightarrow> nat \<Rightarrow> addr \<Rightarrow> nat \<Rightarrow> string option \<Rightarrow> int \<Rightarrow> (scw, string) M" where
  "w_case rec f code ind r opts =
     (if has_opt opts opt_write_case_body then write_code_kid rec code 1 ind r
      else bnd (ongraph (bnd (getkid code 0) (get_head f True))) (\<lambda>h. rec h ind r 0))"

definition w_op :: "writer \<Rightarrow> nat \<Rightarrow> op \<Rightarrow> addr \<Rightarrow> nat \<Rightarrow> string option \<Rightarrow> int \<Rightarrow> (scw, string) M" where
  "w_op rec f opr code ind r opts = (case opr of
       APP \<Rightarrow> w_app rec f code ind r
     | MATCH \<Rightarrow> w_match rec f code ind r
     | CASE \<Rightarrow> w_case rec f code ind r opts
     | DO \<Rightarrow> bnd (ongraph (getkids code)) (w_do rec ind r)
     | LET \<Rightarrow> w_let rec code ind r
     | FAIL \<Rightarrow> ret (line ind (ret_mod r @ ''NULL;''))
     | MARKVAR \<Rightarrow> w_markvar rec code ind r
     | COMPARE \<Rightarrow> w_compare rec code ind r
     | IFEQUAL \<Rightarrow> w_ifequal rec code ind r
     | IFMARKED \<Rightarrow> w_ifmarked rec code ind r
     | ADD \<Rightarrow> w_arith rec ADD code ind r
     | MUL \<Rightarrow> w_arith rec MUL code ind r
     | DIV \<Rightarrow> w_arith rec DIV code ind r
     | NEG \<Rightarrow> w_neg rec code ind r
     | MPZ_TO_MPQ \<Rightarrow> w_mpz_to_mpq rec code ind r
     | IFNEG \<Rightarrow> w_if rec IFNEG code ind r
     | IFZERO \<Rightarrow> w_if rec IFZERO code ind r
     | _ \<Rightarrow> ret [])"

primrec write_code :: "nat \<Rightarrow> writer" where
  "write_code 0 code ind r opts = stop OutOfFuel"
| "write_code (Suc n) code ind r opts =
     bnd (ongraph (getnode code)) (\<lambda>nd. case nd of
       IntExpr i \<Rightarrow> w_int i ind r
     | RatExpr q \<Rightarrow> w_rat q ind r
     | SymSExpr x \<Rightarrow> w_sym x ind r
     | _ \<Rightarrow> w_op (write_code n) n (op_of nd) code ind r opts)"

section \<open>Files\<close>

text \<open>The names of the parameters of a program.\<close>

definition prog_params :: "nat \<Rightarrow> (scw, string list) M" where
  "prog_params index =
     bnd (get_prog index) (\<lambda>p.
     ongraph (bnd (getkid p 1) (\<lambda>pv. bnd (getkids pv) (map_M getname))))"

text \<open>The debug version prints its arguments.\<close>

definition header_debug :: "string \<Rightarrow> string list \<Rightarrow> string" where
  "header_debug fname xs =
     ''{'' @ nl @
     line 1 (''std::cout << '' @ [CHR 0x22] @ ''Call function '' @ fname @ '' with arguments '' @ [CHR 0x22] @ '';'') @
     (case map (\<lambda>x. line 1 (get_var_name x @ ''->print( std::cout );'')) xs of
        [] \<Rightarrow> []
      | l # ls \<Rightarrow> l @ concat (map (\<lambda>l. line 1 (''std::cout << '' @ [CHR 0x22] @ '', '' @ [CHR 0x22] @ '';'') @ l) ls)) @
     line 1 ''std::cout << std::endl;''"

definition write_function_header :: "nat \<Rightarrow> int \<Rightarrow> (scw, string) M" where
  "write_function_header index opts =
     bnd (prog_name index) (\<lambda>pn.
     bnd (prog_params index) (\<lambda>xs.
     sq (if has_opt opts opt_write_add_args then iter_M push_var xs else ret ()) (
     ret (''Expr* '' @ get_function_name pn @ ''( '' @ commas (map (\<lambda>x. ''Expr* '' @ get_var_name x) xs) @ '' )'' @
       (if has_opt opts opt_write_call_debug then header_debug (get_function_name pn) xs else [])))))"

definition write_header_file :: "(scw, string) M" where
  "write_header_file =
     bnd (gets (\<lambda>w. length (scw_progs w))) (\<lambda>size1.
     bnd (map_M (\<lambda>n. bnd (write_function_header n 0) (\<lambda>t. ret (''inline '' @ t @ '';'' @ nl @ nl))) [0..<size1]) (\<lambda>hs.
     ret (''#ifndef SCC_CODE_H'' @ nl @ ''#define SCC_CODE_H'' @ nl @ nl @
       ''#include '' @ [CHR 0x22] @ ''check.h'' @ [CHR 0x22] @ nl @ nl @
       ''void init_compiled_scc();'' @ nl @ nl @
       ''Expr* run_compiled_scc( Expr* p, std::vector< Expr* >& args );'' @ nl @ nl @
       concat hs @ ''#endif'' @ nl @ nl)))"

text \<open>The function of one program.\<close>

definition write_function :: "nat \<Rightarrow> nat \<Rightarrow> (scw, string) M" where
  "write_function f n =
     sq (modify (\<lambda>w. w\<lparr>currProgram := n, scw_vars := [], exprCount := 0, argsCount := 0, rnumCount := 0\<rparr>)) (
     bnd (gets scw_options) (\<lambda>opts.
     bnd (write_function_header n (opt_write_add_args OR opts)) (\<lambda>h.
     bnd (bnd (get_prog n) (\<lambda>p. ongraph (getkid p 2))) (\<lambda>body.
     bnd (write_expr (write_code f) body 1 0) (\<lambda>(e, t).
     ret (h @ (if has_opt opts opt_write_call_debug then [] else ''{'' @ nl) @ t @ line 1 (''return '' @ e @ '';'') @ ''}'' @ nl @ nl))))))"

definition write_dispatch :: "nat \<Rightarrow> (scw, string) M" where
  "write_dispatch n =
     bnd (prog_name n) (\<lambda>pn.
     bnd (prog_params n) (\<lambda>xs.
     ret (indent 1 @ (if n \<noteq> 0 then ''}else '' else []) @ ''if( p==e_'' @ pn @ '' ){'' @ nl @
       indent 2 @ ''return '' @ get_function_name pn @ ''( '' @
       commas (map (\<lambda>i. ''args['' @ mpz_get_str i @ '']'') [0..<length xs]) @ '' );'' @ nl)))"

definition write_code_file :: "nat \<Rightarrow> (scw, string) M" where
  "write_code_file f =
     bnd (gets (\<lambda>w. length (scw_progs w))) (\<lambda>size1.
     bnd (map_M (write_function f) [0..<size1]) (\<lambda>funs.
     bnd (gets globalSyms) (\<lambda>syms.
     bnd (map_M prog_name [0..<size1]) (\<lambda>pns.
     bnd (map_M write_dispatch [0..<size1]) (\<lambda>ds.
     ret (''#include '' @ [CHR 0x22] @ ''scccode.h'' @ [CHR 0x22] @ nl @ nl @
       concat (map (\<lambda>x. ''Expr* e_'' @ x @ '';'' @ nl) (syms @ pns)) @ nl @
       ''void init_compiled_scc(){'' @ nl @
       concat (map (\<lambda>x. line 1 (''e_'' @ x @ '' = symbols->get('' @ [CHR 0x22] @ x @ [CHR 0x22] @ '').first;'')) syms) @
       concat (map (\<lambda>x. line 1 (''e_'' @ x @ '' = progs['' @ [CHR 0x22] @ x @ [CHR 0x22] @ ''];'')) pns) @
       ''}'' @ nl @ nl @
       ''Expr* run_compiled_scc( Expr* p, std::vector< Expr* >& args ){'' @ nl @
       concat ds @
       line 1 ''}else{'' @ line 2 ''return NULL;'' @ line 1 ''}'' @ ''}'' @ nl @ nl @
       concat funs))))))"

text \<open>\<open>write_file\<close>: the texts of \<open>scccode.h\<close> and \<open>scccode.cpp\<close>; the counter of the loop over the programs is left at its end.\<close>

definition write_file :: "nat \<Rightarrow> (scw, string \<times> string) M" where
  "write_file f =
     bnd write_header_file (\<lambda>h.
     bnd (write_code_file f) (\<lambda>c.
     sq (modify (\<lambda>w. w\<lparr>currProgram := length (scw_progs w)\<rparr>)) (ret (h, c))))"

section \<open>Debug output\<close>

definition debug_op :: "op \<Rightarrow> string" where
  "debug_op opr = (case opr of
       APP \<Rightarrow> ''app'' | PI \<Rightarrow> ''pi'' | LAM \<Rightarrow> ''lam'' | TYPE_E \<Rightarrow> ''type'' | KIND \<Rightarrow> ''kind'' | ASCRIBE \<Rightarrow> ''ascribe''
     | MPZ \<Rightarrow> ''mpz'' | PROG \<Rightarrow> ''prog'' | PROGVARS \<Rightarrow> ''progvars'' | MATCH \<Rightarrow> ''match'' | CASE \<Rightarrow> ''case'' | PAT \<Rightarrow> ''pat''
     | DO \<Rightarrow> ''do'' | ADD \<Rightarrow> ''add'' | NEG \<Rightarrow> ''neg'' | LET \<Rightarrow> ''let'' | RUN \<Rightarrow> ''run'' | FAIL \<Rightarrow> ''fail''
     | MARKVAR \<Rightarrow> ''markvar'' | IFMARKED \<Rightarrow> ''ifmarked'' | COMPARE \<Rightarrow> ''compare'' | _ \<Rightarrow> ''???'')"

primrec debug_write_code :: "nat \<Rightarrow> addr \<Rightarrow> nat \<Rightarrow> (st, string) M" where
  "debug_write_code 0 code ind = stop OutOfFuel"
| "debug_write_code (Suc n) code ind =
     bnd (getnode code) (\<lambda>nd.
     bnd (if op_of nd \<noteq> NOT_CEXPR then
            bnd (getkids code) (\<lambda>ks. bnd (map_M (\<lambda>k. debug_write_code n k (ind + 1)) ks) (\<lambda>ts. ret (concat ts)))
          else ret []) (\<lambda>kids.
     ret (line ind (case nd of
         IntExpr i \<Rightarrow> ''int_expr''
       | SymSExpr x \<Rightarrow> ''syms_expr: '' @ x
       | _ \<Rightarrow> (case class_of nd of HOLE_EXPR \<Rightarrow> ''hole_expr'' | SYM_EXPR \<Rightarrow> ''sym_expr'' | _ \<Rightarrow> debug_op (op_of nd))) @ kids)))"

end
