(* ===== verification/LFSC_Scan.thy ===== *)
theory LFSC_Scan
  imports LFSC_Token LFSC_Text
begin

text \<open>
  The scanner: the patterns and rules of \<open>src/src/lexer.flex\<close>.  A pattern is a regular expression \<open>pat\<close> with the set of
  strings \<open>lang\<close> it stands for; \<open>munch\<close> is the rule that flex documents for a list of patterns, the longest match and among
  the longest matches the pattern listed first, computed with derivatives.  \<open>scan_token\<close> is one call of \<open>yylex\<close> with the actions of
  the rules, \<open>scan_all\<close> the tokens of a whole text, each with its text and the source location after it.  What
  \<open>yyinput\<close> returns at the end of the input is the argument \<open>eof\<close>: 0 or \<open>EOF\<close>, depending on the version of flex.  The option \<open>full\<close>
  of the file makes flex generate tables for 7-bit characters: the model describes the scanner on such input.

  \<open>munch_winner\<close> says that \<open>munch\<close> is the longest match; \<open>munch_lexeme\<close> that on the rules of the file it
  is the hand-written lexical grammar \<open>lexeme\<close>: brackets, numerals, words; \<open>scan_tokens\<close> that the scanner returns on every text, with
  the tokens of the grammar; \<open>scan_all_at\<close> that the locations are positions in the text.
\<close>

section \<open>Patterns\<close>

datatype pat =
    Never
  | Empty
  | OneOf string
  | NoneOf string
  | Seq pat pat
  | Alt pat pat
  | Rep pat

primrec lang :: "pat \<Rightarrow> string set" where
  "lang Never = {}"
| "lang Empty = {[]}"
| "lang (OneOf cs) = {[c] | c. c \<in> set cs}"
| "lang (NoneOf cs) = {[c] | c. c \<notin> set cs}"
| "lang (Seq p q) = {u @ v | u v. u \<in> lang p \<and> v \<in> lang q}"
| "lang (Alt p q) = lang p \<union> lang q"
| "lang (Rep p) = {concat us | us. set us \<subseteq> lang p}"

primrec has_empty :: "pat \<Rightarrow> bool" where
  "has_empty Never = False"
| "has_empty Empty = True"
| "has_empty (OneOf cs) = False"
| "has_empty (NoneOf cs) = False"
| "has_empty (Seq p q) = (has_empty p \<and> has_empty q)"
| "has_empty (Alt p q) = (has_empty p \<or> has_empty q)"
| "has_empty (Rep p) = True"

definition mk_seq :: "pat \<Rightarrow> pat \<Rightarrow> pat" where
  "mk_seq p q = (if p = Never then Never else if p = Empty then q else Seq p q)"

definition mk_alt :: "pat \<Rightarrow> pat \<Rightarrow> pat" where
  "mk_alt p q = (if p = Never then q else if q = Never then p else Alt p q)"

text \<open>What is left of a pattern after the character \<open>c\<close>.\<close>

primrec after_char :: "char \<Rightarrow> pat \<Rightarrow> pat" where
  "after_char c Never = Never"
| "after_char c Empty = Never"
| "after_char c (OneOf cs) = (if c \<in> set cs then Empty else Never)"
| "after_char c (NoneOf cs) = (if c \<in> set cs then Never else Empty)"
| "after_char c (Seq p q) = (if has_empty p then mk_alt (mk_seq (after_char c p) q) (after_char c q) else mk_seq (after_char c p) q)"
| "after_char c (Alt p q) = mk_alt (after_char c p) (after_char c q)"
| "after_char c (Rep p) = mk_seq (after_char c p) (Rep p)"

text \<open>\<open>+\<close> and a quoted string.\<close>

abbreviation some_of :: "pat \<Rightarrow> pat" where
  "some_of p \<equiv> Seq p (Rep p)"

definition quoted :: "string \<Rightarrow> pat" where
  "quoted s = foldr (\<lambda>c. Seq (OneOf [c])) s Empty"

section \<open>The longest match\<close>

definition match_here :: "(pat \<times> 'a) list \<Rightarrow> (nat \<times> 'a) option" where
  "match_here rs = map_option (\<lambda>(p, a). (0, a)) (find (\<lambda>(p, a). has_empty p) rs)"

definition advance :: "char \<Rightarrow> (pat \<times> 'a) list \<Rightarrow> (pat \<times> 'a) list" where
  "advance c rs = filter (\<lambda>(p, a). p \<noteq> Never) (map (\<lambda>(p, a). (after_char c p, a)) rs)"

fun munch :: "(pat \<times> 'a) list \<Rightarrow> string \<Rightarrow> (nat \<times> 'a) option" where
  "munch [] cs = None"
| "munch rs [] = match_here rs"
| "munch rs (c # cs) =
     (case munch (advance c rs) cs of Some (n, a) \<Rightarrow> Some (Suc n, a) | None \<Rightarrow> match_here rs)"

section \<open>The rules\<close>

datatype action = Return token | White | Newlines | Comment

abbreviation newline :: char where "newline \<equiv> CHR 0x0A"
abbreviation tab :: char where "tab \<equiv> CHR 0x09"
abbreviation formfeed :: char where "formfeed \<equiv> CHR 0x0C"

definition nl_pat :: pat where "nl_pat = some_of (OneOf [newline])"
definition ws_pat :: pat where "ws_pat = some_of (OneOf [CHR '' '', tab, formfeed])"
definition dig_pat :: pat where "dig_pat = OneOf ''0123456789''"
definition markvar_pat :: pat where "markvar_pat = Seq (quoted ''markvar'') (Rep dig_pat)"
definition ifmarked_pat :: pat where "ifmarked_pat = Seq (quoted ''ifmarked'') (Rep dig_pat)"
definition natural_pat :: pat where "natural_pat = some_of dig_pat"
definition rational_pat :: pat where "rational_pat = Seq (some_of dig_pat) (Seq (OneOf ''/'') (some_of dig_pat))"
definition ident_pat :: pat where
  "ident_pat = Seq (NoneOf (''0123456789'' @ ''^'' @ [CHR 0x5C] @ ''~:@!%() '' @ [tab, newline, formfeed] @ '';''))
     (Rep (NoneOf (''() '' @ [tab, newline, formfeed] @ '';'')))"

text \<open>The rules whose pattern is a quoted string, in the order of the file.\<close>

definition reserved :: "(string \<times> token) list" where
  "reserved =
     [(''declare'', TDeclare), (''define'', TDefine), (''check'', TCheck), (''program'', TProgram),
      (''function'', TFunction), (''opaque'', TOpaque), (''run'', TRun), (''type'', TType),
      (''%'', TPercent), (''!'', TBang), (''#'', TPound), (''@'', TAt), ('':'', TColon),
      ([CHR 0x5C], TReverseSolidus), (''^'', TCaret), (''_'', THole),
      (''let'', TLet), (''~'', TTilde), (''do'', TDo), (''match'', TMatch), (''default'', TDefault),
      (''mpz'', TMpz), (''mpq'', TMpq), (''mp_add'', TMpAdd), (''mp_neg'', TMpNeg), (''mp_div'', TMpDiv),
      (''mp_mul'', TMpMul), (''mp_ifneg'', TMpIfNeg), (''mp_ifzero'', TMpIfZero), (''mpz_to_mpq'', TMpzToMpq),
      (''compare'', TCompare), (''ifequal'', TIfEqual), (''fail'', TFail),
      (''('', TOpen), ('')'', TClose),
      (''provided'', TProvided), (''declare-rule'', TDeclareRule), (''declare-type'', TDeclareType),
      (''define-const'', TDefineConst), (''pi'', TForall), (''->'', TArrow), (''lam'', TLam),
      (''check-assuming'', TCheckAssuming)]"

definition lex_rules :: "(pat \<times> action) list" where
  "lex_rules = map (\<lambda>(s, t). (quoted s, Return t)) reserved @
     [(markvar_pat, Return TMarkVar), (ifmarked_pat, Return TIfMarked), (natural_pat, Return TNatural),
      (rational_pat, Return TRational), (ws_pat, White), (nl_pat, Newlines), (quoted '';'', Comment), (ident_pat, Return TIdent)]"

section \<open>The scanner\<close>

text \<open>The loop of the comment rule: whether it has seen the end of the line, and the rest of the input.\<close>

partial_function (option) skip_comment :: "int \<Rightarrow> string \<Rightarrow> (bool \<times> string) option" where
  "skip_comment eof cs =
     (let (c, r) = (case cs of [] \<Rightarrow> (eof, []) | d # ds \<Rightarrow> (of_char d, ds))
      in if c = 0 then Some (False, r)
         else if c = 10 then Some (True, r)
         else skip_comment eof r)"

text \<open>
  The rules on an input, until one of them returns: the token, its text, the rest of the input and the span.
  A character without a rule is echoed.
\<close>

partial_function (option) scan_loop :: "int \<Rightarrow> string \<Rightarrow> span \<Rightarrow> (token \<times> string \<times> string \<times> span) option" where
  "scan_loop eof cs sp =
     (if cs = [] then Some (TEof, [], [], sp)
      else case munch lex_rules cs of
        None \<Rightarrow> scan_loop eof (tl cs) (add_columns 1 sp)
      | Some (n, a) \<Rightarrow>
          let sp = add_columns (of_nat n) sp; r = drop n cs
          in case a of
               Return t \<Rightarrow> Some (t, take n cs, r, sp)
             | White \<Rightarrow> scan_loop eof r (bump_span sp)
             | Newlines \<Rightarrow> scan_loop eof r (bump_span (add_lines (of_nat n) sp))
             | Comment \<Rightarrow>
                 Option.bind (skip_comment eof r) (\<lambda>(b, r).
                 scan_loop eof r (if b then bump_span (add_lines 1 sp) else sp)))"

definition scan_token :: "int \<Rightarrow> string \<Rightarrow> span \<Rightarrow> (token \<times> string \<times> string \<times> span) option" where
  "scan_token eof cs sp = scan_loop eof cs (bump_span sp)"

partial_function (option) scan_all :: "int \<Rightarrow> string \<Rightarrow> span \<Rightarrow> (token \<times> string \<times> span) list option" where
  "scan_all eof cs sp =
     Option.bind (scan_token eof cs sp) (\<lambda>(t, x, r, sp).
     if t = TEof then Some []
     else Option.bind (scan_all eof r sp) (\<lambda>ts. Some ((t, x, sp) # ts)))"

definition scan :: "int \<Rightarrow> string \<Rightarrow> (token \<times> string) list option" where
  "scan eof cs = map_option (map (\<lambda>(t, x, sp). (t, x))) (scan_all eof cs init_s_span)"

section \<open>Derivatives\<close>

lemma all_nat_split: "(\<forall>m \<le> k. P m) \<longleftrightarrow> P (0 :: nat) \<and> (\<forall>m \<le> k. 0 < m \<longrightarrow> P m)"
  by (metis le0 neq0_conv)

lemma has_empty_iff: "has_empty p \<longleftrightarrow> [] \<in> lang p"
proof (induction p)
  case (Rep p)
  show ?case by (simp add: exI [of _ "[]"])
qed auto

lemma lang_mk_seq: "lang (mk_seq p q) = lang (Seq p q)"
  by (auto simp: mk_seq_def)

lemma lang_mk_alt: "lang (mk_alt p q) = lang (Alt p q)"
  by (auto simp: mk_alt_def)

lemma concat_Cons_split:
  "c # w = concat us \<Longrightarrow> set us \<subseteq> L \<Longrightarrow> \<exists>u us'. w = u @ concat us' \<and> c # u \<in> L \<and> set us' \<subseteq> L"
  by (induction us) (auto simp: Cons_eq_append_conv)

lemma rep_Cons: "c # w \<in> lang (Rep p) \<longleftrightarrow> (\<exists>u v. w = u @ v \<and> c # u \<in> lang p \<and> v \<in> lang (Rep p))"
proof
  assume "c # w \<in> lang (Rep p)"
  then obtain us where "c # w = concat us" "set us \<subseteq> lang p" by auto
  from concat_Cons_split [OF this] show "\<exists>u v. w = u @ v \<and> c # u \<in> lang p \<and> v \<in> lang (Rep p)" by auto
next
  assume "\<exists>u v. w = u @ v \<and> c # u \<in> lang p \<and> v \<in> lang (Rep p)"
  then obtain u us where "w = u @ concat us" "c # u \<in> lang p" "set us \<subseteq> lang p" by auto
  then have "c # w = concat ((c # u) # us)" "set ((c # u) # us) \<subseteq> lang p" by simp_all
  then show "c # w \<in> lang (Rep p)" by (simp only: lang.simps) blast
qed

lemma after_char_lang: "w \<in> lang (after_char c p) \<longleftrightarrow> c # w \<in> lang p"
proof (induction p arbitrary: w)
  case (Seq p q)
  show ?case
  proof (cases "has_empty p")
    case True
    then have e: "[] \<in> lang p" by (simp add: has_empty_iff)
    have "c # w \<in> lang (Seq p q) \<longleftrightarrow>
        (\<exists>u v. w = u @ v \<and> c # u \<in> lang p \<and> v \<in> lang q) \<or> c # w \<in> lang q"
      using e by (auto simp: Cons_eq_append_conv)
    with True Seq.IH show ?thesis by (auto simp: lang_mk_alt lang_mk_seq)
  next
    case False
    then have "[] \<notin> lang p" by (simp add: has_empty_iff)
    then have "c # w \<in> lang (Seq p q) \<longleftrightarrow> (\<exists>u v. w = u @ v \<and> c # u \<in> lang p \<and> v \<in> lang q)"
      by (auto simp: Cons_eq_append_conv)
    with False Seq.IH show ?thesis by (auto simp: lang_mk_seq)
  qed
next
  case (Rep p)
  then show ?case unfolding rep_Cons after_char.simps lang_mk_seq by simp
qed (auto simp: lang_mk_alt)

section \<open>Longest match, first rule\<close>

text \<open>The action of the first rule whose pattern has the string \<open>w\<close>.\<close>

definition winner :: "(pat \<times> 'a) list \<Rightarrow> string \<Rightarrow> 'a option" where
  "winner rs w = map_option snd (find (\<lambda>(p, a). w \<in> lang p) rs)"

lemma winner_simps:
  "winner [] w = None"
  "winner ((p, a) # rs) w = (if w \<in> lang p then Some a else winner rs w)"
  by (simp_all add: winner_def)

lemma winner_advance: "winner (advance c rs) w = winner rs (c # w)"
proof (induction rs)
  case (Cons r rs)
  moreover have "c # w \<notin> lang p" if "after_char c p = Never" for p
    using after_char_lang [of w c p] that by simp
  ultimately show ?case by (cases r) (simp add: advance_def winner_simps after_char_lang)
qed (simp add: advance_def winner_simps)

lemma match_here_winner: "match_here rs = map_option (\<lambda>a. (0, a)) (winner rs [])"
  by (induction rs) (auto simp: match_here_def winner_def has_empty_iff split: if_splits)

definition longest :: "(pat \<times> 'a) list \<Rightarrow> string \<Rightarrow> nat \<Rightarrow> 'a \<Rightarrow> bool" where
  "longest rs cs n a \<longleftrightarrow> n \<le> length cs \<and> winner rs (take n cs) = Some a \<and>
     (\<forall>m. n < m \<longrightarrow> m \<le> length cs \<longrightarrow> winner rs (take m cs) = None)"

lemma munch_winner:
  "case munch rs cs of
     None \<Rightarrow> \<forall>m \<le> length cs. winner rs (take m cs) = None
   | Some (n, a) \<Rightarrow> longest rs cs n a"
proof (induction rs cs rule: munch.induct)
  case (1 cs)
  then show ?case by (simp add: winner_simps)
next
  case (2 r rs)
  then show ?case by (cases "winner (r # rs) []") (simp_all add: match_here_winner longest_def)
next
  case (3 r rs c cs)
  let ?rs = "r # rs"
  show ?case
  proof (cases "munch (advance c ?rs) cs")
    case None
    with 3 have "winner ?rs (take m (c # cs)) = None" if "m \<le> Suc (length cs)" "0 < m" for m
      using that by (cases m) (simp_all add: winner_advance)
    then show ?thesis
      using None by (cases "winner ?rs []") (auto simp: match_here_winner longest_def gr0_conv_Suc all_nat_split)
  next
    case (Some na)
    then obtain n a where na: "munch (advance c ?rs) cs = Some (n, a)" by (cases na) auto
    with 3 have l: "longest (advance c ?rs) cs n a" by simp
    have "longest ?rs (c # cs) (Suc n) a"
      unfolding longest_def
    proof (intro conjI allI impI)
      fix m assume "Suc n < m" "m \<le> length (c # cs)"
      then show "winner ?rs (take m (c # cs)) = None"
        using l by (cases m) (simp_all add: longest_def winner_advance)
    qed (use l in \<open>simp_all add: longest_def winner_advance\<close>)
    then show ?thesis using na by simp
  qed
qed

lemma longest_munch: "longest rs cs n a \<Longrightarrow> munch rs cs = Some (n, a)"
proof -
  assume l: "longest rs cs n a"
  show ?thesis
  proof (cases "munch rs cs")
    case None
    with munch_winner [where rs = rs and cs = cs] l show ?thesis by (auto simp: longest_def)
  next
    case (Some mb)
    then obtain m b where "munch rs cs = Some (m, b)" by (cases mb) auto
    moreover with munch_winner [where rs = rs and cs = cs] have "longest rs cs m b" by simp
    ultimately show ?thesis using l by (auto simp: longest_def) (metis linorder_neqE_nat option.distinct(1) option.inject)+
  qed
qed

lemma munch_iff: "munch rs cs = Some (n, a) \<longleftrightarrow> longest rs cs n a"
  using munch_winner [where rs = rs and cs = cs] longest_munch [where rs = rs and cs = cs and n = n and a = a] by auto

section \<open>The lexical grammar\<close>

definition is_blank :: "char \<Rightarrow> bool" where
  "is_blank c \<longleftrightarrow> c \<in> {CHR '' '', tab, formfeed}"

definition is_delim :: "char \<Rightarrow> bool" where
  "is_delim c \<longleftrightarrow> is_blank c \<or> c \<in> {CHR ''('', CHR '')'', newline, CHR '';''}"

definition is_single :: "char \<Rightarrow> bool" where
  "is_single c \<longleftrightarrow> c \<in> {CHR ''^'', CHR 0x5C, CHR ''~'', CHR '':'', CHR ''@'', CHR ''!'', CHR ''%'', CHR ''('', CHR '')''}"

definition starts_word :: "char \<Rightarrow> bool" where
  "starts_word c \<longleftrightarrow> \<not> is_digit c \<and> \<not> is_delim c \<and> \<not> is_single c"

text \<open>A word followed by digits.\<close>

definition numbered :: "string \<Rightarrow> string \<Rightarrow> bool" where
  "numbered s w \<longleftrightarrow> take (length s) w = s \<and> list_all is_digit (drop (length s) w)"

text \<open>The token of a word: a maximal string of characters that are no delimiters.\<close>

definition word_token :: "string \<Rightarrow> token" where
  "word_token w =
     (case map_of reserved w of
        Some t \<Rightarrow> t
      | None \<Rightarrow>
          if numbered ''markvar'' w then TMarkVar
          else if numbered ''ifmarked'' w then TIfMarked
          else TIdent)"

text \<open>The length of the first lexeme of a text and what it is.\<close>

definition lexeme :: "string \<Rightarrow> (nat \<times> action) option" where
  "lexeme cs =
     (case cs of
        [] \<Rightarrow> None
      | c # _ \<Rightarrow>
          Some (if is_blank c then (length (takeWhile is_blank cs), White)
            else if c = newline then (length (takeWhile (\<lambda>c. c = newline) cs), Newlines)
            else if c = CHR '';'' then (1, Comment)
            else if is_digit c then
              (let n = length (takeWhile is_digit cs); m = length (takeWhile is_digit (drop (Suc n) cs))
               in if n < length cs \<and> cs ! n = CHR ''/'' \<and> 0 < m then (Suc n + m, Return TRational)
                  else (n, Return TNatural))
            else if starts_word c then
              (let w = takeWhile (\<lambda>c. \<not> is_delim c) cs in (length w, Return (word_token w)))
            else (1, Return (the (map_of reserved [c])))))"

section \<open>The strings of the patterns\<close>

lemma digit_set: "set ''0123456789'' = Collect is_digit"
proof (intro set_eqI iffI)
  fix c assume "c \<in> Collect is_digit"
  then obtain n :: nat where n: "c = char_of n" "48 \<le> n" "n \<le> 57" by (metis char_of_char is_digit_def mem_Collect_eq)
  then have "n \<in> set [48..<58]" unfolding set_upt by simp
  moreover have "\<forall>n \<in> set [48..<58]. char_of n \<in> set ''0123456789''" by code_simp
  ultimately show "c \<in> set ''0123456789''" unfolding n(1) by blast
qed (auto simp: is_digit_def)

lemma lang_quoted: "lang (quoted s) = {s}"
  by (induction s) (auto simp: quoted_def)

lemma lang_seq_one:
  "w \<in> lang (Seq (OneOf cs) q) \<longleftrightarrow> (\<exists>c v. w = c # v \<and> c \<in> set cs \<and> v \<in> lang q)"
  "w \<in> lang (Seq (NoneOf cs) q) \<longleftrightarrow> (\<exists>c v. w = c # v \<and> c \<notin> set cs \<and> v \<in> lang q)"
  by (auto simp del: lang.simps(7)) (metis append_Cons append_Nil)+

lemma lang_rep_one:
  "w \<in> lang (Rep (OneOf cs)) \<longleftrightarrow> set w \<subseteq> set cs"
  "w \<in> lang (Rep (NoneOf cs)) \<longleftrightarrow> set w \<inter> set cs = {}"
proof -
  have "[] \<in> lang (Rep p)" for p using has_empty_iff [of "Rep p"] by simp
  then show "w \<in> lang (Rep (OneOf cs)) \<longleftrightarrow> set w \<subseteq> set cs" "w \<in> lang (Rep (NoneOf cs)) \<longleftrightarrow> set w \<inter> set cs = {}"
    by (induction w) (auto simp: rep_Cons simp del: lang.simps(7))
qed

lemma lang_digits: "w \<in> lang (Rep dig_pat) \<longleftrightarrow> list_all is_digit w"
  unfolding dig_pat_def lang_rep_one digit_set by (auto simp: list_all_iff)

lemma lang_natural: "w \<in> lang natural_pat \<longleftrightarrow> w \<noteq> [] \<and> list_all is_digit w"
proof -
  have "w \<in> lang natural_pat \<longleftrightarrow> (\<exists>c v. w = c # v \<and> is_digit c \<and> v \<in> lang (Rep dig_pat))"
    unfolding natural_pat_def dig_pat_def lang_seq_one digit_set by simp
  then show ?thesis unfolding lang_digits by (cases w) auto
qed

lemma lang_rational:
  "w \<in> lang rational_pat \<longleftrightarrow> (\<exists>u v. w = u @ CHR ''/'' # v \<and> u \<in> lang natural_pat \<and> v \<in> lang natural_pat)"
proof -
  have "w \<in> lang rational_pat \<longleftrightarrow> (\<exists>u v. w = u @ v \<and> u \<in> lang natural_pat \<and> v \<in> lang (Seq (OneOf ''/'') natural_pat))"
    unfolding rational_pat_def natural_pat_def [symmetric] lang.simps(5) [of natural_pat] by blast
  then show ?thesis unfolding lang_seq_one by auto
qed

lemma word_chars:
  "starts_word c \<longleftrightarrow> c \<notin> set (''0123456789'' @ ''^'' @ [CHR 0x5C] @ ''~:@!%() '' @ [tab, newline, formfeed] @ '';'')"
  "is_delim c \<longleftrightarrow> c \<in> set (''() '' @ [tab, newline, formfeed] @ '';'')"
  unfolding set_append digit_set by (auto simp: starts_word_def is_delim_def is_blank_def is_single_def)

lemma lang_ident:
  "w \<in> lang ident_pat \<longleftrightarrow> (\<exists>c v. w = c # v \<and> starts_word c \<and> list_all (\<lambda>c. \<not> is_delim c) v)"
  unfolding ident_pat_def lang_seq_one lang_rep_one word_chars list_all_iff by blast

lemma lang_prefix: "w \<in> lang (Seq (quoted s) (Rep dig_pat)) \<longleftrightarrow> numbered s w"
proof -
  have "w \<in> lang (Seq (quoted s) (Rep dig_pat)) \<longleftrightarrow> (\<exists>v. w = s @ v \<and> list_all is_digit v)"
    unfolding lang.simps(5) lang_quoted lang_digits [symmetric] by blast
  then show ?thesis unfolding numbered_def by (metis append_take_drop_id append_eq_conv_conj)
qed

lemma lang_some: "w \<in> lang (some_of (OneOf cs)) \<longleftrightarrow> w \<noteq> [] \<and> set w \<subseteq> set cs"
  unfolding lang_seq_one lang_rep_one by (cases w) auto

lemma winner_append: "winner (rs @ rs') w = (case winner rs w of Some a \<Rightarrow> Some a | None \<Rightarrow> winner rs' w)"
  by (induction rs) (auto simp: winner_simps)

lemma winner_quoted: "winner (map (\<lambda>(s, t). (quoted s, f t)) kws) w = map_option f (map_of kws w)"
  by (induction kws) (auto simp: winner_simps lang_quoted)

lemma winner_lex_rules:
  "winner lex_rules w =
     (case map_of reserved w of
        Some t \<Rightarrow> Some (Return t)
      | None \<Rightarrow>
          if numbered ''markvar'' w then Some (Return TMarkVar)
          else if numbered ''ifmarked'' w then Some (Return TIfMarked)
          else if w \<in> lang natural_pat then Some (Return TNatural)
          else if w \<in> lang rational_pat then Some (Return TRational)
          else if w \<noteq> [] \<and> list_all is_blank w then Some White
          else if w \<noteq> [] \<and> list_all (\<lambda>c. c = newline) w then Some Newlines
          else if w = '';'' then Some Comment
          else if w \<in> lang ident_pat then Some (Return TIdent)
          else None)"
proof -
  have p: "w \<in> lang markvar_pat \<longleftrightarrow> numbered ''markvar'' w"
    "w \<in> lang ifmarked_pat \<longleftrightarrow> numbered ''ifmarked'' w"
    unfolding markvar_pat_def ifmarked_pat_def lang_prefix by simp_all
  have b: "w \<in> lang ws_pat \<longleftrightarrow> w \<noteq> [] \<and> list_all is_blank w" "w \<in> lang nl_pat \<longleftrightarrow> w \<noteq> [] \<and> list_all (\<lambda>c. c = newline) w"
    unfolding ws_pat_def nl_pat_def lang_some list_all_iff by (auto simp: is_blank_def)
  show ?thesis
    unfolding lex_rules_def winner_append winner_quoted winner_simps p b lang_quoted singleton_iff
    by (cases "map_of reserved w") simp_all
qed

section \<open>The rules are the grammar\<close>

lemma reserved_shape:
  "(s, t) \<in> set reserved \<Longrightarrow>
    \<exists>c v. s = c # v \<and> (if is_single c then v = [] else starts_word c \<and> list_all (\<lambda>c. \<not> is_delim c) v)"
proof -
  have "\<forall>(s, t) \<in> set reserved. s \<noteq> [] \<and>
      (if is_single (hd s) then tl s = [] else starts_word (hd s) \<and> list_all (\<lambda>c. \<not> is_delim c) (tl s))"
    by code_simp
  then show "(s, t) \<in> set reserved \<Longrightarrow> ?thesis" by (cases s) auto
qed

lemma map_of_reserved:
  "map_of reserved (c # v) = Some t \<Longrightarrow> if is_single c then v = [] else starts_word c \<and> list_all (\<lambda>c. \<not> is_delim c) v"
  using reserved_shape [OF map_of_SomeD] by force

lemma char_kinds:
  "is_blank c \<Longrightarrow> \<not> starts_word c \<and> \<not> is_single c \<and> \<not> is_digit c \<and> c \<noteq> newline \<and> c \<noteq> CHR '';''"
  "is_digit c \<Longrightarrow> \<not> starts_word c \<and> \<not> is_single c \<and> \<not> is_delim c \<and> c \<noteq> CHR ''/''"
  "starts_word c \<Longrightarrow> \<not> is_delim c \<and> \<not> is_single c \<and> \<not> is_digit c"
  "is_single c \<Longrightarrow> \<not> starts_word c \<and> \<not> is_blank c \<and> \<not> is_digit c \<and> c \<noteq> newline \<and> c \<noteq> CHR '';''"
  "\<not> starts_word newline \<and> \<not> is_single newline \<and> \<not> is_digit newline \<and> \<not> is_blank newline"
  "\<not> starts_word CHR '';'' \<and> \<not> is_single CHR '';'' \<and> \<not> is_digit CHR '';'' \<and> \<not> is_blank CHR '';''"
  "starts_word CHR ''m'' \<and> starts_word CHR ''i''"
  "is_single c \<or> starts_word c \<or> is_digit c \<or> is_blank c \<or> c = newline \<or> c = CHR '';''"
  by (auto simp: is_blank_def is_digit_def is_delim_def is_single_def starts_word_def)

lemma pattern_start:
  "\<not> starts_word c \<Longrightarrow> \<not> numbered ''markvar'' (c # v) \<and> \<not> numbered ''ifmarked'' (c # v) \<and> c # v \<notin> lang ident_pat"
  "\<not> is_digit c \<Longrightarrow> c # v \<notin> lang natural_pat \<and> c # v \<notin> lang rational_pat"
  "starts_word c \<Longrightarrow> c # v \<in> lang ident_pat \<longleftrightarrow> list_all (\<lambda>c. \<not> is_delim c) v"
  "\<not> starts_word c \<Longrightarrow> \<not> is_single c \<Longrightarrow> map_of reserved (c # v) = None"
  "is_single c \<Longrightarrow> v \<noteq> [] \<Longrightarrow> map_of reserved (c # v) = None"
  "starts_word c \<Longrightarrow> \<not> list_all (\<lambda>c. \<not> is_delim c) v \<Longrightarrow> map_of reserved (c # v) = None"
proof -
  show "\<not> starts_word c \<Longrightarrow> \<not> numbered ''markvar'' (c # v) \<and> \<not> numbered ''ifmarked'' (c # v) \<and> c # v \<notin> lang ident_pat"
    using char_kinds(7) by (auto simp: numbered_def lang_ident)
  show "\<not> is_digit c \<Longrightarrow> c # v \<notin> lang natural_pat \<and> c # v \<notin> lang rational_pat"
    by (auto simp: lang_natural lang_rational Cons_eq_append_conv)
  show "starts_word c \<Longrightarrow> c # v \<in> lang ident_pat \<longleftrightarrow> list_all (\<lambda>c. \<not> is_delim c) v" by (auto simp: lang_ident)
qed (use map_of_reserved in \<open>fastforce split: if_splits\<close>)+

lemma numbered_word:
  assumes "numbered s w" "list_all (\<lambda>c. \<not> is_delim c) s"
  shows "list_all (\<lambda>c. \<not> is_delim c) w"
proof -
  have "list_all (\<lambda>c. \<not> is_delim c) (drop (length s) w)"
    using assms(1) char_kinds(2) by (simp add: numbered_def list_all_iff)
  with assms show ?thesis unfolding numbered_def by (metis append_take_drop_id list_all_append)
qed

lemma markvar_word:
  "numbered ''markvar'' w \<or> numbered ''ifmarked'' w \<Longrightarrow> list_all (\<lambda>c. \<not> is_delim c) w"
proof -
  have "list_all (\<lambda>c. \<not> is_delim c) ''markvar''" "list_all (\<lambda>c. \<not> is_delim c) ''ifmarked''" by code_simp+
  then show "numbered ''markvar'' w \<or> numbered ''ifmarked'' w \<Longrightarrow> ?thesis" using numbered_word by blast
qed

lemma winner_blank: "is_blank c \<Longrightarrow> winner lex_rules (c # v) = (if list_all is_blank v then Some White else None)"
  unfolding winner_lex_rules using char_kinds(1) [of c] by (simp add: pattern_start)

lemma winner_newline: "winner lex_rules (newline # v) = (if list_all (\<lambda>c. c = newline) v then Some Newlines else None)"
  unfolding winner_lex_rules using char_kinds(5) by (simp add: pattern_start)

lemma winner_comment: "winner lex_rules (CHR '';'' # v) = (if v = [] then Some Comment else None)"
  unfolding winner_lex_rules using char_kinds(6) by (simp add: pattern_start)

lemma winner_single:
  "is_single c \<Longrightarrow> winner lex_rules (c # v) = (if v = [] then map_option Return (map_of reserved [c]) else None)"
  unfolding winner_lex_rules using char_kinds(4) [of c] by (auto simp: pattern_start split: option.split)

lemma winner_digit:
  "is_digit c \<Longrightarrow> winner lex_rules (c # v) =
     (if list_all is_digit v then Some (Return TNatural) else if c # v \<in> lang rational_pat then Some (Return TRational) else None)"
  unfolding winner_lex_rules using char_kinds(2) [of c] char_kinds(1) [of c] char_kinds(5,6)
  by (auto simp: pattern_start lang_natural)

lemma winner_word:
  "starts_word c \<Longrightarrow> winner lex_rules (c # v) =
     (if list_all (\<lambda>c. \<not> is_delim c) v then Some (Return (word_token (c # v))) else None)"
  unfolding winner_lex_rules word_token_def
  using char_kinds(3) [of c] char_kinds(1) [of c] char_kinds(5,6) markvar_word [of "c # v"]
  by (auto simp: pattern_start split: option.split)

lemma longest_run:
  assumes "P c" "winner rs (takeWhile P (c # v)) = Some a" "\<And>w. winner rs (c # w) \<noteq> None \<Longrightarrow> list_all P w"
  shows "longest rs (c # v) (length (takeWhile P (c # v))) a"
  unfolding longest_def
proof (intro conjI allI impI)
  show "winner rs (take (length (takeWhile P (c # v))) (c # v)) = Some a"
    using assms(2) by (simp only: takeWhile_eq_take [symmetric])
  fix m assume m: "length (takeWhile P (c # v)) < m" "m \<le> length (c # v)"
  show "winner rs (take m (c # v)) = None"
  proof (rule ccontr)
    assume "winner rs (take m (c # v)) \<noteq> None"
    with assms(3) [of "take (m - 1) v"] assms(1) m have "\<forall>x \<in> set (take m (c # v)). P x"
      by (cases m) (auto simp: list_all_iff)
    moreover have "(c # v) ! length (takeWhile P (c # v)) \<in> set (take m (c # v))"
      using m unfolding in_set_conv_nth by (intro exI [of _ "length (takeWhile P (c # v))"]) simp
    ultimately show False using nth_length_takeWhile [of P "c # v"] m by auto
  qed
qed (rule length_takeWhile_le)

lemma rational_prefix:
  assumes "take k cs \<in> lang rational_pat" "k \<le> length cs"
  defines "n \<equiv> length (takeWhile is_digit cs)"
  shows "n < length cs \<and> cs ! n = CHR ''/'' \<and> takeWhile is_digit (drop (Suc n) cs) \<noteq> [] \<and>
    k \<le> Suc n + length (takeWhile is_digit (drop (Suc n) cs))"
proof -
  from assms(1) obtain u v where uv: "take k cs = u @ CHR ''/'' # v" "list_all is_digit u" "list_all is_digit v" "v \<noteq> []"
    by (auto simp: lang_rational lang_natural)
  then have cs: "cs = u @ CHR ''/'' # v @ drop k cs" by (metis append.assoc append_Cons append_take_drop_id)
  have n: "n = length u"
    unfolding n_def by (subst cs) (use uv(2) in \<open>simp add: takeWhile_append2 list_all_iff is_digit_def\<close>)
  then have d: "drop (Suc n) cs = v @ drop k cs" by (subst cs) simp
  have "k = Suc (length u + length v)" using uv(1) assms(2) by (metis add_Suc_right length_Cons length_append length_take min.absorb2)
  moreover have "takeWhile is_digit (drop (Suc n) cs) = v @ takeWhile is_digit (drop k cs)"
    unfolding d using uv(3) by (simp add: takeWhile_append2 list_all_iff)
  moreover have "n < length cs" "cs ! n = CHR ''/''" unfolding n by (subst cs, simp)+
  ultimately show ?thesis using n uv(4) by simp
qed

lemma rational_match:
  fixes cs defines "n \<equiv> length (takeWhile is_digit cs)"
  assumes "n \<noteq> 0" "n < length cs" "cs ! n = CHR ''/''" "takeWhile is_digit (drop (Suc n) cs) \<noteq> []"
  shows "take (Suc n + length (takeWhile is_digit (drop (Suc n) cs))) cs \<in> lang rational_pat"
proof -
  let ?v = "takeWhile is_digit (drop (Suc n) cs)"
  have "take (Suc n + length ?v) cs = take n cs @ CHR ''/'' # ?v"
    unfolding take_add take_Suc_conv_app_nth [OF assms(3)] takeWhile_eq_take [symmetric] using assms(4) by simp
  moreover have "take n cs = takeWhile is_digit cs" unfolding n_def by (rule takeWhile_eq_take [symmetric])
  moreover have "list_all is_digit (takeWhile is_digit xs)" for xs by (auto simp: list_all_iff dest: set_takeWhileD)
  ultimately show ?thesis using assms(2,5) by (auto simp: lang_rational lang_natural n_def)
qed

lemma longest_digit:
  fixes v
  assumes "is_digit c"
  defines "cs \<equiv> c # v"
  defines "n \<equiv> length (takeWhile is_digit cs)"
  defines "m \<equiv> length (takeWhile is_digit (drop (Suc n) cs))"
  shows "if n < length cs \<and> cs ! n = CHR ''/'' \<and> 0 < m then longest lex_rules cs (Suc n + m) (Return TRational)
    else longest lex_rules cs n (Return TNatural)"
proof -
  obtain n' where n: "n = Suc n'" "n \<le> length cs" "take n cs = takeWhile is_digit cs"
    using assms(1) length_takeWhile_le [of is_digit cs] unfolding n_def takeWhile_eq_take [symmetric] by (auto simp: cs_def)
  have no: "winner lex_rules (take k cs) = (if take k cs \<in> lang rational_pat then Some (Return TRational) else None)"
    if k: "n < k" "k \<le> length cs" for k
  proof -
    obtain j where j: "k = Suc j" using k by (cases k) auto
    then have "v ! n' \<in> set (take j v)" "\<not> is_digit (v ! n')"
      using k n(1) nth_length_takeWhile [of is_digit cs] unfolding n_def [symmetric]
      by (auto simp: cs_def in_set_conv_nth intro!: exI [of _ n'])
    then have "\<not> list_all is_digit (take j v)" by (auto simp: list_all_iff)
    then show ?thesis using winner_digit [OF assms(1), of "take j v"] by (simp add: j cs_def)
  qed
  have r: "n < length cs \<and> cs ! n = CHR ''/'' \<and> 0 < m \<and> k \<le> Suc n + m"
    if "take k cs \<in> lang rational_pat" "k \<le> length cs" for k
    using rational_prefix [OF that] unfolding n_def [symmetric] m_def length_greater_0_conv .
  show ?thesis
  proof (cases "n < length cs \<and> cs ! n = CHR ''/'' \<and> 0 < m")
    case True
    then have "take (Suc n + m) cs \<in> lang rational_pat"
      using rational_match [of cs] n(1) unfolding n_def [symmetric] m_def by simp
    moreover have "Suc n + m \<le> length cs"
      using True length_takeWhile_le [of is_digit "drop (Suc n) cs"] unfolding m_def length_drop by linarith
    ultimately have "longest lex_rules cs (Suc n + m) (Return TRational)"
      unfolding longest_def using no r by fastforce
    with True show ?thesis by simp
  next
    case False
    have "c # take n' v = takeWhile is_digit cs" using n(1,3) by (simp add: cs_def)
    then have "list_all is_digit (take n' v)" by (metis list_all_iff list.set_intros(2) set_takeWhileD)
    then have "winner lex_rules (take n cs) = Some (Return TNatural)"
      using winner_digit [OF assms(1), of "take n' v"] n(1) by (simp add: cs_def)
    then have "longest lex_rules cs n (Return TNatural)"
      unfolding longest_def using no r n(2) False by fastforce
    then show ?thesis unfolding if_not_P [OF False] .
  qed
qed

lemma reserved_single: "is_single c \<Longrightarrow> \<exists>t. map_of reserved [c] = Some t"
  by (auto simp: is_single_def reserved_def)

lemma takeWhile_Cons: "P c \<Longrightarrow> takeWhile P (c # v) = c # takeWhile P v"
  by simp

lemma list_all_takeWhile: "list_all P (takeWhile P v)"
  by (auto simp: list_all_iff dest: set_takeWhileD)

lemma munch_lexeme: "munch lex_rules cs = lexeme cs"
proof (cases cs)
  case Nil
  then show ?thesis by (simp add: lexeme_def lex_rules_def reserved_def match_here_def quoted_def
    markvar_pat_def ifmarked_pat_def natural_pat_def rational_pat_def ws_pat_def nl_pat_def ident_pat_def dig_pat_def)
next
  case (Cons c v)
  have nd: "is_digit c" if "\<not> is_single c" "\<not> starts_word c" "\<not> is_blank c" "c \<noteq> newline" "c \<noteq> CHR '';''"
    using char_kinds(8) that by blast
  consider (blank) "is_blank c" | (newline) "c = newline" | (comment) "c = CHR '';''" | (single) "is_single c"
    | (word) "starts_word c" | (digit) "is_digit c"
    using char_kinds(8) by blast
  then show ?thesis
  proof cases
    case blank
    have "longest lex_rules cs (length (takeWhile is_blank cs)) White"
      unfolding Cons using blank
      by (intro longest_run) (simp_all only: takeWhile_Cons winner_blank list_all_takeWhile if_True split: if_splits, simp_all)
    then show ?thesis using blank by (simp add: munch_iff [symmetric] lexeme_def Cons)
  next
    case newline
    have "longest lex_rules cs (length (takeWhile (\<lambda>c. c = newline) cs)) Newlines"
      unfolding Cons using newline
      by (intro longest_run) (simp_all only: takeWhile_Cons winner_newline list_all_takeWhile if_True split: if_splits, simp_all)
    then show ?thesis using newline char_kinds(5) by (simp add: munch_iff [symmetric] lexeme_def Cons)
  next
    case comment
    have "longest lex_rules cs 1 Comment"
      unfolding Cons longest_def comment by (auto simp: take_Cons' winner_comment)
    then show ?thesis using comment char_kinds(6) by (simp add: munch_iff [symmetric] lexeme_def Cons)
  next
    case single
    then obtain t where "map_of reserved [c] = Some t" using reserved_single by blast
    then have "longest lex_rules cs 1 (Return t)" "the (map_of reserved [c]) = t"
      unfolding Cons longest_def using single by (auto simp: take_Cons' winner_single)
    then show ?thesis using char_kinds(4) [OF single] by (simp add: munch_iff [symmetric] lexeme_def Cons)
  next
    case word
    let ?w = "takeWhile (\<lambda>c. \<not> is_delim c) cs"
    have "longest lex_rules cs (length ?w) (Return (word_token ?w))"
      unfolding Cons using word char_kinds(3) [OF word]
      by (intro longest_run) (simp_all only: takeWhile_Cons winner_word list_all_takeWhile if_True not_False_eq_True split: if_splits, simp_all)
    then show ?thesis using word char_kinds(3) [OF word] 
      by (simp add: munch_iff [symmetric] lexeme_def Cons is_delim_def Let_def)
  next
    case digit
    from longest_digit [OF digit, of v] show ?thesis
      using char_kinds(1) [of c] char_kinds(2) [OF digit] char_kinds(5,6) digit
      by (auto simp: munch_iff [symmetric] lexeme_def Cons Let_def simp del: takeWhile.simps split: if_splits)
  qed
qed

section \<open>The scanner returns the tokens\<close>

lemma lexeme_progress: "lexeme cs = Some (n, a) \<Longrightarrow> 0 < n \<and> cs \<noteq> []"
  by (cases cs) (auto simp: lexeme_def Let_def starts_word_def split: if_splits)

text \<open>The tokens of a text, by the lexical grammar; a comment ends with the line, or with a null character.\<close>

abbreviation in_comment :: "char \<Rightarrow> bool" where
  "in_comment c \<equiv> c \<noteq> newline \<and> c \<noteq> CHR 0x00"

lemma lexeme_shrinks:
  assumes "lexeme cs = Some (n, a)"
  shows "length (drop n cs) < length cs" "length (tl (dropWhile in_comment (drop n cs))) < length cs"
proof -
  from lexeme_progress [OF assms] have "0 < n" "0 < length cs" by simp_all
  then show "length (drop n cs) < length cs" "length (tl (dropWhile in_comment (drop n cs))) < length cs"
    using length_dropWhile_le [of in_comment "drop n cs"] unfolding length_drop length_tl by linarith+
qed

function tokens :: "string \<Rightarrow> (token \<times> string) list" where
  "tokens cs =
     (case lexeme cs of
        None \<Rightarrow> []
      | Some (n, a) \<Rightarrow>
          (case a of
             Return t \<Rightarrow> (t, take n cs) # tokens (drop n cs)
           | Comment \<Rightarrow> tokens (tl (dropWhile in_comment (drop n cs)))
           | _ \<Rightarrow> tokens (drop n cs)))"
  by pat_completeness auto

termination
  by (relation "measure length") (use lexeme_shrinks in auto)

declare tokens.simps [simp del]

lemma char_codes: "(of_char c = (0 :: int)) = (c = CHR 0x00)" "(of_char c = (10 :: int)) = (c = newline)"
  using of_char_eq_iff [of c "CHR 0x00", where ?'a = int] of_char_eq_iff [of c newline, where ?'a = int] by simp_all

lemma skip_comment_total: "skip_comment 0 cs = Some (\<exists>r. dropWhile in_comment cs = newline # r, tl (dropWhile in_comment cs))"
proof (induction cs)
  case Nil
  show ?case by (subst skip_comment.simps) simp
next
  case (Cons c cs)
  then show ?case by (subst skip_comment.simps) (simp add: char_codes)
qed

text \<open>Where \<open>yyinput\<close> returns \<open>EOF\<close>, a comment on a last line without end never ends.\<close>

lemma skip_comment_diverges:
  assumes "eof \<noteq> 0" "eof \<noteq> 10" "list_all in_comment cs"
  shows "skip_comment eof cs = None"
proof (rule ccontr)
  assume "skip_comment eof cs \<noteq> None"
  then obtain y where y: "skip_comment eof cs = Some y" by blast
  have "\<not> (eof \<noteq> 0 \<and> eof \<noteq> 10 \<and> list_all in_comment cs)"
  proof (rule skip_comment.raw_induct [where P = "\<lambda>eof cs y. \<not> (eof \<noteq> 0 \<and> eof \<noteq> 10 \<and> list_all in_comment cs)", OF _ y])
    fix f and eof :: int and cs y
    assume "\<And>eof cs y. f eof cs = Some y \<Longrightarrow> \<not> (eof \<noteq> 0 \<and> eof \<noteq> 10 \<and> list_all in_comment cs)"
      and "(let (c, r) = (case cs of [] \<Rightarrow> (eof, []) | d # ds \<Rightarrow> (of_char d, ds))
        in if c = 0 then Some (False, r) else if c = 10 then Some (True, r) else f eof r) = Some y"
    then show "\<not> (eof \<noteq> 0 \<and> eof \<noteq> 10 \<and> list_all in_comment cs)"
      by (cases cs) (fastforce simp: char_codes split: if_splits)+
  qed
  with assms show False by blast
qed

lemma scan_loop_Nil: "scan_loop eof [] sp = Some (TEof, [], [], sp)"
  by (subst scan_loop.simps) simp

lemma token_of_lexeme: "lexeme cs = Some (n, Return t) \<Longrightarrow> t \<noteq> TEof \<and> t \<noteq> TokenErr"
proof -
  have r: "\<forall>(x, t) \<in> set reserved. t \<noteq> TEof \<and> t \<noteq> TokenErr" by code_simp
  have "winner lex_rules w = Some (Return t) \<Longrightarrow> t \<noteq> TEof \<and> t \<noteq> TokenErr" for w
    unfolding winner_lex_rules using r by (auto dest!: map_of_SomeD split: option.splits if_splits)
  moreover assume "lexeme cs = Some (n, Return t)"
  ultimately show ?thesis unfolding munch_lexeme [symmetric] munch_iff longest_def by blast
qed

text \<open>One call of the scanner takes the first token off.\<close>

lemma scan_loop_spec:
  "\<exists>r sp'. scan_loop 0 cs sp = Some (case tokens cs of [] \<Rightarrow> (TEof, [], [], sp') | (t, x) # ts \<Rightarrow> (t, x, r, sp')) \<and>
     (tokens cs \<noteq> [] \<longrightarrow> fst (hd (tokens cs)) \<noteq> TEof \<and> tokens r = tl (tokens cs) \<and> length r < length cs)"
proof (induction cs arbitrary: sp rule: measure_induct_rule [of length])
  case (less cs)
  show ?case
  proof (cases "lexeme cs")
    case None
    then have "cs = []" by (cases cs) (simp_all add: lexeme_def)
    then show ?thesis by (subst scan_loop.simps) (simp add: tokens.simps [of "[]"] lexeme_def)
  next
    case (Some na)
    then obtain n a where na: "lexeme cs = Some (n, a)" by (cases na) auto
    note sh = lexeme_shrinks [OF na]
    have cs: "cs \<noteq> []" using lexeme_progress [OF na] by simp
    show ?thesis
      using na cs sh token_of_lexeme [of cs n]
        less.IH [OF sh(1), of "bump_span (add_columns (of_nat n) sp)"]
        less.IH [OF sh(1), of "bump_span (add_lines (of_nat n) (add_columns (of_nat n) sp))"]
        less.IH [OF sh(2), of "if \<exists>r. dropWhile in_comment (drop n cs) = newline # r then bump_span (add_lines 1 (add_columns (of_nat n) sp)) else add_columns (of_nat n) sp"]
      by (subst scan_loop.simps)
        (cases a; fastforce simp: munch_lexeme tokens.simps [of cs] skip_comment_total Let_def simp del: length_drop length_tl)
  qed
qed

lemma scan_all_spec: "\<exists>ts. scan_all 0 cs sp = Some ts \<and> map (\<lambda>(t, x, sp). (t, x)) ts = tokens cs"
proof (induction cs arbitrary: sp rule: measure_induct_rule [of length])
  case (less cs)
  from scan_loop_spec [of cs "bump_span sp"] obtain r sp' where
    l: "scan_token 0 cs sp = Some (case tokens cs of [] \<Rightarrow> (TEof, [], [], sp') | (t, x) # ts \<Rightarrow> (t, x, r, sp'))"
      "tokens cs \<noteq> [] \<Longrightarrow> fst (hd (tokens cs)) \<noteq> TEof \<and> tokens r = tl (tokens cs) \<and> length r < length cs"
    unfolding scan_token_def by blast
  show ?case
  proof (cases "tokens cs")
    case Nil
    then show ?thesis using l by (subst scan_all.simps) simp
  next
    case (Cons tx ts)
    with l(2) have r: "length r < length cs" "tokens r = ts" "fst tx \<noteq> TEof" by simp_all
    from less.IH [OF r(1), of sp'] obtain us where "scan_all 0 r sp' = Some us" "map (\<lambda>(t, x, sp). (t, x)) us = ts"
      using r(2) by blast
    then show ?thesis using l(1) Cons r(3) by (cases tx) (subst scan_all.simps, simp)
  qed
qed

lemma scan_tokens: "scan 0 cs = Some (tokens cs)"
  using scan_all_spec [of cs init_s_span] by (auto simp: scan_def)

section \<open>Source locations are positions in the text\<close>

definition move :: "location \<Rightarrow> char \<Rightarrow> location" where
  "move l c = (if c = newline then \<lparr>line = line l + 1, column = 1\<rparr> else l\<lparr>column := column l + 1\<rparr>)"

definition position :: "string \<Rightarrow> location" where
  "position w = foldl move \<lparr>line = 1, column = 1\<rparr> w"

lemma moves_columns: "newline \<notin> set w \<Longrightarrow> foldl move l w = l\<lparr>column := column l + of_nat (length w)\<rparr>"
  by (induction w arbitrary: l) (auto simp: move_def algebra_simps)

lemma moves_lines: "set w \<subseteq> {newline} \<Longrightarrow> w \<noteq> [] \<Longrightarrow> foldl move l w = \<lparr>line = line l + of_nat (length w), column = 1\<rparr>"
proof (induction w arbitrary: l)
  case (Cons c w)
  then have "c = newline" "move l newline = \<lparr>line = line l + 1, column = 1\<rparr>" by (simp_all add: move_def)
  with Cons show ?case by (cases "w = []") (simp_all add: algebra_simps)
qed simp

lemma token_no_newline:
  assumes "lexeme cs = Some (n, a)" "a \<noteq> Newlines"
  shows "newline \<notin> set (take n cs)"
proof -
  from assms(1) have l: "winner lex_rules (take n cs) = Some a" "n \<le> length cs"
    unfolding munch_lexeme [symmetric] munch_iff longest_def by blast+
  obtain c v where v: "take n cs = c # v"
    using lexeme_progress [OF assms(1)] l(2) by (cases "take n cs") auto
  have nl: "\<not> is_digit newline" "is_delim newline" "\<not> is_blank newline" by (simp_all add: is_digit_def is_delim_def is_blank_def)
  from char_kinds(8) [of c] show ?thesis
  proof (elim disjE)
    assume "is_digit c"
    with l v nl show ?thesis
      by (auto simp: winner_digit list_all_iff lang_rational lang_natural Cons_eq_append_conv split: if_splits)
  qed (use l v nl assms(2) in \<open>auto simp: winner_blank winner_newline winner_comment winner_single winner_word list_all_iff
      starts_word_def is_single_def split: if_splits\<close>)
qed

lemma newlines_lexeme:
  assumes "lexeme cs = Some (n, Newlines)"
  shows "set (take n cs) \<subseteq> {newline} \<and> take n cs \<noteq> []"
proof -
  from assms have "winner lex_rules (take n cs) = Some Newlines"
    unfolding munch_lexeme [symmetric] munch_iff longest_def by blast
  then show ?thesis unfolding winner_lex_rules by (auto simp: list_all_iff split: option.splits if_splits)
qed

text \<open>A comment up to the end of its line.\<close>

lemma comment_line:
  assumes "CHR 0x00 \<notin> set cs" "dropWhile in_comment cs \<noteq> []"
  shows "\<exists>w. cs = w @ newline # tl (dropWhile in_comment cs) \<and> newline \<notin> set w \<and> (\<exists>r. dropWhile in_comment cs = newline # r)"
proof -
  let ?d = "dropWhile in_comment cs"
  have "hd ?d = newline"
    using assms hd_dropWhile [of in_comment cs] set_dropWhileD [of "hd ?d" in_comment cs] by (auto dest: hd_in_set)
  with assms(2) have "?d = newline # tl ?d" by (cases ?d) auto
  moreover have "cs = takeWhile in_comment cs @ ?d" by simp
  ultimately have "cs = takeWhile in_comment cs @ newline # tl ?d" by metis
  moreover have "newline \<notin> set (takeWhile in_comment cs)" by (auto dest: set_takeWhileD)
  ultimately show ?thesis using \<open>?d = newline # tl ?d\<close> by blast
qed

lemma scan_loop_at:
  assumes "CHR 0x00 \<notin> set cs" "span_start sp = l" "span_end sp = l" "scan_loop 0 cs sp = Some (t, x, r, sp')" "t \<noteq> TEof"
  shows "\<exists>u. cs = u @ x @ r \<and> span_start sp' = foldl move l u \<and> span_end sp' = foldl move l (u @ x)"
  using assms
proof (induction cs arbitrary: sp l rule: measure_induct_rule [of length])
  case (less cs)
  from less.prems(4,5) have "cs \<noteq> []" by (subst (asm) scan_loop.simps) (auto split: if_splits)
  then have "lexeme cs \<noteq> None" by (cases cs) (simp_all add: lexeme_def)
  then obtain n a where na: "lexeme cs = Some (n, a)" by auto
  note sh = lexeme_shrinks [OF na]
  have sp: "sp = \<lparr>span_start = l, span_end = l\<rparr>" using less.prems(2,3) by (cases sp) simp
  have cs: "cs = take n cs @ drop n cs" by simp
  have n: "n \<le> length cs" using na unfolding munch_lexeme [symmetric] munch_iff longest_def by simp
  have rest: ?case if "cs = u @ v" "length v < length cs" "scan_loop 0 v (\<lparr>span_start = foldl move l u, span_end = foldl move l u\<rparr>) = Some (t, x, r, sp')" for u v
  proof -
    have "CHR 0x00 \<notin> set v" using less.prems(1) that(1) by simp
    from less.IH [OF that(2) this _ _ that(3) less.prems(5), of "foldl move l u"] obtain u' where
      "v = u' @ x @ r" "span_start sp' = foldl move (foldl move l u) u'" "span_end sp' = foldl move (foldl move l u) (u' @ x)" by auto
    then show ?thesis by (intro exI [of _ "u @ u'"]) (simp add: that(1))
  qed
  note run = less.prems(4) [unfolded scan_loop.simps [of 0 cs] munch_lexeme na sp]
  show ?case
  proof (cases a)
    case (Return t')
    have "newline \<notin> set (take n cs)" using token_no_newline [OF na] Return by simp
    then have "foldl move l (take n cs) = l\<lparr>column := column l + of_nat n\<rparr>" using n by (simp add: moves_columns)
    moreover have "x = take n cs" "r = drop n cs" "sp' = \<lparr>span_start = l, span_end = l\<lparr>column := column l + of_nat n\<rparr>\<rparr>"
      using run Return \<open>cs \<noteq> []\<close> by (simp_all add: Let_def add_columns_def)
    ultimately show ?thesis by (intro exI [of _ "[]"]) simp
  next
    case White
    have "newline \<notin> set (take n cs)" using token_no_newline [OF na] White by simp
    then have m: "foldl move l (take n cs) = l\<lparr>column := column l + of_nat n\<rparr>" using n by (simp add: moves_columns)
    show ?thesis
      by (rule rest [OF cs sh(1)]) (use run White \<open>cs \<noteq> []\<close> in \<open>simp add: m Let_def add_columns_def bump_span_def\<close>)
  next
    case Newlines
    then have m: "foldl move l (take n cs) = \<lparr>line = line l + of_nat n, column = 1\<rparr>"
      using newlines_lexeme [of cs n] na moves_lines [of "take n cs" l] n by (simp add: min_absorb2)
    show ?thesis
      by (rule rest [OF cs sh(1)]) (use run Newlines \<open>cs \<noteq> []\<close> in \<open>simp add: m Let_def add_columns_def add_lines_def bump_span_def\<close>)
  next
    case Comment
    let ?r = "tl (dropWhile in_comment (drop n cs))"
    have z: "CHR 0x00 \<notin> set (drop n cs)" using less.prems(1) by (auto dest: in_set_dropD)
    have d: "dropWhile in_comment (drop n cs) \<noteq> []"
    proof
      assume e: "dropWhile in_comment (drop n cs) = []"
      have "skip_comment 0 (drop n cs) = Some (False, [])" unfolding skip_comment_total e by simp
      then show False using run Comment \<open>cs \<noteq> []\<close> less.prems(5) by (simp add: Let_def scan_loop_Nil)
    qed
    from comment_line [OF z d] obtain w where w: "drop n cs = w @ newline # ?r" "newline \<notin> set w"
      "\<exists>r. dropWhile in_comment (drop n cs) = newline # r" by blast
    have "newline \<notin> set (take n cs)" using token_no_newline [OF na] Comment by simp
    then have m: "foldl move l (take n cs @ w @ [newline]) = \<lparr>line = line l + 1, column = 1\<rparr>"
      using w(2) by (simp add: moves_columns move_def)
    have c: "cs = (take n cs @ w @ [newline]) @ ?r" using cs w(1) by simp
    show ?thesis
      by (rule rest [OF c sh(2)])
        (use run Comment \<open>cs \<noteq> []\<close> w(3) in \<open>unfold m, simp add: Let_def add_columns_def add_lines_def bump_span_def skip_comment_total\<close>)
  qed
qed

lemma scan_all_at:
  assumes "CHR 0x00 \<notin> set (p @ cs)" "span_end sp = position p" "scan_all 0 cs sp = Some ts" "(t, x, sp') \<in> set ts"
  shows "\<exists>u r. p @ cs = u @ x @ r \<and> span_start sp' = position u \<and> span_end sp' = position (u @ x)"
  using assms
proof (induction cs arbitrary: sp p ts rule: measure_induct_rule [of length])
  case (less cs)
  obtain t1 x1 r1 sp1 where tk: "scan_token 0 cs sp = Some (t1, x1, r1, sp1)" "t1 \<noteq> TEof" "length r1 < length cs"
    using scan_loop_spec [of cs "bump_span sp"] less.prems(3,4)
    by (subst (asm) scan_all.simps) (cases "tokens cs"; fastforce simp: scan_token_def bind_eq_Some_conv split: if_splits)
  with less.prems(3) obtain ts1 where ts: "ts = (t1, x1, sp1) # ts1" "scan_all 0 r1 sp1 = Some ts1"
    by (subst (asm) scan_all.simps) (auto simp: bind_eq_Some_conv)
  have "span_start (bump_span sp) = position p" "span_end (bump_span sp) = position p"
    using less.prems(2) by (simp_all add: bump_span_def)
  from scan_loop_at [OF _ this tk(1) [unfolded scan_token_def] tk(2)] less.prems(1) obtain u where
    u: "cs = u @ x1 @ r1" "span_start sp1 = position (p @ u)" "span_end sp1 = position (p @ u @ x1)"
    by (auto simp: position_def)
  show ?case
  proof (cases "(t, x, sp') = (t1, x1, sp1)")
    case True
    then show ?thesis by (intro exI [of _ "p @ u"] exI [of _ r1]) (simp add: u)
  next
    case False
    with less.prems(4) ts have "(t, x, sp') \<in> set ts1" by auto
    from less.IH [OF tk(3) _ u(3) ts(2) this] less.prems(1) show ?thesis by (auto simp: u(1))
  qed
qed

section \<open>Text made of tokens\<close>

definition is_word :: "string \<Rightarrow> bool" where
  "is_word w \<longleftrightarrow> (\<exists>c v. w = c # v \<and> starts_word c) \<and> list_all (\<lambda>c. \<not> is_delim c) w"

text \<open>What can stand behind a word or a numeral.\<close>

definition closed :: "string \<Rightarrow> bool" where
  "closed r \<longleftrightarrow> (\<forall>c v. r = c # v \<longrightarrow> is_delim c)"

lemma tokens_Nil: "tokens [] = []"
  by (simp add: tokens.simps [of "[]"] lexeme_def)

lemma takeWhile_closed:
  assumes "list_all P w" "\<And>c v. r = c # v \<Longrightarrow> \<not> P c"
  shows "takeWhile P (w @ r) = w"
proof -
  have "takeWhile P (w @ r) = w @ takeWhile P r" using assms(1) by (intro takeWhile_append2) (simp add: list_all_iff)
  then show ?thesis using assms(2) by (cases r) simp_all
qed

lemma closed_digit: "closed (c # v) \<Longrightarrow> \<not> is_digit c \<and> c \<noteq> CHR ''/''"
  using char_kinds(2) [of c] by (auto simp: closed_def is_delim_def is_blank_def)

lemma tokens_word: "is_word w \<Longrightarrow> closed r \<Longrightarrow> tokens (w @ r) = (word_token w, w) # tokens r"
proof -
  assume w: "is_word w" and r: "closed r"
  then obtain c v where c: "w = c # v" "starts_word c" by (auto simp: is_word_def)
  have t: "takeWhile (\<lambda>c. \<not> is_delim c) (w @ r) = w"
    using w r by (intro takeWhile_closed) (simp_all add: is_word_def closed_def)
  have "lexeme (w @ r) = Some (length w, Return (word_token w))"
    using char_kinds(3) [OF c(2)] c(2) t unfolding c(1) lexeme_def by (simp add: is_delim_def Let_def)
  then show ?thesis by (simp add: tokens.simps [of "w @ r"])
qed

lemma tokens_single: "is_single c \<Longrightarrow> map_of reserved [c] = Some t \<Longrightarrow> tokens (c # r) = (t, [c]) # tokens r"
  using char_kinds(4) [of c] by (simp add: tokens.simps [of "c # r"] lexeme_def)

lemma tokens_drop_blank: "tokens (dropWhile is_blank r) = tokens r"
proof (cases r)
  case (Cons c v)
  then show ?thesis
    by (cases "is_blank c") (simp_all add: tokens.simps [of "c # v"] lexeme_def dropWhile_eq_drop)
qed simp

lemma tokens_blank: "is_blank c \<Longrightarrow> tokens (c # r) = tokens r"
  using tokens_drop_blank [of "c # r"] tokens_drop_blank [of r] by simp

lemma lexeme_natural:
  assumes "w \<noteq> []" "list_all is_digit w" "closed r"
  shows "lexeme (w @ r) = Some (length w, Return TNatural)"
proof -
  have t: "takeWhile is_digit (w @ r) = w" using assms closed_digit by (intro takeWhile_closed) auto
  have r: "\<not> (length w < length (w @ r) \<and> (w @ r) ! length w = CHR ''/'')"
    using closed_digit assms(3) by (cases r) auto
  obtain c v where c: "w = c # v" "is_digit c" using assms(1,2) by (cases w) auto
  have "\<not> is_blank c \<and> c \<noteq> newline \<and> c \<noteq> CHR '';''" using char_kinds(1) [of c] c(2) char_kinds(5,6) by auto
  then show ?thesis using t r c unfolding lexeme_def by (auto simp: Let_def simp del: takeWhile.simps)
qed

lemma tokens_natural: "w \<noteq> [] \<Longrightarrow> list_all is_digit w \<Longrightarrow> closed r \<Longrightarrow> tokens (w @ r) = (TNatural, w) # tokens r"
  by (simp add: tokens.simps [of "w @ r"] lexeme_natural)

lemma lexeme_rational:
  assumes "u \<noteq> []" "v \<noteq> []" "list_all is_digit u" "list_all is_digit v" "closed r"
  shows "lexeme (u @ CHR ''/'' # v @ r) = Some (Suc (length u + length v), Return TRational)"
proof -
  have t: "takeWhile is_digit (u @ CHR ''/'' # v @ r) = u" using assms by (intro takeWhile_closed) (auto simp: is_digit_def)
  have t': "takeWhile is_digit (v @ r) = v" using assms closed_digit by (intro takeWhile_closed) auto
  obtain c w where c: "u = c # w" "is_digit c" using assms(1,3) by (cases u) auto
  have "\<not> is_blank c \<and> c \<noteq> newline \<and> c \<noteq> CHR '';''" using char_kinds(1) [of c] c(2) char_kinds(5,6) by auto
  then show ?thesis using t t' assms(2) c unfolding lexeme_def by (simp add: Let_def nth_append del: takeWhile.simps)
qed

lemma tokens_rational:
  "u \<noteq> [] \<Longrightarrow> v \<noteq> [] \<Longrightarrow> list_all is_digit u \<Longrightarrow> list_all is_digit v \<Longrightarrow> closed r \<Longrightarrow>
   tokens (u @ CHR ''/'' # v @ r) = (TRational, u @ CHR ''/'' # v) # tokens r"
  by (simp add: tokens.simps [of "u @ CHR ''/'' # v @ r"] lexeme_rational)

end
