(* ===== verification/LFSC_Main.thy ===== *)
theory LFSC_Main
  imports LFSC_Start LFSC_Write LFSC_Scan
begin

text \<open>
  The command line of \<open>src/src/main.cpp\<close>, the library entry points of \<open>src/src/lfscc.cpp\<close> and the release of
  the tables at the end (\<open>cleanup\<close> and the class \<open>Deref\<close> of \<open>src/src/check.cpp\<close>).  The files that can be opened are an
  argument \<open>fs\<close>, as sequences of tokens (\<open>scan_files\<close> gives them from the texts); what \<open>mpz_get_si\<close> returns is the argument \<open>si\<close>; the result of \<open>main\<close> are the files that the compiler of side conditions
  has written.
\<close>

section \<open>Options\<close>

definition no_args :: args where
  "no_args = \<lparr>files = [], show_runs = False, no_tail_calls = False, compile_scc = False, compile_scc_debug = False,
     use_run_scc = False, use_nested_app = False\<rparr>"

text \<open>\<open>strncmp(p, s, strlen(p)) == 0\<close>\<close>

definition starts_with :: "string \<Rightarrow> string \<Rightarrow> bool" where
  "starts_with p s \<longleftrightarrow> take (length p) s = p"

text \<open>\<open>None\<close> is \<open>exit(0)\<close> after the usage message.\<close>

primrec parse_args :: "string list \<Rightarrow> args \<Rightarrow> args option" where
  "parse_args [] a = Some a"
| "parse_args (s # argv) a =
     (if starts_with ''-h'' s \<or> starts_with ''--h'' s then None
      else if s = ''--show-runs'' then parse_args argv (a\<lparr>show_runs := True\<rparr>)
      else if s = ''--no-tail-calls'' then parse_args argv (a\<lparr>no_tail_calls := True\<rparr>)
      else if s = ''--compile-scc'' then parse_args argv (a\<lparr>compile_scc := True, compile_scc_debug := False\<rparr>)
      else if s = ''--compile-scc-debug'' then parse_args argv (a\<lparr>compile_scc := True, compile_scc_debug := True\<rparr>)
      else if s = ''--run-scc'' then parse_args argv (a\<lparr>use_run_scc := True\<rparr>)
      else if s = ''--use-nested-app'' then parse_args argv (a\<lparr>use_nested_app := True\<rparr>)
      else parse_args argv (a\<lparr>files := files a @ [s]\<rparr>))"

section \<open>The program and the library\<close>

text \<open>\<open>scw->write_file()\<close>, for the programs that the checker has handed over.\<close>

definition write_scc :: "nat \<Rightarrow> (int \<Rightarrow> int) \<Rightarrow> args \<Rightarrow> (cs, (string \<times> string) option) M" where
  "write_scc f si a = (\<lambda>c.
     case sq (iter_M (\<lambda>(x, e). add_scc x e) (handed c)) (write_file f)
       (new_scw (heap c) si (if compile_scc_debug a then opt_write_call_debug else 0)) of
       Inl e \<Rightarrow> Inl e
     | Inr (t, w) \<Rightarrow> Inr (Some t, c\<lparr>heap := graph w\<rparr>))"

definition main_body :: "nat \<Rightarrow> (int \<Rightarrow> int) \<Rightarrow> (string \<Rightarrow> (token \<times> string) list option) \<Rightarrow> args
    \<Rightarrow> (cs, (string \<times> string) option) M" where
  "main_body f si fs a =
     sq (onheap init) (
     if files a \<noteq> [] then
       sq (iter_M (check_file_named f a (compile_scc a) fs) (files a)) (
       if compile_scc a then write_scc f si a else ret None)
     else sq (check_file_named f a False fs ''stdin'') (ret None))"

text \<open>The scanner that \<open>check_file\<close> makes for a file.\<close>

definition scan_files :: "(string \<Rightarrow> string option) \<Rightarrow> string \<Rightarrow> (token \<times> string) list option" where
  "scan_files disk x = Option.bind (disk x) (scan 0)"

definition main :: "nat \<Rightarrow> (int \<Rightarrow> int) \<Rightarrow> (string \<Rightarrow> (token \<times> string) list option) \<Rightarrow> string list
    \<Rightarrow> (cs, (string \<times> string) option) M" where
  "main f si fs argv = (case parse_args argv no_args of None \<Rightarrow> ret None | Some a \<Rightarrow> main_body f si fs a)"

definition lfscc_args :: "bool \<Rightarrow> bool \<Rightarrow> bool \<Rightarrow> bool \<Rightarrow> bool \<Rightarrow> bool \<Rightarrow> args" where
  "lfscc_args sr ntc scc sccd rs una = \<lparr>files = [], show_runs = sr, no_tail_calls = ntc, compile_scc = scc,
     compile_scc_debug = sccd, use_run_scc = rs, use_nested_app = una\<rparr>"

definition lfscc_init :: "(cs, unit) M" where
  "lfscc_init = onheap init"

definition lfscc_check_file :: "nat \<Rightarrow> (string \<Rightarrow> (token \<times> string) list option) \<Rightarrow> string
    \<Rightarrow> bool \<Rightarrow> bool \<Rightarrow> bool \<Rightarrow> bool \<Rightarrow> bool \<Rightarrow> bool \<Rightarrow> bool \<Rightarrow> (cs, unit) M" where
  "lfscc_check_file f fs filename sr ntc scc sccd rs una scw =
     check_file_named f (lfscc_args sr ntc scc sccd rs una) scw fs filename"

definition lfscc_check_stream :: "nat \<Rightarrow> (token \<times> string) list
    \<Rightarrow> bool \<Rightarrow> bool \<Rightarrow> bool \<Rightarrow> bool \<Rightarrow> bool \<Rightarrow> bool \<Rightarrow> bool \<Rightarrow> (cs, unit) M" where
  "lfscc_check_stream f ts sr ntc scc sccd rs una scw = check_file f (lfscc_args sr ntc scc sccd rs una) scw ts"

section \<open>The end\<close>

text \<open>\<open>Deref::clean\<close>\<close>

definition clean_pair :: "addr option \<times> addr option \<Rightarrow> (st, unit) M" where
  "clean_pair p = sq (dec_opt (fst p)) (dec_opt (snd p))"

text \<open>\<open>cleanup\<close>; \<open>keys\<close> are the keys of the table of programs in the order in which it is traversed.\<close>

definition cleanup :: "string list \<Rightarrow> (st, unit) M" where
  "cleanup keys =
     iter_M (\<lambda>x.
       bnd (gets (\<lambda>s. progs s x)) (\<lambda>q. case q of
         Some (Some p) \<Rightarrow>
           bnd (bnd (getval p) deref) (\<lambda>progcode.
           sq (setval p None) (
           sq (dec progcode) (dec p)))
       | _ \<Rightarrow> ret ())) keys"

definition lfscc_cleanup :: "string list \<Rightarrow> (st, unit) M" where
  "lfscc_cleanup keys = cleanup keys"

section \<open>What the command line means\<close>

definition options :: "string list" where
  "options = [''--show-runs'', ''--no-tail-calls'', ''--compile-scc'', ''--compile-scc-debug'', ''--run-scc'', ''--use-nested-app'']"

definition asks_help :: "string \<Rightarrow> bool" where
  "asks_help s \<longleftrightarrow> starts_with ''-h'' s \<or> starts_with ''--h'' s"

lemma parse_args_help: "parse_args argv a = None \<longleftrightarrow> (\<exists>s \<in> set argv. asks_help s)"
  by (induction argv arbitrary: a) (auto simp: asks_help_def)

lemma parse_args_spec:
  assumes "parse_args argv a = Some a'"
  shows "files a' = files a @ filter (\<lambda>s. s \<notin> set options) argv"
    and "show_runs a' = (show_runs a \<or> ''--show-runs'' \<in> set argv)"
    and "no_tail_calls a' = (no_tail_calls a \<or> ''--no-tail-calls'' \<in> set argv)"
    and "compile_scc a' = (compile_scc a \<or> ''--compile-scc'' \<in> set argv \<or> ''--compile-scc-debug'' \<in> set argv)"
    and "use_run_scc a' = (use_run_scc a \<or> ''--run-scc'' \<in> set argv)"
    and "use_nested_app a' = (use_nested_app a \<or> ''--use-nested-app'' \<in> set argv)"
  using assms
  by (induction argv arbitrary: a) (auto simp: options_def split: if_splits)

text \<open>The last of the two compile options decides about debug code.\<close>

lemma parse_args_debug:
  assumes "parse_args argv a = Some a'"
  shows "compile_scc_debug a' =
    foldl (\<lambda>b s. if s = ''--compile-scc'' then False else if s = ''--compile-scc-debug'' then True else b) (compile_scc_debug a) argv"
  using assms by (induction argv arbitrary: a) (simp_all split: if_splits)

text \<open>Without files the standard input is not read: a stream that was never opened is.\<close>

lemma stdin_empty:
  assumes "fs ''stdin'' = None" "parse_args argv no_args = Some a" "files a = []"
  shows "\<exists>c'. main (Suc n) si fs argv (start_cs ma) = Inr (None, c') \<and> out c' = [] \<and>
    binds c' = (\<lambda>x. (None, None))(''type'' := (Some statType, Some statKind), ''mpz'' := (Some statMpz, Some statType),
       ''mpq'' := (Some statMpq, Some statType))"
proof -
  from init_spec [of ma] obtain s where s: "init (start_st ma) = Inr ((), s)"
    "lookup s = (\<lambda>x. (None, None))(''type'' := (Some statType, Some statKind), ''mpz'' := (Some statMpz, Some statType),
       ''mpq'' := (Some statMpq, Some statType))" by blast
  have l: "lookup (s\<lparr>run_scc := b\<rparr>) = lookup s" for b by (simp add: lookup_def fun_eq_iff)
  show ?thesis
    using assms s
    by (simp add: main_def main_body_def check_file_named_def check_file_def run_simps next_token_run start_cs_def init_lex_def l)
qed

end
