(* ===== verification/LFSC_Contract.thy ===== *)
theory LFSC_Contract
  imports LFSC_Check
begin

text \<open>
  The contract of \<open>check\<close> that the comment before it in \<open>src/src/check.cpp\<close> states: when it returns a term, when
  it returns null, when it computes a classifier, and when it says that it read a hole.
\<close>

section \<open>Results\<close>

definition yields :: "('a \<Rightarrow> bool) \<Rightarrow> ('s, 'a) M \<Rightarrow> bool" where
  "yields Q m \<longleftrightarrow> (\<forall>s y s'. m s = Inr (y, s') \<longrightarrow> Q y)"

lemma yields_bnd: "yields P m \<Longrightarrow> (\<And>y. P y \<Longrightarrow> yields Q (k y)) \<Longrightarrow> yields Q (bnd m k)"
  unfolding yields_def bnd_Inr_iff by blast

lemma yields_any: "(\<And>y. yields Q (k y)) \<Longrightarrow> yields Q (bnd m k)"
  unfolding yields_def bnd_Inr_iff by blast

lemma yields_sq: "yields Q k \<Longrightarrow> yields Q (sq m k)"
  unfolding sq_def by (rule yields_any)

lemma yields_ret: "Q y \<Longrightarrow> yields Q (ret y)"
  by (simp add: yields_def)

lemma yields_stop: "yields Q (stop e)" "yields Q (report_error msg)"
  by (simp_all add: yields_def)

lemma yields_if: "(b \<Longrightarrow> yields Q m) \<Longrightarrow> (\<not> b \<Longrightarrow> yields Q k) \<Longrightarrow> yields Q (if b then m else k)"
  by simp

lemma yields_option:
  "(v = None \<Longrightarrow> yields Q m) \<Longrightarrow> (\<And>x. v = Some x \<Longrightarrow> yields Q (f x)) \<Longrightarrow> yields Q (case v of None \<Rightarrow> m | Some x \<Rightarrow> f x)"
  by (cases v) simp_all

lemma yields_prod: "(\<And>x y. v = (x, y) \<Longrightarrow> yields Q (f x y)) \<Longrightarrow> yields Q (case v of (x, y) \<Rightarrow> f x y)"
  by (cases v) simp

lemma yields_onheap: "yields Q m \<Longrightarrow> yields Q (onheap m)"
  by (auto simp: yields_def onheap_def split: sum.splits)

lemma yields_mono: "yields P m \<Longrightarrow> (\<And>y. P y \<Longrightarrow> Q y) \<Longrightarrow> yields Q m"
  by (auto simp: yields_def)

lemmas yields_rules = yields_ret yields_stop yields_if yields_option yields_prod yields_sq yields_any

section \<open>The contract\<close>

fun meets :: "cargs \<Rightarrow> cres \<Rightarrow> bool" where
  "meets a (r, cl, h) \<longleftrightarrow> (create a \<longrightarrow> r \<noteq> None) \<and> (\<not> create a \<longrightarrow> r \<noteq> None \<longrightarrow> h) \<and> (h \<longrightarrow> is_hole a) \<and>
     (expected a = None \<longrightarrow> computed a \<longrightarrow> \<not> h \<longrightarrow> cl \<noteq> None) \<and> (expected a \<noteq> None \<longrightarrow> cl = None)"

lemma yields_put_computed: "yields (\<lambda>v. v \<noteq> None) (put_computed a v)"
  by (simp add: put_computed_def yields_def)

lemma yields_build_pis: "r \<noteq> None \<Longrightarrow> yields (\<lambda>e. e \<noteq> None) (build_pis f ps r)"
  by (induction ps) (auto intro!: yields_rules)

lemma yields_build_validate:
  "cr \<longrightarrow> r \<noteq> None \<Longrightarrow> yields (\<lambda>(p1, p2). cr = (p1 \<noteq> None)) (build_validate_pi f ps r k cr)"
  unfolding build_validate_pi_def
  by (intro yields_any yields_if yields_bnd [OF yields_build_pis] yields_ret yields_stop) auto

lemma meets_pi:
  assumes r: "\<And>a. yields (meets a) (rec a)"
  shows "yields (meets a) (check_pi rec f a)"
  unfolding check_pi_def by (intro yields_bnd [OF r] yields_rules) auto

lemma meets_arrow:
  assumes r: "\<And>a. yields (meets a) (rec a)"
  shows "yields (meets a) (check_arrow rec f a)"
proof -
  have c: "yields (\<lambda>cl. expected a = None \<longleftrightarrow> cl \<noteq> None)
    (if expected a \<noteq> None then sq (onheap (dec p)) (ret None) else put_computed a p)" for p
    by (intro yields_if yields_sq yields_ret yields_mono [OF yields_put_computed]) auto
  show ?thesis
    unfolding check_arrow_def
    by (rule yields_any, rule yields_prod, rule yields_bnd [OF r], intro yields_prod yields_sq yields_any [of _ _ "deref _"],
        rule yields_bnd [OF yields_onheap [OF yields_build_validate]], simp add: ask_def,
        intro yields_prod yields_bnd [OF c] yields_ret) simp
qed

text \<open>
  An annotated lambda is not checked against a type: nothing is computed for its body then, and the type
  that is built from the missing classifier is not a pi.
\<close>

lemma pound_type_null: "yields (\<lambda>t. False) (pound_type f x sy d None)"
  by (cases d) (auto simp: yields_def pound_type_def mk_cexpr_def new_expr_def Let_def calc_free_in_def run_simps)

lemma meets_pound:
  assumes r: "\<And>a. yields (meets a) (rec a)"
  shows "yields (\<lambda>res. meets a res \<and> expected a = None) (check_pound rec f a)"
proof -
  have e: "yields (\<lambda>e'. e' = None \<longleftrightarrow> e = None) (pound_expected f e d)" for e d
    unfolding pound_expected_def by (intro yields_rules) auto
  have t: "yields (\<lambda>t. cl \<noteq> None) (pound_type f x sy d cl)" for x sy d cl
    using pound_type_null by (cases cl) (auto simp: yields_def)
  show ?thesis
    unfolding check_pound_def
    by (intro yields_bnd [OF r] yields_bnd [OF yields_put_computed] yields_bnd [OF yields_onheap [OF t]]
        yields_bnd [OF yields_onheap [OF e]] yields_rules) auto
qed

lemma meets_percent:
  assumes r: "\<And>a. yields (meets a) (rec a)"
  shows "yields (meets a) (check_percent rec f a)"
proof -
  have "yields (meets a) (rec (a\<lparr>create := False, expected := None, is_hole := False\<rparr>))" if "\<not> create a" "expected a = None"
    by (rule yields_mono [OF r]) (use that in auto)
  then show ?thesis
    unfolding check_percent_def by (intro yields_rules) auto
qed

lemma meets_lambda:
  assumes r: "\<And>a. yields (meets a) (rec a)"
  shows "yields (meets a) (check_lambda rec f a)"
proof -
  have "yields (meets a) (lambda_tail rec a x old pv orig rng)" if "\<not> create a" "expected a \<noteq> None" for x old pv orig rng
    unfolding lambda_tail_def by (intro yields_sq yields_mono [OF r]) (use that in auto)
  moreover have "yields (meets a) (lambda_body rec a x sy old pv pivar orig dom1 rng)" if "expected a \<noteq> None"
    for x sy old pv pivar orig dom1 rng
    unfolding lambda_body_def by (intro yields_rules) (use that in auto)
  ultimately have b: "yields (meets a) (if tail then lambda_tail rec a x old pv orig rng
      else lambda_body rec a x sy old pv pivar orig dom1 rng)" if "expected a \<noteq> None" "tail \<longrightarrow> \<not> create a"
    for tail x sy old pv pivar orig dom1 rng using that by simp
  have g: "yields (\<lambda>tail. tail \<longrightarrow> \<not> create a) (gets (\<lambda>c. tail_calls c \<and> big_check c \<and> return_pos a \<and> \<not> create a))"
    by (auto simp: yields_def)
  show ?thesis
    unfolding check_lambda_def by (intro yields_bnd [OF g] b yields_rules) auto
qed

lemma meets_others:
  assumes r: "\<And>a. yields (meets a) (rec a)"
  shows "yields (meets a) (check_run rec f a)" "yields (meets a) (check_ascription rec f a)"
    "yields (meets a) (check_local rec f a)" "yields (meets a) (check_tilde rec a)"
proof -
  show "yields (meets a) (check_run rec f a)"
    unfolding check_run_def by (intro yields_rules) auto
  show "yields (meets a) (check_ascription rec f a)"
    unfolding check_ascription_def
    by (intro yields_bnd [OF r] yields_bnd [OF yields_put_computed] yields_rules) (auto simp: ask_def)
  show "yields (meets a) (check_local rec f a)"
    unfolding check_local_def
    by (intro r yields_bnd [OF r] yields_rules) auto
  show "yields (meets a) (check_tilde rec a)"
    unfolding check_tilde_def
    by (intro yields_bnd [OF r] yields_rules) auto
qed

text \<open>The loop over the arguments keeps building the term.\<close>

fun meets_step :: "cargs \<Rightarrow> app_step \<Rightarrow> bool" where
  "meets_step a (TailDone res) \<longleftrightarrow> meets a res"
| "meets_step a (ArgsDone t h hs) \<longleftrightarrow> (create a \<longrightarrow> t \<noteq> None)"

lemma meets_app_tail:
  assumes r: "\<And>a. yields (meets a) (rec a)" and a: "\<not> create a"
  shows "yields (meets a) (app_tail rec f a h d g hs)"
proof -
  have c: "yields (\<lambda>cl. expected a = None \<longleftrightarrow> cl \<noteq> None) (case expected a of
      Some e \<Rightarrow> bnd (onheap (defeq f e g)) (\<lambda>b.
        if \<not> b then report_error ''The type expected for an application does not match the computed type.''
        else sq (onheap (dec e)) (ret None))
    | None \<Rightarrow> sq (onheap (inc g)) (put_computed a g))"
    by (intro yields_rules yields_mono [OF yields_put_computed]) auto
  show ?thesis
    unfolding app_tail_def
    by (rule yields_bnd [OF c], intro yields_sq yields_bnd [OF r] yields_prod yields_ret) (use a in auto)
qed

lemma meets_app_arg:
  "yields (\<lambda>(t', hs'). create a \<longrightarrow> t' \<noteq> None) (app_arg rec f a prev v x d t hs)"
proof -
  have c: "yields (\<lambda>t'. create a \<longrightarrow> t' \<noteq> None) (if create a then
      bnd (deref t) (\<lambda>h. bnd (onheap (extend_app h arg)) (\<lambda>r. ret (Some r))) else ret t)" for arg
    by (intro yields_rules) auto
  show ?thesis
    unfolding app_arg_def by (rule yields_any, intro yields_prod yields_sq yields_bnd [OF c] yields_any yields_ret) simp
qed

lemma meets_app_args:
  assumes r: "\<And>a. yields (meets a) (rec a)"
  shows "create a \<longrightarrow> t \<noteq> None \<Longrightarrow> yields (meets_step a) (app_args rec f n a prev t h hs)"
proof (induction n arbitrary: t h hs)
  case (Suc n)
  show ?case
    unfolding app_args.simps
    by (intro yields_bnd [OF meets_app_tail [OF r]] yields_bnd [OF meets_app_arg] Suc.IH yields_rules)
      (use Suc.prems in auto)
qed (simp add: yields_def)

lemma meets_app:
  assumes r: "\<And>a. yields (meets a) (rec a)"
  shows "yields (meets a) (check_app rec f a c)"
proof -
  have e: "yields (\<lambda>cl. expected a = None \<longleftrightarrow> cl \<noteq> None) (case expected a of
      Some e \<Rightarrow> bnd (onheap (defeq f e h)) (\<lambda>b.
        if \<not> b then report_error ''The type expected for an application does not match the computed type.(2)''
        else sq (onheap (dec e)) (sq (onheap (dec h)) (ret None)))
    | None \<Rightarrow> put_computed a h)" for h
    by (intro yields_rules yields_mono [OF yields_put_computed]) auto
  have "yields (meets a) (case st of TailDone res \<Rightarrow> ret res | ArgsDone t h hs \<Rightarrow> app_finish f a t h hs)"
    if "meets_step a st" for st
  proof (cases st)
    case (ArgsDone t h hs)
    show ?thesis
      unfolding ArgsDone app_step.case app_finish_def
      by (rule yields_sq, rule yields_any, rule yields_bnd [OF e], intro yields_sq yields_ret) (use that ArgsDone in auto)
  qed (use that in \<open>simp add: yields_ret\<close>)
  note s = yields_bnd [OF meets_app_args [OF r] this]
  show ?thesis
    unfolding check_app_def
    by (intro yields_bnd [OF r] s yields_sq yields_any yields_prod) (auto simp: ask_def)
qed

lemma meets_atoms:
  "yields (meets a) (check_hole a)" "yields (meets a) (check_literal a tp msg mk)" "yields (meets a) (check_symbol f a)"
proof -
  show "yields (meets a) (check_hole a)"
    unfolding check_hole_def by (intro yields_rules) auto
  have "yields (\<lambda>cl. expected a = None \<longleftrightarrow> cl \<noteq> None) (case expected a of
      Some e \<Rightarrow> if e \<noteq> tp then report_error msg else sq (onheap (dec e)) (ret None)
    | None \<Rightarrow> sq (onheap (inc tp)) (put_computed a tp))"
    by (intro yields_rules yields_mono [OF yields_put_computed]) auto
  then show "yields (meets a) (check_literal a tp msg mk)"
    unfolding check_literal_def by (rule yields_bnd) (intro yields_rules, auto)
  have c: "yields (\<lambda>cl. (expected a = None \<longrightarrow> computed a \<longrightarrow> cl \<noteq> None) \<and> (expected a \<noteq> None \<longrightarrow> cl = None)) (case expected a of
      Some e \<Rightarrow> bnd (deref t) (\<lambda>tp. bnd (onheap (defeq f e tp)) (\<lambda>b.
        if \<not> b then report_error ''The type expected for a symbol does not match the symbol's type.''
        else sq (onheap (dec e)) (ret None)))
    | None \<Rightarrow> if computed a then bnd (deref t) (\<lambda>tp. sq (onheap (inc tp)) (ret (Some tp))) else ret None)" for t
    by (intro yields_rules) auto
  show "yields (meets a) (check_symbol f a)"
    unfolding check_symbol_def by (intro yields_bnd [OF c] yields_rules) auto
qed

lemma check_meets: "yields (meets a) (check n a)"
proof (induction n arbitrary: a)
  case (Suc n)
  have p: "yields (meets a) (check_pound (check n) n a)" by (rule yields_mono [OF meets_pound [OF Suc.IH]]) simp
  note forms = meets_pi [OF Suc.IH] meets_arrow [OF Suc.IH] p meets_percent [OF Suc.IH]
    meets_lambda [OF Suc.IH] meets_others [OF Suc.IH] meets_app [OF Suc.IH] yields_stop
  have "yields (meets a) (check_form (check n) n a c)" for c
    by (cases c) (simp_all only: check_form_def token.case forms)
  then have "yields (meets a) (check_start (check n) n a t)" for t
    by (cases t) (simp_all only: check_start_def token.case meets_atoms yields_stop yields_sq yields_any)
  then show ?case unfolding check.simps by (intro yields_any)
qed (simp add: yields_def)

section \<open>Two forms that cannot be checked against a type\<close>

lemma pound_not_checked: "expected a \<noteq> None \<Longrightarrow> check_pound (check n) f a c \<noteq> Inr res"
  using meets_pound [OF check_meets, where a = a] by (cases res) (auto simp: yields_def)

text \<open>An ascription that is checked against a type without building the term drops a reference to a null pointer.\<close>

lemma ascription_not_checked:
  assumes "expected a \<noteq> None" "\<not> create a"
  shows "check_ascription (check n) f a c \<noteq> Inr res"
proof -
  have "yields (\<lambda>(r, cl, h). \<not> create b \<longrightarrow> \<not> is_hole b \<longrightarrow> r = None) (check n b)" for b
    by (rule yields_mono [OF check_meets]) auto
  note n = yields_bnd [OF this]
  have d: "yields (\<lambda>x. v \<noteq> None) (deref v)" for v :: "addr option" by (cases v) (simp_all add: yields_def)
  have "yields (\<lambda>res. False) (check_ascription (check n) f a)"
    unfolding check_ascription_def
    by (intro n yields_bnd [OF d] yields_rules) (use assms in \<open>auto simp: ask_def\<close>)
  then show ?thesis by (cases res) (auto simp: yields_def)
qed

end
