(* ===== verification/LFSC_Alloc.thy ===== *)
theory LFSC_Alloc
  imports LFSC_Prelude
begin

text \<open>
  The chunking allocator of \<open>src/src/chunking_memory_management.h\<close>, which \<open>src/src/expr.cpp\<close> instantiates for the class
  \<open>CExpr\<close> with chunks of 32768 blocks.  A machine address is a number, the null pointer is 0.  The number of blocks of a chunk
  and \<open>sizeof(THE_CLASS)\<close> are \<open>unsigned\<close> arguments \<open>cz\<close> and \<open>bs\<close>; the answer of \<open>malloc\<close> is an argument of the operations that may
  call it, and \<open>malloc_ok\<close> is what the C standard promises about it.  \<open>reach\<close> are the states that the operations produce together with
  a client that writes into the blocks it holds; \<open>pool\<close> is the invariant.
\<close>

section \<open>State and operations\<close>

text \<open>The static members, and the content of \<open>THE_FIELD\<close> in the block at each address.\<close>

record chunk_st =
  freelist :: nat
  initialized :: bool
  next_free_block :: nat
  end_of_current_chunk :: nat
  the_field :: "nat \<Rightarrow> nat"

definition start_chunks :: "(nat \<Rightarrow> nat) \<Rightarrow> chunk_st" where
  "start_chunks mem = \<lparr>freelist = 0, initialized = False, next_free_block = 0, end_of_current_chunk = 0, the_field = mem\<rparr>"

text \<open>The size of a chunk is computed in \<open>unsigned\<close>.\<close>

definition allocate_new_chunk :: "32 word \<Rightarrow> 32 word \<Rightarrow> nat \<Rightarrow> (chunk_st, unit) M" where
  "allocate_new_chunk cz bs chunk =
     (let tmp = cz * bs
      in if chunk = 0 then stop Aborted
         else modify (\<lambda>s. s\<lparr>next_free_block := chunk, end_of_current_chunk := chunk + unat tmp\<rparr>))"

definition init_chunks :: "32 word \<Rightarrow> 32 word \<Rightarrow> nat \<Rightarrow> (chunk_st, unit) M" where
  "init_chunks cz bs m =
     bnd (gets initialized) (\<lambda>i.
     if i then ret ()
     else sq (allocate_new_chunk cz bs m) (modify (\<lambda>s. s\<lparr>initialized := True\<rparr>)))"

definition operator_new :: "32 word \<Rightarrow> 32 word \<Rightarrow> nat \<Rightarrow> nat \<Rightarrow> (chunk_st, nat) M" where
  "operator_new cz bs m h =
     (if h \<noteq> 0 then ret h
      else
        bnd (gets freelist) (\<lambda>fl.
        if fl \<noteq> 0 then
          sq (modify (\<lambda>s. s\<lparr>freelist := the_field s fl\<rparr>)) (ret fl)
        else
          sq (bnd (gets (\<lambda>s. next_free_block s = end_of_current_chunk s)) (\<lambda>e.
              if e then allocate_new_chunk cz bs m else ret ())) (
          bnd (gets next_free_block) (\<lambda>new_block.
          sq (modify (\<lambda>s. s\<lparr>next_free_block := next_free_block s + unat bs\<rparr>)) (
          ret new_block)))))"

definition operator_delete :: "nat \<Rightarrow> (chunk_st, unit) M" where
  "operator_delete ptr = modify (\<lambda>s. s\<lparr>the_field := (the_field s)(ptr := freelist s), freelist := ptr\<rparr>)"

section \<open>Reachable states\<close>

text \<open>What \<open>malloc\<close> promises for a request of \<open>sz\<close> bytes: a range apart from those it has given before.\<close>

definition apart :: "nat \<Rightarrow> nat \<Rightarrow> nat \<Rightarrow> bool" where
  "apart sz m g \<longleftrightarrow> m + sz \<le> g \<or> g + sz \<le> m"

definition malloc_ok :: "nat \<Rightarrow> nat list \<Rightarrow> nat \<Rightarrow> bool" where
  "malloc_ok sz G m \<longleftrightarrow> m \<noteq> 0 \<and> list_all (apart sz m) G"

definition calls_malloc :: "chunk_st \<Rightarrow> bool" where
  "calls_malloc s \<longleftrightarrow> freelist s = 0 \<and> next_free_block s = end_of_current_chunk s"

text \<open>
  \<open>L\<close> are the blocks that clients hold, \<open>G\<close> the chunks obtained from \<open>malloc\<close>.  \<open>init_chunks\<close>, which nothing in the program
  calls, may be called at the start.
\<close>

inductive reach :: "32 word \<Rightarrow> 32 word \<Rightarrow> chunk_st \<Rightarrow> nat set \<Rightarrow> nat list \<Rightarrow> bool" for cz bs where
  start: "reach cz bs (start_chunks mem) {} []"
| start_init: "malloc_ok (unat (cz * bs)) [] m \<Longrightarrow> init_chunks cz bs m (start_chunks mem) = Inr ((), s) \<Longrightarrow> reach cz bs s {} [m]"
| new_block: "reach cz bs s L G \<Longrightarrow> \<not> calls_malloc s \<Longrightarrow> operator_new cz bs m 0 s = Inr (p, s') \<Longrightarrow> reach cz bs s' (insert p L) G"
| new_chunk: "reach cz bs s L G \<Longrightarrow> calls_malloc s \<Longrightarrow> malloc_ok (unat (cz * bs)) G m \<Longrightarrow> operator_new cz bs m 0 s = Inr (p, s') \<Longrightarrow>
    reach cz bs s' (insert p L) (m # G)"
| delete_block: "reach cz bs s L G \<Longrightarrow> p \<in> L \<Longrightarrow> operator_delete p s = Inr ((), s') \<Longrightarrow> reach cz bs s' (L - {p}) G"
| client: "reach cz bs s L G \<Longrightarrow> p \<in> L \<Longrightarrow> reach cz bs (s\<lparr>the_field := (the_field s)(p := v)\<rparr>) L G"

section \<open>The invariant\<close>

text \<open>The list of free blocks, linked through \<open>THE_FIELD\<close> and ended by the null pointer.\<close>

primrec chain :: "(nat \<Rightarrow> nat) \<Rightarrow> nat \<Rightarrow> nat list \<Rightarrow> bool" where
  "chain f p [] \<longleftrightarrow> p = 0"
| "chain f p (x # xs) \<longleftrightarrow> p = x \<and> x \<noteq> 0 \<and> chain f (f x) xs"

lemma chain_upd [simp]: "p \<notin> set xs \<Longrightarrow> chain (f(p := v)) q xs = chain f q xs"
  by (induction xs arbitrary: q) auto

lemma chain_nonzero: "chain f p xs \<Longrightarrow> 0 \<notin> set xs"
  by (induction xs arbitrary: p) auto

lemma chain_head: "chain f p xs \<Longrightarrow> p \<noteq> 0 \<Longrightarrow> \<exists>ys. xs = p # ys \<and> chain f (f p) ys"
  by (cases xs) auto

lemma chain_zero [simp]: "chain f 0 xs \<longleftrightarrow> xs = []"
  by (cases xs) auto

text \<open>The first \<open>k\<close> blocks of the chunk \<open>m\<close>.\<close>

definition carved :: "nat \<Rightarrow> nat \<Rightarrow> nat \<Rightarrow> nat set" where
  "carved b k m = (\<lambda>i. m + i * b) ` {..<k}"

text \<open>The blocks handed out so far: \<open>k\<close> of the current chunk, all of the older ones.\<close>

fun used_blocks :: "nat \<Rightarrow> nat \<Rightarrow> nat \<Rightarrow> nat list \<Rightarrow> nat set" where
  "used_blocks b c k [] = {}"
| "used_blocks b c k (m # G) = carved b k m \<union> (\<Union>g \<in> set G. carved b c g)"

fun current :: "nat \<Rightarrow> nat \<Rightarrow> nat \<Rightarrow> nat list \<Rightarrow> nat \<Rightarrow> nat \<Rightarrow> bool" where
  "current b c k [] nx en \<longleftrightarrow> nx = 0 \<and> en = 0 \<and> k = c"
| "current b c k (m # G) nx en \<longleftrightarrow> nx = m + k * b \<and> en = m + c * b"

definition spaced :: "nat \<Rightarrow> nat list \<Rightarrow> bool" where
  "spaced sz G \<longleftrightarrow> 0 \<notin> set G \<and> sorted_wrt (apart sz) G"

definition pool :: "nat \<Rightarrow> nat \<Rightarrow> chunk_st \<Rightarrow> nat set \<Rightarrow> nat list \<Rightarrow> nat list \<Rightarrow> nat \<Rightarrow> bool" where
  "pool b c s L G fl k \<longleftrightarrow>
     chain (the_field s) (freelist s) fl \<and> distinct fl \<and> L \<inter> set fl = {} \<and> spaced (c * b) G \<and> k \<le> c \<and>
     current b c k G (next_free_block s) (end_of_current_chunk s) \<and> L \<union> set fl = used_blocks b c k G"

section \<open>Blocks are apart\<close>

lemma carvedE:
  assumes "p \<in> carved b k m"
  obtains i where "i < k" "p = m + i * b"
  using assms by (auto simp: carved_def)

lemma carved_0: "carved b 0 m = {}"
  by (simp add: carved_def)

lemma carved_Suc: "carved b (Suc k) m = insert (m + k * b) (carved b k m)"
  by (auto simp: carved_def less_Suc_eq)

lemma carved_range: "p \<in> carved b k m \<Longrightarrow> k \<le> c \<Longrightarrow> m \<le> p \<and> p + b \<le> m + c * b"
  by (auto elim!: carvedE simp: add.assoc [symmetric])
     (metis Suc_leI add.commute le_trans mult_Suc mult_le_mono1)

lemma carved_apart:
  assumes "p \<in> carved b k m" "q \<in> carved b k m" "p \<noteq> q"
  shows "apart b p q"
proof -
  from assms obtain i j where ij: "p = m + i * b" "q = m + j * b" by (auto elim!: carvedE)
  with assms(3) consider "Suc i \<le> j" | "Suc j \<le> i" by (metis Suc_leI linorder_neqE_nat)
  then show ?thesis
  proof cases
    case 1
    then have "Suc i * b \<le> j * b" by (rule mult_le_mono1)
    with ij show ?thesis by (simp add: apart_def)
  next
    case 2
    then have "Suc j * b \<le> i * b" by (rule mult_le_mono1)
    with ij show ?thesis by (simp add: apart_def)
  qed
qed

lemma carved_chunks_apart:
  assumes "p \<in> carved b k m" "k \<le> c" "q \<in> carved b c g" "apart (c * b) m g"
  shows "apart b p q"
  using carved_range [OF assms(1,2)] carved_range [OF assms(3) order_refl] assms(4) by (auto simp: apart_def)

lemma apart_sym: "apart b p q \<Longrightarrow> apart b q p"
  by (auto simp: apart_def)

lemma older_apart:
  assumes "sorted_wrt (apart (c * b)) G" "g \<in> set G" "h \<in> set G" "p \<in> carved b c g" "q \<in> carved b c h" "p \<noteq> q"
  shows "apart b p q"
  using assms
proof (induction G)
  case (Cons m G)
  show ?case
  proof (cases "g = h")
    case True
    then show ?thesis using carved_apart Cons.prems by blast
  next
    case False
    then consider "g = m" "h \<in> set G" | "h = m" "g \<in> set G" | "g \<in> set G" "h \<in> set G" using Cons.prems by auto
    then show ?thesis
    proof cases
      case 1
      then show ?thesis using Cons.prems carved_chunks_apart [of p b c m c q h] by simp
    next
      case 2
      then show ?thesis using Cons.prems carved_chunks_apart [of q b c m c p g] apart_sym by simp
    next
      case 3
      then show ?thesis using Cons by simp
    qed
  qed
qed simp

lemma carved_mono: "k \<le> c \<Longrightarrow> carved b k m \<subseteq> carved b c m"
  by (auto simp: carved_def)

lemma used_all: "k \<le> c \<Longrightarrow> used_blocks b c k G \<subseteq> (\<Union>g \<in> set G. carved b c g)"
  by (cases G) (auto dest: subsetD [OF carved_mono])

lemma used_apart:
  assumes "spaced (c * b) G" "k \<le> c" "p \<in> used_blocks b c k G" "q \<in> used_blocks b c k G" "p \<noteq> q"
  shows "apart b p q"
proof -
  from assms(3,4) used_all [OF assms(2), of b G] obtain g h where "g \<in> set G" "p \<in> carved b c g" "h \<in> set G" "q \<in> carved b c h"
    by blast
  with older_apart [of c b G g h p q] assms(1,5) show ?thesis by (simp add: spaced_def)
qed

lemma used_inside:
  assumes "k \<le> c" "p \<in> used_blocks b c k G"
  shows "\<exists>g \<in> set G. g \<le> p \<and> p + b \<le> g + c * b"
  using used_all [OF assms(1), of b G] assms(2) carved_range [OF _ order_refl] by blast

text \<open>The next block of the current chunk has not been handed out.\<close>

lemma next_unused:
  assumes "spaced (c * b) (m # G)" "k < c" "0 < b"
  shows "m + k * b \<notin> used_blocks b c k (m # G)"
proof
  assume u: "m + k * b \<in> used_blocks b c k (m # G)"
  have "m + k * b \<notin> carved b k m" using assms(3) by (auto simp: carved_def)
  with u obtain g where g: "g \<in> set G" "m + k * b \<in> carved b c g" by auto
  have "m + k * b \<in> carved b c m" using assms(2) by (auto simp: carved_def)
  with g assms(1) have "apart b (m + k * b) (m + k * b)"
    using carved_chunks_apart [of "m + k * b" b c m c "m + k * b" g] by (simp add: spaced_def)
  with assms(3) show False by (simp add: apart_def)
qed

section \<open>Every operation keeps the invariant\<close>

lemma pool_start: "pool b c (start_chunks mem) {} [] [] c"
  by (simp add: pool_def start_chunks_def spaced_def)

lemma pool_start_init:
  assumes "init_chunks cz bs m (start_chunks mem) = Inr ((), s)" "unat (cz * bs) = unat cz * unat bs"
  shows "pool (unat bs) (unat cz) s {} [m] [] 0"
  using assms
  by (auto simp: init_chunks_def allocate_new_chunk_def start_chunks_def run_simps Let_def pool_def spaced_def carved_def
      split: if_splits)

text \<open>A block from the list of free blocks.\<close>

lemma pool_reuse:
  assumes "pool b c s L G fl k" "freelist s \<noteq> 0" "operator_new cz bs m 0 s = Inr (p, s')"
  shows "p \<notin> L \<and> (\<exists>fl'. pool b c s' (insert p L) G fl' k)"
proof -
  from assms(1,2) obtain fl' where fl: "fl = freelist s # fl'" "chain (the_field s) (the_field s (freelist s)) fl'"
    using chain_head [of "the_field s" "freelist s" fl] by (auto simp: pool_def)
  from assms(2,3) have "p = freelist s" "s' = s\<lparr>freelist := the_field s (freelist s)\<rparr>"
    by (auto simp: operator_new_def run_simps)
  with assms(1) fl have "p \<notin> L \<and> pool b c s' (insert p L) G fl' k" by (auto simp: pool_def)
  then show ?thesis by blast
qed

text \<open>A block of the current chunk.\<close>

lemma pool_carve:
  assumes "pool b c s L (m # G) fl k" "k < c" "0 < b"
  shows "next_free_block s \<notin> L \<and> pool b c (s\<lparr>next_free_block := next_free_block s + b\<rparr>) (insert (next_free_block s) L) (m # G) fl (Suc k)"
  using assms next_unused [of c b m G k] by (auto simp: pool_def carved_Suc)

lemma pool_next:
  assumes "pool b c s L G fl k" "freelist s = 0" "next_free_block s \<noteq> end_of_current_chunk s" "0 < b" "b = unat bs"
    "operator_new cz bs x 0 s = Inr (p, s')"
  shows "p \<notin> L \<and> pool b c s' (insert p L) G fl (Suc k)"
proof -
  from assms(1,3) obtain m H where G: "G = m # H" by (cases G) (auto simp: pool_def)
  with assms(1,3) have "k < c" by (cases "k = c") (auto simp: pool_def)
  moreover from assms(2,3,5,6) have "p = next_free_block s" "s' = s\<lparr>next_free_block := next_free_block s + b\<rparr>"
    by (auto simp: operator_new_def run_simps)
  ultimately show ?thesis using pool_carve [of b c s L m H fl k] assms(1,4) G by blast
qed

text \<open>A block of a new chunk.\<close>

lemma pool_full:
  assumes "pool b c s L G fl k" "calls_malloc s" "0 < b"
  shows "k = c"
  using assms by (cases G) (auto simp: pool_def calls_malloc_def)

lemma used_full: "used_blocks b c c G = (\<Union>g \<in> set G. carved b c g)"
  by (cases G) auto

lemma pool_new_chunk:
  assumes "pool b c s L G fl k" "calls_malloc s" "0 < b" "malloc_ok (c * b) G m"
  shows "pool b c (s\<lparr>next_free_block := m, end_of_current_chunk := m + c * b\<rparr>) L (m # G) fl 0"
  using assms pool_full [OF assms(1-3)]
  by (auto simp: pool_def spaced_def malloc_ok_def calls_malloc_def list_all_iff used_full carved_0)

lemma pool_malloc:
  assumes "pool b c s L G fl k" "calls_malloc s" "0 < b" "0 < c" "malloc_ok (c * b) G m" "b = unat bs"
    "unat (cz * bs) = c * b" "operator_new cz bs m 0 s = Inr (p, s')"
  shows "p \<notin> L \<and> pool b c s' (insert p L) (m # G) fl 1"
proof -
  let ?t = "s\<lparr>next_free_block := m, end_of_current_chunk := m + c * b\<rparr>"
  from assms have "p = next_free_block ?t" "s' = ?t\<lparr>next_free_block := next_free_block ?t + b\<rparr>"
    by (auto simp: operator_new_def calls_malloc_def allocate_new_chunk_def malloc_ok_def run_simps Let_def)
  with pool_carve [OF pool_new_chunk [OF assms(1,2,3,5)] assms(4,3)] show ?thesis by simp
qed

lemma pool_delete:
  assumes "pool b c s L G fl k" "p \<in> L" "operator_delete p s = Inr ((), s')"
  shows "pool b c s' (L - {p}) G (p # fl) k"
proof -
  from assms have "p \<notin> set fl" "p \<in> used_blocks b c k G" "k \<le> c" "0 \<notin> set G" by (auto simp: pool_def spaced_def)
  moreover from this have "p \<noteq> 0" using used_inside [of k c p b G] by (metis gr0I leD)
  moreover from assms(3) have "s' = s\<lparr>the_field := (the_field s)(p := freelist s), freelist := p\<rparr>"
    by (simp add: operator_delete_def)
  ultimately show ?thesis using assms(1,2) by (auto simp: pool_def)
qed

lemma pool_client:
  assumes "pool b c s L G fl k" "p \<in> L"
  shows "pool b c (s\<lparr>the_field := (the_field s)(p := v)\<rparr>) L G fl k"
proof -
  from assms have "p \<notin> set fl" by (auto simp: pool_def)
  with assms(1) show ?thesis by (simp add: pool_def)
qed

text \<open>The parameters make sense: blocks and chunks are not empty and the size of a chunk fits in \<open>unsigned\<close>.\<close>

definition sizes_ok :: "32 word \<Rightarrow> 32 word \<Rightarrow> bool" where
  "sizes_ok cz bs \<longleftrightarrow> 0 < unat bs \<and> 0 < unat cz \<and> unat cz * unat bs < 2 ^ 32"

lemma sizes_exact: "sizes_ok cz bs \<Longrightarrow> unat (cz * bs) = unat cz * unat bs"
  by (simp add: sizes_ok_def unat_word_ariths)

lemma new_in_pool:
  assumes "sizes_ok cz bs" "pool (unat bs) (unat cz) s L G fl k" "operator_new cz bs m 0 s = Inr (p, s')"
    "calls_malloc s \<Longrightarrow> malloc_ok (unat (cz * bs)) G m"
  shows "p \<notin> L \<and> (\<exists>fl' k'. pool (unat bs) (unat cz) s' (insert p L) (if calls_malloc s then m # G else G) fl' k')"
proof -
  from assms(1) have sz: "0 < unat bs" "0 < unat cz" "unat (cz * bs) = unat cz * unat bs" by (simp_all add: sizes_ok_def sizes_exact)
  consider "freelist s \<noteq> 0" | "freelist s = 0" "next_free_block s \<noteq> end_of_current_chunk s" | "calls_malloc s"
    by (auto simp: calls_malloc_def)
  then show ?thesis
  proof cases
    case 1
    then show ?thesis using pool_reuse [OF assms(2) 1 assms(3)] by (auto simp: calls_malloc_def)
  next
    case 2
    then show ?thesis using pool_next [OF assms(2) 2 sz(1) refl assms(3)] by (auto simp: calls_malloc_def)
  next
    case 3
    then show ?thesis using pool_malloc [OF assms(2) 3 sz(1,2) _ refl sz(3) assms(3)] assms(4) sz(3) by auto
  qed
qed

lemma reach_pool:
  assumes "reach cz bs s L G" "sizes_ok cz bs"
  shows "\<exists>fl k. pool (unat bs) (unat cz) s L G fl k"
  using assms(1)
proof induction
  case (start mem)
  show ?case using pool_start by blast
next
  case (start_init m mem s)
  then show ?case using pool_start_init sizes_exact [OF assms(2)] by blast
next
  case (new_block s L G m p s')
  then show ?case using new_in_pool [OF assms(2), of s L G _ _ m p s'] by auto
next
  case (new_chunk s L G m p s')
  then show ?case using new_in_pool [OF assms(2), of s L G _ _ m p s'] by auto
next
  case (delete_block s L G p s')
  then show ?case using pool_delete by blast
next
  case (client s L G p v)
  then show ?case using pool_client by blast
qed

text \<open>\<open>operator new\<close> returns whenever \<open>malloc\<close>, if it is called, does.\<close>

lemma new_returns: "calls_malloc s \<longrightarrow> m \<noteq> 0 \<Longrightarrow> \<exists>p s'. operator_new cz bs m 0 s = Inr (p, s')"
  by (auto simp: operator_new_def allocate_new_chunk_def calls_malloc_def run_simps Let_def)

text \<open>A block that was just given back is the next one handed out, and nothing else is changed.\<close>

lemma new_after_delete:
  assumes "operator_delete p s = Inr ((), s1)" "p \<noteq> 0"
  shows "operator_new cz bs m 0 s1 = Inr (p, s\<lparr>the_field := (the_field s)(p := freelist s)\<rparr>)"
  using assms by (auto simp: operator_new_def operator_delete_def run_simps)

section \<open>Accounting\<close>

text \<open>The blocks of the current chunk that have not been handed out yet.\<close>

definition uncarved :: "nat \<Rightarrow> chunk_st \<Rightarrow> nat set" where
  "uncarved b s = {p. next_free_block s \<le> p \<and> p < end_of_current_chunk s \<and> b dvd p - next_free_block s}"

lemma carved_rest:
  assumes "k \<le> c" "0 < b"
  shows "carved b c m = carved b k m \<union> {p. m + k * b \<le> p \<and> p < m + c * b \<and> b dvd p - (m + k * b)}"
proof (intro subset_antisym subsetI)
  fix p assume "p \<in> carved b c m"
  then obtain i where i: "i < c" "p = m + i * b" by (rule carvedE)
  show "p \<in> carved b k m \<union> {p. m + k * b \<le> p \<and> p < m + c * b \<and> b dvd p - (m + k * b)}"
  proof (cases "i < k")
    case True
    with i show ?thesis by (auto simp: carved_def)
  next
    case False
    then have "p - (m + k * b) = (i - k) * b" using i by (simp add: diff_mult_distrib)
    with i False assms(2) show ?thesis by simp
  qed
next
  fix p assume "p \<in> carved b k m \<union> {p. m + k * b \<le> p \<and> p < m + c * b \<and> b dvd p - (m + k * b)}"
  then show "p \<in> carved b c m"
  proof
    assume "p \<in> {p. m + k * b \<le> p \<and> p < m + c * b \<and> b dvd p - (m + k * b)}"
    then have p: "m + k * b \<le> p" "p < m + c * b" "b dvd p - (m + k * b)" by simp_all
    from p(3) obtain j where "p - (m + k * b) = b * j" by (rule dvdE)
    with p(1,2) have "p = m + (k + j) * b" "(k + j) * b < c * b" by (simp_all add: algebra_simps)
    then show ?thesis using assms(2) by (auto simp: carved_def)
  qed (use carved_mono [OF assms(1)] in blast)
qed

lemma pool_accounts:
  assumes "pool b c s L G fl k" "0 < b"
  shows "L \<union> set fl \<union> uncarved b s = (\<Union>g \<in> set G. carved b c g)" "(L \<union> set fl) \<inter> uncarved b s = {}"
proof -
  have "used_blocks b c k G \<union> uncarved b s = (\<Union>g \<in> set G. carved b c g) \<and> used_blocks b c k G \<inter> uncarved b s = {}"
  proof (cases G)
    case Nil
    with assms show ?thesis by (simp add: pool_def uncarved_def)
  next
    case (Cons m H)
    with assms have k: "k \<le> c" "next_free_block s = m + k * b" "end_of_current_chunk s = m + c * b" "spaced (c * b) (m # H)"
      by (simp_all add: pool_def)
    then have u: "uncarved b s = {p. m + k * b \<le> p \<and> p < m + c * b \<and> b dvd p - (m + k * b)}" by (simp add: uncarved_def)
    have "carved b k m \<inter> uncarved b s = {}" unfolding u by (auto simp: carved_def dest: mult_less_cancel2 [THEN iffD2])
    moreover have "carved b c g \<inter> uncarved b s = {}" if "g \<in> set H" for g
    proof -
      have "apart (c * b) m g" using k(4) that by (simp add: spaced_def)
      then show ?thesis using carved_range [of _ b c g c] assms(2) unfolding u by (fastforce simp: apart_def)
    qed
    ultimately show ?thesis using carved_rest [OF k(1) assms(2), of m] u Cons by auto
  qed
  moreover from assms(1) have "L \<union> set fl = used_blocks b c k G" by (simp add: pool_def)
  ultimately show "L \<union> set fl \<union> uncarved b s = (\<Union>g \<in> set G. carved b c g)" "(L \<union> set fl) \<inter> uncarved b s = {}" by simp_all
qed

section \<open>A concrete run\<close>

text \<open>Blocks of 24 bytes, as \<open>CExpr\<close> has on 64 bit machines: two blocks are allocated and the first is given back.\<close>

definition alloc_two :: chunk_st where
  "alloc_two = \<lparr>freelist = 0, initialized = False, next_free_block = 4144, end_of_current_chunk = 4096 + 786432, the_field = (\<lambda>_. 0)\<rparr>"

definition alloc_back :: chunk_st where
  "alloc_back = alloc_two\<lparr>freelist := 4096\<rparr>"

lemma sizes_cexpr: "sizes_ok 32768 24"
  by (simp add: sizes_ok_def)

lemma reach_two: "reach 32768 24 alloc_two {4096, 4120} [4096]"
proof -
  let ?s = "\<lparr>freelist = 0, initialized = False, next_free_block = 4120, end_of_current_chunk = 4096 + 786432, the_field = (\<lambda>_. 0)\<rparr>"
  have a: "reach 32768 24 ?s {4096} [4096]"
    using new_chunk [OF start [of 32768 24 "\<lambda>_. 0"], of 4096 4096 ?s]
    by (simp add: calls_malloc_def start_chunks_def malloc_ok_def operator_new_def allocate_new_chunk_def run_simps Let_def)
  have "reach 32768 24 alloc_two (insert 4120 {4096}) [4096]"
    by (rule new_block [OF a, of 0]) (simp_all add: calls_malloc_def operator_new_def run_simps alloc_two_def)
  then show ?thesis by (simp add: insert_commute)
qed

lemma reach_back: "reach 32768 24 alloc_back {4120} [4096]"
proof -
  have "reach 32768 24 alloc_back ({4096, 4120} - {4096}) [4096]"
    by (rule delete_block [OF reach_two]) (simp_all add: operator_delete_def alloc_back_def alloc_two_def fun_eq_iff)
  then show ?thesis by simp
qed

end
