(* ===== verification/LFSC_Compile.thy ===== *)
theory LFSC_Compile
  imports LFSC_Write LFSC_Sem
begin

text \<open>
  The compiler of side conditions is total on well-formed code and what it writes is well bracketed.  \<open>emits G Q m\<close>: from every
  state that satisfies \<open>G\<close> the step \<open>m\<close> returns, with enough fuel, a result that satisfies \<open>Q\<close> in a state that satisfies \<open>G\<close>; the rules for it follow
  the structure of the writer.
\<close>

section \<open>Steps that return\<close>

definition emits :: "('s \<Rightarrow> bool) \<Rightarrow> ('a \<Rightarrow> bool) \<Rightarrow> (nat \<Rightarrow> ('s, 'a) M) \<Rightarrow> bool" where
  "emits G Q m \<longleftrightarrow> (\<forall>w. G w \<longrightarrow> (\<exists>x w'. returns m w (x, w') \<and> G w' \<and> Q x))"

lemma emits_ret: "Q x \<Longrightarrow> emits G Q (\<lambda>n. ret x)"
  unfolding emits_def by (blast intro: returns_all ret_run)

lemma emits_bnd:
  assumes "emits G Q m" "\<And>x. Q x \<Longrightarrow> emits G R (\<lambda>n. k n x)"
  shows "emits G R (\<lambda>n. bnd (m n) (k n))"
  unfolding emits_def
proof (intro allI impI)
  fix w assume "G w"
  with assms(1) obtain x w1 where 1: "returns m w (x, w1)" "G w1" "Q x" unfolding emits_def by blast
  with assms(2) obtain y w2 where 2: "returns (\<lambda>n. k n x) w1 (y, w2)" "G w2" "R y" unfolding emits_def by blast
  have "returns (\<lambda>n. bnd (m n) (k n)) w (y, w2)" by (rule returns_elim2 [OF 1(1) 2(1)]) (simp add: bnd_run)
  with 2 show "\<exists>x w'. returns (\<lambda>n. bnd (m n) (k n)) w (x, w') \<and> G w' \<and> R x" by blast
qed

lemma emits_sq: "emits G (\<lambda>_. True) m \<Longrightarrow> emits G R k \<Longrightarrow> emits G R (\<lambda>n. sq (m n) (k n))"
  unfolding sq_def by (rule emits_bnd)

lemma emits_prod: "(\<And>x y. p = (x, y) \<Longrightarrow> emits G R (\<lambda>n. f n x y)) \<Longrightarrow> emits G R (\<lambda>n. case p of (x, y) \<Rightarrow> f n x y)"
  by (cases p) simp

lemma emits_gets: "(\<And>w. G w \<Longrightarrow> Q (f w)) \<Longrightarrow> emits G Q (\<lambda>n. gets f)"
  unfolding emits_def by (blast intro: returns_all gets_run)

lemma emits_modify: "(\<And>w. G w \<Longrightarrow> G (f w)) \<Longrightarrow> Q () \<Longrightarrow> emits G Q (\<lambda>n. modify f)"
  unfolding emits_def by (blast intro: returns_all modify_run)

lemma emits_deref: "x = Some y \<Longrightarrow> Q y \<Longrightarrow> emits G Q (\<lambda>n. deref x)"
  by (simp add: emits_ret)

lemma emits_Suc: "emits G Q (\<lambda>n. m (Suc n)) \<Longrightarrow> emits G Q m"
  unfolding emits_def using returns_Suc [of m] by blast

lemma emits_mono: "emits G Q m \<Longrightarrow> (\<And>x. Q x \<Longrightarrow> R x) \<Longrightarrow> emits G R m"
  unfolding emits_def by blast

section \<open>Brackets\<close>

fun braces :: "nat \<Rightarrow> string \<Rightarrow> nat option" where
  "braces k [] = Some k"
| "braces k (c # cs) =
     (if c = CHR ''{'' then braces (Suc k) cs
      else if c = CHR ''}'' then (case k of 0 \<Rightarrow> None | Suc j \<Rightarrow> braces j cs)
      else braces k cs)"

text \<open>The text takes \<open>a\<close> open brackets to \<open>b\<close>.\<close>

definition shifts :: "nat \<Rightarrow> nat \<Rightarrow> string \<Rightarrow> bool" where
  "shifts a b t \<longleftrightarrow> (\<forall>k. braces (a + k) t = Some (b + k))"

abbreviation bal :: "string \<Rightarrow> bool" where
  "bal \<equiv> shifts 0 0"

definition plain :: "string \<Rightarrow> bool" where
  "plain x \<longleftrightarrow> CHR ''{'' \<notin> set x \<and> CHR ''}'' \<notin> set x"

lemma braces_append: "braces k (s @ t) = (case braces k s of None \<Rightarrow> None | Some j \<Rightarrow> braces j t)"
  by (induction k s rule: braces.induct) (auto split: nat.splits)

lemma braces_plain: "plain x \<Longrightarrow> braces k x = Some k"
  by (induction k x rule: braces.induct) (auto simp: plain_def)

lemma shifts_append: "shifts a b t \<Longrightarrow> shifts b c u \<Longrightarrow> shifts a c (t @ u)"
  by (simp add: shifts_def braces_append)

lemma shifts_up: "bal t \<Longrightarrow> shifts a a t"
  by (simp add: shifts_def)

lemma shifts_Nil [simp]: "shifts a b [] \<longleftrightarrow> a = b"
  by (simp add: shifts_def)

lemma plain_simps [simp]:
  "plain []" "plain (c # x) \<longleftrightarrow> c \<noteq> CHR ''{'' \<and> c \<noteq> CHR ''}'' \<and> plain x" "plain (x @ y) \<longleftrightarrow> plain x \<and> plain y"
  by (auto simp: plain_def)

lemma plain_bal: "plain x \<Longrightarrow> shifts a a x"
  by (simp add: shifts_def braces_plain)

lemma plain_concat: "list_all plain xs \<Longrightarrow> plain (concat xs)"
  by (induction xs) simp_all

lemma bal_concat: "list_all bal ts \<Longrightarrow> bal (concat ts)"
  by (induction ts) (auto intro: shifts_append)

lemma plain_indent [simp]: "plain (indent ind)"
  unfolding indent_def by (rule plain_concat) (simp add: list_all_iff)

lemma plain_nl [simp]: "plain nl"
  by (simp add: nl_def)

lemma plain_line [simp]: "plain (line ind x) \<longleftrightarrow> plain x"
  by (simp add: line_def)

lemma shifts_line: "shifts a b x \<Longrightarrow> shifts a b (line ind x)"
  unfolding line_def by (intro shifts_append [of a a _ b] shifts_append [of a b _ b] plain_bal plain_indent plain_nl)

lemma braces_line [simp]: "braces k (line ind x) = braces k x"
  by (simp add: line_def braces_append braces_plain split: option.splits)

text \<open>Text is checked by counting through it.\<close>

lemmas bal_simps = shifts_def braces_append braces_plain

lemma plain_digit [simp]: "d < 10 \<Longrightarrow> digit_char d \<noteq> CHR ''{'' \<and> digit_char d \<noteq> CHR ''}''"
proof -
  assume "d < 10"
  then have "of_char (digit_char d) = 48 + d" by (simp add: digit_char_def char_of_eq_iff)
  moreover have "of_char (CHR ''{'') = (123 :: nat)" "of_char (CHR ''}'') = (125 :: nat)" by simp_all
  ultimately show ?thesis using \<open>d < 10\<close> by force
qed

lemma plain_num [simp]: "plain (mpz_get_str n)"
proof -
  have "plain (show_base 10 n)"
  proof (induction n rule: less_induct)
    case (less n)
    show ?case by (subst show_base.simps) (use less [of "n div 10"] in auto)
  qed
  then show ?thesis by (simp add: mpz_get_str_def)
qed

lemma plain_long [simp]: "plain (show_long i)"
  by (simp add: show_long_def)

lemma plain_commas: "list_all plain xs \<Longrightarrow> plain (commas xs)"
  by (cases xs) (auto simp: commas_def list_all_iff intro!: plain_concat)

lemma plain_write_dec [simp]: "plain (write_dec e ind) \<longleftrightarrow> plain e"
  by (simp add: write_dec_def)

section \<open>The states in which a program is written\<close>

text \<open>The writer changes the variables in scope, the global symbols and the counters only.\<close>

definition steady :: "scw \<Rightarrow> scw \<Rightarrow> bool" where
  "steady w0 w \<longleftrightarrow> graph w = graph w0 \<and> progNames w = progNames w0 \<and> progPtrs w = progPtrs w0 \<and> scw_progs w = scw_progs w0 \<and>
     currProgram w = currProgram w0 \<and> scw_options w = scw_options w0 \<and>
     (list_all plain (globalSyms w0) \<longrightarrow> list_all plain (globalSyms w))"

text \<open>Names without brackets, and without the character that \<open>get_var_name\<close> turns into one.\<close>

definition good_name :: "string \<Rightarrow> bool" where
  "good_name x \<longleftrightarrow> plain x \<and> CHR 0x7F \<notin> set x"

definition sound :: "addr set \<Rightarrow> scw \<Rightarrow> bool" where
  "sound V w \<longleftrightarrow>
     (\<forall>a x. node (graph w) a = Some (SymSExpr x) \<longrightarrow> good_name x) \<and> (\<forall>x \<in> V. \<exists>nm. node (graph w) x = Some (SymSExpr nm)) \<and>
     list_all plain (progNames w) \<and> length (progPtrs w) = length (progNames w) \<and> currProgram w < length (progNames w)"

text \<open>The code of a character as a signed number.\<close>

definition schar :: "char \<Rightarrow> int" where
  "schar c = (if of_char c < (128 :: int) then of_char c else of_char c - 256)"

lemma char_range: "0 \<le> (of_char c :: int)" "(of_char c :: int) < 256"
proof -
  have "(of_char c :: int) mod 256 = of_char c" by simp
  then show "0 \<le> (of_char c :: int)" "(of_char c :: int) < 256"
    using pos_mod_bound [of 256 "of_char c :: int"] pos_mod_sign [of 256 "of_char c :: int"] by simp_all
qed

lemma schar_bounds: "- 128 \<le> schar c" "schar c \<le> 127"
  using char_range [of c] by (simp_all add: schar_def)

lemma schar_eqI:
  assumes "schar c = schar d"
  shows "c = d"
proof (rule of_char_eqI)
  obtain i j where ij: "i = (of_char c :: int)" "j = (of_char d :: int)" by blast
  with assms char_range [of c] char_range [of d] have "i = j" unfolding schar_def ij [symmetric] by (simp split: if_splits)
  with ij show "(of_char c :: int) = of_char d" by simp
qed

lemma schar_char_of:
  assumes "- 128 \<le> i" "i \<le> 127"
  shows "schar (char_of (nat (i mod 256))) = i"
proof -
  have "(of_char (char_of (nat (i mod 256)) :: char) :: nat) = nat (i mod 256)" by (simp add: nat_mod_distrib)
  then have "(of_char (char_of (nat (i mod 256)) :: char) :: int) = i mod 256"
    by (metis int_nat_eq of_nat_of_char pos_mod_sign zero_less_numeral)
  moreover have "i mod 256 = (if 0 \<le> i then i else i + 256)"
  proof (cases "0 \<le> i")
    case False
    have "i mod 256 = (i + 256) mod 256" by simp
    also have "\<dots> = i + 256" using assms False by (intro mod_pos_pos_trivial) simp_all
    finally show ?thesis using False by simp
  qed (use assms in simp)
  ultimately show ?thesis using assms by (simp add: schar_def)
qed

definition var_code :: "int \<Rightarrow> int" where
  "var_code c =
     (let c1 = (if c \<le> 47 then c + 65 else if 58 \<le> c \<and> c \<le> 64 then c + (97 - 58) else c)
      in if 91 \<le> c1 \<and> c1 \<le> 94 \<or> c1 = 96 then c1 + (104 - 91) else if 123 \<le> c1 then c1 - 4 else c1)"

lemma schar_var_char: "schar (var_char c) = var_code (schar c)"
proof -
  have "- 128 \<le> var_code (schar c)" "var_code (schar c) \<le> 127" using schar_bounds [of c] by (auto simp: var_code_def Let_def)
  moreover have "var_char c = char_of (nat (var_code (schar c) mod 256))"
    by (simp add: var_char_def var_code_def schar_def Let_def)
  ultimately show ?thesis by (simp add: schar_char_of)
qed

lemma var_char_plain:
  assumes "c \<noteq> CHR 0x7F"
  shows "var_char c \<noteq> CHR ''{'' \<and> var_char c \<noteq> CHR ''}''"
proof -
  have "schar c \<noteq> 127" using assms schar_eqI [of c "CHR 0x7F"] by (auto simp: schar_def)
  with schar_bounds [of c] have "var_code (schar c) \<noteq> 123" "var_code (schar c) \<noteq> 125" by (auto simp: var_code_def Let_def)
  moreover have "schar (CHR ''{'') = 123" "schar (CHR ''}'') = 125" by (simp_all add: schar_def)
  ultimately show ?thesis using schar_var_char by metis
qed

lemma plain_var_name: "good_name x \<Longrightarrow> plain (get_var_name x)"
proof -
  assume "good_name x"
  then have "\<forall>c \<in> set x. var_char c \<noteq> CHR ''{'' \<and> var_char c \<noteq> CHR ''}''" using var_char_plain by (metis good_name_def)
  then show ?thesis by (auto simp: plain_def get_var_name_def)
qed

section \<open>Reading the graph\<close>

lemma steady_refl [simp]: "steady w w"
  by (simp add: steady_def)

lemma em_graph:
  assumes "returns m (graph w0) (x, graph w0)" "Q x"
  shows "emits (steady w0) Q (\<lambda>n. ongraph (m n))"
  unfolding emits_def
proof (intro allI impI)
  fix w assume w: "steady w0 w"
  then have "graph w = graph w0" by (simp add: steady_def)
  then have "returns (\<lambda>n. ongraph (m n)) w (x, w)" by (intro returns_elim1 [OF assms(1)]) (simp add: ongraph_def)
  with w assms(2) show "\<exists>x w'. returns (\<lambda>n. ongraph (m n)) w (x, w') \<and> steady w0 w' \<and> Q x" by blast
qed

lemma em_read: "m (graph w0) = Inr (x, graph w0) \<Longrightarrow> Q x \<Longrightarrow> emits (steady w0) Q (\<lambda>n. ongraph m)"
  by (rule em_graph [OF returns_all])

lemma em_node: "node (graph w0) a = Some nd \<Longrightarrow> Q nd \<Longrightarrow> emits (steady w0) Q (\<lambda>n. ongraph (getnode a))"
  by (rule em_read) (simp_all add: run_simps)

lemma em_op: "node (graph w0) a = Some nd \<Longrightarrow> Q (op_of nd) \<Longrightarrow> emits (steady w0) Q (\<lambda>n. ongraph (getop a))"
  by (rule em_read) (simp_all add: run_simps)

lemma em_class: "node (graph w0) a = Some nd \<Longrightarrow> Q (class_of nd) \<Longrightarrow> emits (steady w0) Q (\<lambda>n. ongraph (getclass a))"
  by (rule em_read) (simp_all add: run_simps)

lemma em_kids: "node (graph w0) a = Some (CExpr opr ks) \<Longrightarrow> Q ks \<Longrightarrow> emits (steady w0) Q (\<lambda>n. ongraph (getkids a))"
  by (rule em_read) (simp_all add: run_simps)

lemma em_kid:
  "node (graph w0) a = Some (CExpr opr ks) \<Longrightarrow> i < length ks \<Longrightarrow> Q (ks ! i) \<Longrightarrow> emits (steady w0) Q (\<lambda>n. ongraph (getkid a i))"
  by (rule em_read) (simp_all add: run_simps nth_opt_def)

lemma em_name: "node (graph w0) a = Some (SymSExpr x) \<Longrightarrow> Q x \<Longrightarrow> emits (steady w0) Q (\<lambda>n. ongraph (getname a))"
  by (rule em_read) (simp_all add: run_simps getname_def)

lemma em_is_var: "emits (steady w0) (\<lambda>_. True) (\<lambda>n. is_var x)"
  unfolding is_var_def by (rule emits_gets) simp

lemma em_push: "emits (steady w0) (\<lambda>_. True) (\<lambda>n. push_var x)"
  unfolding push_var_def by (rule emits_modify) (simp_all add: steady_def)

lemma em_global: "plain x \<Longrightarrow> emits (steady w0) (\<lambda>_. True) (\<lambda>n. add_global_sym x)"
  unfolding add_global_sym_def by (rule emits_modify) (simp_all add: steady_def)

lemma em_next_expr: "emits (steady w0) plain (\<lambda>n. next_expr)"
  unfolding next_expr_def by (intro emits_bnd [OF emits_gets [of _ "\<lambda>_. True"]] emits_sq emits_modify emits_ret) (simp_all add: steady_def)

lemma em_next_rnum: "emits (steady w0) plain (\<lambda>n. next_rnum)"
  unfolding next_rnum_def by (intro emits_bnd [OF emits_gets [of _ "\<lambda>_. True"]] emits_sq emits_modify emits_ret) (simp_all add: steady_def)

lemma em_prog_name:
  assumes "sound V w0" "i < length (progNames w0)"
  shows "emits (steady w0) plain (\<lambda>n. prog_name i)"
  unfolding prog_name_def
proof (rule emits_bnd)
  show "emits (steady w0) (\<lambda>x. x = Some (progNames w0 ! i)) (\<lambda>n. gets (\<lambda>w. nth_opt (progNames w) i))"
    by (rule emits_gets) (use assms in \<open>simp add: steady_def nth_opt_def\<close>)
  fix x assume "x = Some (progNames w0 ! i)"
  then show "emits (steady w0) plain (\<lambda>n. deref x)"
    by (rule emits_deref) (use assms in \<open>simp add: sound_def list_all_length\<close>)
qed

section \<open>Expressions\<close>

definition rplain :: "string option \<Rightarrow> bool" where
  "rplain r \<longleftrightarrow> (case r of None \<Rightarrow> True | Some x \<Rightarrow> plain x)"

lemma rplain_Some [simp]: "rplain (Some x) \<longleftrightarrow> plain x"
  by (simp add: rplain_def)

lemma plain_ret_mod: "rplain r \<Longrightarrow> plain (ret_mod r)"
  by (cases r) (simp_all add: ret_mod_def)

lemma plain_inc_string: "rplain r \<Longrightarrow> plain (inc_string r)"
  by (cases r) (simp_all add: inc_string_def)

text \<open>The code at \<open>a\<close> is written, with the given options.\<close>

definition writes_with :: "int \<Rightarrow> scw \<Rightarrow> addr \<Rightarrow> bool" where
  "writes_with opts w0 a \<longleftrightarrow> (\<forall>ind r. rplain r \<longrightarrow> emits (steady w0) bal (\<lambda>n. write_code n a ind r opts))"

definition written :: "string \<times> string \<Rightarrow> bool" where
  "written et \<longleftrightarrow> plain (fst et) \<and> bal (snd et)"

lemma em_sym_var:
  assumes "sound V w0" "node (graph w0) a = Some nd"
  shows "emits (steady w0) (\<lambda>sv. case sv of None \<Rightarrow> True | Some (x, v) \<Rightarrow> plain (get_var_name x)) (\<lambda>n. sym_var a)"
  unfolding sym_var_def
proof (rule emits_bnd)
  let ?Q = "\<lambda>sv. case sv of None \<Rightarrow> True | Some (x, v) \<Rightarrow> plain (get_var_name x)"
  show "emits (steady w0) (\<lambda>c. c = class_of nd) (\<lambda>n. ongraph (getclass a))" by (rule em_class [OF assms(2)]) simp
  fix c assume c: "c = class_of nd"
  show "emits (steady w0) ?Q (\<lambda>n. if c = SYMS_EXPR then bnd (ongraph (getname a)) (\<lambda>x. bnd (is_var x) (\<lambda>v. ret (Some (x, v)))) else ret None)"
  proof (cases nd)
    case (SymSExpr x)
    with assms have g: "good_name x" "node (graph w0) a = Some (SymSExpr x)" by (simp_all add: sound_def)
    have "emits (steady w0) ?Q (\<lambda>n. bnd (ongraph (getname a)) (\<lambda>x. bnd (is_var x) (\<lambda>v. ret (Some (x, v)))))"
      by (rule emits_bnd [OF em_name [where Q = good_name, OF g(2,1)]], rule emits_bnd [OF em_is_var], rule emits_ret) (simp add: plain_var_name)
    with SymSExpr c show ?thesis by simp
  qed (use c in \<open>auto intro: emits_ret\<close>)
qed

lemma em_write_expr:
  assumes "sound V w0" "node (graph w0) a = Some nd" "writes_with opts w0 a"
  shows "emits (steady w0) written (\<lambda>n. write_expr (write_code n) a ind opts)"
  unfolding write_expr_def
proof (rule emits_bnd [OF em_sym_var [OF assms(1,2)]])
  fix sv :: "(string \<times> bool) option"
  assume sv: "case sv of None \<Rightarrow> True | Some (x, v) \<Rightarrow> plain (get_var_name x)"
  have fresh: "emits (steady w0) written (\<lambda>n. bnd next_expr (\<lambda>e. bnd (write_code n a ind (Some e) opts) (\<lambda>body. sq (push_var e) (
         ret (e, line ind ((if sv \<noteq> None then ''static '' else []) @ ''Expr* '' @ e @ '' = NULL;'') @ body @
           (if has_opt opts opt_write_check_sym_expr then
              line ind (''if ('' @ e @ ''->getclass() != SYM_EXPR) {'') @ line (ind + 1) ''exit( 1 );'' @ line ind ''}''
            else []))))))"
  proof (rule emits_bnd [OF em_next_expr])
    fix e assume e: "plain e"
    have b: "emits (steady w0) bal (\<lambda>n. write_code n a ind (Some e) opts)" using assms(3) e by (simp add: writes_with_def)
    show "emits (steady w0) written (\<lambda>n. bnd (write_code n a ind (Some e) opts) (\<lambda>body. sq (push_var e) (
         ret (e, line ind ((if sv \<noteq> None then ''static '' else []) @ ''Expr* '' @ e @ '' = NULL;'') @ body @
           (if has_opt opts opt_write_check_sym_expr then
              line ind (''if ('' @ e @ ''->getclass() != SYM_EXPR) {'') @ line (ind + 1) ''exit( 1 );'' @ line ind ''}''
            else [])))))"
      by (rule emits_bnd [OF b], rule emits_sq [OF em_push], rule emits_ret)
         (use e in \<open>simp add: written_def bal_simps\<close>)
  qed
  show "emits (steady w0) written (\<lambda>n. case sv of Some (x, True) \<Rightarrow> ret (get_var_name x, line ind (get_var_name x @ ''->inc();''))
     | _ \<Rightarrow> bnd next_expr (\<lambda>e. bnd (write_code n a ind (Some e) opts) (\<lambda>body. sq (push_var e) (
         ret (e, line ind ((if sv \<noteq> None then ''static '' else []) @ ''Expr* '' @ e @ '' = NULL;'') @ body @
           (if has_opt opts opt_write_check_sym_expr then
              line ind (''if ('' @ e @ ''->getclass() != SYM_EXPR) {'') @ line (ind + 1) ''exit( 1 );'' @ line ind ''}''
            else []))))))"
  proof (cases "\<exists>x. sv = Some (x, True)")
    case True
    then show ?thesis using sv by (auto simp: written_def intro!: emits_ret plain_bal)
  next
    case False
    with fresh show ?thesis by (cases sv) (auto split: bool.splits)
  qed
qed

text \<open>A cell whose code is written, whatever the options of the call.\<close>

definition writes :: "scw \<Rightarrow> addr \<Rightarrow> bool" where
  "writes w0 a \<longleftrightarrow> (\<exists>nd. node (graph w0) a = Some nd) \<and> (\<forall>opts. writes_with opts w0 a)"

lemma em_expr: "sound V w0 \<Longrightarrow> writes w0 a \<Longrightarrow> emits (steady w0) written (\<lambda>n. write_expr (write_code n) a ind opts)"
  unfolding writes_def using em_write_expr by blast

lemma em_code: "writes w0 a \<Longrightarrow> rplain r \<Longrightarrow> emits (steady w0) bal (\<lambda>n. write_code n a ind r opts)"
  by (simp add: writes_def writes_with_def)

lemma em_expr_kid:
  assumes "sound V w0" "node (graph w0) a = Some (CExpr opr ks)" "i < length ks" "writes w0 (ks ! i)"
  shows "emits (steady w0) written (\<lambda>n. write_expr_kid (write_code n) a i ind opts)"
  unfolding write_expr_kid_def
  by (rule emits_bnd [OF em_kid [where Q = "\<lambda>k. k = ks ! i", OF assms(2,3) refl]]) (use em_expr [OF assms(1,4)] in simp)

lemma em_code_kid:
  assumes "node (graph w0) a = Some (CExpr opr ks)" "i < length ks" "writes w0 (ks ! i)" "rplain r"
  shows "emits (steady w0) bal (\<lambda>n. write_code_kid (write_code n) a i ind r)"
  unfolding write_code_kid_def
  by (rule emits_bnd [OF em_kid [where Q = "\<lambda>k. k = ks ! i", OF assms(1,2) refl]]) (use em_code [OF assms(3,4)] in simp)

lemma em_exprs:
  assumes "sound V w0"
  shows "list_all (writes w0) as \<Longrightarrow>
    emits (steady w0) (\<lambda>(es, t). list_all plain es \<and> length es = length as \<and> bal t) (\<lambda>n. write_exprs (write_code n) as ind)"
proof (induction as)
  case Nil
  show ?case unfolding write_exprs.simps by (rule emits_ret) simp
next
  case (Cons a as)
  then have 1: "emits (steady w0) written (\<lambda>n. write_expr (write_code n) a ind 0)" using em_expr [OF assms] by simp
  from Cons have 2: "emits (steady w0) (\<lambda>(es, t). list_all plain es \<and> length es = length as \<and> bal t) (\<lambda>n. write_exprs (write_code n) as ind)" by simp
  show ?case
    unfolding write_exprs.simps
    by (rule emits_bnd [OF 1], rule emits_prod, rule emits_bnd [OF 2], rule emits_prod, rule emits_ret) (auto simp: written_def bal_simps)
qed

section \<open>Leaves\<close>

text \<open>Code is written when its node is; one unit of fuel is spent.\<close>

lemma writesI:
  assumes "node (graph w0) a = Some nd"
    "\<And>ind r opts. rplain r \<Longrightarrow> emits (steady w0) bal (\<lambda>n. case nd of
       IntExpr i \<Rightarrow> w_int i ind r
     | RatExpr q \<Rightarrow> w_rat q ind r
     | SymSExpr x \<Rightarrow> w_sym x ind r
     | _ \<Rightarrow> w_op (write_code n) n (op_of nd) a ind r opts)"
  shows "writes w0 a"
  unfolding writes_def writes_with_def
proof (intro conjI allI impI)
  show "\<exists>nd. node (graph w0) a = Some nd" using assms(1) by blast
  fix opts ind r assume "rplain r"
  show "emits (steady w0) bal (\<lambda>n. write_code n a ind r opts)"
    by (rule emits_Suc, unfold write_code.simps, rule emits_bnd [OF em_node [where Q = "\<lambda>x. x = nd", OF assms(1) refl]])
       (use assms(2) [OF \<open>rplain r\<close>] in simp)
qed

lemma writes_op:
  assumes "node (graph w0) a = Some (CExpr opr ks)"
    "\<And>ind r opts. rplain r \<Longrightarrow> emits (steady w0) bal (\<lambda>n. w_op (write_code n) n opr a ind r opts)"
  shows "writes w0 a"
  by (rule writesI [OF assms(1)]) (use assms(2) in simp)

lemma writes_int: "node (graph w0) a = Some (IntExpr i) \<Longrightarrow> writes w0 a"
  by (erule writesI) (auto simp: w_int_def intro!: emits_gets plain_bal plain_ret_mod plain_inc_string)

lemma writes_rat: "node (graph w0) a = Some (RatExpr q) \<Longrightarrow> writes w0 a"
  by (erule writesI) (auto simp: w_rat_def intro!: emits_gets plain_bal plain_ret_mod plain_inc_string split: prod.splits)

lemma writes_sym:
  assumes "sound V w0" "node (graph w0) a = Some nd" "is_sym nd"
  shows "writes w0 a"
proof (rule writesI [OF assms(2)])
  fix ind r opts assume r: "rplain r"
  show "emits (steady w0) bal (\<lambda>n. case nd of IntExpr i \<Rightarrow> w_int i ind r | RatExpr q \<Rightarrow> w_rat q ind r | SymSExpr x \<Rightarrow> w_sym x ind r
     | _ \<Rightarrow> w_op (write_code n) n (op_of nd) a ind r opts)"
  proof (cases nd)
    case (SymSExpr x)
    with assms have x: "plain (get_var_name x)" by (auto simp: sound_def intro: plain_var_name)
    have l: "plain (line ind (ret_mod r @ get_var_name x @ '';''))" "plain (line ind (ret_mod r @ ''e_'' @ get_var_name x @ '';''))"
      using x r by (simp_all add: plain_ret_mod)
    have t: "emits (steady w0) plain (\<lambda>n. if v then ret (line ind (ret_mod r @ get_var_name x @ '';''))
      else sq (add_global_sym (get_var_name x)) (ret (line ind (ret_mod r @ ''e_'' @ get_var_name x @ '';''))))" for v
      by (cases v) (simp_all only: if_True if_False emits_ret [of plain, OF l(1)] emits_sq [OF em_global [OF x] emits_ret [of plain, OF l(2)]])
    have "emits (steady w0) bal (\<lambda>n. w_sym x ind r)"
      unfolding w_sym_def
      by (rule emits_bnd [OF em_is_var], rule emits_bnd [OF t], rule emits_ret) (use r in \<open>auto intro: plain_bal simp: plain_inc_string\<close>)
    with SymSExpr show ?thesis by simp
  qed (use assms(3) in \<open>auto simp: w_op_def intro: emits_ret\<close>)
qed

section \<open>Operators\<close>

lemma writes_fail: "node (graph w0) a = Some (CExpr FAIL ks) \<Longrightarrow> writes w0 a"
  by (erule writes_op) (auto simp: w_op_def intro!: emits_ret plain_bal plain_ret_mod)

lemma writes_prog: "node (graph w0) a = Some (CExpr PROG ks) \<Longrightarrow> writes w0 a"
  by (erule writes_op) (auto simp: w_op_def intro!: emits_ret)

lemma writes_do:
  assumes "sound V w0" "node (graph w0) a = Some (CExpr DO [k, l])" "writes w0 k" "writes w0 l"
  shows "writes w0 a"
proof (rule writes_op [OF assms(2)])
  fix ind r opts assume r: "rplain r"
  have "emits (steady w0) bal (\<lambda>n. w_do (write_code n) ind r [k, l])"
    unfolding w_do.simps
    by (simp, rule emits_bnd [OF em_expr [OF assms(1,3)]], rule emits_prod, rule emits_bnd [OF em_code [OF assms(4) r]], rule emits_ret)
       (auto simp: written_def bal_simps)
  then show "emits (steady w0) bal (\<lambda>n. w_op (write_code n) n DO a ind r opts)"
    unfolding w_op_def op.case by (intro emits_bnd [OF em_kids [where Q = "\<lambda>ks. ks = [k, l]", OF assms(2) refl]]) simp
qed

lemma writes_let:
  assumes "sound V w0" "node (graph w0) a = Some (CExpr LET [x, k, l])" "x \<in> V" "writes w0 k" "writes w0 l"
  shows "writes w0 a"
proof (rule writes_op [OF assms(2)])
  fix ind r opts assume r: "rplain r"
  from assms(1,3) obtain nm where nm: "node (graph w0) x = Some (SymSExpr nm)" "good_name nm" by (fastforce simp: sound_def)
  then have p: "plain (get_var_name nm)" by (simp add: plain_var_name)
  have 0: "emits (steady w0) (\<lambda>y. y = nm) (\<lambda>n. ongraph (bnd (getkid a 0) getname))"
    by (rule em_read) (use assms(2) nm in \<open>simp_all add: run_simps getname_def\<close>)
  have 1: "emits (steady w0) bal (\<lambda>n. write_code_kid (write_code n) a 1 ind (Some (get_var_name nm)))"
    by (rule em_code_kid [OF assms(2)]) (use assms p in simp_all)
  have 2: "emits (steady w0) bal (\<lambda>n. write_code_kid (write_code n) a 2 ind r)"
    by (rule em_code_kid [OF assms(2)]) (use assms r in simp_all)
  show "emits (steady w0) bal (\<lambda>n. w_op (write_code n) n LET a ind r opts)"
    unfolding w_op_def op.case w_let_def
    by (rule emits_bnd [OF 0], simp, rule emits_bnd [OF 1 [simplified]], rule emits_sq [OF em_push], rule emits_bnd [OF 2], rule emits_ret)
       (use p in \<open>simp add: bal_simps\<close>)
qed

lemma plain_num_block: "plain mp \<Longrightarrow> plain ex \<Longrightarrow> plain c \<Longrightarrow> plain x \<Longrightarrow> rplain r \<Longrightarrow> plain (w_num_block mp ex c x ind r)"
  by (simp add: w_num_block_def plain_ret_mod)

lemma writes_arith:
  assumes "sound V w0" "node (graph w0) a = Some (CExpr opr [k, l])" "opr = ADD \<or> opr = MUL \<or> opr = DIV" "writes w0 k" "writes w0 l"
  shows "writes w0 a"
proof (rule writes_op [OF assms(2)])
  fix ind r opts assume r: "rplain r"
  have 1: "emits (steady w0) written (\<lambda>n. write_expr_kid (write_code n) a 0 ind 0)"
    by (rule em_expr_kid [OF assms(1,2)]) (use assms in simp_all)
  have 2: "emits (steady w0) written (\<lambda>n. write_expr_kid (write_code n) a 1 ind 0)"
    by (rule em_expr_kid [OF assms(1,2)]) (use assms in simp_all)
  have "emits (steady w0) bal (\<lambda>n. w_arith (write_code n) opr a ind r)"
    unfolding w_arith_def
  proof (rule emits_bnd [OF 1], rule emits_prod, rule emits_bnd [OF 2], rule emits_prod, rule emits_bnd [OF em_next_rnum], rule emits_ret)
    fix p e1 t1 q e2 t2 x assume "written p" "p = (e1, t1)" "written q" "q = (e2, t2)" "plain x"
    then have w: "plain e1" "bal t1" "plain e2" "bal t2" "plain x" by (simp_all add: written_def)
    then show "bal (t1 @ t2 @
       w_by_class e1 ind
         (w_num_block ''mpz'' ''IntExpr'' (arith_fn_int opr @ ''( '' @ x @ '', ((IntExpr*)'' @ e1 @ ''->followDefs())->n, ((IntExpr*)'' @ e2
            @ ''->followDefs())->n);'') x ind r)
         (w_num_block ''mpq'' ''RatExpr'' (arith_fn_rat opr @ ''( '' @ x @ '', ((RatExpr*)'' @ e1 @ ''->followDefs())->n, ((RatExpr*)'' @ e2
            @ ''->followDefs())->n);'') x ind r) @
       write_dec e1 ind @ write_dec e2 ind)"
      using r by (simp add: bal_simps w_by_class_def plain_num_block arith_fn_int_def arith_fn_rat_def)
  qed
  with assms(3) show "emits (steady w0) bal (\<lambda>n. w_op (write_code n) n opr a ind r opts)" by (auto simp: w_op_def)
qed

lemma writes_neg:
  assumes "sound V w0" "node (graph w0) a = Some (CExpr NEG [k])" "writes w0 k"
  shows "writes w0 a"
proof (rule writes_op [OF assms(2)])
  fix ind r opts assume r: "rplain r"
  have 1: "emits (steady w0) written (\<lambda>n. write_expr_kid (write_code n) a 0 ind 0)"
    by (rule em_expr_kid [OF assms(1,2)]) (use assms in simp_all)
  show "emits (steady w0) bal (\<lambda>n. w_op (write_code n) n NEG a ind r opts)"
    unfolding w_op_def op.case w_neg_def
    by (rule emits_bnd [OF 1], rule emits_prod, rule emits_bnd [OF em_next_rnum], rule emits_ret)
       (use r in \<open>auto simp: written_def bal_simps w_by_class_def plain_num_block\<close>)
qed

lemma writes_toq:
  assumes "sound V w0" "node (graph w0) a = Some (CExpr MPZ_TO_MPQ [k])" "writes w0 k"
  shows "writes w0 a"
proof (rule writes_op [OF assms(2)])
  fix ind r opts assume r: "rplain r"
  have 1: "emits (steady w0) written (\<lambda>n. write_expr_kid (write_code n) a 0 ind 0)"
    by (rule em_expr_kid [OF assms(1,2)]) (use assms in simp_all)
  show "emits (steady w0) bal (\<lambda>n. w_op (write_code n) n MPZ_TO_MPQ a ind r opts)"
    unfolding w_op_def op.case w_mpz_to_mpq_def
    by (rule emits_bnd [OF 1], rule emits_prod, rule emits_bnd [OF em_next_rnum], rule emits_ret)
       (use r in \<open>auto simp: written_def bal_simps plain_ret_mod\<close>)
qed

lemma em_branches:
  assumes "node (graph w0) a = Some (CExpr opr ks)" "Suc i < length ks" "writes w0 (ks ! i)" "writes w0 (ks ! Suc i)" "rplain r" "plain c"
  shows "emits (steady w0) bal (\<lambda>n. w_branches (write_code n) a i ind r ind' c)"
proof -
  have 1: "emits (steady w0) bal (\<lambda>n. write_code_kid (write_code n) a i ind' r)" by (rule em_code_kid [OF assms(1)]) (use assms in simp_all)
  have 2: "emits (steady w0) bal (\<lambda>n. write_code_kid (write_code n) a (Suc i) ind' r)" by (rule em_code_kid [OF assms(1)]) (use assms in simp_all)
  show ?thesis
    unfolding w_branches_def
    by (rule emits_bnd [OF 1], rule emits_bnd [OF 2], rule emits_ret) (use assms(6) in \<open>simp add: bal_simps\<close>)
qed

lemma writes_if:
  assumes "sound V w0" "node (graph w0) a = Some (CExpr opr [k, l, m])" "opr = IFNEG \<or> opr = IFZERO" "writes w0 k" "writes w0 l" "writes w0 m"
  shows "writes w0 a"
proof (rule writes_op [OF assms(2)])
  fix ind r opts assume r: "rplain r"
  have 1: "emits (steady w0) written (\<lambda>n. write_expr_kid (write_code n) a 0 ind 0)"
    by (rule em_expr_kid [OF assms(1,2)]) (use assms in simp_all)
  have 2: "emits (steady w0) bal (\<lambda>n. w_branches (write_code n) a 1 (ind + 1) r (ind + 2) c)" if "plain c" for c
    by (rule em_branches [OF assms(2)]) (use assms r that in simp_all)
  have "emits (steady w0) bal (\<lambda>n. w_if (write_code n) opr a ind r)"
    unfolding w_if_def
    by (rule emits_bnd [OF 1], rule emits_prod, rule emits_bnd [OF 2], simp add: written_def, rule emits_bnd [OF 2], simp add: written_def,
        rule emits_ret) (auto simp: written_def bal_simps w_by_class_def)
  with assms(3) show "emits (steady w0) bal (\<lambda>n. w_op (write_code n) n opr a ind r opts)" by (auto simp: w_op_def)
qed

section \<open>Applications\<close>

text \<open>The head of an application, at the end of its definitions.\<close>

definition head_at :: "scw \<Rightarrow> addr \<Rightarrow> addr \<Rightarrow> bool" where
  "head_at w0 h e \<longleftrightarrow> returns (\<lambda>n. followDefs n h) (graph w0) (e, graph w0) \<and> (\<exists>nd. node (graph w0) e = Some nd \<and> op_of nd \<noteq> APP)"

lemma head_const:
  assumes "const_cell V (graph w0) h"
  shows "head_at w0 h h"
proof -
  from assms obtain nd where nd: "node (graph w0) h = Some nd" "is_sym nd" "sval (graph w0) h = None" by (auto simp: const_cell_def)
  have "returns (\<lambda>n. followDefs n h) (graph w0) (h, graph w0)"
    by (rule returns_Suc, rule returns_all) (use nd in \<open>cases nd; simp add: run_simps\<close>)
  with nd show ?thesis by (auto simp: head_at_def elim: is_sym.elims)
qed

lemma head_prog:
  assumes "prog_cell V (graph w0) p xs body"
  shows "\<exists>pc ks. head_at w0 p pc \<and> node (graph w0) pc = Some (CExpr PROG ks)"
proof -
  from assms obtain nd pc tp vs where nd: "node (graph w0) p = Some nd" "is_sym nd" "sval (graph w0) p = Some pc"
    "node (graph w0) pc = Some (CExpr PROG [tp, vs, body])" by (auto simp: prog_cell_def)
  have "returns (\<lambda>n. followDefs n p) (graph w0) (pc, graph w0)"
    by (rule returns_Suc, rule returns_Suc, rule returns_all) (use nd in \<open>cases nd; simp add: run_simps\<close>)
  with nd show ?thesis by (auto simp: head_at_def)
qed

lemma collect_at:
  fixes w0 :: scw
  assumes "node (graph w0) a = Some (CExpr APP (h # ks))" "head_at w0 h e"
  shows "returns (\<lambda>n. collect_args n a True) (graph w0) ((e, ks), graph w0)"
proof -
  have f: "returns (\<lambda>n. followDefs n h) (graph w0) (e, graph w0)" using assms(2) by (simp add: head_at_def)
  show ?thesis by (rule returns_elim1 [OF f]) (use assms(1) in \<open>simp add: collect_args_def run_simps\<close>)
qed

lemma get_head_at:
  assumes "node (graph w0) a = Some (CExpr APP (h # ks))" "head_at w0 h e"
  shows "returns (\<lambda>n. get_head n True a) (graph w0) (e, graph w0)"
proof -
  from assms(2) obtain nd where e: "returns (\<lambda>n. followDefs n h) (graph w0) (e, graph w0)" "node (graph w0) e = Some nd" "op_of nd \<noteq> APP"
    by (auto simp: head_at_def)
  have g: "returns (\<lambda>n. get_head n True e) (graph w0) (e, graph w0)"
    by (rule returns_Suc, rule returns_all) (use e in \<open>simp add: run_simps\<close>)
  show ?thesis by (rule returns_Suc, rule returns_elim2 [OF e(1) g]) (use assms(1) in \<open>simp add: run_simps\<close>)
qed

lemma plain_decs: "list_all plain xs \<Longrightarrow> plain (concat (map (\<lambda>a. write_dec a ind) xs))"
  by (rule plain_concat) (simp add: list_all_iff)

text \<open>The number of a program in the tables of the writer.\<close>

lemma index_of_less: "index_of x xs = Some i \<Longrightarrow> i < length xs"
  by (induction xs arbitrary: i) (auto split: if_splits)

lemma em_prog_index:
  assumes "sound V w0"
  shows "emits (steady w0) (\<lambda>ix. \<forall>i. ix = Some i \<longrightarrow> i < length (progNames w0)) (\<lambda>n. if b then get_prog_index_by_expr e else ret None)"
proof (cases b)
  case True
  have "emits (steady w0) (\<lambda>ix. \<forall>i. ix = Some i \<longrightarrow> i < length (progNames w0)) (\<lambda>n. get_prog_index_by_expr e)"
    unfolding get_prog_index_by_expr_def by (rule emits_gets) (use assms index_of_less in \<open>fastforce simp: steady_def sound_def\<close>)
  with True show ?thesis by simp
next
  case False
  then show ?thesis by (simp only: if_False) (rule emits_ret, simp)
qed

lemma em_call:
  assumes "sound V w0" "writes w0 e" "list_all plain args" "bal t" "rplain r" "\<forall>i. ix = Some i \<longrightarrow> i < length (progNames w0)"
  shows "emits (steady w0) bal (\<lambda>n. case ix of
       Some i \<Rightarrow>
         bnd (prog_name i) (\<lambda>pn.
         ret (t @ line ind (ret_mod r @ ''f_'' @ pn @ ''( '' @ commas args @ '' );'') @ concat (map (\<lambda>a. write_dec a ind) args)))
     | None \<Rightarrow>
         bnd (write_expr (write_code n) e ind 0) (\<lambda>(x, t').
         ret (t @ t' @ line ind (ret_mod r @ ''new CExpr( APP, '' @ x @ '', '' @ commas args @ '' );''))))"
proof (cases ix)
  case None
  have "emits (steady w0) bal (\<lambda>n. bnd (write_expr (write_code n) e ind 0) (\<lambda>(x, t').
         ret (t @ t' @ line ind (ret_mod r @ ''new CExpr( APP, '' @ x @ '', '' @ commas args @ '' );''))))"
    by (rule emits_bnd [OF em_expr [OF assms(1,2)]], rule emits_prod, rule emits_ret)
       (use assms(3-5) in \<open>auto simp: written_def bal_simps plain_commas plain_ret_mod\<close>)
  with None show ?thesis by simp
next
  case (Some i)
  have "emits (steady w0) bal (\<lambda>n. bnd (prog_name i) (\<lambda>pn.
         ret (t @ line ind (ret_mod r @ ''f_'' @ pn @ ''( '' @ commas args @ '' );'') @ concat (map (\<lambda>a. write_dec a ind) args))))"
    by (rule emits_bnd [OF em_prog_name [OF assms(1)]], use assms(6) Some in simp, rule emits_ret)
       (use assms(3-5) in \<open>auto simp: bal_simps plain_commas plain_ret_mod plain_decs\<close>)
  with Some show ?thesis by simp
qed

lemma writes_app:
  assumes "sound V w0" "node (graph w0) a = Some (CExpr APP (h # ks))" "head_at w0 h e" "writes w0 e" "list_all (writes w0) ks"
  shows "writes w0 a"
proof (rule writes_op [OF assms(2)])
  fix ind r opts assume r: "rplain r"
  have 1: "emits (steady w0) (\<lambda>p. p = (e, ks)) (\<lambda>n. ongraph (collect_args n a True))"
    by (rule em_graph [OF collect_at [OF assms(2,3)]]) simp
  have 2: "emits (steady w0) (\<lambda>p. p = e) (\<lambda>n. ongraph (get_head n True a))"
    by (rule em_graph [OF get_head_at [OF assms(2,3)]]) simp
  from assms(4) obtain nd where nd: "node (graph w0) e = Some nd" by (auto simp: writes_def)
  show "emits (steady w0) bal (\<lambda>n. w_op (write_code n) n APP a ind r opts)"
    unfolding w_op_def op.case w_app_def
  proof (rule emits_bnd [OF 1], rule emits_prod, goal_cases)
    case (1 p e' ks')
    then have e: "e' = e" "ks' = ks" by auto
    show ?case unfolding e
    proof (rule emits_bnd [OF em_exprs [OF assms(1,5)]], rule emits_prod, rule emits_bnd [OF 2], goal_cases)
      case (1 q args t h')
      then have q: "list_all plain args" "bal t" "h' = e" by auto
      show ?case unfolding q(3)
        by (rule emits_bnd [OF em_op [where Q = "\<lambda>_. True", OF nd TrueI]], rule emits_bnd [OF em_prog_index [OF assms(1)]])
           (rule em_call [OF assms(1,4) q(1,2) r])
    qed
  qed
qed

section \<open>Matching\<close>

definition case_cell :: "addr set \<Rightarrow> scw \<Rightarrow> addr \<Rightarrow> bool" where
  "case_cell V w0 k \<longleftrightarrow> (\<exists>p body h xs. node (graph w0) k = Some (CExpr CASE [p, body]) \<and> pattern_cell V (graph w0) p h xs \<and> writes w0 body)"

definition default_cell :: "scw \<Rightarrow> addr \<Rightarrow> bool" where
  "default_cell w0 k \<longleftrightarrow> (\<exists>nd. node (graph w0) k = Some nd \<and> op_of nd \<noteq> CASE) \<and> writes w0 k"

lemma pattern_collect:
  fixes w0 :: scw
  assumes "pattern_cell V (graph w0) p h xs"
  shows "returns (\<lambda>n. collect_args n p True) (graph w0) ((h, xs), graph w0)"
proof -
  from assms have c: "const_cell V (graph w0) h" by (simp add: pattern_cell_def)
  show ?thesis
  proof (cases "xs = []")
    case True
    have f: "returns (\<lambda>n. followDefs n h) (graph w0) (h, graph w0)" using head_const [OF c] by (simp add: head_at_def)
    from c obtain nd where nd: "node (graph w0) h = Some nd" "is_sym nd" by (auto simp: const_cell_def)
    show ?thesis
      by (rule returns_elim1 [OF f]) (use True assms nd in \<open>auto simp: pattern_cell_def collect_args_def run_simps elim: is_sym.elims\<close>)
  next
    case False
    then show ?thesis using assms collect_at [OF _ head_const [OF c]] by (simp add: pattern_cell_def)
  qed
qed

lemma pattern_get_head:
  fixes w0 :: scw
  assumes "pattern_cell V (graph w0) p h xs"
  shows "returns (\<lambda>n. get_head n True p) (graph w0) (h, graph w0)"
proof -
  from assms have c: "const_cell V (graph w0) h" by (simp add: pattern_cell_def)
  show ?thesis
  proof (cases "xs = []")
    case True
    from c obtain nd where nd: "node (graph w0) h = Some nd" "is_sym nd" by (auto simp: const_cell_def)
    show ?thesis
      by (rule returns_Suc, rule returns_all) (use True assms nd in \<open>auto simp: pattern_cell_def run_simps elim: is_sym.elims\<close>)
  next
    case False
    then show ?thesis using assms get_head_at [OF _ head_const [OF c]] by (simp add: pattern_cell_def)
  qed
qed

text \<open>A case is written as the head of its pattern, or as its body.\<close>

lemma case_writes:
  assumes "sound V w0" "case_cell V w0 k"
  shows "writes_with 0 w0 k" "writes_with opt_write_case_body w0 k"
proof -
  from assms(2) obtain p body h xs where k: "node (graph w0) k = Some (CExpr CASE [p, body])" "pattern_cell V (graph w0) p h xs" "writes w0 body"
    by (auto simp: case_cell_def)
  from k(2) obtain nd where "node (graph w0) h = Some nd" "is_sym nd" by (auto simp: pattern_cell_def const_cell_def)
  then have h: "writes w0 h" by (rule writes_sym [OF assms(1)])
  have 1: "emits (steady w0) (\<lambda>x. x = h) (\<lambda>n. ongraph (bnd (getkid k 0) (get_head n True)))"
    by (rule em_graph [OF returns_elim1 [OF pattern_get_head [OF k(2)]]]) (use k(1) in \<open>simp_all add: run_simps\<close>)
  have 2: "emits (steady w0) bal (\<lambda>n. bnd (ongraph (bnd (getkid k 0) (get_head n True))) (\<lambda>h. write_code n h ind r 0))" if "rplain r" for ind r
    by (rule emits_bnd [OF 1]) (use em_code [OF h that] in simp)
  have 3: "emits (steady w0) bal (\<lambda>n. write_code_kid (write_code n) k 1 ind r)" if "rplain r" for ind r
    by (rule em_code_kid [OF k(1)]) (use k(3) that in simp_all)
  have "emits (steady w0) bal (\<lambda>n. write_code n k ind r 0)" if "rplain r" for ind r
    by (rule emits_Suc, unfold write_code.simps, rule emits_bnd [OF em_node [where Q = "\<lambda>x. x = CExpr CASE [p, body]", OF k(1) refl]])
       (use 2 [OF that] in \<open>simp add: w_op_def w_case_def has_opt_def opt_write_case_body_def\<close>)
  then show "writes_with 0 w0 k" by (simp add: writes_with_def)
  have "emits (steady w0) bal (\<lambda>n. write_code n k ind r opt_write_case_body)" if "rplain r" for ind r
    by (rule emits_Suc, unfold write_code.simps, rule emits_bnd [OF em_node [where Q = "\<lambda>x. x = CExpr CASE [p, body]", OF k(1) refl]])
       (use 3 [OF that] in \<open>simp add: w_op_def w_case_def has_opt_def opt_write_case_body_def\<close>)
  then show "writes_with opt_write_case_body w0 k" by (simp add: writes_with_def)
qed

lemma em_pattern:
  assumes "sound V w0" "plain e"
  shows "set vs \<subseteq> V \<Longrightarrow> emits (steady w0) bal (\<lambda>n. w_pattern e ind b vs)"
proof (induction vs arbitrary: b)
  case Nil
  show ?case unfolding w_pattern.simps by (rule emits_ret) simp
next
  case (Cons v vs)
  then obtain nm where "node (graph w0) v = Some (SymSExpr nm)" using assms(1) by (fastforce simp: sound_def)
  with assms(1) have nm: "node (graph w0) v = Some (SymSExpr nm)" "good_name nm" by (auto simp: sound_def)
  have ih: "emits (steady w0) bal (\<lambda>n. w_pattern e ind (Suc b) vs)" using Cons by simp
  show ?case
    unfolding w_pattern.simps
    by (rule emits_bnd [OF em_name [where Q = good_name, OF nm]], rule emits_sq [OF em_push], rule emits_bnd [OF ih], rule emits_ret)
       (use assms(2) in \<open>simp add: bal_simps plain_var_name\<close>)
qed

text \<open>The names for the cases, up to a default.\<close>

lemma em_args_case:
  assumes "sound V w0" "case_cell V w0 k"
    "emits (steady w0) (\<lambda>(es, t). list_all plain es \<and> m \<le> length es \<and> bal t) (\<lambda>n. write_args (write_code n) ks True ind)"
  shows "emits (steady w0) (\<lambda>(es, t). list_all plain es \<and> Suc m \<le> length es \<and> bal t) (\<lambda>n. write_args (write_code n) (k # ks) seen ind)"
proof -
  from assms(2) obtain p body where k: "node (graph w0) k = Some (CExpr CASE [p, body])" by (auto simp: case_cell_def)
  have w: "emits (steady w0) written (\<lambda>n. if CEXPR = SYMS_EXPR then bnd (ongraph (getname k)) (\<lambda>x. ret (x, []))
            else write_expr (write_code n) k ind 0)"
    using em_write_expr [OF assms(1) k case_writes(1) [OF assms(1,2)]] by simp
  show ?thesis
    unfolding write_args.simps
  proof (rule emits_bnd [OF em_op [where Q = "\<lambda>x. x = CASE", OF k]], simp, goal_cases)
    case (1 x)
    show ?case
      unfolding 1
      by (simp, rule emits_bnd [OF em_class [where Q = "\<lambda>x. x = CEXPR", OF k]], simp, hypsubst, rule emits_bnd [OF w], rule emits_prod,
          rule emits_bnd [OF assms(3)], rule emits_prod, rule emits_ret) (auto simp: written_def bal_simps)
  qed
qed

lemma em_args_stop: "node (graph w0) k = Some nd \<Longrightarrow> op_of nd \<noteq> CASE \<Longrightarrow>
    emits (steady w0) (\<lambda>(es, t). list_all plain es \<and> 0 \<le> length es \<and> bal t) (\<lambda>n. write_args (write_code n) (k # ks) True ind)"
  unfolding write_args.simps
  by (rule emits_bnd [OF em_op [where Q = "\<lambda>x. x \<noteq> CASE"]]) (auto intro!: emits_ret)

lemma em_args_nil: "emits (steady w0) (\<lambda>(es, t). list_all plain es \<and> 0 \<le> length es \<and> bal t) (\<lambda>n. write_args (write_code n) [] True ind)"
  unfolding write_args.simps by (rule emits_ret) simp

text \<open>The branches of a match: cases, then at most one default.\<close>

definition tail_ok :: "scw \<Rightarrow> addr list \<Rightarrow> bool" where
  "tail_ok w0 ds \<longleftrightarrow> ds = [] \<or> (\<exists>d. ds = [d] \<and> default_cell w0 d)"

lemma em_args_seen:
  assumes "sound V w0" "tail_ok w0 ds"
  shows "list_all (case_cell V w0) cs \<Longrightarrow>
    emits (steady w0) (\<lambda>(es, t). list_all plain es \<and> length cs \<le> length es \<and> bal t) (\<lambda>n. write_args (write_code n) (cs @ ds) True ind)"
proof (induction cs)
  case Nil
  show ?case
  proof (cases ds)
    case Nil
    show ?thesis unfolding Nil append_Nil list.size(3) by (rule em_args_nil)
  next
    case (Cons d ds')
    with assms(2) obtain nd where "node (graph w0) d = Some nd" "op_of nd \<noteq> CASE" by (auto simp: tail_ok_def default_cell_def)
    then show ?thesis using em_args_stop [of w0 d nd ds' ind] Cons by simp
  qed
next
  case (Cons k cs)
  then show ?case using em_args_case [OF assms(1), of k "length cs" "cs @ ds" ind True] by simp
qed

lemma em_args_default:
  assumes "sound V w0" "default_cell w0 d"
  shows "emits (steady w0) (\<lambda>(es, t). list_all plain es \<and> bal t) (\<lambda>n. write_args (write_code n) [d] False ind)"
proof -
  from assms(2) obtain nd where d: "node (graph w0) d = Some nd" "op_of nd \<noteq> CASE" "writes w0 d" by (auto simp: default_cell_def)
  have "emits (steady w0) written (\<lambda>n. if class_of nd = SYMS_EXPR then bnd (ongraph (getname d)) (\<lambda>x. ret (x, []))
            else write_expr (write_code n) d ind 0)"
  proof (cases nd)
    case (SymSExpr x)
    with assms(1) d(1) have x: "node (graph w0) d = Some (SymSExpr x)" "plain x" by (auto simp: sound_def good_name_def)
    have "emits (steady w0) written (\<lambda>n. bnd (ongraph (getname d)) (\<lambda>x. ret (x, [])))"
      by (rule emits_bnd [OF em_name [where Q = plain, OF x]], rule emits_ret) (simp add: written_def)
    with SymSExpr show ?thesis by simp
  qed (use em_expr [OF assms(1) d(3)] in simp_all)
  note w = this
  show ?thesis
    unfolding write_args.simps
    by (rule emits_bnd [OF em_op [where Q = "\<lambda>x. True", OF d(1)]], simp, simp,
        rule emits_bnd [OF em_class [where Q = "\<lambda>x. x = class_of nd", OF d(1) refl]], hypsubst, rule emits_bnd [OF w], rule emits_prod,
        rule emits_bnd [OF emits_ret [where Q = "\<lambda>p. p = ([], [])", OF refl]], hypsubst, unfold prod.case, rule emits_ret)
       (auto simp: written_def)
qed

lemma em_args:
  assumes "sound V w0" "tail_ok w0 ds" "list_all (case_cell V w0) cs" "cs @ ds \<noteq> []"
  shows "emits (steady w0) (\<lambda>(es, t). list_all plain es \<and> length cs \<le> length es \<and> bal t) (\<lambda>n. write_args (write_code n) (cs @ ds) False ind)"
proof (cases cs)
  case Nil
  with assms(2,4) obtain d where "ds = [d]" "default_cell w0 d" by (auto simp: tail_ok_def)
  with Nil em_args_default [OF assms(1), of d ind] show ?thesis by simp
next
  case (Cons k cs')
  with assms(3) have "case_cell V w0 k" "list_all (case_cell V w0) cs'" by simp_all
  then show ?thesis using em_args_case [OF assms(1) _ em_args_seen [OF assms(1,2)]] Cons by (simp del: write_args.simps)
qed

lemma em_one_case:
  assumes "sound V w0" "case_cell V w0 k" "a < length args" "list_all plain args" "plain e" "plain h" "rplain r"
  shows "emits (steady w0) (shifts (if a = 0 then 0 else 1) 1) (\<lambda>n.
            bnd (deref (nth_opt args a)) (\<lambda>arg.
            sq (modify (\<lambda>w. w\<lparr>argsCount := Suc (argsCount w)\<rparr>)) (
            bnd (ongraph (bnd (getkid k 0) (\<lambda>p. collect_args n p True))) (\<lambda>(_, caseArgs).
            bnd (w_pattern e (ind + 1) 0 caseArgs) (\<lambda>tp.
            bnd (write_code n k (ind + 1) r opt_write_case_body) (\<lambda>t.
            ret (indent ind @ (if a \<noteq> 0 then ''}else '' else []) @ ''if( '' @ h @ ''=='' @ arg @ '' ){'' @ nl @ tp @ t)))))))"
proof -
  from assms(2) obtain p body hd1 xs where k: "node (graph w0) k = Some (CExpr CASE [p, body])" "pattern_cell V (graph w0) p hd1 xs"
    by (auto simp: case_cell_def)
  then have xs: "set xs \<subseteq> V" by (auto simp: pattern_cell_def var_cell_def)
  have 1: "emits (steady w0) (\<lambda>q. q = (hd1, xs)) (\<lambda>n. ongraph (bnd (getkid k 0) (\<lambda>p. collect_args n p True)))"
    by (rule em_graph [OF returns_elim1 [OF pattern_collect [OF k(2)]]]) (use k(1) in \<open>simp_all add: run_simps\<close>)
  have 2: "emits (steady w0) bal (\<lambda>n. write_code n k (ind + 1) r opt_write_case_body)"
    using case_writes(2) [OF assms(1,2)] assms(7) by (simp add: writes_with_def)
  have 3: "emits (steady w0) plain (\<lambda>n. deref (nth_opt args a))"
    by (rule emits_deref [of _ "args ! a"]) (use assms(3,4) in \<open>simp_all add: nth_opt_def list_all_length\<close>)
  have 4: "emits (steady w0) (\<lambda>_. True) (\<lambda>n. modify (\<lambda>w. w\<lparr>argsCount := Suc (argsCount w)\<rparr>))"
    by (rule emits_modify) (simp_all add: steady_def)
  show ?thesis
    by (rule emits_bnd [OF 3], rule emits_sq [OF 4], rule emits_bnd [OF 1], hypsubst, unfold prod.case,
        rule emits_bnd [OF em_pattern [OF assms(1,5) xs]], rule emits_bnd [OF 2], rule emits_ret)
       (use assms(6) in \<open>simp add: bal_simps\<close>)
qed

lemma em_one_default:
  assumes "writes w0 k" "rplain r"
  shows "emits (steady w0) (shifts (if a = 0 then 0 else 1) 0) (\<lambda>n. bnd (write_code n k (ind + 1) r 0) (\<lambda>t.
            ret (indent ind @ (if a \<noteq> 0 then ''}else'' else []) @ ''{'' @ nl @ t @ line ind ''}'')))"
  by (rule emits_bnd [OF em_code [OF assms]], rule emits_ret) (simp add: bal_simps)

lemma em_cases:
  assumes "sound V w0" "tail_ok w0 ds" "list_all plain args" "plain e" "plain h" "rplain r"
  shows "list_all (case_cell V w0) cs \<Longrightarrow> a + length cs \<le> length args \<Longrightarrow> a \<noteq> 0 \<or> cs @ ds \<noteq> [] \<Longrightarrow>
    emits (steady w0) (\<lambda>(t, d). shifts (if a = 0 then 0 else 1) (if d then 0 else 1) t) (\<lambda>n. w_cases (write_code n) n e h args ind r a False (cs @ ds))"
proof (induction cs arbitrary: a)
  case Nil
  show ?case
  proof (cases ds)
    case Nil
    then show ?thesis using \<open>a \<noteq> 0 \<or> [] @ ds \<noteq> []\<close> by (simp only: append_Nil w_cases.simps) (rule emits_ret, simp)
  next
    case (Cons d ds')
    with assms(2) obtain nd where d: "ds = [d]" "node (graph w0) d = Some nd" "op_of nd \<noteq> CASE" "writes w0 d"
      by (auto simp: tail_ok_def default_cell_def)
    show ?thesis
      unfolding d(1) append_Nil [of "[d]"] w_cases.simps
      by (rule emits_bnd [OF em_op [where Q = "\<lambda>x. x = op_of nd", OF d(2) refl]], hypsubst, simp only: d(3) if_True not_False_eq_True,
          rule emits_bnd [OF em_one_default [OF d(4) assms(6)]],
          rule emits_bnd [OF emits_ret [where Q = "\<lambda>p. p = ([], True)"]], simp, hypsubst, unfold prod.case, rule emits_ret) simp
  qed
next
  case (Cons k cs)
  then have k: "case_cell V w0 k" "a < length args" by simp_all
  from k(1) obtain p body where n: "node (graph w0) k = Some (CExpr CASE [p, body])" by (auto simp: case_cell_def)
  have ih: "emits (steady w0) (\<lambda>(t, d). shifts (if Suc a = 0 then 0 else 1) (if d then 0 else 1) t)
      (\<lambda>n. w_cases (write_code n) n e h args ind r (Suc a) False (cs @ ds))"
    by (rule Cons.IH) (use Cons.prems in simp_all)
  show ?case
    unfolding append_Cons [of k cs ds] w_cases.simps
  proof (rule emits_bnd [OF em_op [where Q = "\<lambda>x. x = CASE", OF n]], simp, goal_cases)
    case (1 opr)
    show ?case
      unfolding 1
      by (simp only: simp_thms if_False, rule emits_bnd [OF em_one_case [OF assms(1) k assms(3-6)]],
          rule emits_bnd [OF ih], rule emits_prod, rule emits_ret) (auto intro: shifts_append)
  qed
qed

lemma shifts_no_match: "plain h \<Longrightarrow> plain pn \<Longrightarrow> shifts 1 0 (w_no_match h pn ind)"
  by (simp add: w_no_match_def bal_simps)

lemma writes_match:
  assumes "sound V w0" "node (graph w0) a = Some (CExpr MATCH (k # cs @ ds))" "writes w0 k" "list_all (case_cell V w0) cs" "tail_ok w0 ds"
    "cs @ ds \<noteq> []"
  shows "writes w0 a"
proof (rule writes_op [OF assms(2)])
  fix ind r opts assume r: "rplain r"
  have 1: "emits (steady w0) written (\<lambda>n. write_expr_kid (write_code n) a 0 ind 0)"
    by (rule em_expr_kid [OF assms(1,2)]) (use assms(3) in simp_all)
  have pn: "emits (steady w0) plain (\<lambda>n. bnd (gets currProgram) prog_name)"
    by (rule emits_bnd [OF emits_gets [where Q = "\<lambda>i. i < length (progNames w0)"]])
       (use assms(1) em_prog_name [OF assms(1)] in \<open>auto simp: sound_def steady_def\<close>)
  have nm: "emits (steady w0) (shifts (if d then 0 else 1) 0)
      (\<lambda>n. if d then ret [] else bnd (bnd (gets currProgram) prog_name) (\<lambda>pn. ret (w_no_match h pn ind)))" if "plain h" for d h
  proof (cases d)
    case True
    then show ?thesis by (simp only: if_True) (rule emits_ret, simp)
  next
    case False
    have "emits (steady w0) (shifts 1 0) (\<lambda>n. bnd (bnd (gets currProgram) prog_name) (\<lambda>pn. ret (w_no_match h pn ind)))"
      by (rule emits_bnd [OF pn], rule emits_ret, rule shifts_no_match [OF that])
    with False show ?thesis by simp
  qed
  show "emits (steady w0) bal (\<lambda>n. w_op (write_code n) n MATCH a ind r opts)"
    unfolding w_op_def op.case w_match_def
  proof (rule emits_bnd [OF 1], rule emits_prod, rule emits_bnd [OF em_next_expr],
      rule emits_bnd [OF em_kids [where Q = "\<lambda>ks. ks = k # cs @ ds", OF assms(2) refl]], goal_cases)
    case (1 p e t1 h ks)
    then have e: "plain e" "bal t1" "plain h" by (simp_all add: written_def)
    show ?case
      unfolding 1(4) list.sel
    proof (rule emits_bnd [OF em_args [OF assms(1,5,4,6)]], rule emits_prod, goal_cases)
      case (1 q args t2)
      then have q: "list_all plain args" "length cs \<le> length args" "bal t2" by simp_all
      have c: "emits (steady w0) (\<lambda>(t, d). shifts 0 (if d then 0 else 1) t) (\<lambda>n. w_cases (write_code n) n e h args ind r 0 False (cs @ ds))"
        using em_cases [OF assms(1,5) q(1) e(1,3) r assms(4), of 0 ind] q(2) assms(6) by simp
      show ?case
      proof (rule emits_bnd [OF c], rule emits_prod, rule emits_bnd [OF nm [OF e(3)]], rule emits_ret, goal_cases)
        case (1 u t3 d t4)
        then have t34: "bal (t3 @ t4)" by (auto intro: shifts_append)
        have "bal (t1 @ line ind (''Expr* '' @ h @ '' = '' @ e @ ''->followDefs()->get_head();'') @ t2 @ (t3 @ t4) @
            write_dec e ind @ concat (map (\<lambda>a. write_dec a ind) args))"
          using e q(3) plain_decs [OF q(1)] by (intro shifts_append [of 0 0] t34) (simp_all add: plain_bal)
        then show ?case by simp
      qed
    qed
  qed
qed

section \<open>Every well-formed piece of code is written\<close>

text \<open>Every match has a branch, and a default can only be the last one.\<close>

fun is_default :: "branch \<Rightarrow> bool" where
  "is_default (BDefault c) = True"
| "is_default (BCase h xs c) = False"

fun tame :: "code \<Rightarrow> bool" and tame_branch :: "branch \<Rightarrow> bool" where
  "tame (CDo c d) \<longleftrightarrow> tame c \<and> tame d"
| "tame (CLet x c d) \<longleftrightarrow> tame c \<and> tame d"
| "tame (CArith opr c d) \<longleftrightarrow> tame c \<and> tame d"
| "tame (CNeg c) \<longleftrightarrow> tame c"
| "tame (CToQ c) \<longleftrightarrow> tame c"
| "tame (CIf opr c d e) \<longleftrightarrow> tame c \<and> tame d \<and> tame e"
| "tame (CCtor h cs) \<longleftrightarrow> list_all tame cs"
| "tame (CCall p cs) \<longleftrightarrow> list_all tame cs"
| "tame (CMatch c bs) \<longleftrightarrow> tame c \<and> bs \<noteq> [] \<and> list_all (\<lambda>b. \<not> is_default b) (butlast bs) \<and> list_all tame_branch bs"
| "tame _ \<longleftrightarrow> True"
| "tame_branch (BCase h xs c) \<longleftrightarrow> tame c"
| "tame_branch (BDefault c) \<longleftrightarrow> tame c"

text \<open>The cells of the branches of a match.\<close>

definition branch_cell :: "addr set \<Rightarrow> scw \<Rightarrow> addr \<Rightarrow> branch \<Rightarrow> bool" where
  "branch_cell V w0 k b \<longleftrightarrow> (if is_default b then default_cell w0 k else case_cell V w0 k)"

lemma split_branches:
  assumes "list_all2 (branch_cell V w0) ks bs" "bs \<noteq> []" "list_all (\<lambda>b. \<not> is_default b) (butlast bs)"
  shows "\<exists>cs ds. ks = cs @ ds \<and> list_all (case_cell V w0) cs \<and> tail_ok w0 ds \<and> cs @ ds \<noteq> []"
proof -
  from assms(2) obtain bs' b where bs: "bs = bs' @ [b]" by (metis append_butlast_last_id)
  from assms(1)[unfolded bs] obtain cs k where ks: "ks = cs @ [k]" "list_all2 (branch_cell V w0) cs bs'" "branch_cell V w0 k b"
    by (auto simp: list_all2_append2 list_all2_Cons2)
  have c: "list_all (case_cell V w0) cs"
    using ks(2) assms(3) unfolding bs by (fastforce simp: list_all2_conv_all_nth list_all_length branch_cell_def)
  show ?thesis
  proof (cases "is_default b")
    case True
    with ks(3) have "tail_ok w0 [k]" by (simp add: tail_ok_def branch_cell_def)
    with ks(1) c show ?thesis by blast
  next
    case False
    with ks(3) c have "list_all (case_cell V w0) (cs @ [k])" "tail_ok w0 []" by (simp_all add: tail_ok_def branch_cell_def)
    with ks(1) show ?thesis by (metis append_Nil2 append_is_Nil_conv list.discI)
  qed
qed

lemma cd_writes:
  assumes "sound V w0"
  shows "cd V (graph w0) a c \<Longrightarrow> tame c \<longrightarrow> writes w0 a"
    and "cdb V (graph w0) k b \<Longrightarrow> tame_branch b \<longrightarrow> branch_cell V w0 k b"
proof (induction rule: cd_cdb.inducts)
  case (cd_ctor a h ks cs)
  then have h: "node (graph w0) a = Some (CExpr APP (h # ks))" "const_cell V (graph w0) h" "writes w0 h"
    using writes_sym [OF assms] by (auto simp: const_cell_def)
  have "tame (CCtor h cs) \<Longrightarrow> list_all (writes w0) ks" using cd_ctor by (auto simp: list_all2_conv_all_nth list_all_length)
  then show ?case using writes_app [OF assms h(1) head_const [OF h(2)] h(3)] by blast
next
  case (cd_call a p ks xs body cs)
  then have p: "node (graph w0) a = Some (CExpr APP (p # ks))" "prog_cell V (graph w0) p xs body" by blast+
  from head_prog [OF p(2)] obtain pc ls where pc: "head_at w0 p pc" "node (graph w0) pc = Some (CExpr PROG ls)" by blast
  have "tame (CCall p cs) \<Longrightarrow> list_all (writes w0) ks" using cd_call by (auto simp: list_all2_conv_all_nth list_all_length)
  then show ?case using writes_app [OF assms p(1) pc(1) writes_prog [OF pc(2)]] by blast
next
  case (cd_match a k ks c bs)
  show ?case
  proof
    assume t: "tame (CMatch c bs)"
    with cd_match have b: "list_all2 (branch_cell V w0) ks bs" by (auto simp: list_all2_conv_all_nth list_all_length)
    have "\<exists>cs ds. ks = cs @ ds \<and> list_all (case_cell V w0) cs \<and> tail_ok w0 ds \<and> cs @ ds \<noteq> []"
      by (rule split_branches [OF b]) (use t in simp_all)
    with t cd_match show "writes w0 a" using writes_match [OF assms, of a k] by auto
  qed
next
  case (cd_const a nd t)
  then show ?case using writes_sym [OF assms] by blast
next
  case (cd_var a)
  then show ?case using writes_sym [OF assms] by (auto simp: var_cell_def)
next
  case (cd_let a x k l c d)
  then show ?case using writes_let [OF assms] by (auto simp: var_cell_def)
next
  case (cdb_case a p k h xs c)
  then show ?case by (auto simp: branch_cell_def case_cell_def)
next
  case (cdb_default a nd c)
  then show ?case by (auto simp: branch_cell_def default_cell_def)
qed (auto intro: writes_int writes_rat writes_fail writes_do [OF assms] writes_arith [OF assms] writes_neg [OF assms] writes_toq [OF assms] writes_if [OF assms])

section \<open>Functions\<close>

text \<open>Program number \<open>i\<close> of the writer is the cell \<open>p\<close>, with parameters \<open>xs\<close> and body \<open>b\<close>.\<close>

definition registered :: "scw \<Rightarrow> nat \<Rightarrow> addr \<Rightarrow> addr list \<Rightarrow> addr \<Rightarrow> bool" where
  "registered w i p xs b \<longleftrightarrow> i < length (progNames w) \<and> map_of (scw_progs w) (progNames w ! i) = Some p \<and>
     (\<exists>tp vs opr. node (graph w) p = Some (CExpr PROG [tp, vs, b]) \<and> node (graph w) vs = Some (CExpr opr xs))"

lemma em_get_prog:
  assumes "registered w0 i p xs b"
  shows "emits (steady w0) (\<lambda>x. x = p) (\<lambda>n. get_prog i)"
  unfolding get_prog_def
proof (rule emits_bnd)
  show "emits (steady w0) (\<lambda>x. x = Some (progNames w0 ! i)) (\<lambda>n. gets (\<lambda>w. nth_opt (progNames w) i))"
    by (rule emits_gets) (use assms in \<open>simp add: steady_def nth_opt_def registered_def\<close>)
  fix x assume x: "x = Some (progNames w0 ! i)"
  show "emits (steady w0) (\<lambda>x. x = p) (\<lambda>n. bnd (deref x) (\<lambda>x. bnd (gets (\<lambda>w. map_of (scw_progs w) x)) deref))"
    by (rule emits_bnd [OF emits_deref [where Q = "\<lambda>y. y = progNames w0 ! i", OF x refl]],
        rule emits_bnd [OF emits_gets [where Q = "\<lambda>y. y = Some p"]])
       (use assms in \<open>auto simp: steady_def registered_def intro!: emits_ret\<close>)
qed

lemma map_M_names:
  assumes "sound V w0"
  shows "set xs \<subseteq> V \<Longrightarrow> \<exists>nms. map_M getname xs (graph w0) = Inr (nms, graph w0) \<and> list_all good_name nms"
proof (induction xs)
  case (Cons x xs)
  then obtain nms where "map_M getname xs (graph w0) = Inr (nms, graph w0)" "list_all good_name nms" by auto
  moreover from Cons.prems assms obtain nm where "node (graph w0) x = Some (SymSExpr nm)" "good_name nm" by (fastforce simp: sound_def)
  moreover from this have "getname x (graph w0) = Inr (nm, graph w0)" by (simp add: run_simps getname_def)
  ultimately show ?case by (simp add: bnd_run)
qed simp

lemma em_params:
  assumes "sound V w0" "registered w0 i p xs b" "set xs \<subseteq> V"
  shows "emits (steady w0) (list_all good_name) (\<lambda>n. prog_params i)"
  unfolding prog_params_def
proof (rule emits_bnd [OF em_get_prog [OF assms(2)]], hypsubst)
  from map_M_names [OF assms(1,3)] obtain nms where nms: "map_M getname xs (graph w0) = Inr (nms, graph w0)" "list_all good_name nms" by blast
  show "emits (steady w0) (list_all good_name) (\<lambda>n. ongraph (bnd (getkid p 1) (\<lambda>pv. bnd (getkids pv) (map_M getname))))"
    by (rule em_read [of _ _ nms]) (use assms(2) nms in \<open>auto simp: registered_def run_simps\<close>)
qed

lemma em_push_all: "emits (steady w0) (\<lambda>_. True) (\<lambda>n. iter_M push_var xs)"
proof (induction xs)
  case Nil
  show ?case unfolding iter_M.simps by (rule emits_ret) simp
next
  case (Cons x xs)
  then show ?case unfolding iter_M.simps by (rule emits_sq [OF em_push])
qed

text \<open>The header opens a bracket in debug versions.\<close>

lemma shifts_debug:
  assumes "plain f" "list_all good_name xs"
  shows "shifts 0 1 (header_debug f xs)"
proof -
  have "plain (case map (\<lambda>x. line 1 (get_var_name x @ ''->print( std::cout );'')) xs of
        [] \<Rightarrow> []
      | l # ls \<Rightarrow> l @ concat (map (\<lambda>l. line 1 (''std::cout << '' @ [CHR 0x22] @ '', '' @ [CHR 0x22] @ '';'') @ l) ls))"
    using assms(2) by (cases xs) (auto simp: plain_var_name list_all_iff intro!: plain_concat)
  with assms(1) show ?thesis unfolding header_debug_def by (simp add: bal_simps)
qed

lemma em_header:
  assumes "sound V w0" "registered w0 i p xs b" "set xs \<subseteq> V" "opts = 0 \<or> opts = opt_write_call_debug"
  shows "emits (steady w0) (shifts 0 (if has_opt opts opt_write_call_debug then 1 else 0)) (\<lambda>n. write_function_header i (opt_write_add_args OR opts))"
  unfolding write_function_header_def
proof (rule emits_bnd [OF em_prog_name [OF assms(1)]])
  show "i < length (progNames w0)" using assms(2) by (simp add: registered_def)
  fix pn assume pn: "plain pn"
  have f: "plain (get_function_name pn)" using pn by (simp add: get_function_name_def)
  have o: "has_opt (opt_write_add_args OR opts) opt_write_call_debug = has_opt opts opt_write_call_debug" "has_opt (opt_write_add_args OR opts) opt_write_add_args"
    using assms(4) by (auto simp: has_opt_def opt_write_add_args_def opt_write_call_debug_def)
  show "emits (steady w0) (shifts 0 (if has_opt opts opt_write_call_debug then 1 else 0)) (\<lambda>n. bnd (prog_params i) (\<lambda>xs.
     sq (if has_opt (opt_write_add_args OR opts) opt_write_add_args then iter_M push_var xs else ret ()) (
     ret (''Expr* '' @ get_function_name pn @ ''( '' @ commas (map (\<lambda>x. ''Expr* '' @ get_var_name x) xs) @ '' )'' @
       (if has_opt (opt_write_add_args OR opts) opt_write_call_debug then header_debug (get_function_name pn) xs else [])))))"
  proof (rule emits_bnd [OF em_params [OF assms(1-3)]], goal_cases)
    case (1 nms)
    have c: "plain (commas (map (\<lambda>x. ''Expr* '' @ get_var_name x) nms))"
      by (rule plain_commas) (use 1 in \<open>simp add: list_all_iff plain_var_name\<close>)
    show ?case
      by (simp only: o if_True, rule emits_sq [OF em_push_all], rule emits_ret)
         (use f c shifts_debug [OF f 1] in \<open>simp add: bal_simps\<close>)
  qed
qed

text \<open>
  The tables in which every program can be written, whatever program was written before: each is registered with a body that holds
  tame code.
\<close>

definition writable :: "addr set \<Rightarrow> scw \<Rightarrow> bool" where
  "writable V w \<longleftrightarrow> sound V w \<and> (scw_options w = 0 \<or> scw_options w = opt_write_call_debug) \<and>
     list_all plain (globalSyms w) \<and> length (scw_progs w) = length (progNames w) \<and>
     (\<forall>i < length (progNames w). \<exists>p xs b c. registered w i p xs b \<and> set xs \<subseteq> V \<and> cd V (graph w) b c \<and> tame c)"

text \<open>The tables are as they were.\<close>

definition tables :: "scw \<Rightarrow> st \<times> string list \<times> addr list \<times> (string \<times> addr) list \<times> int" where
  "tables w = (graph w, progNames w, progPtrs w, scw_progs w, scw_options w)"

definition ready_from :: "addr set \<Rightarrow> scw \<Rightarrow> scw \<Rightarrow> bool" where
  "ready_from V w0 w \<longleftrightarrow> tables w = tables w0 \<and> list_all plain (globalSyms w) \<and> currProgram w < length (progNames w0)"

lemma ready_writable: "writable V w0 \<Longrightarrow> ready_from V w0 w \<Longrightarrow> writable V w"
  by (simp add: writable_def ready_from_def tables_def sound_def registered_def)

lemma em_function:
  assumes "writable V w0" "i < length (progNames w0)"
  shows "emits (ready_from V w0) bal (\<lambda>n. write_function n i)"
  unfolding emits_def
proof (intro allI impI)
  fix w assume rf: "ready_from V w0 w"
  have wr: "writable V w" by (rule ready_writable [OF assms(1) rf])
  have "i < length (progNames w)" using rf assms(2) by (simp add: ready_from_def tables_def)
  with wr obtain p xs b c where q: "registered w i p xs b" "set xs \<subseteq> V" "cd V (graph w) b c" "tame c" by (auto simp: writable_def)
  let ?w = "w\<lparr>currProgram := i, scw_vars := [], exprCount := 0, argsCount := 0, rnumCount := 0\<rparr>"
  let ?o = "scw_options w"
  have s: "sound V ?w" and r: "registered ?w i p xs b" using wr q(1) assms(2) rf by (auto simp: writable_def sound_def registered_def)
  have o: "?o = 0 \<or> ?o = opt_write_call_debug" using wr by (simp add: writable_def)
  have b: "writes ?w b" using cd_writes(1) [OF s, of b c] q(3,4) by simp
  from r obtain tp vs where p: "node (graph ?w) p = Some (CExpr PROG [tp, vs, b])" by (auto simp: registered_def)
  have body: "emits (steady ?w) (\<lambda>x. x = b) (\<lambda>n. bnd (get_prog i) (\<lambda>p. ongraph (getkid p 2)))"
    by (rule emits_bnd [OF em_get_prog [OF r]], hypsubst, rule em_kid [OF p]) simp_all
  define m where "m = (\<lambda>f. bnd (gets scw_options) (\<lambda>opts.
     bnd (write_function_header i (opt_write_add_args OR opts)) (\<lambda>h.
     bnd (bnd (get_prog i) (\<lambda>p. ongraph (getkid p 2))) (\<lambda>body.
     bnd (write_expr (write_code f) body 1 0) (\<lambda>(e, t).
     ret (h @ (if has_opt opts opt_write_call_debug then [] else ''{'' @ nl) @ t @ line 1 (''return '' @ e @ '';'') @ ''}'' @ nl @ nl))))))"
  have "emits (steady ?w) bal m"
    unfolding m_def
    by (rule emits_bnd [OF emits_gets [where Q = "\<lambda>x. x = ?o"]], simp add: steady_def, hypsubst,
        rule emits_bnd [OF em_header [OF s r q(2) o]], rule emits_bnd [OF body], hypsubst,
        rule emits_bnd [OF em_expr [OF s b]], rule emits_prod, rule emits_ret)
       (auto simp: written_def bal_simps split: if_splits)
  then obtain t w' where t: "returns m ?w (t, w')" "steady ?w w'" "bal t" unfolding emits_def using steady_refl by blast
  have "returns (\<lambda>n. write_function n i) w (t, w')"
    by (rule returns_elim1 [OF t(1)]) (simp add: write_function_def sq_run m_def)
  moreover have "ready_from V w0 w'" using t(2) rf assms(2) by (simp add: steady_def ready_from_def tables_def)
  ultimately show "\<exists>x w'. returns (\<lambda>n. write_function n i) w (x, w') \<and> ready_from V w0 w' \<and> bal x" using t(3) by blast
qed

section \<open>Files\<close>

lemma em_map:
  assumes "\<And>x. x \<in> set xs \<Longrightarrow> emits G Q (\<lambda>n. m n x)"
  shows "emits G (\<lambda>ys. list_all Q ys \<and> length ys = length xs) (\<lambda>n. map_M (m n) xs)"
  using assms
proof (induction xs)
  case Nil
  show ?case unfolding map_M.simps by (rule emits_ret) simp
next
  case (Cons x xs)
  show ?case
    unfolding map_M.simps
    by (rule emits_bnd [OF Cons.prems], simp, rule emits_bnd [OF Cons.IH], use Cons.prems in simp, rule emits_ret) simp
qed

text \<open>A step that writes no table, from a state that is ready.\<close>

lemma em_from_steady:
  assumes "writable V w0" "\<And>w. writable V w \<Longrightarrow> tables w = tables w0 \<Longrightarrow> emits (steady w) Q m"
  shows "emits (ready_from V w0) Q m"
  unfolding emits_def
proof (intro allI impI)
  fix w assume rf: "ready_from V w0 w"
  then have t: "tables w = tables w0" by (simp add: ready_from_def)
  have "emits (steady w) Q m" by (rule assms(2) [OF ready_writable [OF assms(1) rf] t])
  then obtain x w' where "returns m w (x, w')" "steady w w'" "Q x" unfolding emits_def using steady_refl by blast
  moreover from this(2) rf have "ready_from V w0 w'" by (simp add: steady_def ready_from_def tables_def)
  ultimately show "\<exists>x w'. returns m w (x, w') \<and> ready_from V w0 w' \<and> Q x" by blast
qed

lemma em_ready_name:
  assumes "writable V w0" "i < length (progNames w0)"
  shows "emits (ready_from V w0) plain (\<lambda>n. prog_name i)"
  by (rule em_from_steady [OF assms(1)], rule em_prog_name) (use assms in \<open>auto simp: writable_def tables_def\<close>)

lemma em_ready_params:
  assumes "writable V w0" "i < length (progNames w0)"
  shows "emits (ready_from V w0) (list_all good_name) (\<lambda>n. prog_params i)"
proof (rule em_from_steady [OF assms(1)])
  fix w assume w: "writable V w" "tables w = tables w0"
  with assms(2) obtain p xs b where "registered w i p xs b" "set xs \<subseteq> V" by (auto simp: writable_def tables_def)
  with w(1) show "emits (steady w) (list_all good_name) (\<lambda>n. prog_params i)" using em_params by (auto simp: writable_def)
qed

lemma em_prototype:
  assumes "writable V w0" "i < length (progNames w0)"
  shows "emits (ready_from V w0) plain (\<lambda>n. bnd (write_function_header i 0) (\<lambda>t. ret (''inline '' @ t @ '';'' @ nl @ nl)))"
proof -
  have o: "has_opt 0 opt_write_add_args = False" "has_opt 0 opt_write_call_debug = False" by (simp_all add: has_opt_def)
  have h: "emits (ready_from V w0) plain (\<lambda>n. write_function_header i 0)"
    unfolding write_function_header_def o if_False
  proof (rule emits_bnd [OF em_ready_name [OF assms]], rule emits_bnd [OF em_ready_params [OF assms]],
      rule emits_sq [OF emits_ret [where Q = "\<lambda>_. True"]], simp, rule emits_ret)
    fix pn :: string and nms assume pn: "plain pn" and nms: "list_all good_name nms"
    have "plain (commas (map (\<lambda>x. ''Expr* '' @ get_var_name x) nms))"
      by (rule plain_commas) (use nms in \<open>simp add: list_all_iff plain_var_name\<close>)
    with pn show "plain (''Expr* '' @ get_function_name pn @ ''( '' @ commas (map (\<lambda>x. ''Expr* '' @ get_var_name x) nms) @ '' )'' @ [])"
      by (simp add: get_function_name_def)
  qed
  show ?thesis by (rule emits_bnd [OF h], rule emits_ret) simp
qed

lemma em_header_file:
  assumes "writable V w0"
  shows "emits (ready_from V w0) bal (\<lambda>n. write_header_file)"
  unfolding write_header_file_def
proof (rule emits_bnd [OF emits_gets [where Q = "\<lambda>k. k = length (progNames w0)"]], use assms in \<open>simp add: ready_from_def tables_def writable_def\<close>,
    hypsubst, rule emits_bnd [OF em_map], rule em_prototype [OF assms], simp, rule emits_ret, goal_cases)
  case (1 size1 hs)
  then have "plain (concat hs)" by (intro plain_concat) simp
  then show ?case by (simp add: bal_simps)
qed

text \<open>The tests of the entry function: the first opens a bracket, the others close one and open one.\<close>

lemma em_dispatch:
  assumes "writable V w0" "i < length (progNames w0)"
  shows "emits (ready_from V w0) (shifts (if i = 0 then 0 else 1) 1) (\<lambda>n. write_dispatch i)"
  unfolding write_dispatch_def
proof (rule emits_bnd [OF em_ready_name [OF assms]], rule emits_bnd [OF em_ready_params [OF assms]], rule emits_ret)
  fix pn and nms :: "string list" assume "plain pn"
  moreover have "plain (commas (map (\<lambda>i. ''args['' @ mpz_get_str i @ '']'') [0..<length nms]))"
    by (rule plain_commas) (simp add: list_all_iff)
  ultimately show "shifts (if i = 0 then 0 else 1) 1 (indent 1 @ (if i \<noteq> 0 then ''}else '' else []) @ ''if( p==e_'' @ pn @ '' ){'' @ nl @
       indent 2 @ ''return '' @ get_function_name pn @ ''( '' @
       commas (map (\<lambda>i. ''args['' @ mpz_get_str i @ '']'') [0..<length nms]) @ '' );'' @ nl)"
    by (simp add: bal_simps get_function_name_def)
qed

lemma em_dispatches:
  assumes "writable V w0"
  shows "k \<le> length (progNames w0) \<Longrightarrow> i \<le> k \<Longrightarrow>
    emits (ready_from V w0) (\<lambda>ts. shifts (if i = 0 then 0 else 1) (if k = 0 then 0 else 1) (concat ts)) (\<lambda>n. map_M write_dispatch [i..<k])"
proof (induction "k - i" arbitrary: i)
  case 0
  then have "[i..<k] = []" "i = k" by simp_all
  then show ?case by (simp only: map_M.simps) (rule emits_ret, simp)
next
  case (Suc d)
  then have u: "[i..<k] = i # [Suc i..<k]" "i < k" by (simp_all add: upt_conv_Cons)
  have ih: "emits (ready_from V w0) (\<lambda>ts. shifts (if Suc i = 0 then 0 else 1) (if k = 0 then 0 else 1) (concat ts)) (\<lambda>n. map_M write_dispatch [Suc i..<k])"
    by (rule Suc.hyps(1)) (use Suc in simp_all)
  have h: "emits (ready_from V w0) (shifts (if i = 0 then 0 else 1) 1) (\<lambda>n. write_dispatch i)"
    by (rule em_dispatch [OF assms]) (use Suc.prems u in simp)
  show ?case
    unfolding u(1) map_M.simps
    by (rule emits_bnd [OF h], rule emits_bnd [OF ih], rule emits_ret) (auto intro: shifts_append)
qed

lemma em_code_file:
  assumes "writable V w0"
  shows "emits (ready_from V w0) bal (\<lambda>n. write_code_file n)"
  unfolding write_code_file_def
proof (rule emits_bnd [OF emits_gets [where Q = "\<lambda>k. k = length (progNames w0)"]], use assms in \<open>simp add: ready_from_def tables_def writable_def\<close>,
    hypsubst, rule emits_bnd [OF em_map], rule em_function [OF assms], simp,
    rule emits_bnd [OF emits_gets [where Q = "list_all plain"]], simp add: ready_from_def,
    rule emits_bnd [OF em_map], rule em_ready_name [OF assms], simp,
    rule emits_bnd [OF em_dispatches [OF assms order_refl]], simp, rule emits_ret, goal_cases)
  case (1 size1 funs syms pns ds)
  have ne: "progNames w0 \<noteq> []" using assms by (auto simp: writable_def sound_def)
  have f: "bal (concat funs)" using 1 by (intro bal_concat) simp
  have d: "shifts 0 1 (concat ds)" using 1 ne by simp
  have p: "list_all plain syms" "list_all plain pns" using 1 by simp_all
  have a: "plain (concat (map (\<lambda>x. ''Expr* e_'' @ x @ '';'' @ nl) (syms @ pns)))"
    "plain (concat (map (\<lambda>x. line 1 (''e_'' @ x @ '' = symbols->get('' @ [CHR 0x22] @ x @ [CHR 0x22] @ '').first;'')) syms))"
    "plain (concat (map (\<lambda>x. line 1 (''e_'' @ x @ '' = progs['' @ [CHR 0x22] @ x @ [CHR 0x22] @ ''];'')) pns))"
    using p by (auto simp: list_all_iff intro!: plain_concat)
  show ?case using f d a by (simp add: bal_simps)
qed

lemma file_written:
  assumes "writable V w"
  shows "\<exists>h c w'. returns write_file w ((h, c), w') \<and> bal h \<and> bal c \<and> graph w' = graph w"
proof -
  have rf: "ready_from V w w" using assms by (simp add: ready_from_def writable_def sound_def)
  with em_header_file [OF assms] obtain h w1 where h: "returns (\<lambda>n. write_header_file) w (h, w1)" "ready_from V w w1" "bal h"
    unfolding emits_def by blast
  with em_code_file [OF assms] obtain c w2 where c: "returns (\<lambda>n. write_code_file n) w1 (c, w2)" "ready_from V w w2" "bal c"
    unfolding emits_def by blast
  have "returns write_file w ((h, c), w2\<lparr>currProgram := length (scw_progs w2)\<rparr>)"
    by (rule returns_elim2 [OF h(1) c(1)]) (simp add: write_file_def run_simps)
  moreover have "graph w2 = graph w" using c(2) by (simp add: ready_from_def tables_def)
  ultimately show ?thesis using h(3) c(3) by (metis scw.simps(1) scw.select_convs(1) scw.surjective scw.update_convs(6))
qed

section \<open>Names\<close>

definition printable :: "char \<Rightarrow> bool" where
  "printable c \<longleftrightarrow> 33 \<le> schar c \<and> schar c \<le> 126"

definition ident_char :: "char \<Rightarrow> bool" where
  "ident_char c \<longleftrightarrow> (let i = schar c in 48 \<le> i \<and> i \<le> 57 \<or> 65 \<le> i \<and> i \<le> 90 \<or> i = 95 \<or> 97 \<le> i \<and> i \<le> 122)"

lemma var_name_ident: "list_all printable x \<Longrightarrow> list_all ident_char (get_var_name x)"
  by (auto simp: get_var_name_def list_all_iff printable_def ident_char_def schar_var_char var_code_def Let_def)

text \<open>Different names can become the same.\<close>

lemma var_name_collision: "get_var_name ''+'' = get_var_name ''l''"
  by (simp add: get_var_name_def var_char_def)

text \<open>Without programs the entry function is not well bracketed: its first test is missing.\<close>

lemma no_programs_unbalanced:
  "\<exists>t w'. write_code_file f (new_scw s si opts) = Inr (t, w') \<and> braces 0 t = None"
  by (simp add: write_code_file_def new_scw_def run_simps bal_simps)

section \<open>Examples\<close>

text \<open>The code \<open>(mp_div x y)\<close>, where \<open>x\<close> is 7 and \<open>y\<close> is 2.\<close>

definition div_st :: st where
  "div_st = \<lparr>node = [4 \<mapsto> SymSExpr ''x'', 5 \<mapsto> SymSExpr ''y'', 6 \<mapsto> CExpr DIV [4, 5], 7 \<mapsto> IntExpr 7, 8 \<mapsto> IntExpr 2],
     sval = [4 \<mapsto> 7, 5 \<mapsto> 8], flag = (\<lambda>a. False), refs = (\<lambda>a. 1), freed = (\<lambda>a. False), brk = 9, maddr = id, mark_map = (\<lambda>a. 0),
     symbols = new_trie (None, None), progs = (\<lambda>x. None), progFunctions = (\<lambda>a. False), run_scc = False, cache = empty_etrie\<rparr>"

definition div_scw :: scw where
  "div_scw = (new_scw div_st id 0)\<lparr>scw_vars := [''x'', ''y'']\<rparr>"

lemma var_name_x: "get_var_name ''x'' = ''x''" "get_var_name ''y'' = ''y''"
  by (simp_all add: get_var_name_def var_char_def char_of_eq_iff)

lemma div_expr:
  "write_expr rec 4 1 0 div_scw = Inr ((''x'', line 1 ''x->inc();''), div_scw)"
  "write_expr rec 5 1 0 div_scw = Inr ((''y'', line 1 ''y->inc();''), div_scw)"
  by (simp_all add: write_expr_def sym_var_def ongraph_def run_simps is_var_def getname_def div_scw_def new_scw_def div_st_def var_name_x)

lemma div_kid: "getkid 6 0 div_st = Inr (4, div_st)" "getkid 6 1 div_st = Inr (5, div_st)" "graph div_scw = div_st" "rnumCount div_scw = 0"
    "getkid 6 (Suc 0) div_st = Inr (5, div_st)" "getnode 6 div_st = Inr (CExpr DIV [4, 5], div_st)" "div_scw\<lparr>graph := div_st\<rparr> = div_scw"
  by (simp_all add: run_simps div_st_def div_scw_def new_scw_def)

text \<open>The call in the first block of an arithmetic operation.\<close>

lemma call_inside:
  "\<exists>pre post. t1 @ t2 @ w_by_class e ind (w_num_block mp ex c x ind r) b2 @ tl1 = pre @ (mp @ ''_'' @ c) @ post"
  unfolding w_by_class_def w_num_block_def line_def [of "ind + 1" "mp @ ''_'' @ c"]
  by (metis append_assoc)

lemma div_arith:
  "\<exists>pre post w'. w_arith rec DIV 6 1 (Some ''e0'') div_scw =
     Inr (pre @ ''mpz_mul( rnum0, ((IntExpr*)x->followDefs())->n, ((IntExpr*)y->followDefs())->n);'' @ post, w')"
proof -
  have k: "ongraph (getkid 6 0) div_scw = Inr (4, div_scw)" "ongraph (getkid 6 1) div_scw = Inr (5, div_scw)"
    by (simp_all add: ongraph_def div_kid)
  have "show_base 10 0 = ''0''" by (subst show_base.simps) (simp add: digit_char_def char_of_eq_iff)
  then have n: "next_rnum div_scw = Inr (''rnum0'', div_scw\<lparr>rnumCount := 1\<rparr>)" by (simp add: next_rnum_def run_simps div_kid mpz_get_str_def)
  let ?c = "''mul'' @ ''( '' @ ''rnum0'' @ '', ((IntExpr*)'' @ ''x'' @ ''->followDefs())->n, ((IntExpr*)'' @ ''y'' @ ''->followDefs())->n);''"
  have "\<exists>t1 t2 b2 tl1 w'. w_arith rec DIV 6 1 (Some ''e0'') div_scw =
      Inr (t1 @ t2 @ w_by_class ''x'' 1 (w_num_block ''mpz'' ''IntExpr'' ?c ''rnum0'' 1 (Some ''e0'')) b2 @ tl1, w')"
    unfolding w_arith_def write_expr_kid_def bnd_run k sum.case prod.case div_expr n ret_run
    by (simp only: arith_fn_int_def op.distinct if_False) blast
  then obtain t1 t2 b2 tl1 w' where t: "w_arith rec DIV 6 1 (Some ''e0'') div_scw =
      Inr (t1 @ t2 @ w_by_class ''x'' 1 (w_num_block ''mpz'' ''IntExpr'' ?c ''rnum0'' 1 (Some ''e0'')) b2 @ tl1, w')" by blast
  from call_inside [of t1 t2 "''x''" 1 "''mpz''" "''IntExpr''" ?c "''rnum0''" "Some ''e0''" b2 tl1] obtain pre post where
    p: "t1 @ t2 @ w_by_class ''x'' 1 (w_num_block ''mpz'' ''IntExpr'' ?c ''rnum0'' 1 (Some ''e0'')) b2 @ tl1 = pre @ (''mpz'' @ ''_'' @ ?c) @ post"
    by blast
  have "''mpz'' @ ''_'' @ ?c = ''mpz_mul( rnum0, ((IntExpr*)x->followDefs())->n, ((IntExpr*)y->followDefs())->n);''" by simp
  then show ?thesis using t [unfolded p] by metis
qed

lemma div_written:
  "\<exists>pre post w'. write_code 2 6 1 (Some ''e0'') 0 div_scw =
      Inr (pre @ ''mpz_mul( rnum0, ((IntExpr*)x->followDefs())->n, ((IntExpr*)y->followDefs())->n);'' @ post, w')"
proof -
  have "ongraph (getnode 6) div_scw = Inr (CExpr DIV [4, 5], div_scw)" by (simp add: ongraph_def div_kid)
  then have "write_code 2 6 1 (Some ''e0'') 0 div_scw = w_arith (write_code 1) DIV 6 1 (Some ''e0'') div_scw"
    by (simp add: numeral_2_eq_2 bnd_run w_op_def)
  with div_arith [of "write_code 1"] show ?thesis by metis
qed

end
