(* ===== verification/LFSC_Reread.thy ===== *)
theory LFSC_Reread
  imports LFSC_Print LFSC_Scan
begin

text \<open>
  The printer and the scanner together: the text that \<open>print\<close> writes for a first-order term is scanned into the tokens of
  the term (\<open>scan_term_text\<close>), so that what the checker prints can be read again.
\<close>

section \<open>The tokens of a term\<close>

definition negated :: "bool \<Rightarrow> (token \<times> string) list \<Rightarrow> (token \<times> string) list" where
  "negated b ts = (if b then [(TOpen, ''(''), (TTilde, ''~'')] @ ts @ [(TClose, '')'')] else ts)"

fun term_toks :: "(addr \<Rightarrow> string) \<Rightarrow> fterm \<Rightarrow> (token \<times> string) list" where
  "term_toks nm (FInt i) = negated (i < 0) [(TNatural, mpz_get_str (nat \<bar>i\<bar>))]"
| "term_toks nm (FRat q) = negated (q < 0)
     [(TRational, mpz_get_str (nat (fst (quotient_of \<bar>q\<bar>))) @ ''/'' @ mpz_get_str (nat (snd (quotient_of \<bar>q\<bar>))))]"
| "term_toks nm (FSym a) = [(TIdent, nm a)]"
| "term_toks nm (FCon opr) =
     [if opr = TYPE_E then (TType, ''type'') else if opr = KIND then (TIdent, ''kind'') else (TMpz, ''mpz'')]"
| "term_toks nm (FApp ts) = (TOpen, ''('') # concat (map (term_toks nm) ts) @ [(TClose, '')'')]"

text \<open>The symbols of a term are called by names that scan as identifiers.\<close>

definition is_name :: "string \<Rightarrow> bool" where
  "is_name x \<longleftrightarrow> is_word x \<and> word_token x = TIdent"

fun named_by :: "(addr \<Rightarrow> string) \<Rightarrow> fterm \<Rightarrow> bool" where
  "named_by nm (FSym a) = is_name (nm a)"
| "named_by nm (FApp ts) = list_all (named_by nm) ts"
| "named_by nm t = True"

section \<open>Reading back what is printed\<close>

lemma single_tokens:
  "tokens (CHR ''('' # r) = (TOpen, ''('') # tokens r"
  "tokens (CHR '')'' # r) = (TClose, '')'') # tokens r"
  "tokens (CHR ''~'' # r) = (TTilde, ''~'') # tokens r"
  "tokens (CHR '' '' # r) = tokens r"
  by (rule tokens_single tokens_blank; simp add: is_single_def is_blank_def reserved_def)+

lemma closed_simps: "closed []" "closed (CHR '')'' # r)" "closed (CHR '' '' # r)"
  by (simp_all add: closed_def is_delim_def is_blank_def)

lemma digits_mpz: "list_all is_digit (mpz_get_str n)" "mpz_get_str n \<noteq> []"
  using show_base_digits [of n] by (simp_all add: mpz_get_str_def)

lemma tokens_negated:
  assumes "\<And>r. closed r \<Longrightarrow> tokens (x @ r) = ts @ tokens r" "closed r"
  shows "tokens ((if b then ''(~ '' @ x @ '')'' else x) @ r) = negated b ts @ tokens r"
  using assms(1) [of "CHR '')'' # r"] assms by (simp add: negated_def single_tokens closed_simps)

lemma tokens_int: "closed r \<Longrightarrow> tokens (print_int i @ r) = negated (i < 0) [(TNatural, mpz_get_str (nat \<bar>i\<bar>))] @ tokens r"
proof -
  assume r: "closed r"
  have "tokens ((if i < 0 then ''(~ '' @ mpz_get_str (nat \<bar>i\<bar>) @ '')'' else mpz_get_str (nat \<bar>i\<bar>)) @ r) =
      negated (i < 0) [(TNatural, mpz_get_str (nat \<bar>i\<bar>))] @ tokens r"
    by (rule tokens_negated [OF _ r]) (simp add: tokens_natural digits_mpz)
  then show ?thesis by (cases "i < 0") (simp_all add: print_int_def)
qed

lemma tokens_rat:
  assumes "closed r"
  shows "tokens (print_rat q @ r) = negated (q < 0)
     [(TRational, mpz_get_str (nat (fst (quotient_of \<bar>q\<bar>))) @ ''/'' @ mpz_get_str (nat (snd (quotient_of \<bar>q\<bar>))))] @ tokens r"
proof -
  let ?x = "mpz_get_str (nat (fst (quotient_of \<bar>q\<bar>))) @ ''/'' @ mpz_get_str (nat (snd (quotient_of \<bar>q\<bar>)))"
  have "tokens ((if q < 0 then ''(~ '' @ ?x @ '')'' else ?x) @ r) = negated (q < 0) [(TRational, ?x)] @ tokens r"
    by (rule tokens_negated [OF _ assms]) (use tokens_rational digits_mpz in simp)
  then show ?thesis by (cases "q < 0") (simp_all add: print_rat_def case_prod_beta Let_def)
qed

lemma tokens_name: "is_name x \<Longrightarrow> closed r \<Longrightarrow> tokens (x @ r) = (TIdent, x) # tokens r"
  by (simp add: is_name_def tokens_word)

lemma tokens_const:
  assumes "closed r"
  shows "tokens (''type'' @ r) = (TType, ''type'') # tokens r" "tokens (''kind'' @ r) = (TIdent, ''kind'') # tokens r"
    "tokens (''mpz'' @ r) = (TMpz, ''mpz'') # tokens r"
proof -
  have w: "is_word ''type''" "is_word ''kind''" "is_word ''mpz''"
    by (simp_all add: is_word_def starts_word_def is_delim_def is_blank_def is_single_def is_digit_def)
  have t: "word_token ''type'' = TType" "word_token ''kind'' = TIdent" "word_token ''mpz'' = TMpz"
    by (simp_all add: word_token_def reserved_def numbered_def)
  show "tokens (''type'' @ r) = (TType, ''type'') # tokens r" "tokens (''kind'' @ r) = (TIdent, ''kind'') # tokens r"
    "tokens (''mpz'' @ r) = (TMpz, ''mpz'') # tokens r"
    by (rule tokens_word [OF w(1) assms, unfolded t] tokens_word [OF w(2) assms, unfolded t] tokens_word [OF w(3) assms, unfolded t])+
qed

lemma tokens_texts:
  assumes "\<And>t r. t \<in> set ts \<Longrightarrow> closed r \<Longrightarrow> tokens (f t @ r) = g t @ tokens r" "closed r"
  shows "tokens (concat (map (\<lambda>t. '' '' @ f t) ts) @ r) = concat (map g ts) @ tokens r \<and>
    closed (concat (map (\<lambda>t. '' '' @ f t) ts) @ r)"
  using assms by (induction ts) (auto simp: single_tokens closed_simps)

lemma tokens_term:
  "named_by nm t \<Longrightarrow> closed r \<Longrightarrow> tokens (term_text nm t @ r) = term_toks nm t @ tokens r"
proof (induction nm t arbitrary: r rule: term_text.induct)
  case (5 nm ts)
  let ?body = "concat (map (\<lambda>t. '' '' @ term_text nm t) ts)"
  have "tokens (?body @ '')'' @ r) = concat (map (term_toks nm) ts) @ tokens ('')'' @ r)"
    using 5 tokens_texts [of ts "term_text nm" "term_toks nm" "'')'' @ r"] by (auto simp: list_all_iff closed_simps)
  moreover have "tokens (tl ?body @ '')'' @ r) = tokens (?body @ '')'' @ r)"
    by (cases ts) (simp_all add: single_tokens)
  ultimately show ?case by (simp add: single_tokens)
qed (simp_all add: tokens_int tokens_rat tokens_name tokens_const [simplified])

lemma scan_term_text: "named_by nm t \<Longrightarrow> scan 0 (term_text nm t) = Some (term_toks nm t)"
  using tokens_term [of nm t "[]"] by (simp add: scan_tokens tokens_Nil closed_simps)

end
