(* ===== verification/LFSC_Simple.thy ===== *)
theory LFSC_Simple
  imports LFSC_Check LFSC_Frame LFSC_Reduce
begin

text \<open>
  Simple types: a telescope of \<open>PI\<close> cells between base types (\<open>simple_type\<close>), as the checker keeps them in
  the graph, with what \<open>defeq\<close>, \<open>followDefs\<close> and \<open>clone\<close> do to them.

  The checker binds the variables of a telescope as it goes, and leaves them bound in a type that it uses for the first time;
  \<open>moves\<close> is the relation between the states before and after: everything but the values of \<open>PI\<close> variables is kept.
\<close>

section \<open>Simple types in the graph\<close>

definition pivars :: "st \<Rightarrow> addr set" where
  "pivars s = {v. \<exists>p d q. node s p = Some (CExpr PI [v, d, q])}"

definition base_type :: "st \<Rightarrow> addr \<Rightarrow> bool" where
  "base_type s r \<longleftrightarrow>
     (\<exists>x. node s r = Some (SymSExpr x)) \<and> sval s r = None \<and> r \<notin> pivars s \<or>
     r = statMpz \<and> node s r = Some (CExpr MPZ []) \<or> r = statMpq \<and> node s r = Some (CExpr MPQ []) \<or>
     r = statType \<and> node s r = Some (CExpr TYPE_E []) \<or> r = statKind \<and> node s r = Some (CExpr KIND [])"

inductive telescope :: "st \<Rightarrow> addr \<Rightarrow> addr list \<Rightarrow> addr \<Rightarrow> bool" for s where
  tele_Nil: "telescope s r [] r"
| tele_Cons: "node s p = Some (CExpr PI [v, d, q]) \<Longrightarrow> node s v = Some (SymSExpr x) \<Longrightarrow> telescope s q ds r \<Longrightarrow>
    telescope s p (d # ds) r"

inductive_simps telescope_simps: "telescope s p [] r" "telescope s p (d # ds) r"

definition simple_type :: "st \<Rightarrow> addr \<Rightarrow> addr list \<Rightarrow> addr \<Rightarrow> bool" where
  "simple_type s p ds r \<longleftrightarrow> telescope s p ds r \<and> (\<forall>b \<in> set (r # ds). base_type s b)"

section \<open>What checking leaves alone\<close>

definition wf_sym :: "st \<Rightarrow> bool" where
  "wf_sym s \<longleftrightarrow> wf_trie (None, None) (symbols s)"

definition moves :: "st \<Rightarrow> st \<Rightarrow> bool" where
  "moves s s' \<longleftrightarrow> (bounded s \<longrightarrow> bounded s') \<and> brk s \<le> brk s' \<and> (wf_sym s \<longrightarrow> wf_sym s' \<and> lookup s' = lookup s) \<and>
     (\<forall>a < brk s. node s' a = node s a \<and> (a \<in> pivars s \<or> sval s' a = sval s a)) \<and>
     pivars s' \<inter> {..<brk s} \<subseteq> pivars s \<and> (pivars s \<subseteq> {..<brk s} \<longrightarrow> pivars s' \<subseteq> {..<brk s'})"

lemma moves_brk: "moves s t \<Longrightarrow> brk s \<le> brk t"
  by (simp add: moves_def)

lemma moves_old: "moves s t \<Longrightarrow> a \<in> pivars t \<Longrightarrow> a < brk s \<Longrightarrow> a \<in> pivars s"
  unfolding moves_def by blast

lemma moves_pivars: "moves s s' \<Longrightarrow> pivars s \<subseteq> {..<brk s} \<Longrightarrow> pivars s' \<subseteq> {..<brk s'}"
  by (simp add: moves_def)

interpretation mv: step_rel moves
proof
  fix s t u assume st: "moves s t" and tu: "moves t u"
  have b: "brk s \<le> brk t" "brk t \<le> brk u" using st tu by (auto simp: moves_def)
  have "node u a = node s a \<and> (a \<in> pivars s \<or> sval u a = sval s a)" if "a < brk s" for a
  proof -
    have "a < brk t" using that b by simp
    then have "node u a = node t a" "a \<in> pivars t \<or> sval u a = sval t a" using tu by (auto simp: moves_def)
    moreover have "node t a = node s a" "a \<in> pivars s \<or> sval t a = sval s a" "a \<in> pivars t \<Longrightarrow> a \<in> pivars s"
      using st that by (auto simp: moves_def)
    ultimately show ?thesis by auto
  qed
  moreover have "pivars u \<inter> {..<brk s} \<subseteq> pivars s" 
    using moves_old [OF st] moves_old [OF tu] b by auto
  moreover have "bounded s \<longrightarrow> bounded u" "wf_sym s \<longrightarrow> wf_sym u \<and> lookup u = lookup s"
    "pivars s \<subseteq> {..<brk s} \<longrightarrow> pivars u \<subseteq> {..<brk u}"
    using st tu unfolding moves_def by metis+
  moreover have "brk s \<le> brk u" using b by simp
  ultimately show "moves s u" unfolding moves_def by blast
qed (auto simp: moves_def)

lemma moves_bounded: "moves s s' \<Longrightarrow> bounded s \<Longrightarrow> bounded s'"
  by (simp add: moves_def)

lemma moves_symbols: "moves s s' \<Longrightarrow> wf_sym s \<Longrightarrow> wf_sym s' \<and> lookup s' = lookup s"
  by (simp add: moves_def)

lemma moves_node: "moves s s' \<Longrightarrow> bounded s \<Longrightarrow> node s a = Some nd \<Longrightarrow> node s' a = Some nd"
  by (auto simp: moves_def bounded_def)

lemma moves_rc: "rc_only s s' \<Longrightarrow> moves s s'"
  by (auto simp: moves_def rc_only_def bounded_def pivars_def wf_sym_def lookup_def)

lemma moves_inc: "moves s (s\<lparr>refs := r\<rparr>)"
  by (rule moves_rc) (simp add: rc_only_def)

lemma moves_dec: "moves s (dec_st a s)"
  by (rule moves_rc) (rule dec_rc_only)

lemma moves_marks: "moves s (s\<lparr>flag := f\<rparr>)" "moves s (s\<lparr>mark_map := m\<rparr>)"
  by (auto simp: moves_def bounded_def pivars_def wf_sym_def lookup_def)

lemmas moves_flag = moves_marks(1)

lemma moves_setval: "v \<in> pivars s \<Longrightarrow> moves s (s\<lparr>sval := (sval s)(v := x)\<rparr>)"
  by (auto simp: moves_def bounded_def pivars_def wf_sym_def lookup_def)

text \<open>A new cell; the variable of a new \<open>PI\<close> is newer than \<open>s\<close>.\<close>

lemma moves_new:
  assumes "moves s t" "bounded t" "new_expr nd t = Inr (a, u)" "\<And>v d q. nd = CExpr PI [v, d, q] \<Longrightarrow> brk s \<le> v \<and> v < brk t"
  shows "moves s u"
proof -
  have u: "brk u = Suc (brk t)" "bounded u" "symbols u = symbols t" "\<And>b. b < brk t \<Longrightarrow> node u b = node t b \<and> sval u b = sval t b"
    using assms(2,3) by (auto simp: new_expr_def Let_def bounded_def less_Suc_eq split: if_splits)
  have p: "pivars u \<subseteq> pivars t \<union> {v. \<exists>d q. nd = CExpr PI [v, d, q]}"
    using assms(3) by (auto simp: pivars_def new_expr_def Let_def split: if_splits)
  have "pivars u \<inter> {..<brk s} \<subseteq> pivars s" "pivars s \<subseteq> {..<brk s} \<Longrightarrow> pivars u \<subseteq> {..<brk u}"
    using p assms(4) u(1) moves_old [OF assms(1)] moves_pivars [OF assms(1)] by (fastforce, force)
  moreover have "lookup u = lookup t" "wf_sym u = wf_sym t" using u(3) by (simp_all add: lookup_def wf_sym_def fun_eq_iff)
  moreover have "brk s \<le> brk t" "\<forall>b < brk s. node t b = node s b \<and> (b \<in> pivars s \<or> sval t b = sval s b)"
    "wf_sym s \<longrightarrow> wf_sym t \<and> lookup t = lookup s"
    using assms(1) unfolding moves_def by blast+
  ultimately show ?thesis unfolding moves_def u(1) using u(2,4) by auto
qed

lemma base_type_node: "base_type s b \<Longrightarrow> \<exists>nd. node s b = Some nd \<and> op_of nd \<noteq> PI \<and> op_of nd \<noteq> RUN"
  by (auto simp: base_type_def)

lemma moves_base: "moves s s' \<Longrightarrow> bounded s \<Longrightarrow> base_type s b \<Longrightarrow> base_type s' b"
proof -
  assume m: "moves s s'" "bounded s" and b: "base_type s b"
  from base_type_node [OF b] m(2) have "b < brk s" by (auto simp: bounded_def)
  then have "node s' b = node s b" "b \<notin> pivars s \<Longrightarrow> sval s' b = sval s b \<and> b \<notin> pivars s'"
    using m(1) by (auto simp: moves_def)
  with b show ?thesis by (auto simp: base_type_def)
qed

lemma telescope_grows:
  assumes "\<And>a nd. node s a = Some nd \<Longrightarrow> node s' a = Some nd"
  shows "telescope s p ds r \<Longrightarrow> telescope s' p ds r"
  by (induction rule: telescope.induct) (auto intro: telescope.intros assms)

lemma moves_simple: "moves s s' \<Longrightarrow> bounded s \<Longrightarrow> simple_type s p ds r \<Longrightarrow> simple_type s' p ds r"
  unfolding simple_type_def using moves_base [of s s'] telescope_grows [of s s' p ds r] moves_node [of s s'] by blast

text \<open>The term at a cell that the checker built: the leaves are numerals and constants.\<close>

inductive means :: "st \<Rightarrow> addr \<Rightarrow> fterm \<Rightarrow> bool" for s where
  means_int: "node s a = Some (IntExpr i) \<Longrightarrow> means s a (FInt i)"
| means_leaf: "base_type s a \<Longrightarrow> means s a (FSym a)"
| means_app: "node s a = Some (CExpr APP ks) \<Longrightarrow> ks \<noteq> [] \<Longrightarrow> list_all2 (means s) ks ts \<Longrightarrow> means s a (FApp ts)"
monos list_all2_mono

lemma means_moves:
  assumes "moves s s'" "bounded s"
  shows "means s a t \<Longrightarrow> means s' a t"
proof (induction rule: means.induct)
  case (means_app a ks ts)
  have "list_all2 (means s') ks ts" by (rule list_all2_mono [OF means_app.IH]) blast
  with moves_node [OF assms means_app.hyps(1)] means_app.hyps(2) show ?case by (rule means.means_app)
qed (auto dest: moves_node [OF assms] moves_base [OF assms] intro: means.intros)

lemma means_alloc: "means s a t \<Longrightarrow> node s a \<noteq> None"
  by (cases rule: means.cases) (auto simp: base_type_def)

lemma means_end: "means s a t \<Longrightarrow> followDefs (Suc n) a s = Inr (a, s)"
  by (cases rule: means.cases) (auto simp: base_type_def run_simps)

section \<open>Base types\<close>

lemma defeq_base:
  assumes "base_type s e" "base_type s r"
  shows "defeq (Suc n) e r s = Inr (e = r, s)"
proof (cases "e = r")
  case False
  with assms show ?thesis
    by (auto simp: base_type_def run_simps defeq_left_def defeq_right_def defeq_same_def)
qed simp

lemma defeq_base_pi:
  assumes "base_type s e" "node s p = Some (CExpr PI ks)"
  shows "defeq (Suc n) e p s = Inr (False, s)"
proof -
  have "e \<noteq> p" using assms by (auto simp: base_type_def)
  with assms show ?thesis
    by (auto simp: base_type_def run_simps defeq_left_def defeq_right_def defeq_same_def)
qed

lemma defeq_simple:
  assumes "base_type s e" "simple_type s p ds r"
  shows "defeq (Suc n) e p s = Inr (ds = [] \<and> e = r, s)"
  using assms defeq_base [OF assms(1), of r] defeq_base_pi [OF assms(1), of p]
  by (cases ds) (auto simp: simple_type_def telescope_simps)

lemma simple_type_node: "simple_type s p ds r \<Longrightarrow> \<exists>pn. node s p = Some pn \<and> (op_of pn = PI \<longleftrightarrow> ds \<noteq> [])"
  using base_type_node [of s p] by (cases ds) (auto simp: simple_type_def telescope_simps)

lemma followDefs_simple: "simple_type s p ds r \<Longrightarrow> followDefs (Suc n) p s = Inr (p, s)"
  by (cases ds) (auto simp: simple_type_def telescope_simps base_type_def run_simps)

text \<open>Cloning a simple type gives a new telescope with the same base types.\<close>

lemma clone_base:
  assumes "base_type s r"
  shows "clone (Suc n) r s = Inr (r, s\<lparr>refs := (refs s)(r := ref_inc (refs s r))\<rparr>)"
  using assms by (auto simp: base_type_def run_simps clone_default_def)

text \<open>The copy of a \<open>PI\<close> cell \<open>p\<close>: the body \<open>k\<close> has been copied, and the copy keeps the flag of \<open>p\<close>.\<close>

lemma copied_pi:
  assumes s: "bounded s" "moves s t" and w: "brk s \<le> w" "node t w = Some (SymSExpr x)"
    and k: "telescope t k ds r" "\<forall>b \<in> set (r # d # ds). base_type s b" and a: "new_expr (CExpr PI [w, d, k]) t = Inr (a, u)"
  shows "moves s (if b then u\<lparr>flag := (flag u)(a := True)\<rparr> else u) \<and>
    simple_type (if b then u\<lparr>flag := (flag u)(a := True)\<rparr> else u) a (d # ds) r"
proof -
  let ?u = "if b then u\<lparr>flag := (flag u)(a := True)\<rparr> else u"
  have bt: "bounded t" by (rule moves_bounded [OF s(2,1)])
  have "w < brk t" using w(2) bt by (auto simp: bounded_def)
  then have mu: "moves s u" using moves_new [OF s(2) bt a] w(1) by auto
  have u: "node u a = Some (CExpr PI [w, d, k])" "node u w = Some (SymSExpr x)" using a w(2) bt by (auto simp: new_expr_def Let_def bounded_def)
  have "telescope u k ds r" by (rule telescope_grows [of t]) (use k(1) a bt in \<open>auto simp: new_expr_def Let_def bounded_def\<close>)
  then have "telescope u a (d # ds) r" by (rule tele_Cons [OF u])
  then have "telescope ?u a (d # ds) r" by (rule telescope_grows [of u, rotated]) simp
  moreover have "moves s ?u" using mv.rel_trans [OF mu moves_flag] mu by simp
  ultimately show ?thesis using moves_base [OF _ s(1)] k(2) unfolding simple_type_def by blast
qed

lemma clone_simple:
  "bounded s \<Longrightarrow> simple_type s p ds r \<Longrightarrow>
   \<exists>k s'. returns (\<lambda>n. clone n p) s (k, s') \<and> moves s s' \<and> simple_type s' k ds r"
proof (induction ds arbitrary: s p)
  case Nil
  then have p: "p = r" "base_type s r" by (auto simp: simple_type_def telescope_simps)
  have "returns (\<lambda>n. clone n p) s (r, s\<lparr>refs := (refs s)(r := ref_inc (refs s r))\<rparr>)"
    unfolding p(1) by (rule returns_Suc, rule returns_all) (rule clone_base [OF p(2)])
  then show ?case using Nil p moves_inc moves_simple by blast
next
  case (Cons d ds)
  then obtain v q x where v: "node s p = Some (CExpr PI [v, d, q])" "node s v = Some (SymSExpr x)"
    and q: "simple_type s q ds r" and bs: "\<forall>b \<in> set (r # d # ds). base_type s b"
    by (auto simp: simple_type_def telescope_simps)
  then have d: "base_type s d" by simp
  obtain w s1 where w: "new_expr (SymSExpr x) s = Inr (w, s1)" by (simp add: new_expr_def Let_def)
  then have w1: "w = brk s" "node s1 w = Some (SymSExpr x)" by (auto simp: new_expr_def Let_def)
  have m1: "moves s s1" by (rule moves_new [OF mv.rel_refl Cons.prems(1) w]) simp
  define s2 where "s2 = s1\<lparr>refs := (refs s1)(d := ref_inc (refs s1 d))\<rparr>"
  define s3 where "s3 = s2\<lparr>sval := (sval s2)(v := Some w)\<rparr>"
  have m2: "moves s s2" unfolding s2_def by (rule mv.rel_trans [OF m1 moves_inc])
  have n2: "node s2 p = Some (CExpr PI [v, d, q])" "node s2 v = Some (SymSExpr x)" "node s2 w = Some (SymSExpr x)"
    using moves_node [OF m2 Cons.prems(1)] v w1 by (auto simp: s2_def)
  then have m3: "moves s s3" unfolding s3_def by (intro mv.rel_trans [OF m2 moves_setval]) (auto simp: pivars_def)
  have b3: "bounded s3" by (rule moves_bounded [OF m3 Cons.prems(1)])
  from Cons.IH [OF b3 moves_simple [OF m3 Cons.prems(1) q]] obtain k s4 where
    k: "returns (\<lambda>n. clone n q) s3 (k, s4)" "moves s3 s4" "simple_type s4 k ds r" by blast
  define s5 where "s5 = s4\<lparr>sval := (sval s4)(v := sval s2 v)\<rparr>"
  have n4: "node s4 p = Some (CExpr PI [v, d, q])" "node s4 v = Some (SymSExpr x)" "node s4 w = Some (SymSExpr x)"
    using moves_node [OF k(2) b3] n2 by (auto simp: s3_def)
  then have m45: "moves s4 s5" unfolding s5_def by (intro moves_setval) (auto simp: pivars_def)
  have m5: "moves s s5" by (rule mv.rel_trans [OF mv.rel_trans [OF m3 k(2)] m45])
  have k5: "telescope s5 k ds r" by (rule telescope_grows [of s4]) (use k(3) in \<open>auto simp: simple_type_def s5_def\<close>)
  obtain a s6 where a: "new_expr (CExpr PI [w, d, k]) s5 = Inr (a, s6)" by (simp add: new_expr_def Let_def)
  define s7 where "s7 = (if flag s6 p then s6\<lparr>flag := (flag s6)(a := True)\<rparr> else s6)"
  have "moves s s7 \<and> simple_type s7 a (d # ds) r"
    unfolding s7_def by (rule copied_pi [OF Cons.prems(1) m5 _ _ k5 bs a, of x]) (use w1(1) n4(3) in \<open>simp_all add: s5_def\<close>)
  moreover have "returns (\<lambda>n. clone n p) s (a, s7)"
  proof (rule returns_Suc, rule returns_elim2 [OF _ k(1)])
    show "returns (\<lambda>n. clone n d) s1 (d, s2)"
      unfolding s2_def by (rule returns_Suc, rule returns_all) (rule clone_base [OF moves_base [OF m1 Cons.prems(1) d]])
    fix n assume c: "clone n d s1 = Inr (d, s2)" "clone n q s3 = Inr (k, s4)"
    have "node s1 p = Some (CExpr PI [v, d, q])" "node s3 p = Some (CExpr PI [v, d, q])" "node s6 p = Some (CExpr PI [v, d, q])"
      "node s6 a = Some (CExpr PI [w, d, k])"
      using n2 n4 a moves_bounded [OF m5 Cons.prems(1)] by (auto simp: s2_def s3_def s5_def new_expr_def Let_def bounded_def)
    moreover have "setval v (Some w) s2 = Inr ((), s3)" "setval v (sval s2 v) s4 = Inr ((), s5)"
      using n2 n4 by (simp_all add: run_simps s3_def s5_def)
    ultimately show "clone (Suc n) p s = Inr (a, s7)"
      using v n2(1,2) c w a
      by (simp add: bnd_run sq_run getnode_run getkid_run getval_run getflag_run setflag_run clone_pi_def copy_sym_def s7_def)
  qed
  ultimately show ?case by blast
qed

end
