(* ===== verification/LFSC_Typing.thy ===== *)
theory LFSC_Typing
  imports LFSC_Simple
begin

text \<open>
  What the checker decides.  On the first-order part of the language, applications of declared constants and numerals, \<open>check\<close> returns
  exactly when the term has a type by the typing rule \<open>infer\<close>, the expected one if there is one, and
  reports an error otherwise.  This covers all modes of the call: with an expected type or computing it, building the term or
  not, and in the last case with the tail call for the last argument, which leaves closing parentheses to the callers.
\<close>

section \<open>The state in front of a term\<close>

text \<open>The fields of the state that checking a term changes.\<close>

definition upd :: "cs \<Rightarrow> st \<Rightarrow> int \<Rightarrow> lex \<Rightarrow> cs" where
  "upd c h o1 l = c\<lparr>heap := h, open_parens := o1, lx := l\<rparr>"

lemma upd_sel [simp]:
  "heap (upd c h o1 l) = h" "open_parens (upd c h o1 l) = o1" "lx (upd c h o1 l) = l" "tail_calls (upd c h o1 l) = tail_calls c"
  "ascHoles (upd c h o1 l) = ascHoles c" "local_sym_names (upd c h o1 l) = local_sym_names c" "out (upd c h o1 l) = out c"
  "big_check (upd c h o1 l) = big_check c"
  by (simp_all add: upd_def)

lemma upd_upd [simp]: "upd (upd c h o1 l) h' o2 l' = upd c h' o2 l'" "upd c (heap c) (open_parens c) (lx c) = c"
  by (simp_all add: upd_def)

lemma upd_fold:
  "c\<lparr>heap := h\<rparr> = upd c h (open_parens c) (lx c)"
  "c\<lparr>open_parens := o1\<rparr> = upd c (heap c) o1 (lx c)"
  "c\<lparr>lx := l\<rparr> = upd c (heap c) (open_parens c) l"
  by (simp_all add: upd_def)

lemmas step_simps = bnd_run sq_run onheap_run onlex_run upd_fold

text \<open>Nothing is pushed back, or exactly the first token.\<close>

definition at_text :: "string \<Rightarrow> (token \<times> string) list \<Rightarrow> lex" where
  "at_text x ts = \<lparr>s_peeked0 = TokenErr, s_peeked1 = TokenErr, scanned = ts, yytext = x\<rparr>"

definition peeked :: "token \<Rightarrow> string \<Rightarrow> (token \<times> string) list \<Rightarrow> lex" where
  "peeked t x ts = \<lparr>s_peeked0 = t, s_peeked1 = TokenErr, scanned = ts, yytext = x\<rparr>"

definition sees :: "lex \<Rightarrow> (token \<times> string) list \<Rightarrow> bool" where
  "sees l ts \<longleftrightarrow> (\<exists>x. l = at_text x ts) \<or> (\<exists>t x ts'. ts = (t, x) # ts' \<and> l = peeked t x ts')"

definition plain_tok :: "token \<Rightarrow> bool" where
  "plain_tok t \<longleftrightarrow> t \<in> {TNatural, TIdent, TType, TMpz, TMpq, TOpen, TClose}"

text \<open>The token of a name: the names of the predefined types are reserved words.\<close>

definition name_tok :: "string \<Rightarrow> token" where
  "name_tok x = (if x = ''type'' then TType else if x = ''mpz'' then TMpz else if x = ''mpq'' then TMpq else TIdent)"

lemma name_tok_simps [simp]:
  "plain_tok TNatural" "plain_tok TOpen" "plain_tok TClose" "plain_tok (name_tok x)" "name_tok x \<noteq> TOpen" "name_tok x \<noteq> TClose" "check_start rec f a (name_tok x) = check_symbol f a"
  "check_form rec f a (name_tok x) = check_app rec f a (name_tok x)"
  by (simp_all add: name_tok_def plain_tok_def check_start_def check_form_def)

lemma next_sees: "sees l ((t, x) # ts) \<Longrightarrow> plain_tok t \<Longrightarrow> next_token l = Inr (t, at_text x ts)"
  by (auto simp: sees_def plain_tok_def at_text_def peeked_def next_token_run desugar_def)

lemma next_at: "plain_tok t \<Longrightarrow> next_token (at_text y ((t, x) # ts)) = Inr (t, at_text x ts)"
  by (rule next_sees) (auto simp: sees_def)

lemma reinsert_at: "reinsert_token t (at_text x ts) = Inr ((), peeked t x ts)"
  by (simp add: at_text_def peeked_def reinsert_token_def)

lemma sees_peeked: "sees (peeked t x ts) ((t, x) # ts)"
  by (simp add: sees_def)

lemma sees_at: "sees (at_text x ts) ts"
  by (auto simp: sees_def)

lemma token_str_at: "token_str (at_text x ts) = Inr (x, at_text x ts)"
  by (simp add: token_str_def at_text_def)

section \<open>Closing parentheses\<close>

text \<open>A tail call leaves the closing parentheses of the calls around it to its caller.\<close>

abbreviation rparens :: "nat \<Rightarrow> (token \<times> string) list" where
  "rparens k \<equiv> replicate k (TClose, '')'')"

lemma eat_rparen_at:
  "lx c = at_text x ((t, y) # ts) \<Longrightarrow> plain_tok t \<Longrightarrow>
   if t = TClose then eat_rparen c = Inr ((), upd c (heap c) (open_parens c - 1) (at_text y ts))
   else \<exists>msg. eat_rparen c = Inl (ReportError msg)"
  by (auto simp: eat_rparen_def eat_token_def unexpected_token_error_def next_at step_simps)

lemma repeat_closes:
  "lx c = at_text x (rparens k @ rest) \<Longrightarrow>
   \<exists>y. repeat_M k eat_rparen c = Inr ((), upd c (heap c) (open_parens c - int k) (at_text y rest))"
proof (induction k arbitrary: c x)
  case 0
  then have "c = upd c (heap c) (open_parens c - int 0) (at_text x rest)" using upd_upd(2) [of c] by simp
  then show ?case by auto
next
  case (Suc k)
  have "eat_rparen c = Inr ((), upd c (heap c) (open_parens c - 1) (at_text '')'' (rparens k @ rest)))"
    using eat_rparen_at [of c x TClose] Suc.prems by simp
  moreover obtain y where "repeat_M k eat_rparen (upd c (heap c) (open_parens c - 1) (at_text '')'' (rparens k @ rest))) =
      Inr ((), upd c (heap c) (open_parens c - 1 - int k) (at_text y rest))"
    using Suc.IH [of "upd c (heap c) (open_parens c - 1) (at_text '')'' (rparens k @ rest))" "'')''"] by auto
  ultimately show ?case by (auto simp: sq_run algebra_simps)
qed

lemma eat_excess_closes:
  assumes "lx c = at_text x (rparens k @ rest)" "open_parens c = prev + int k"
  shows "\<exists>y. eat_excess prev c = Inr ((), upd c (heap c) prev (at_text y rest))"
  using repeat_closes [OF assms(1)] assms(2) by (auto simp: eat_excess_def bnd_run)

lemma repeat_add: "repeat_M (i + j) m c = sq (repeat_M i m) (repeat_M j m) c"
  by (induction i arbitrary: c) (auto simp: sq_run split: sum.split)

lemma eat_excess_mono:
  assumes "eat_excess p c = Inl (ReportError msg)" "p' \<le> p"
  shows "eat_excess p' c = Inl (ReportError msg)"
proof (cases "p \<le> open_parens c")
  case True
  then obtain j where "nat (open_parens c - p') = nat (open_parens c - p) + j"
    using assms(2) by (metis le_Suc_ex nat_mono diff_left_mono)
  then show ?thesis using assms(1) by (simp add: eat_excess_def bnd_run repeat_add sq_run)
qed (use assms in \<open>simp add: eat_excess_def bnd_run\<close>)

lemma eat_excess_stuck:
  assumes "lx c = at_text x (rparens k @ (t, y) # ts)" "plain_tok t" "t \<noteq> TClose" "open_parens c = prev + int (Suc k)"
  shows "\<exists>msg. eat_excess prev c = Inl (ReportError msg)"
proof -
  from repeat_closes [OF assms(1)] obtain z where
    "repeat_M k eat_rparen c = Inr ((), upd c (heap c) (open_parens c - int k) (at_text z ((t, y) # ts)))" by blast
  moreover obtain msg where "eat_rparen (upd c (heap c) (open_parens c - int k) (at_text z ((t, y) # ts))) = Inl (ReportError msg)"
    using eat_rparen_at [of "upd c (heap c) (open_parens c - int k) (at_text z ((t, y) # ts))" z t] assms(2,3) by auto
  moreover have "nat (open_parens c - prev) = k + 1" using assms(4) by simp
  then have "eat_excess prev c = sq (repeat_M k eat_rparen) (repeat_M 1 eat_rparen) c"
    unfolding eat_excess_def by (simp only: bnd_run gets_run sum.case prod.case repeat_add)
  ultimately show ?thesis by (simp add: sq_run)
qed

lemma eat_excess_none: "open_parens c = prev \<Longrightarrow> eat_excess prev c = Inr ((), c)"
  by (simp add: eat_excess_def run_simps)

section \<open>Terms and their types\<close>

datatype tm = Num nat | Tm string "tm list"

type_synonym signature = "string \<Rightarrow> (addr \<times> addr list \<times> addr) option"

fun tm_toks :: "tm \<Rightarrow> (token \<times> string) list" where
  "tm_toks (Num n) = [(TNatural, mpz_get_str n)]"
| "tm_toks (Tm x ts) =
     (if ts = [] then [(name_tok x, x)]
      else (TOpen, ''('') # (name_tok x, x) # concat (map tm_toks ts) @ [(TClose, '')'')])"

text \<open>
  The type of a term: the base types of the arguments that are still missing, and the base type of the result.  Every argument has
  all its own arguments and the type of the domain.
\<close>

fun infer :: "signature \<Rightarrow> tm \<Rightarrow> (addr list \<times> addr) option" where
  "infer \<Sigma> (Num n) = Some ([], statMpz)"
| "infer \<Sigma> (Tm x ts) =
     (case \<Sigma> x of
        None \<Rightarrow> None
      | Some (a, ds, r) \<Rightarrow>
          if length ts \<le> length ds \<and> map (infer \<Sigma>) ts = map (\<lambda>d. Some ([], d)) (take (length ts) ds)
          then Some (drop (length ts) ds, r) else None)"

fun tm_den :: "signature \<Rightarrow> tm \<Rightarrow> fterm" where
  "tm_den \<Sigma> (Num n) = FInt (int n)"
| "tm_den \<Sigma> (Tm x ts) =
     (let f = FSym (fst (the (\<Sigma> x))) in if ts = [] then f else FApp (f # map (tm_den \<Sigma>) ts))"

fun tm_names :: "tm \<Rightarrow> string set" where
  "tm_names (Num n) = {}"
| "tm_names (Tm x ts) = insert x (\<Union>t \<in> set ts. tm_names t)"

text \<open>The symbol table declares the name as the signature says.\<close>

definition fits :: "st \<Rightarrow> signature \<Rightarrow> string \<Rightarrow> bool" where
  "fits s \<Sigma> x \<longleftrightarrow>
     (case \<Sigma> x of
        None \<Rightarrow> fst (lookup s x) = None
      | Some (a, ds, r) \<Rightarrow>
          \<exists>p. lookup s x = (Some a, Some p) \<and> base_type s a \<and> simple_type s p ds r \<and>
            (ds \<noteq> [] \<longrightarrow> (\<exists>y. node s a = Some (SymSExpr y))))"

lemma moves_fits: "moves s s' \<Longrightarrow> bounded s \<Longrightarrow> wf_sym s \<Longrightarrow> fits s \<Sigma> x \<Longrightarrow> fits s' \<Sigma> x"
  using moves_symbols [of s s'] moves_node [of s s'] moves_simple [of s s'] moves_base [of s s']
  by (fastforce simp: fits_def split: option.splits)

lemma fits_cases:
  assumes "fits s \<Sigma> x"
  obtains (undeclared) q where "\<Sigma> x = None" "get_trie (None, None) x (symbols s) = (None, q)"
  | (declared) b ds r p bn pn where "\<Sigma> x = Some (b, ds, r)" "get_trie (None, None) x (symbols s) = (Some b, Some p)"
      "node s b = Some bn" "base_type s b" "simple_type s p ds r" "node s p = Some pn"
      "ds \<noteq> [] \<Longrightarrow> \<exists>y. bn = SymSExpr y"
proof (cases "\<Sigma> x")
  case None
  then show ?thesis
    using assms undeclared by (cases "get_trie (None, None) x (symbols s)") (simp add: fits_def lookup_def)
next
  case (Some adr)
  then obtain b ds r where S: "\<Sigma> x = Some (b, ds, r)" by (cases adr) auto
  with assms obtain p where p: "get_trie (None, None) x (symbols s) = (Some b, Some p)"
    "base_type s b" "simple_type s p ds r" "ds \<noteq> [] \<Longrightarrow> \<exists>y. node s b = Some (SymSExpr y)"
    by (auto simp: fits_def lookup_def)
  moreover obtain pn bn where "node s p = Some pn" "node s b = Some bn"
    using simple_type_node [OF p(3)] base_type_node [OF p(2)] by blast
  ultimately show ?thesis using declared [OF S p(1)] by force
qed

text \<open>What is asked of a term: that it has the base type \<open>e\<close>, or its type.\<close>

definition asks :: "st \<Rightarrow> cargs \<Rightarrow> bool" where
  "asks s a \<longleftrightarrow> (case expected a of Some e \<Rightarrow> base_type s e | None \<Rightarrow> computed a \<and> base_type s statMpz)"

definition meets_type :: "cargs \<Rightarrow> (addr list \<times> addr) option \<Rightarrow> bool" where
  "meets_type a ty \<longleftrightarrow> (case expected a of Some e \<Rightarrow> ty = Some ([], e) | None \<Rightarrow> ty \<noteq> None)"

lemma moves_asks: "moves s s' \<Longrightarrow> bounded s \<Longrightarrow> asks s a \<Longrightarrow> asks s' a"
  by (auto simp: asks_def moves_base split: option.splits)

text \<open>The classifier that is returned.\<close>

definition comp_ok :: "cargs \<Rightarrow> st \<Rightarrow> (addr list \<times> addr) option \<Rightarrow> addr option \<Rightarrow> bool" where
  "comp_ok a s ty cl \<longleftrightarrow>
     (case expected a of Some e \<Rightarrow> cl = None | None \<Rightarrow> \<exists>p. cl = Some p \<and> simple_type s p (fst (the ty)) (snd (the ty)))"

text \<open>
  The outcome of checking \<open>t\<close> in front of the tokens \<open>rest\<close>.  A term that is not built may have left closing parentheses; a term
  that is wrong ends in an error, at the latest when the closing parentheses are read.
\<close>

definition left_over :: "cargs \<Rightarrow> cs \<Rightarrow> int \<Rightarrow> cres \<Rightarrow> cs \<Rightarrow> bool" where
  "left_over a c prev v c' \<longleftrightarrow>
     \<not> create a \<and> (\<exists>cl h o1 l msg. v = (None, cl, False) \<and> c' = upd c h o1 l \<and> moves (heap c) h \<and>
       (expected a = None \<longrightarrow> (\<exists>p pn. cl = Some p \<and> node h p = Some pn)) \<and> eat_excess prev c' = Inl (ReportError msg))"

lemma left_overI:
  assumes "\<not> create a" "moves (heap c) h" "expected a = None \<Longrightarrow> \<exists>p pn. cl = Some p \<and> node h p = Some pn"
    "eat_excess prev (upd c h o1 l) = Inl (ReportError msg)"
  shows "left_over a c prev (None, cl, False) (upd c h o1 l)"
  unfolding left_over_def using assms by (intro conjI exI [of _ cl] exI [of _ h] exI [of _ o1] exI [of _ l] exI [of _ msg]) auto

definition verdict :: "signature \<Rightarrow> cargs \<Rightarrow> tm \<Rightarrow> (token \<times> string) list \<Rightarrow> cs \<Rightarrow> error + cres \<times> cs \<Rightarrow> bool" where
  "verdict \<Sigma> a t rest c R \<longleftrightarrow>
     (if meets_type a (infer \<Sigma> t)
      then \<exists>res cl h x k. R = Inr ((res, cl, False), upd c h (open_parens c + int k) (at_text x (rparens k @ rest))) \<and>
             moves (heap c) h \<and> comp_ok a h (infer \<Sigma> t) cl \<and>
             (if create a then k = 0 \<and> (\<exists>b. res = Some b \<and> means h b (tm_den \<Sigma> t)) else res = None)
      else (\<exists>msg. R = Inl (ReportError msg)) \<or> (\<exists>v c'. R = Inr (v, c') \<and> left_over a c (open_parens c) v c'))"

lemma verdictI:
  assumes "meets_type a (infer \<Sigma> t)" "moves (heap c) h" "comp_ok a h (infer \<Sigma> t) cl"
    "if create a then k = 0 \<and> (\<exists>b. res = Some b \<and> means h b (tm_den \<Sigma> t)) else res = None"
  shows "verdict \<Sigma> a t rest c (Inr ((res, cl, False), upd c h (open_parens c + int k) (at_text x (rparens k @ rest))))"
  unfolding verdict_def if_P [OF assms(1)] using assms(2-4) by blast

lemma verdict_atom:
  assumes "meets_type a (infer \<Sigma> t)" "moves (heap c) h" "comp_ok a h (infer \<Sigma> t) cl"
    "create a \<Longrightarrow> means h b (tm_den \<Sigma> t)"
  shows "verdict \<Sigma> a t rest c (Inr ((if create a then Some b else None, cl, False), upd c h (open_parens c) (at_text x rest)))"
  using verdictI [OF assms(1-3), of 0 "if create a then Some b else None" rest x] assms(4) by simp

lemma verdict_okE:
  assumes "verdict \<Sigma> a t rest c R" "meets_type a (infer \<Sigma> t)"
  obtains res cl h x k where "R = Inr ((res, cl, False), upd c h (open_parens c + int k) (at_text x (rparens k @ rest)))"
    "moves (heap c) h" "comp_ok a h (infer \<Sigma> t) cl" "create a \<Longrightarrow> k = 0 \<and> (\<exists>b. res = Some b \<and> means h b (tm_den \<Sigma> t))"
    "\<not> create a \<Longrightarrow> res = None"
  using assms(1) unfolding verdict_def if_P [OF assms(2)] by (metis (no_types, lifting))

lemma verdict_error: "\<not> meets_type a (infer \<Sigma> t) \<Longrightarrow> verdict \<Sigma> a t rest c (Inl (ReportError msg))"
  by (simp add: verdict_def)

lemma eventually_from_Suc: "(\<And>n. P (Suc n)) \<Longrightarrow> \<forall>\<^sub>F n in sequentially. P n"
  using eventually_sequentially_Suc [of P] by simp

section \<open>Atoms\<close>

text \<open>Checking or returning the type of an atom.\<close>

definition answer :: "nat \<Rightarrow> cargs \<Rightarrow> addr \<Rightarrow> (st, addr option) M" where
  "answer f a p = (case expected a of
     Some e \<Rightarrow> bnd (defeq f e p) (\<lambda>b. if \<not> b then report_error [] else sq (dec e) (ret None))
   | None \<Rightarrow> sq (inc p) (ret (Some p)))"

lemma answer_spec:
  assumes "bounded s" "asks s a" "simple_type s p ds r" "meets_type a (Some (ds, r))"
  shows "\<exists>cl s'. (\<forall>n. answer (Suc n) a p s = Inr (cl, s')) \<and> moves s s' \<and> comp_ok a s' (Some (ds, r)) cl"
proof (cases "expected a")
  case None
  obtain pn where "node s p = Some pn" using simple_type_node [OF assms(3)] by blast
  then have "answer (Suc n) a p s = Inr (Some p, s\<lparr>refs := (refs s)(p := ref_inc (refs s p))\<rparr>)" for n
    using None by (simp add: answer_def run_simps)
  moreover note moves_inc [of s "(refs s)(p := ref_inc (refs s p))"]
  ultimately show ?thesis using moves_simple [OF moves_inc assms(1,3)] None by (auto simp: comp_ok_def)
next
  case (Some e)
  with assms have e: "base_type s e" "ds = []" "e = r" by (auto simp: asks_def meets_type_def)
  obtain en where "node s e = Some en" using base_type_node [OF e(1)] by blast
  then have "answer (Suc n) a p s = Inr (None, dec_st e s)" for n
    using Some e(2,3) defeq_simple [OF e(1) assms(3), of n] by (simp add: answer_def bnd_run sq_run dec_run del: defeq.simps)
  then show ?thesis using moves_dec Some by (auto simp: comp_ok_def)
qed

lemma answer_error:
  assumes "asks s a" "simple_type s p ds r" "\<not> meets_type a (Some (ds, r))"
  obtains e where "expected a = Some e" "\<And>n. defeq (Suc n) e p s = Inr (False, s)"
proof -
  from assms(3) obtain e where e: "expected a = Some e" "\<not> (ds = [] \<and> e = r)"
    by (auto simp: meets_type_def split: option.splits)
  then have "base_type s e" using assms(1) by (simp add: asks_def)
  from defeq_simple [OF this assms(2)] e have "defeq (Suc n) e p s = Inr (False, s)" for n by simp
  with e(1) that show ?thesis by blast
qed

lemma check_number:
  assumes "bounded (heap c)" "asks (heap c) a" "sees (lx c) (tm_toks (Num k) @ rest)"
  shows "\<exists>R. (\<forall>n. check (Suc n) a c = R) \<and> verdict \<Sigma> a (Num k) rest c R"
proof (cases "meets_type a (infer \<Sigma> (Num k))")
  case False
  then obtain e where e: "expected a = Some e" "e \<noteq> statMpz" by (auto simp: meets_type_def split: option.splits)
  have n: "next_token (lx c) = Inr (TNatural, at_text (mpz_get_str k) rest)"
    using next_sees assms(3) by simp
  have "\<exists>msg. \<forall>n. check (Suc n) a c = Inl (ReportError msg)"
    using n e by (simp add: step_simps check_start_def check_literal_def)
  with False show ?thesis by (auto simp: verdict_def)
next
  case True
  have n: "next_token (lx c) = Inr (TNatural, at_text (mpz_get_str k) rest)"
    using next_sees assms(3) by simp
  have z: "base_type (heap c) statMpz" using assms(2) True by (auto simp: asks_def meets_type_def split: option.splits)
  then have "simple_type (heap c) statMpz [] statMpz" by (auto simp: simple_type_def telescope_simps)
  from answer_spec [OF assms(1,2) this] True obtain cl s1 where
    s1: "answer (Suc 0) a statMpz (heap c) = Inr (cl, s1)" "moves (heap c) s1" "comp_ok a s1 (infer \<Sigma> (Num k)) cl" by auto
  obtain zn where zn: "node (heap c) statMpz = Some zn" using base_type_node [OF z] by blast
  let ?c1 = "upd c (heap c) (open_parens c) (at_text (mpz_get_str k) rest)"
  have l: "(case expected a of Some e \<Rightarrow> if e \<noteq> statMpz then report_error msg else sq (onheap (dec e)) (ret None)
      | None \<Rightarrow> sq (onheap (inc statMpz)) (put_computed a statMpz)) ?c1 =
      Inr (cl, upd c s1 (open_parens c) (at_text (mpz_get_str k) rest))" for msg
    using s1(1) True assms(2) zn
    by (auto simp: answer_def meets_type_def asks_def put_computed_def step_simps inc_run dec_run split: option.splits)
  obtain b h where b: "new_expr (IntExpr (int k)) s1 = Inr (b, h)" by (simp add: new_expr_def Let_def)
  have b1: "bounded s1" by (rule moves_bounded [OF s1(2) assms(1)])
  have m: "moves (heap c) h" "moves s1 h" by (rule moves_new [OF s1(2) b1 b] moves_new [OF mv.rel_refl b1 b]; simp)+
  have d: "means h b (FInt (int k))" using b by (intro means_int) (auto simp: new_expr_def Let_def)
  have co: "comp_ok a h (infer \<Sigma> (Num k)) cl"
    using s1(3) moves_simple [OF m(2) b1] by (auto simp: comp_ok_def split: option.splits)
  have "check (Suc j) a c = Inr ((if create a then Some b else None, cl, False),
      upd c (if create a then h else s1) (open_parens c) (at_text (mpz_get_str k) rest))" for j
    using n b l by (simp add: step_simps check_start_def check_literal_def token_str_at mk_int_def mpz_set_get_str)
  then show ?thesis
    using verdict_atom [OF True, of c "if create a then h else s1"] True m(1) s1 d co by auto
qed

lemma check_constant:
  assumes "bounded (heap c)" "asks (heap c) a" "fits (heap c) \<Sigma> x" "sees (lx c) ((name_tok x, x) # rest)"
  shows "\<exists>R. (\<forall>n. check (Suc (Suc n)) a c = R) \<and> verdict \<Sigma> a (Tm x []) rest c R"
proof -
  have n: "next_token (lx c) = Inr (name_tok x, at_text x rest)" using next_sees assms(4) by simp
  from assms(3) show ?thesis
  proof (cases rule: fits_cases)
    case (undeclared q)
    have "check (Suc (Suc k)) a c = Inl (ReportError ''Undeclared identifier'')" for k
      using n undeclared by (simp add: step_simps check_symbol_def token_str_at sym_get_def)
    moreover have "\<not> meets_type a (infer \<Sigma> (Tm x []))" using undeclared by (auto simp: meets_type_def split: option.split)
    ultimately show ?thesis using verdict_error by blast
  next
    case (declared b ds r p bn pn)
    have ty: "infer \<Sigma> (Tm x []) = Some (ds, r)" using declared by simp
    show ?thesis
    proof (cases "meets_type a (infer \<Sigma> (Tm x []))")
      case False
      from answer_error [OF assms(2) declared(5) False [unfolded ty]] obtain e where
        "expected a = Some e" "\<And>n. defeq (Suc n) e p (heap c) = Inr (False, heap c)" by blast
      then have "\<exists>msg. \<forall>k. check (Suc (Suc k)) a c = Inl (ReportError msg)"
        using n declared by (simp add: step_simps check_symbol_def token_str_at sym_get_def del: defeq.simps)
      with False show ?thesis using verdict_error by blast
    next
      case True
      from answer_spec [OF assms(1,2) declared(5) True [unfolded ty]] obtain cl s1 where
        s1: "\<And>n. answer (Suc n) a p (heap c) = Inr (cl, s1)" "moves (heap c) s1" "comp_ok a s1 (Some (ds, r)) cl" by blast
      let ?l = "at_text x rest"
      have l: "(case expected a of Some e \<Rightarrow> bnd (deref (Some p)) (\<lambda>tp. bnd (onheap (defeq (Suc j) e tp)) (\<lambda>b.
            if \<not> b then report_error msg else sq (onheap (dec e)) (ret None)))
          | None \<Rightarrow> if computed a then bnd (deref (Some p)) (\<lambda>tp. sq (onheap (inc tp)) (ret (Some tp))) else ret None)
          (upd c (heap c) (open_parens c) ?l) = Inr (cl, upd c s1 (open_parens c) ?l)" for j msg
        using s1(1) [of j] assms(2)
        by (auto simp: answer_def asks_def step_simps simp del: defeq.simps split: option.splits sum.splits prod.splits if_splits)
      have n1: "node s1 b = Some bn" by (rule moves_node [OF s1(2) assms(1) declared(3)])
      let ?h = "s1\<lparr>refs := (refs s1)(b := ref_inc (refs s1 b))\<rparr>"
      have m: "moves (heap c) ?h" "moves s1 ?h" using mv.rel_trans [OF s1(2) moves_inc] moves_inc by auto
      have d: "means ?h b (tm_den \<Sigma> (Tm x []))" using means_leaf [OF moves_base [OF m(1) assms(1) declared(4)]] declared(1) by simp
      have co: "comp_ok a ?h (Some (ds, r)) cl"
        using s1(3) moves_simple [OF m(2) moves_bounded [OF s1(2) assms(1)]] by (auto simp: comp_ok_def split: option.splits)
      have "check (Suc (Suc k)) a c = Inr ((if create a then Some b else None, cl, False),
          upd c (if create a then ?h else s1) (open_parens c) ?l)" for k
        using n declared(2) n1 l [of k]
        by (simp add: step_simps check_symbol_def token_str_at sym_get_def inc_run del: defeq.simps)
      then show ?thesis
        using verdict_atom [OF True, of c "if create a then ?h else s1" cl b rest x] ty m(1) s1 d co by auto
    qed
  qed
qed

section \<open>Arguments\<close>

text \<open>The head of an application with the arguments it has got so far.\<close>

definition spine :: "st \<Rightarrow> addr \<Rightarrow> fterm list \<Rightarrow> bool" where
  "spine s h fs \<longleftrightarrow>
     (\<exists>nd f. node s h = Some nd \<and> class_of nd \<noteq> CEXPR \<and> fs = [f] \<and> means s h f) \<or>
     (\<exists>ks. node s h = Some (CExpr APP ks) \<and> ks \<noteq> [] \<and> list_all2 (means s) ks fs)"

lemma spine_moves:
  assumes "moves s s'" "bounded s" "spine s h fs"
  shows "spine s' h fs"
proof -
  have "list_all2 (means s') ks fs" if "list_all2 (means s) ks fs" for ks
    by (rule list_all2_mono [OF that]) (rule means_moves [OF assms(1,2)])
  then show ?thesis
    using assms(3) moves_node [OF assms(1,2)] means_moves [OF assms(1,2)] unfolding spine_def by blast
qed

lemma spine_app: "spine s h fs \<Longrightarrow> 2 \<le> length fs \<Longrightarrow> means s h (FApp fs)"
  by (auto simp: spine_def intro: means_app)

lemma spine_head: "means s b f \<Longrightarrow> node s b = Some (SymSExpr y) \<Longrightarrow> spine s b [f]"
  by (auto simp: spine_def)

lemma extend_spine:
  assumes "bounded s" "spine s h fs" "means s b t"
  shows "\<exists>k s'. extend_app h (Some b) s = Inr (k, s') \<and> moves s s' \<and> spine s' k (fs @ [t])"
proof -
  obtain ks nd where ks: "list_all2 (means s) ks fs" "ks \<noteq> []" "node s h = Some nd"
    "class_of nd \<noteq> CEXPR \<and> ks = [h] \<or> nd = CExpr APP ks"
    using assms(2) by (auto simp: spine_def)
  obtain r where r: "iter_M inc ks s = Inr ((), s\<lparr>refs := r\<rparr>)"
    using iter_inc_spec [of ks s] ks(1) by (metis means_alloc in_set_conv_nth list_all2_lengthD list_all2_nthD option.distinct(1))
  define s1 where "s1 = (if class_of nd = CEXPR then s\<lparr>refs := r\<rparr> else s)"
  have m1: "moves s s1" by (auto simp: s1_def moves_inc mv.rel_refl)
  obtain k s2 where k: "new_expr (CExpr APP (ks @ [b])) s1 = Inr (k, s2)" by (simp add: new_expr_def Let_def)
  have b1: "bounded s1" by (rule moves_bounded [OF m1 assms(1)])
  have m2: "moves s s2" by (rule moves_new [OF m1 b1 k]) simp
  have k2: "node s2 k = Some (CExpr APP (ks @ [b]))" using k by (auto simp: new_expr_def Let_def)
  define s3 where "s3 = (if class_of nd = CEXPR then dec_st h s2 else s2)"
  have m3: "moves s2 s3" by (auto simp: s3_def moves_dec mv.rel_refl)
  have "list_all2 (means s2) (ks @ [b]) (fs @ [t])"
    using list_all2_mono [OF ks(1), of "means s2"] means_moves [OF m2 assms(1)] assms(3)
    by (auto intro!: list_all2_appendI)
  with k2 have "spine s2 k (fs @ [t])" by (auto simp: spine_def)
  then have "spine s3 k (fs @ [t])" by (rule spine_moves [OF m3 moves_bounded [OF m2 assms(1)]])
  moreover have "extend_app h (Some b) s = Inr (k, s3)"
    using ks(3,4) moves_node [OF m2 assms(1) ks(3)] r k
    by (elim disjE conjE) (auto simp: run_simps extend_app_def make_app_def s1_def s3_def simp del: iter_M.simps)
  ultimately show ?thesis using mv.rel_trans [OF m2 m3] by blast
qed

text \<open>What is kept of a checked argument: the extended head term, and the value of the variable.\<close>

definition head_ok :: "cargs \<Rightarrow> st \<Rightarrow> addr option \<Rightarrow> fterm list \<Rightarrow> bool" where
  "head_ok a s ht fs \<longleftrightarrow> (create a \<longrightarrow> (\<exists>h. ht = Some h \<and> spine s h fs))"

lemma head_ok_moves: "moves s s' \<Longrightarrow> bounded s \<Longrightarrow> head_ok a s ht fs \<Longrightarrow> head_ok a s' ht fs"
  using spine_moves by (auto simp: head_ok_def)

definition bind_pivar :: "nat \<Rightarrow> bool \<Rightarrow> addr \<Rightarrow> addr option \<Rightarrow> (st, unit) M" where
  "bind_pivar f vr v arg =
     (if vr then bnd (deref arg) (\<lambda>x. bnd (followDefs f x) (\<lambda>tmp. sq (inc tmp) (setval v (Some tmp)))) else ret ())"

lemma bind_pivar_spec:
  assumes "bounded s" "v \<in> pivars s" "node s v = Some (SymSExpr y)" "vr \<Longrightarrow> \<exists>b. arg = Some b \<and> means s b t"
  shows "\<exists>s'. returns (\<lambda>n. bind_pivar n vr v arg) s ((), s') \<and> moves s s'"
proof (cases vr)
  case False
  then show ?thesis using mv.rel_refl by (intro exI [of _ s]) (auto simp: bind_pivar_def intro: returns_all)
next
  case True
  with assms(4) obtain b where b: "arg = Some b" "means s b t" by blast
  have w: "returns (\<lambda>n. followDefs n b) s (b, s)" by (rule returns_Suc, rule returns_all) (rule means_end [OF b(2)])
  obtain wn where wn: "node s b = Some wn" using means_alloc [OF b(2)] by blast
  let ?s1 = "s\<lparr>refs := (refs s)(b := ref_inc (refs s b))\<rparr>"
  have "v \<in> pivars ?s1" using assms(2) by (simp add: pivars_def)
  then have "moves s (?s1\<lparr>sval := (sval ?s1)(v := Some b)\<rparr>)" by (rule mv.rel_trans [OF moves_inc moves_setval])
  moreover have "returns (\<lambda>n. bind_pivar n vr v arg) s ((), ?s1\<lparr>sval := (sval ?s1)(v := Some b)\<rparr>)"
    by (rule returns_elim1 [OF w]) (use True b(1) wn assms(3) in \<open>simp add: bind_pivar_def bnd_run sq_run inc_run setval_run\<close>)
  ultimately show ?thesis by blast
qed

definition extend_head :: "cargs \<Rightarrow> addr option \<Rightarrow> addr option \<Rightarrow> (st, addr option) M" where
  "extend_head a ht arg =
     (if create a then bnd (deref ht) (\<lambda>h. bnd (extend_app h arg) (\<lambda>r. ret (Some r))) else ret ht)"

lemma extend_head_spec:
  assumes "bounded s" "head_ok a s ht fs" "create a \<Longrightarrow> \<exists>b. arg = Some b \<and> means s b t"
  shows "\<exists>ht' s'. extend_head a ht arg s = Inr (ht', s') \<and> moves s s' \<and> head_ok a s' ht' (fs @ [t])"
proof (cases "create a")
  case True
  with assms(2,3) obtain h b where "ht = Some h" "spine s h fs" "arg = Some b" "means s b t" by (auto simp: head_ok_def)
  with extend_spine [OF assms(1), of h fs b t] True show ?thesis
    by (fastforce simp: extend_head_def head_ok_def bnd_run)
qed (auto simp: extend_head_def head_ok_def mv.rel_refl)

text \<open>An argument that was checked.\<close>

lemma app_arg_eq:
  assumes "rec ((ask (create a \<or> vr) (Some d))\<lparr>is_hole := True\<rparr>) c0 = Inr ((arg, cl, False), c1)" "eat_excess prev c1 = Inr ((), c2)"
    and "extend_head a ht arg (heap c2) = Inr (ht', s3)" "bind_pivar n vr v arg s3 = Inr ((), s4)"
  shows "app_arg rec n a prev vr v d ht [] c0 = Inr ((ht', []), upd c2 s4 (open_parens c2) (lx c2))"
proof -
  have e: "(if create a then bnd (deref ht) (\<lambda>h. bnd (onheap (extend_app h arg)) (\<lambda>r. ret (Some r))) else ret ht) =
      onheap (extend_head a ht arg)" for arg
    by (rule ext) (auto simp: extend_head_def step_simps deref_def split: option.split sum.split prod.split)
  have b: "(if vr then bnd (deref arg) (\<lambda>x. onheap (bnd (followDefs n x) (\<lambda>tmp. sq (inc tmp) (setval v (Some tmp))))) else ret ()) =
      onheap (bind_pivar n vr v arg)" for arg
    by (rule ext) (auto simp: bind_pivar_def step_simps deref_def split: option.split sum.split prod.split)
  show ?thesis
    unfolding app_arg_def e b using assms by (simp add: step_simps)
qed

text \<open>The state is set up for terms over the names \<open>X\<close>.\<close>

definition prepared :: "signature \<Rightarrow> string set \<Rightarrow> st \<Rightarrow> bool" where
  "prepared \<Sigma> X s \<longleftrightarrow> bounded s \<and> wf_sym s \<and> base_type s statMpz \<and> (\<forall>x \<in> X. fits s \<Sigma> x)"

lemma prepared_moves: "moves s s' \<Longrightarrow> prepared \<Sigma> X s \<Longrightarrow> prepared \<Sigma> X s'"
  using moves_bounded moves_base moves_fits moves_symbols by (auto simp: prepared_def)

lemma prepared_mono: "prepared \<Sigma> X s \<Longrightarrow> Y \<subseteq> X \<Longrightarrow> prepared \<Sigma> Y s"
  by (auto simp: prepared_def)

lemma prepared_bounded: "prepared \<Sigma> X s \<Longrightarrow> bounded s"
  by (simp add: prepared_def)

definition checks_right :: "signature \<Rightarrow> tm \<Rightarrow> bool" where
  "checks_right \<Sigma> t \<longleftrightarrow> (\<forall>a c rest. prepared \<Sigma> (tm_names t) (heap c) \<longrightarrow> asks (heap c) a \<longrightarrow> sees (lx c) (tm_toks t @ rest) \<longrightarrow>
     (\<exists>R. (\<forall>\<^sub>F n in sequentially. check n a c = R) \<and> verdict \<Sigma> a t rest c R))"

lemma checks_rightD:
  "checks_right \<Sigma> t \<Longrightarrow> prepared \<Sigma> (tm_names t) (heap c) \<Longrightarrow> asks (heap c) a \<Longrightarrow> sees (lx c) (tm_toks t @ rest) \<Longrightarrow>
   \<exists>R. (\<forall>\<^sub>F n in sequentially. check n a c = R) \<and> verdict \<Sigma> a t rest c R"
  unfolding checks_right_def by blast

text \<open>The arguments have the types of the domains, one after the other.\<close>

fun accepts :: "signature \<Rightarrow> tm list \<Rightarrow> addr list \<Rightarrow> bool" where
  "accepts \<Sigma> [] ds = True"
| "accepts \<Sigma> (t # ts) [] = False"
| "accepts \<Sigma> (t # ts) (d # ds) = (infer \<Sigma> t = Some ([], d) \<and> accepts \<Sigma> ts ds)"

lemma accepts_iff:
  "accepts \<Sigma> ts ds \<longleftrightarrow> length ts \<le> length ds \<and> map (infer \<Sigma>) ts = map (\<lambda>d. Some ([], d)) (take (length ts) ds)"
  by (induction \<Sigma> ts ds rule: accepts.induct) auto

lemma arg_round:
  fixes d defines "a1 \<equiv> \<lambda>cr. (ask cr (Some d))\<lparr>is_hole := True\<rparr>"
  assumes "bounded (heap c)" and R: "\<forall>\<^sub>F n in sequentially. check n (a1 (create a \<or> vr)) c = R" "verdict \<Sigma> (a1 (create a \<or> vr)) t rest c R"
    and v: "v \<in> pivars (heap c)" "node (heap c) v = Some (SymSExpr y)" and ht: "head_ok a (heap c) ht fs" and prev: "open_parens c = prev"
  shows "if infer \<Sigma> t = Some ([], d)
    then \<exists>ht' s x. moves (heap c) s \<and> head_ok a s ht' (fs @ [tm_den \<Sigma> t]) \<and>
      (\<forall>\<^sub>F n in sequentially. app_arg (check n) n a prev vr v d ht [] c = Inr ((ht', []), upd c s prev (at_text x rest)))
    else \<exists>msg. \<forall>\<^sub>F n in sequentially. app_arg (check n) n a prev vr v d ht [] c = Inl (ReportError msg)"
proof -
  have a1: "create (a1 b) = b" "expected (a1 b) = Some d" for b by (simp_all add: a1_def ask_def)
  show ?thesis
  proof (cases "infer \<Sigma> t = Some ([], d)")
    case False
    then consider (error) msg where "R = Inl (ReportError msg)"
      | (stuck) w c' msg where "R = Inr (w, c')" "eat_excess prev c' = Inl (ReportError msg)"
      using R(2) prev by (auto simp: verdict_def meets_type_def a1 left_over_def)
    then have "\<exists>msg. \<forall>n. check n (a1 (create a \<or> vr)) c = R \<longrightarrow> app_arg (check n) n a prev vr v d ht [] c = Inl (ReportError msg)"
      by cases (auto simp: app_arg_def a1_def bnd_run sq_run)
    then show ?thesis unfolding if_not_P [OF False] using R(1) by (auto elim!: eventually_mono)
  next
    case True
    then have "meets_type (a1 (create a \<or> vr)) (infer \<Sigma> t)" by (simp add: meets_type_def a1)
    with R(2) obtain res cl h x k where k: "R = Inr ((res, cl, False), upd c h (prev + int k) (at_text x (rparens k @ rest)))" "moves (heap c) h"
      "create a \<or> vr \<Longrightarrow> \<exists>b. res = Some b \<and> means h b (tm_den \<Sigma> t)"
      unfolding prev [symmetric] by (elim verdict_okE) (auto simp: a1)
    have bh: "bounded h" by (rule moves_bounded [OF k(2) assms(2)])
    obtain z where z: "eat_excess prev (upd c h (prev + int k) (at_text x (rparens k @ rest))) = Inr ((), upd c h prev (at_text z rest))"
      using eat_excess_closes [of "upd c h (prev + int k) (at_text x (rparens k @ rest))" x k rest prev] by auto
    from extend_head_spec [OF bh head_ok_moves [OF k(2) assms(2) ht], of res "tm_den \<Sigma> t"] k(3) obtain ht' s3 where
      s3: "extend_head a ht res h = Inr (ht', s3)" "moves h s3" "head_ok a s3 ht' (fs @ [tm_den \<Sigma> t])" by blast
    have m3: "moves (heap c) s3" by (rule mv.rel_trans [OF k(2) s3(2)])
    have b3: "bounded s3" by (rule moves_bounded [OF m3 assms(2)])
    from v(1) obtain p d' q where "node (heap c) p = Some (CExpr PI [v, d', q])" by (auto simp: pivars_def)
    from moves_node [OF m3 assms(2) this] have "v \<in> pivars s3" by (auto simp: pivars_def)
    from bind_pivar_spec [OF b3 this moves_node [OF m3 assms(2) v(2)], of vr res "tm_den \<Sigma> t"] k(3) means_moves [OF s3(2) bh] obtain s4 where
      s4: "returns (\<lambda>n. bind_pivar n vr v res) s3 ((), s4)" "moves s3 s4" by blast
    have "\<forall>\<^sub>F n in sequentially. app_arg (check n) n a prev vr v d ht [] c = Inr ((ht', []), upd c s4 prev (at_text z rest))"
      using R(1) s4(1) [unfolded returns_def]
    proof eventually_elim
      case (elim n)
      show ?case
        using app_arg_eq [of "check n" a vr d c res cl _ prev _ ht ht' s3 n v s4, OF elim(1) [unfolded a1_def k(1)] z] s3(1) elim(2) by simp
    qed
    with True mv.rel_trans [OF m3 s4(2)] head_ok_moves [OF s4(2) b3 s3(3)] show ?thesis by auto
  qed
qed

section \<open>The last argument as a tail call\<close>

abbreviation tail_ask :: "cargs \<Rightarrow> addr \<Rightarrow> cargs" where
  "tail_ask a d \<equiv> a\<lparr>create := False, expected := Some d, computed := False, is_hole := False\<rparr>"

lemma app_tail_eq:
  assumes "asks (heap c) a" "answer n a q (heap c) = Inr (cl, s)" "node s p = Some pn"
  shows "app_tail rec n a p d q [] c =
    (case rec (tail_ask a d) (upd c (dec_st p s) (open_parens c) (lx c)) of
       Inl e \<Rightarrow> Inl e | Inr ((r, _, _), c') \<Rightarrow> Inr ((r, cl, False), c'))"
proof -
  have "(case expected a of Some e \<Rightarrow> bnd (onheap (defeq n e q)) (\<lambda>b.
      if \<not> b then report_error msg else sq (onheap (dec e)) (ret None))
    | None \<Rightarrow> sq (onheap (inc q)) (put_computed a q)) c = Inr (cl, upd c s (open_parens c) (lx c))" for msg
    using assms(1,2)
    by (auto simp: answer_def asks_def put_computed_def step_simps split: option.splits sum.splits prod.splits if_splits)
  then show ?thesis
    unfolding app_tail_def using assms(3)
    by (simp add: step_simps dec_run) (auto split: sum.split)
qed

text \<open>The type of an application to \<open>ts\<close>, and the outcome of the loop over the arguments; \<open>rest\<close> follows the closing parenthesis.\<close>

definition app_type :: "signature \<Rightarrow> tm list \<Rightarrow> addr list \<Rightarrow> addr \<Rightarrow> (addr list \<times> addr) option" where
  "app_type \<Sigma> ts ds r = (if accepts \<Sigma> ts ds then Some (drop (length ts) ds, r) else None)"

definition args_done :: "signature \<Rightarrow> cargs \<Rightarrow> tm list \<Rightarrow> addr list \<Rightarrow> addr \<Rightarrow> fterm list \<Rightarrow> (token \<times> string) list \<Rightarrow> cs
    \<Rightarrow> error + app_step \<times> cs \<Rightarrow> bool" where
  "args_done \<Sigma> a ts ds r fs rest c R \<longleftrightarrow>
     accepts \<Sigma> ts ds \<and> (\<exists>ht p s x. R = Inr (ArgsDone ht p [], upd c s (open_parens c) (at_text x rest)) \<and>
       moves (heap c) s \<and> simple_type s p (drop (length ts) ds) r \<and> head_ok a s ht (fs @ map (tm_den \<Sigma>) ts))"

definition tail_done :: "cargs \<Rightarrow> (addr list \<times> addr) option \<Rightarrow> (token \<times> string) list \<Rightarrow> cs \<Rightarrow> error + app_step \<times> cs \<Rightarrow> bool" where
  "tail_done a ty rest c R \<longleftrightarrow>
     \<not> create a \<and> meets_type a ty \<and>
     (\<exists>cl s x k. R = Inr (TailDone (None, cl, False), upd c s (open_parens c + int k) (at_text x (rparens (Suc k) @ rest))) \<and>
       moves (heap c) s \<and> comp_ok a s ty cl)"

definition app_fails :: "cargs \<Rightarrow> (addr list \<times> addr) option \<Rightarrow> cs \<Rightarrow> error + app_step \<times> cs \<Rightarrow> bool" where
  "app_fails a ty c R \<longleftrightarrow> \<not> meets_type a ty \<and>
     ((\<exists>msg. R = Inl (ReportError msg)) \<or> (\<exists>v c'. R = Inr (TailDone v, c') \<and> left_over a c (open_parens c - 1) v c'))"

definition args_verdict :: "signature \<Rightarrow> cargs \<Rightarrow> tm list \<Rightarrow> addr list \<Rightarrow> addr \<Rightarrow> fterm list \<Rightarrow> (token \<times> string) list \<Rightarrow> cs
    \<Rightarrow> error + app_step \<times> cs \<Rightarrow> bool" where
  "args_verdict \<Sigma> a ts ds r fs rest c R \<longleftrightarrow>
     args_done \<Sigma> a ts ds r fs rest c R \<or> tail_done a (app_type \<Sigma> ts ds r) rest c R \<or> app_fails a (app_type \<Sigma> ts ds r) c R"

lemma comp_ok_moves: "moves s s' \<Longrightarrow> bounded s \<Longrightarrow> comp_ok a s ty cl \<Longrightarrow> comp_ok a s' ty cl"
  using moves_simple by (auto simp: comp_ok_def split: option.splits)

lemma tm_toks_start: "\<exists>t x ts. tm_toks u = (t, x) # ts \<and> plain_tok t \<and> t \<noteq> TClose"
  by (cases u) auto

lemma left_over_cl:
  assumes "left_over a1 c1 prev1 (res, cl1, b) c'" "c1 = upd c s o1 l" "moves (heap c) s" "prev \<le> prev1" "\<not> create a"
    "bounded s" "comp_ok a s ty cl"
  shows "left_over a c prev (res, cl, False) c'"
proof -
  from assms(1,2) obtain h o2 l2 msg where h: "res = None" "c' = upd c h o2 l2" "moves s h" "eat_excess prev1 c' = Inl (ReportError msg)"
    by (auto simp: left_over_def)
  have "eat_excess prev c' = Inl (ReportError msg)" by (rule eat_excess_mono [OF h(4) assms(4)])
  moreover have "\<exists>p pn. cl = Some p \<and> node h p = Some pn" if "expected a = None"
    using comp_ok_moves [OF h(3) assms(6,7)] that simple_type_node by (fastforce simp: comp_ok_def)
  ultimately show ?thesis
    unfolding h(1,2) by (intro left_overI [OF assms(5) mv.rel_trans [OF assms(3) h(3)]]) auto
qed

text \<open>A tail call when the type of the application is not the expected one.\<close>

lemma tail_refused:
  assumes "asks (heap c) a" "simple_type (heap c) q [] r" "\<not> meets_type a (Some ([], r))"
  shows "\<exists>R. (\<forall>\<^sub>F n in sequentially. bnd (app_tail (check n) n a p d q []) (\<lambda>r. ret (TailDone r)) c = R) \<and>
    app_fails a (app_type \<Sigma> (t # us) [d] r) c R"
proof -
  from answer_error [OF assms] obtain e where "expected a = Some e" "\<And>n. defeq (Suc n) e q (heap c) = Inr (False, heap c)" by blast
  then have "\<exists>msg. \<forall>n. bnd (app_tail (check (Suc n)) (Suc n) a p d q []) (\<lambda>r. ret (TailDone r)) c = Inl (ReportError msg)"
    by (simp add: app_tail_def step_simps del: defeq.simps)
  then obtain msg where "\<forall>n. bnd (app_tail (check (Suc n)) (Suc n) a p d q []) (\<lambda>r. ret (TailDone r)) c = Inl (ReportError msg)" by blast
  then have "\<forall>\<^sub>F n in sequentially. bnd (app_tail (check n) n a p d q []) (\<lambda>r. ret (TailDone r)) c = Inl (ReportError msg)"
    by (intro eventually_from_Suc) blast
  moreover have "\<not> meets_type a (app_type \<Sigma> (t # us) [d] r)"
    using assms(3) by (cases us) (auto simp: app_type_def meets_type_def split: option.splits)
  ultimately show ?thesis by (auto simp: app_fails_def)
qed

text \<open>After the call: \<open>k\<close> parentheses more than before are open, and \<open>us\<close> are the arguments that follow.\<close>

lemma tail_call_answer:
  assumes "infer \<Sigma> t = Some ([], d)" "meets_type a (Some ([], r))" "\<not> create a" "moves (heap c) h" "comp_ok a h (Some ([], r)) cl"
    and R: "R = Inr (TailDone (None, cl, False), upd c h (open_parens c + int k) (at_text x (rparens k @ concat (map tm_toks us) @ (TClose, '')'') # rest)))"
  shows "tail_done a (app_type \<Sigma> (t # us) [d] r) rest c R \<or> app_fails a (app_type \<Sigma> (t # us) [d] r) c R"
proof (cases us)
  case Nil
  then have "app_type \<Sigma> (t # us) [d] r = Some ([], r)" using assms(1) by (simp add: app_type_def)
  moreover have "R = Inr (TailDone (None, cl, False), upd c h (open_parens c + int k) (at_text x (rparens (Suc k) @ rest)))"
    using R Nil by (simp add: replicate_app_Cons_same)
  ultimately have "tail_done a (app_type \<Sigma> (t # us) [d] r) rest c R"
    unfolding tail_done_def using assms(2-5)
    by (intro conjI exI [of _ cl] exI [of _ h] exI [of _ x] exI [of _ k]) simp_all
  then show ?thesis ..
next
  case (Cons u us')
  let ?c = "upd c h (open_parens c + int k) (at_text x (rparens k @ concat (map tm_toks us) @ (TClose, '')'') # rest))"
  obtain t0 x0 ts0 where t0: "tm_toks u = (t0, x0) # ts0" "plain_tok t0" "t0 \<noteq> TClose" using tm_toks_start by blast
  obtain msg where "eat_excess (open_parens c - 1) ?c = Inl (ReportError msg)"
    using eat_excess_stuck [of ?c x k t0 x0 _ "open_parens c - 1"] Cons t0 by auto
  moreover have "\<exists>p pn. cl = Some p \<and> node h p = Some pn" if "expected a = None"
    using assms(5) that simple_type_node by (fastforce simp: comp_ok_def)
  ultimately have "left_over a c (open_parens c - 1) (None, cl, False) ?c"
    by (intro left_overI [OF assms(3,4)])
  moreover have "\<not> meets_type a (app_type \<Sigma> (t # us) [d] r)"
    using Cons by (auto simp: app_type_def meets_type_def split: option.splits)
  ultimately show ?thesis using R by (auto simp: app_fails_def)
qed

text \<open>The result of the tail call is the result of the application, with the type computed before the call.\<close>

abbreviation tail_result :: "addr option \<Rightarrow> error + cres \<times> cs \<Rightarrow> error + app_step \<times> cs" where
  "tail_result cl R \<equiv> case R of Inl e \<Rightarrow> Inl e | Inr ((r, _, _), c') \<Rightarrow> Inr (TailDone (r, cl, False), c')"

lemma tail_outcome:
  assumes c1: "c1 = upd c s (open_parens c) l" "moves (heap c) s" "bounded s" and a: "\<not> create a" "meets_type a (Some ([], r))" "comp_ok a s (Some ([], r)) cl"
    and R: "verdict \<Sigma> (tail_ask a d) t (concat (map tm_toks us) @ (TClose, '')'') # rest) c1 R"
  shows "tail_done a (app_type \<Sigma> (t # us) [d] r) rest c (tail_result cl R) \<or> app_fails a (app_type \<Sigma> (t # us) [d] r) c (tail_result cl R)"
proof (cases "infer \<Sigma> t = Some ([], d)")
  case True
  then have "meets_type (tail_ask a d) (infer \<Sigma> t)" by (simp add: meets_type_def)
  with R c1(1) obtain h x k where "moves s h"
    and k: "tail_result cl R = Inr (TailDone (None, cl, False), upd c h (open_parens c + int k) (at_text x (rparens k @ concat (map tm_toks us) @ (TClose, '')'') # rest)))"
    by (elim verdict_okE) auto
  then show ?thesis
    by (intro tail_call_answer [OF True a(2,1) _ _ k] mv.rel_trans [OF c1(2)] comp_ok_moves [OF _ c1(3) a(3)])
next
  case False
  then have ty: "\<not> meets_type a (app_type \<Sigma> (t # us) [d] r)"
    by (auto simp: app_type_def meets_type_def split: option.splits)
  from False R c1(1) consider (error) msg where "R = Inl (ReportError msg)"
    | (stuck) v c' where "R = Inr (v, c')" "left_over (tail_ask a d) c1 (open_parens c) v c'"
    by (auto simp: verdict_def meets_type_def)
  then show ?thesis
  proof cases
    case error
    then show ?thesis using ty by (auto simp: app_fails_def)
  next
    case stuck
    obtain res cl1 b' where v: "v = (res, cl1, b')" by (cases v)
    have "left_over a c (open_parens c - 1) (res, cl, False) c'"
      by (rule left_over_cl [OF stuck(2) [unfolded v] c1(1,2) _ a(1) c1(3) a(3)]) simp
    then show ?thesis using ty stuck(1) v by (auto simp: app_fails_def)
  qed
qed

text \<open>A tail call for the argument \<open>t\<close>; \<open>us\<close> are the arguments after it.\<close>

lemma tail_round:
  assumes d: "checks_right \<Sigma> t" and c: "prepared \<Sigma> (tm_names t) (heap c)" "asks (heap c) a" "base_type (heap c) d" "simple_type (heap c) q [] r"
    "node (heap c) p = Some pn" "sees (lx c) (tm_toks t @ concat (map tm_toks us) @ (TClose, '')'') # rest)" and a: "\<not> create a"
  shows "\<exists>R. (\<forall>\<^sub>F n in sequentially. bnd (app_tail (check n) n a p d q []) (\<lambda>r. ret (TailDone r)) c = R) \<and>
    (tail_done a (app_type \<Sigma> (t # us) [d] r) rest c R \<or> app_fails a (app_type \<Sigma> (t # us) [d] r) c R)"
proof (cases "meets_type a (Some ([], r))")
  case False
  then show ?thesis using tail_refused [OF c(2,4)] by blast
next
  case True
  have b: "bounded (heap c)" by (rule prepared_bounded [OF c(1)])
  from answer_spec [OF b c(2,4) True] obtain cl s where
    s: "\<And>n. answer (Suc n) a q (heap c) = Inr (cl, s)" "moves (heap c) s" "comp_ok a s (Some ([], r)) cl" by blast
  let ?c1 = "upd c (dec_st p s) (open_parens c) (lx c)"
  have m1: "moves (heap c) (dec_st p s)" by (rule mv.rel_trans [OF s(2) moves_dec])
  have "asks (dec_st p s) (tail_ask a d)" using moves_base [OF m1 b c(3)] by (simp add: asks_def)
  with checks_rightD [OF d, of ?c1 "tail_ask a d" "concat (map tm_toks us) @ (TClose, '')'') # rest"] prepared_moves [OF m1 c(1)] c(6)
  obtain R where R: "\<forall>\<^sub>F n in sequentially. check n (tail_ask a d) ?c1 = R"
    "verdict \<Sigma> (tail_ask a d) t (concat (map tm_toks us) @ (TClose, '')'') # rest) ?c1 R" by auto
  have "\<forall>\<^sub>F n in sequentially. bnd (app_tail (check n) n a p d q []) (\<lambda>r. ret (TailDone r)) c = tail_result cl R"
    using R(1) eventually_gt_at_top [of 0]
  proof eventually_elim
    case (elim n)
    then obtain j where "n = Suc j" by (cases n) auto
    with app_tail_eq [OF c(2), of n q cl s p pn] s(1) moves_node [OF s(2) b c(5)] elim(1) show ?case
      by (auto simp: bnd_run split: sum.split prod.split)
  qed
  moreover have "comp_ok a (dec_st p s) (Some ([], r)) cl" by (rule comp_ok_moves [OF moves_dec moves_bounded [OF s(2) b] s(3)])
  ultimately show ?thesis using tail_outcome [OF refl m1 moves_bounded [OF m1 b] a True _ R(2)] by blast
qed

section \<open>The loop over the arguments\<close>

lemma app_args_round:
  assumes "next_token (lx c) = Inr (t, at_text x ts)" "t \<noteq> TClose"
    and "node (heap c) p = Some (CExpr PI [v, d, q])" "node (heap c) d = Some dn" "op_of dn \<noteq> RUN" "node (heap c) q = Some qn"
  defines "c1 \<equiv> upd c ((heap c)\<lparr>refs := (refs (heap c))(d := ref_inc (refs (heap c) d))\<rparr>) (open_parens c) (peeked t x ts)"
  shows "app_args rec n (Suc k) a prev ht p [] c =
    (if tail_calls c \<and> \<not> (create a \<or> flag (heap c) p) \<and> op_of qn \<noteq> PI
     then bnd (app_tail rec n a p d q []) (\<lambda>r. ret (TailDone r)) c1
     else case app_arg rec n a prev (flag (heap c) p) v d ht [] c1 of
       Inl e \<Rightarrow> Inl e
     | Inr ((h', hs), c') \<Rightarrow> sq (onheap (inc q)) (sq (onheap (dec p)) (app_args rec n k a prev h' q hs)) c')"
  using assms(1-6)
  by (simp add: c1_def step_simps reinsert_at getop_run getkid_run getflag_run inc_run del: app_args.simps(1) split: sum.split prod.split)

lemma app_args_excess:
  assumes "next_token (lx c) = Inr (t, at_text x ts)" "t \<noteq> TClose" "base_type (heap c) p"
  shows "\<exists>msg. \<forall>rec n k. app_args rec n (Suc k) a prev h p [] c = Inl (ReportError msg)"
proof -
  from base_type_node [OF assms(3)] obtain nd where "node (heap c) p = Some nd" "op_of nd \<noteq> PI" by blast
  with assms(1,2) show ?thesis by (simp add: bnd_run sq_run onlex_run onheap_run reinsert_at getop_run)
qed

lemma not_meets_None: "\<not> meets_type a None"
  by (simp add: meets_type_def split: option.split)

text \<open>Outcomes relative to an earlier state.\<close>

lemma left_over_moves:
  assumes "left_over a (upd c s o1 l) prev v c'" "moves (heap c) s"
  shows "left_over a c prev v c'"
proof -
  from assms(1) obtain cl h o2 l2 msg where h: "\<not> create a" "v = (None, cl, False)" "c' = upd c h o2 l2" "moves s h"
    "expected a = None \<Longrightarrow> \<exists>p pn. cl = Some p \<and> node h p = Some pn" "eat_excess prev c' = Inl (ReportError msg)"
    by (auto simp: left_over_def)
  show ?thesis unfolding h(2,3) by (rule left_overI [OF h(1) mv.rel_trans [OF assms(2) h(4)] h(5) h(6) [unfolded h(3)]])
qed

lemma tail_done_moves:
  assumes "tail_done a ty rest (upd c s (open_parens c) l) R" "moves (heap c) s"
  shows "tail_done a ty rest c R"
  using assms unfolding tail_done_def by (auto dest: mv.rel_trans)

lemma app_fails_moves:
  assumes "app_fails a ty (upd c s (open_parens c) l) R" "moves (heap c) s"
  shows "app_fails a ty c R"
  using assms left_over_moves unfolding app_fails_def by fastforce

lemma args_verdict_step:
  assumes "args_verdict \<Sigma> a ts ds r (fs @ [tm_den \<Sigma> t]) rest (upd c s (open_parens c) l) R" "moves (heap c) s" "infer \<Sigma> t = Some ([], d)"
  shows "args_verdict \<Sigma> a (t # ts) (d # ds) r fs rest c R"
proof -
  have "args_done \<Sigma> a (t # ts) (d # ds) r fs rest c R"
    if "args_done \<Sigma> a ts ds r (fs @ [tm_den \<Sigma> t]) rest (upd c s (open_parens c) l) R"
    using that unfolding args_done_def using assms(3) mv.rel_trans [OF assms(2)] by auto
  moreover have "app_type \<Sigma> (t # ts) (d # ds) r = app_type \<Sigma> ts ds r" using assms(3) by (simp add: app_type_def)
  ultimately show ?thesis
    using assms(1) tail_done_moves [OF _ assms(2)] app_fails_moves [OF _ assms(2)] unfolding args_verdict_def by metis
qed

text \<open>A round of the loop on a telescope: it starts by reading the first \<open>PI\<close>, and the next argument is still to be read.\<close>

lemma args_start:
  assumes "bounded (heap c)" "sees (lx c) (tm_toks t @ rest)" "simple_type (heap c) p (d # ds) r"
  obtains (tail) v q s l where "tail_calls c" "\<not> (create a \<or> flag (heap c) p)" "ds = []"
      "node (heap c) p = Some (CExpr PI [v, d, q])" "simple_type (heap c) q [] r"
      "moves (heap c) s" "base_type s d" "sees l (tm_toks t @ rest)"
      "\<And>rec n k. app_args rec n (Suc k) a prev ht p [] c = bnd (app_tail rec n a p d q []) (\<lambda>r. ret (TailDone r)) (upd c s (open_parens c) l)"
  | (arg) v z q qn s l where "\<not> (tail_calls c \<and> \<not> (create a \<or> flag (heap c) p) \<and> ds = [])"
      "node (heap c) p = Some (CExpr PI [v, d, q])" "node (heap c) v = Some (SymSExpr z)" "simple_type (heap c) q ds r"
      "node (heap c) q = Some qn" "moves (heap c) s" "base_type s d" "sees l (tm_toks t @ rest)"
      "\<And>rec n k. app_args rec n (Suc k) a prev ht p [] c =
        (case app_arg rec n a prev (flag (heap c) p) v d ht [] (upd c s (open_parens c) l) of
           Inl e \<Rightarrow> Inl e
         | Inr ((h', hs), c') \<Rightarrow> sq (onheap (inc q)) (sq (onheap (dec p)) (app_args rec n k a prev h' q hs)) c')"
proof -
  obtain t0 x0 us where t0: "tm_toks t = (t0, x0) # us" "plain_tok t0" "t0 \<noteq> TClose" using tm_toks_start by blast
  have nt: "next_token (lx c) = Inr (t0, at_text x0 (us @ rest))" by (rule next_sees) (use assms(2) t0 in simp_all)
  from assms(3) obtain v q z where v: "node (heap c) p = Some (CExpr PI [v, d, q])" "node (heap c) v = Some (SymSExpr z)"
    and q: "simple_type (heap c) q ds r" and d: "base_type (heap c) d"
    by (auto simp: simple_type_def telescope_simps)
  obtain dn where dn: "node (heap c) d = Some dn" "op_of dn \<noteq> RUN" using base_type_node [OF d] by blast
  obtain qn where qn: "node (heap c) q = Some qn" "op_of qn = PI \<longleftrightarrow> ds \<noteq> []" using simple_type_node [OF q] by blast
  have l: "sees (peeked t0 x0 (us @ rest)) (tm_toks t @ rest)" using sees_peeked [of t0 x0 "us @ rest"] t0(1) by simp
  note round = app_args_round [OF nt t0(3) v(1) dn qn(1), where a = a and prev = prev and ht = ht]
  note d' = moves_inc moves_base [OF moves_inc assms(1) d]
  show thesis
  proof (cases "tail_calls c \<and> \<not> (create a \<or> flag (heap c) p) \<and> ds = []")
    case True
    then have "op_of qn \<noteq> PI" using qn(2) by blast
    with True q show thesis by (intro tail [OF _ _ _ v(1) _ d' l]) (auto simp: round simp del: app_args.simps)
  next
    case False
    then have "\<not> (tail_calls c \<and> \<not> (create a \<or> flag (heap c) p) \<and> op_of qn \<noteq> PI)" using qn(2) by blast
    from round [unfolded if_not_P [OF this]] show thesis by (rule arg [OF False v q qn(1) d' l])
  qed
qed

text \<open>The round that ends in a tail call.\<close>

lemma args_tail:
  assumes "checks_right \<Sigma> t" "prepared \<Sigma> (tm_names t) (heap c)" "asks (heap c) a"
    and l: "sees (lx c) (tm_toks t @ concat (map tm_toks ts) @ (TClose, '')'') # rest)" and p: "simple_type (heap c) p [d] r"
    and tail: "tail_calls c" "\<not> create a" "\<not> flag (heap c) p"
  shows "\<exists>R. (\<forall>\<^sub>F n in sequentially. \<forall>k. app_args (check n) n (Suc k) a prev ht p [] c = R) \<and> args_verdict \<Sigma> a (t # ts) [d] r fs rest c R"
proof -
  note b = prepared_bounded [OF assms(2)]
  show ?thesis
  proof (cases rule: args_start [OF b l p, where a = a and prev = prev and ht = ht, case_names tail arg])
    case (tail v q s l')
    from tail_round [of \<Sigma> t "upd c s (open_parens c) l'" a d q r p "CExpr PI [v, d, q]" ts rest, OF assms(1)]
      prepared_moves [OF tail(6) assms(2)] moves_asks [OF tail(6) b assms(3)] tail moves_simple [OF tail(6) b tail(5)] moves_node [OF tail(6) b tail(4)]
    obtain R where R: "\<forall>\<^sub>F n in sequentially. bnd (app_tail (check n) n a p d q []) (\<lambda>r. ret (TailDone r)) (upd c s (open_parens c) l') = R"
      "tail_done a (app_type \<Sigma> (t # ts) [d] r) rest (upd c s (open_parens c) l') R \<or>
       app_fails a (app_type \<Sigma> (t # ts) [d] r) (upd c s (open_parens c) l') R" by auto
    have "\<forall>\<^sub>F n in sequentially. \<forall>k. app_args (check n) n (Suc k) a prev ht p [] c = R"
      using R(1) by eventually_elim (simp only: tail(9) simp_thms)
    moreover have "args_verdict \<Sigma> a (t # ts) [d] r fs rest c R"
      using R(2) tail_done_moves [OF _ tail(6)] app_fails_moves [OF _ tail(6)] unfolding args_verdict_def by blast
    ultimately show ?thesis by blast
  qed (use tail in blast)
qed

text \<open>A round that goes on, when the argument has the type of the domain, or stops with an error.\<close>

lemma args_step:
  assumes t: "checks_right \<Sigma> t" and c: "prepared \<Sigma> (tm_names t) (heap c)" and l: "sees (lx c) (tm_toks t @ rest)"
    and p: "simple_type (heap c) p (d # ds) r" and no_tail: "\<not> (tail_calls c \<and> \<not> (create a \<or> flag (heap c) p) \<and> ds = [])"
    and ht: "head_ok a (heap c) ht fs" and prev: "open_parens c = prev"
  shows "if infer \<Sigma> t = Some ([], d)
    then \<exists>ht' q s y. moves (heap c) s \<and> simple_type s q ds r \<and> head_ok a s ht' (fs @ [tm_den \<Sigma> t]) \<and>
      (\<forall>\<^sub>F n in sequentially. \<forall>k. app_args (check n) n (Suc k) a prev ht p [] c = app_args (check n) n k a prev ht' q [] (upd c s prev (at_text y rest)))
    else \<exists>msg. \<forall>\<^sub>F n in sequentially. \<forall>k. app_args (check n) n (Suc k) a prev ht p [] c = Inl (ReportError msg)"
proof (cases rule: args_start [OF prepared_bounded [OF c] l p, where a = a and prev = prev and ht = ht, case_names tail arg])
  case (arg v z q qn s l')
  note b = prepared_bounded [OF c] and round = arg(9) and m = arg(6)
  let ?c1 = "upd c s (open_parens c) l'" and ?vr = "flag (heap c) p"
  have "asks (heap ?c1) ((ask (create a \<or> ?vr) (Some d))\<lparr>is_hole := True\<rparr>)" using arg(7) by (simp add: asks_def ask_def)
  from checks_rightD [OF t _ this] prepared_moves [OF m c] arg(8) obtain R where
    R: "\<forall>\<^sub>F n in sequentially. check n ((ask (create a \<or> ?vr) (Some d))\<lparr>is_hole := True\<rparr>) ?c1 = R"
      "verdict \<Sigma> ((ask (create a \<or> ?vr) (Some d))\<lparr>is_hole := True\<rparr>) t rest ?c1 R" by fastforce
  have v1: "v \<in> pivars (heap ?c1)" "node (heap ?c1) v = Some (SymSExpr z)" using moves_node [OF m b arg(2)] moves_node [OF m b arg(3)] by (auto simp: pivars_def)
  have s1: "bounded (heap ?c1)" "head_ok a (heap ?c1) ht fs" using moves_bounded [OF m b] head_ok_moves [OF m b ht] by simp_all
  note ar = arg_round [OF s1(1) R v1 s1(2), of prev, unfolded prev, simplified]
  show ?thesis
  proof (cases "infer \<Sigma> t = Some ([], d)")
    case False
    with ar prev show ?thesis unfolding if_not_P [OF False] by (auto simp: round elim!: eventually_mono simp del: app_args.simps)
  next
    case True
    with ar obtain ht' s3 y where k: "moves s s3" "head_ok a s3 ht' (fs @ [tm_den \<Sigma> t])"
      "\<forall>\<^sub>F n in sequentially. app_arg (check n) n a prev ?vr v d ht [] (upd c s prev l') = Inr ((ht', []), upd c s3 prev (at_text y rest))" by auto
    have m3: "moves (heap c) s3" by (rule mv.rel_trans [OF m k(1)])
    let ?s4 = "dec_st p (s3\<lparr>refs := (refs s3)(q := ref_inc (refs s3 q))\<rparr>)"
    have m34: "moves s3 ?s4" by (rule mv.rel_trans [OF moves_inc moves_dec])
    have m4: "moves (heap c) ?s4" by (rule mv.rel_trans [OF m3 m34])
    have "\<forall>\<^sub>F n in sequentially. \<forall>k. app_args (check n) n (Suc k) a prev ht p [] c = app_args (check n) n k a prev ht' q [] (upd c ?s4 prev (at_text y rest))"
      using k(3) by eventually_elim
        (use moves_node [OF m3 b arg(2)] moves_node [OF m3 b arg(5)] prev in \<open>simp add: round step_simps inc_run dec_run del: app_args.simps\<close>)
    with m4 moves_simple [OF m4 b arg(4)] head_ok_moves [OF m34 moves_bounded [OF m3 b] k(2)] show ?thesis
      unfolding if_P [OF True] by blast
  qed
qed (use no_tail in blast)

text \<open>The closing parenthesis, and an argument too many.\<close>

lemma args_close:
  assumes "sees (lx c) ((TClose, '')'') # rest)" "simple_type (heap c) p ds r" "head_ok a (heap c) ht fs"
  shows "\<exists>R. (\<forall>\<^sub>F n in sequentially. \<forall>k. app_args (check n) n (Suc k) a prev ht p [] c = R) \<and> args_verdict \<Sigma> a [] ds r fs rest c R"
proof -
  let ?R = "Inr (ArgsDone ht p [], upd c (heap c) (open_parens c) (at_text '')'' rest))"
  have "next_token (lx c) = Inr (TClose, at_text '')'' rest)" using assms(1) by (intro next_sees) simp_all
  then have "\<forall>\<^sub>F n in sequentially. \<forall>k. app_args (check n) n (Suc k) a prev ht p [] c = ?R" by (simp add: step_simps)
  moreover have "args_done \<Sigma> a [] ds r fs rest c ?R" unfolding args_done_def using assms(2,3) mv.rel_refl by auto
  ultimately show ?thesis unfolding args_verdict_def by blast
qed

lemma args_excess:
  assumes "sees (lx c) (tm_toks t @ us)" "simple_type (heap c) p [] r"
  shows "\<exists>R. (\<forall>\<^sub>F n in sequentially. \<forall>k. app_args (check n) n (Suc k) a prev ht p [] c = R) \<and> args_verdict \<Sigma> a (t # ts) [] r fs rest c R"
proof -
  have "base_type (heap c) p" using assms(2) by (auto simp: simple_type_def telescope_simps)
  moreover obtain t0 x0 vs where "tm_toks t = (t0, x0) # vs" "plain_tok t0" "t0 \<noteq> TClose" using tm_toks_start by blast
  ultimately obtain msg where "app_args rec n (Suc k) a prev ht p [] c = Inl (ReportError msg)" for rec n k
    using app_args_excess [OF next_sees] assms(1) by fastforce
  moreover have "app_fails a (app_type \<Sigma> (t # ts) [] r) c (Inl (ReportError msg))"
    by (simp add: app_fails_def app_type_def not_meets_None)
  ultimately show ?thesis
    unfolding args_verdict_def by (intro exI [of _ "Inl (ReportError msg)"]) (simp del: app_args.simps)
qed

lemma app_args_spec:
  assumes "\<forall>t \<in> set ts. checks_right \<Sigma> t" "prepared \<Sigma> (\<Union>t \<in> set ts. tm_names t) (heap c)" "asks (heap c) a"
    "sees (lx c) (concat (map tm_toks ts) @ (TClose, '')'') # rest)" "simple_type (heap c) p ds r"
    "ts = [] \<or> ds \<noteq> [] \<longrightarrow> head_ok a (heap c) ht fs" "open_parens c = prev"
  shows "\<exists>R. (\<forall>\<^sub>F n in sequentially. \<forall>k. app_args (check n) n (Suc (length ts + k)) a prev ht p [] c = R) \<and>
    args_verdict \<Sigma> a ts ds r fs rest c R"
  using assms
proof (induction ts arbitrary: c p ds ht fs)
  case Nil
  then show ?case using args_close [of c rest p ds r a ht fs prev \<Sigma>] by simp
next
  case (Cons t ts)
  note b = prepared_bounded [OF Cons.prems(2)]
  have t: "checks_right \<Sigma> t" "prepared \<Sigma> (tm_names t) (heap c)" "sees (lx c) (tm_toks t @ concat (map tm_toks ts) @ (TClose, '')'') # rest)"
    using Cons.prems(1,4) prepared_mono [OF Cons.prems(2)] by auto
  show ?case
  proof (cases ds)
    case Nil
    then show ?thesis using args_excess [OF t(3), of p r a prev ht \<Sigma> ts fs rest] Cons.prems(5)
      by (auto elim!: eventually_mono simp del: app_args.simps)
  next
    case ds: (Cons d ds')
    show ?thesis
    proof (cases "tail_calls c \<and> \<not> (create a \<or> flag (heap c) p) \<and> ds' = []")
      case True
      then show ?thesis using args_tail [OF t(1,2) Cons.prems(3) t(3), of p d r prev ht fs] Cons.prems(5) ds
        by (auto elim!: eventually_mono simp del: app_args.simps)
    next
      case False
      note step = args_step [OF t Cons.prems(5) [unfolded ds] False Cons.prems(6) [unfolded ds, simplified] Cons.prems(7)]
      show ?thesis
      proof (cases "infer \<Sigma> t = Some ([], d)")
        case inf: False
        with step obtain msg where "\<forall>\<^sub>F n in sequentially. \<forall>k. app_args (check n) n (Suc k) a prev ht p [] c = Inl (ReportError msg)"
          unfolding if_not_P [OF inf] by blast
        then have "\<forall>\<^sub>F n in sequentially. \<forall>k. app_args (check n) n (Suc (length (t # ts) + k)) a prev ht p [] c = Inl (ReportError msg)"
          by eventually_elim blast
        moreover have "app_fails a (app_type \<Sigma> (t # ts) ds r) c (Inl (ReportError msg))"
          using inf ds by (simp add: app_fails_def app_type_def not_meets_None)
        ultimately show ?thesis unfolding args_verdict_def by blast
      next
        case inf: True
        with step obtain ht' q s y where m: "moves (heap c) s" and q: "simple_type s q ds' r" "head_ok a s ht' (fs @ [tm_den \<Sigma> t])"
          and eq: "\<forall>\<^sub>F n in sequentially. \<forall>k. app_args (check n) n (Suc k) a prev ht p [] c =
            app_args (check n) n k a prev ht' q [] (upd c s prev (at_text y (concat (map tm_toks ts) @ (TClose, '')'') # rest)))"
          unfolding if_P [OF inf] by blast
        from Cons.IH [of "upd c s prev (at_text y (concat (map tm_toks ts) @ (TClose, '')'') # rest))" q ds' ht' "fs @ [tm_den \<Sigma> t]"]
          Cons.prems(1) prepared_mono [OF prepared_moves [OF m Cons.prems(2)]] moves_asks [OF m b Cons.prems(3)] q sees_at
        obtain R where R: "\<forall>\<^sub>F n in sequentially. \<forall>k. app_args (check n) n (Suc (length ts + k)) a prev ht' q []
              (upd c s prev (at_text y (concat (map tm_toks ts) @ (TClose, '')'') # rest))) = R"
          "args_verdict \<Sigma> a ts ds' r (fs @ [tm_den \<Sigma> t]) rest (upd c s prev (at_text y (concat (map tm_toks ts) @ (TClose, '')'') # rest))) R" by auto
        have "\<forall>\<^sub>F n in sequentially. \<forall>k. app_args (check n) n (Suc (length (t # ts) + k)) a prev ht p [] c = R"
          using eq R(1) by eventually_elim (simp del: app_args.simps)
        moreover have "args_verdict \<Sigma> a (t # ts) ds r fs rest c R"
          unfolding ds by (rule args_verdict_step [OF _ m inf]) (use R(2) Cons.prems(7) in simp)
        ultimately show ?thesis by blast
      qed
    qed
  qed
qed

section \<open>Applications\<close>

text \<open>The first use of a type sets its flag; later uses clone it.\<close>

definition use_type :: "nat \<Rightarrow> addr \<Rightarrow> (st, addr) M" where
  "use_type f p =
     bnd (followDefs f p) (\<lambda>h.
     sq (inc h) (
     sq (dec p) (
     bnd (getflag h) (\<lambda>cl.
     if cl then bnd (clone f h) (\<lambda>k. sq (dec h) (ret k)) else sq (setflag h True) (ret h)))))"

lemma use_type_simple:
  assumes "bounded s" "simple_type s p ds r"
  shows "\<exists>k s'. returns (\<lambda>n. use_type n p) s (k, s') \<and> moves s s' \<and> simple_type s' k ds r"
proof -
  obtain pn where pn: "node s p = Some pn" using simple_type_node [OF assms(2)] by blast
  define s1 where "s1 = dec_st p (s\<lparr>refs := (refs s)(p := ref_inc (refs s p))\<rparr>)"
  have m1: "moves s s1" unfolding s1_def by (rule mv.rel_trans [OF moves_inc moves_dec])
  have b1: "bounded s1" by (rule moves_bounded [OF m1 assms(1)])
  have t1: "simple_type s1 p ds r" by (rule moves_simple [OF m1 assms])
  have n1: "node s1 p = Some pn" using pn by (simp add: s1_def)
  note f = followDefs_simple [OF assms(2)]
  show ?thesis
  proof (cases "flag s1 p")
    case True
    from clone_simple [OF b1 t1] obtain k s2 where
      k: "returns (\<lambda>n. clone n p) s1 (k, s2)" "moves s1 s2" "simple_type s2 k ds r" by blast
    have n2: "node s2 p = Some pn" by (rule moves_node [OF k(2) b1 n1])
    have "returns (\<lambda>n. use_type n p) s (k, dec_st p s2)"
    proof (rule returns_elim2 [OF _ k(1)])
      show "returns (\<lambda>n. followDefs n p) s (p, s)" by (rule returns_Suc, rule returns_all) (rule f)
      fix n assume "followDefs n p s = Inr (p, s)" "clone n p s1 = Inr (k, s2)"
      then show "use_type n p s = Inr (k, dec_st p s2)"
        using pn n1 n2 True unfolding s1_def by (simp add: use_type_def bnd_run sq_run inc_run dec_run getflag_run)
    qed
    moreover have "moves s (dec_st p s2)" by (rule mv.rel_trans [OF mv.rel_trans [OF m1 k(2)] moves_dec])
    moreover have "simple_type (dec_st p s2) k ds r" by (rule moves_simple [OF moves_dec moves_bounded [OF k(2) b1] k(3)])
    ultimately show ?thesis by blast
  next
    case False
    let ?s2 = "s1\<lparr>flag := (flag s1)(p := True)\<rparr>"
    have "returns (\<lambda>n. use_type n p) s (p, ?s2)"
      by (rule returns_Suc, rule returns_all)
        (use pn n1 False f in \<open>simp add: use_type_def bnd_run sq_run inc_run dec_run getflag_run setflag_run s1_def del: followDefs.simps\<close>)
    moreover have "moves s ?s2" by (rule mv.rel_trans [OF m1 moves_flag])
    moreover have "simple_type ?s2 p ds r" by (rule moves_simple [OF moves_flag b1 t1])
    ultimately show ?thesis by blast
  qed
qed

text \<open>The end of an application: there is no side condition left, and the type is compared or returned.\<close>

lemma app_last_simple:
  assumes "simple_type s p ds r"
  shows "app_last_run (Suc n) p s = Inr (p, s)"
proof (cases ds)
  case Nil
  then show ?thesis
    using assms base_type_node [of s p] by (auto simp: simple_type_def telescope_simps app_last_run_def bnd_run getop_run)
next
  case (Cons d ds')
  then show ?thesis
    using assms base_type_node [of s d]
    by (auto simp: simple_type_def telescope_simps app_last_run_def bnd_run getop_run getkid_run)
qed

lemma app_finish_error:
  assumes "asks (heap c) a" "simple_type (heap c) p ds r" "\<not> meets_type a (Some (ds, r))"
  shows "\<exists>msg. \<forall>n. app_finish (Suc n) a ht p [] c = Inl (ReportError msg)"
proof -
  from answer_error [OF assms] obtain e where "expected a = Some e" "\<And>n. defeq (Suc n) e p (heap c) = Inr (False, heap c)" by blast
  then show ?thesis using app_last_simple [OF assms(2)] by (simp add: app_finish_def step_simps del: defeq.simps)
qed

lemma app_finish_simple:
  assumes "bounded (heap c)" "asks (heap c) a" "simple_type (heap c) p ds r" "meets_type a (Some (ds, r))"
  shows "\<exists>cl s. (\<forall>n. app_finish (Suc n) a ht p [] c =
      Inr ((if create a then ht else None, cl, False), upd c s (open_parens c - 1) (lx c))) \<and>
    moves (heap c) s \<and> comp_ok a s (Some (ds, r)) cl"
proof (cases "expected a")
  case None
  then have "app_finish (Suc n) a ht p [] c =
      Inr ((if create a then ht else None, Some p, False), upd c (heap c) (open_parens c - 1) (lx c))" for n
    using app_last_simple [OF assms(3)] assms(2) by (simp add: app_finish_def step_simps asks_def put_computed_def)
  moreover have "comp_ok a (heap c) (Some (ds, r)) (Some p)" using None assms(3) by (simp add: comp_ok_def)
  ultimately show ?thesis using mv.rel_refl by blast
next
  case (Some e)
  with assms have e: "base_type (heap c) e" "ds = []" "e = r" by (auto simp: asks_def meets_type_def)
  obtain en where en: "node (heap c) e = Some en" using base_type_node [OF e(1)] by blast
  obtain pn where pn: "node (heap c) p = Some pn" using simple_type_node [OF assms(3)] by blast
  have "app_finish (Suc n) a ht p [] c =
      Inr ((if create a then ht else None, None, False), upd c (dec_st p (dec_st e (heap c))) (open_parens c - 1) (lx c))" for n
    using app_last_simple [OF assms(3)] Some e(2,3) defeq_simple [OF e(1) assms(3), of n] en pn
    by (simp add: app_finish_def step_simps dec_run del: defeq.simps)
  moreover have "moves (heap c) (dec_st p (dec_st e (heap c)))" by (rule mv.rel_trans [OF moves_dec moves_dec])
  moreover have "comp_ok a (dec_st p (dec_st e (heap c))) (Some (ds, r)) None" using Some by (simp add: comp_ok_def)
  ultimately show ?thesis by blast
qed

abbreviation head_ask :: "cargs \<Rightarrow> cargs" where
  "head_ask a \<equiv> (ask (create a) None)\<lparr>computed := True\<rparr>"

lemma check_app_unfold:
  assumes "check n (head_ask a) (upd c (heap c) (open_parens c) (peeked (name_tok x) x ts)) = Inr ((ht, Some p, False), c1)"
    and "eat_excess (open_parens c) c1 = Inr ((), upd c h (open_parens c) l)" "lx c = at_text x ts" "use_type n p h = Inr (k, h')"
  shows "check_app (check n) n a (name_tok x) c =
    (case app_args (check n) n n a (open_parens c) ht k [] (upd c h' (open_parens c) l) of
       Inl e \<Rightarrow> Inl e
     | Inr (st, c') \<Rightarrow> (case st of TailDone r \<Rightarrow> ret r | ArgsDone ht tp holes \<Rightarrow> app_finish n a ht tp holes) c')"
proof -
  have u: "bnd (onheap (followDefs n p)) (\<lambda>h. sq (onheap (inc h)) (sq (onheap (dec p)) (bnd (onheap (getflag h)) (\<lambda>cl.
      bnd (onheap (if cl then bnd (clone n h) (\<lambda>k. sq (dec h) (ret k)) else sq (setflag h True) (ret h))) K)))) =
    bnd (onheap (use_type n p)) K" for p and K :: "addr \<Rightarrow> (cs, cres) M"
    by (rule ext) (simp add: use_type_def onheap_def bnd_def sq_def split: sum.split prod.split)
  show ?thesis
    unfolding check_app_def u using assms
    by (simp add: step_simps reinsert_at del: check.simps app_args.simps)
qed

lemma check_app_error:
  assumes "check n (head_ask a) (upd c (heap c) (open_parens c) (peeked (name_tok x) x ts)) = Inl e" "lx c = at_text x ts"
  shows "check_app (check n) n a (name_tok x) c = Inl e"
  unfolding check_app_def using assms by (simp add: step_simps reinsert_at del: check.simps)

lemma infer_app: "\<Sigma> x = Some (b, ds, r) \<Longrightarrow> infer \<Sigma> (Tm x ts) = app_type \<Sigma> ts ds r"
  by (simp add: app_type_def accepts_iff)

text \<open>The head of an application: a declared name, with its type for this use.\<close>

lemma check_head:
  assumes "prepared \<Sigma> {x} (heap c)" "\<Sigma> x = Some (b, ds, r)"
  shows "\<exists>ht p c1 h y. (\<forall>n. check (Suc (Suc n)) (head_ask a) (upd c (heap c) (open_parens c) (peeked (name_tok x) x ts)) = Inr ((ht, Some p, False), c1)) \<and>
    eat_excess (open_parens c) c1 = Inr ((), upd c h (open_parens c) (at_text y ts)) \<and>
    moves (heap c) h \<and> simple_type h p ds r \<and> (ds \<noteq> [] \<longrightarrow> head_ok a h ht [FSym b])"
proof -
  let ?c = "upd c (heap c) (open_parens c) (peeked (name_tok x) x ts)"
  have "asks (heap ?c) (head_ask a)" using assms(1) by (simp add: asks_def ask_def prepared_def)
  moreover have "sees (lx ?c) ((name_tok x, x) # ts)" using sees_peeked by simp
  ultimately obtain R where R: "\<And>n. check (Suc (Suc n)) (head_ask a) ?c = R" "verdict \<Sigma> (head_ask a) (Tm x []) ts ?c R"
    using check_constant [of ?c "head_ask a" \<Sigma> x ts] assms(1) by (auto simp: prepared_def simp del: check.simps)
  have ty: "infer \<Sigma> (Tm x []) = Some (ds, r)" "tm_den \<Sigma> (Tm x []) = FSym b" using assms(2) by simp_all
  then have "meets_type (head_ask a) (infer \<Sigma> (Tm x []))" by (simp add: meets_type_def ask_def)
  with R(2) obtain res cl h z k where
    k: "R = Inr ((res, cl, False), upd c h (open_parens c + int k) (at_text z (rparens k @ ts)))" "moves (heap c) h"
      "comp_ok (head_ask a) h (Some (ds, r)) cl" "create a \<Longrightarrow> \<exists>b'. res = Some b' \<and> means h b' (FSym b)"
    by (elim verdict_okE) (auto simp: ask_def ty simp del: tm_den.simps infer.simps)
  let ?c1 = "upd c h (open_parens c + int k) (at_text z (rparens k @ ts))"
  obtain y where y: "eat_excess (open_parens c) ?c1 = Inr ((), upd c h (open_parens c) (at_text y ts))"
    using eat_excess_closes [of ?c1 z k ts "open_parens c"] by auto
  obtain p where p: "cl = Some p" "simple_type h p ds r" using k(3) by (auto simp: comp_ok_def ask_def)
  have "ds \<noteq> [] \<Longrightarrow> \<exists>y. node (heap c) b = Some (SymSExpr y)" using assms by (auto simp: prepared_def fits_def)
  then have "ds \<noteq> [] \<longrightarrow> head_ok a h res [FSym b]"
    using k(4) spine_head moves_node [OF k(2) prepared_bounded [OF assms(1)]] by (fastforce simp: head_ok_def elim: means.cases)
  with R(1) k(1,2) y p show ?thesis by (intro exI [of _ res] exI [of _ p] exI [of _ ?c1] exI [of _ h] exI [of _ y]) (simp del: check.simps)
qed

lemma app_start:
  assumes "sees (lx c) (tm_toks (Tm x ts) @ rest)" "ts \<noteq> []"
  shows "check (Suc n) a c =
    check_app (check n) n a (name_tok x) (upd c (heap c) (open_parens c + 1) (at_text x (concat (map tm_toks ts) @ (TClose, '')'') # rest)))"
proof -
  let ?ts = "concat (map tm_toks ts) @ (TClose, '')'') # rest"
  have "next_token (lx c) = Inr (TOpen, at_text ''('' ((name_tok x, x) # ?ts))"
    using next_sees [of "lx c" TOpen "''(''"] assms by simp
  moreover have "next_token (at_text ''('' ((name_tok x, x) # ?ts)) = Inr (name_tok x, at_text x ?ts)" by (rule next_at) simp
  ultimately show ?thesis by (simp add: step_simps check_start_def)
qed

lemma app_undeclared:
  assumes "prepared \<Sigma> {x} (heap c)" "\<Sigma> x = None" "sees (lx c) (tm_toks (Tm x ts) @ rest)" "ts \<noteq> []"
  shows "\<exists>msg. \<forall>\<^sub>F n in sequentially. check n a c = Inl (ReportError msg)"
proof -
  let ?ts = "concat (map tm_toks ts) @ (TClose, '')'') # rest"
  let ?d0 = "upd c (heap c) (open_parens c + 1) (at_text x ?ts)"
  let ?e = "upd c (heap c) (open_parens c + 1) (peeked (name_tok x) x ?ts)"
  have "get_trie (None, None) x (symbols (heap c)) = (None, q) \<Longrightarrow> check (Suc n) (head_ask a) ?e = Inl (ReportError ''Undeclared identifier'')" for n q
    using next_sees [OF sees_peeked [of "name_tok x" x ?ts]]
    by (simp add: step_simps check_symbol_def token_str_at sym_get_def)
  then have "check (Suc n) (head_ask a) ?e = Inl (ReportError ''Undeclared identifier'')" for n
    using assms(1,2) by (auto simp: prepared_def elim!: fits_cases simp del: check.simps)
  then have "check_app (check (Suc n)) (Suc n) a (name_tok x) ?d0 = Inl (ReportError ''Undeclared identifier'')" for n
    using check_app_error [of "Suc n" a ?d0 x ?ts] by (simp del: check.simps)
  then have "check (Suc (Suc n)) a c = Inl (ReportError ''Undeclared identifier'')" for n
    unfolding app_start [OF assms(3,4)] by blast
  then have "\<forall>\<^sub>F n in sequentially. check (Suc n) a c = Inl (ReportError ''Undeclared identifier'')" by (rule eventually_from_Suc)
  then show ?thesis using eventually_sequentially_Suc [of "\<lambda>n. check n a c = _"] by blast
qed

text \<open>The step after the arguments.\<close>

definition app_end :: "nat \<Rightarrow> cargs \<Rightarrow> app_step \<Rightarrow> (cs, cres) M" where
  "app_end f a st = (case st of TailDone r \<Rightarrow> ret r | ArgsDone ht tp holes \<Rightarrow> app_finish f a ht tp holes)"

lemma check_app_args:
  assumes d: "\<forall>t \<in> set ts. checks_right \<Sigma> t" and "ts \<noteq> []" and S: "\<Sigma> x = Some (b, ds, r)"
    and c: "prepared \<Sigma> (tm_names (Tm x ts)) (heap c)" "asks (heap c) a" "sees (lx c) (tm_toks (Tm x ts) @ rest)"
  shows "\<exists>s l R. moves (heap c) s \<and> args_verdict \<Sigma> a ts ds r [FSym b] rest (upd c s (open_parens c + 1) l) R \<and>
    (\<forall>\<^sub>F n in sequentially. check (Suc n) a c = (case R of Inl e \<Rightarrow> Inl e | Inr (st, c') \<Rightarrow> app_end n a st c'))"
proof -
  let ?ts = "concat (map tm_toks ts) @ (TClose, '')'') # rest"
  let ?c0 = "upd c (heap c) (open_parens c + 1) (at_text x ?ts)"
  have "prepared \<Sigma> {x} (heap ?c0)" using prepared_mono [OF c(1)] by simp
  from check_head [OF this S, of a ?ts] obtain ht p c1 h y where
    h: "\<And>n. check (Suc (Suc n)) (head_ask a) (upd c (heap c) (open_parens c + 1) (peeked (name_tok x) x ?ts)) = Inr ((ht, Some p, False), c1)"
      "eat_excess (open_parens ?c0) c1 = Inr ((), upd c h (open_parens c + 1) (at_text y ?ts))"
      "moves (heap c) h" "simple_type h p ds r" "ds \<noteq> [] \<Longrightarrow> head_ok a h ht [FSym b]" unfolding upd_sel upd_upd by blast
  note bd = prepared_bounded [OF c(1)] 
  have bh: "bounded h" by (rule moves_bounded [OF h(3) bd])
  from use_type_simple [OF bh h(4)] obtain k h' where
    k: "returns (\<lambda>n. use_type n p) h (k, h')" "moves h h'" "simple_type h' k ds r" by blast
  have m': "moves (heap c) h'" by (rule mv.rel_trans [OF h(3) k(2)])
  let ?c2 = "upd c h' (open_parens c + 1) (at_text y ?ts)"
  have "prepared \<Sigma> (\<Union>t \<in> set ts. tm_names t) (heap ?c2)" "asks (heap ?c2) a" "simple_type (heap ?c2) k ds r" 
      "ts = [] \<or> ds \<noteq> [] \<longrightarrow> head_ok a (heap ?c2) ht [FSym b]"
    using prepared_mono [OF prepared_moves [OF m' c(1)]] moves_asks [OF m' bd c(2)] k(3) head_ok_moves [OF k(2) bh h(5)] assms(2) by auto
  from app_args_spec [OF d this(1,2) _ this(3,4), of rest "open_parens c + 1"] sees_at obtain R where
    R: "\<forall>\<^sub>F n in sequentially. \<forall>j. app_args (check n) n (Suc (length ts + j)) a (open_parens c + 1) ht k [] ?c2 = R"
      "args_verdict \<Sigma> a ts ds r [FSym b] rest ?c2 R" by auto
  have "\<forall>\<^sub>F n in sequentially. check (Suc n) a c = (case R of Inl e \<Rightarrow> Inl e | Inr (st, c') \<Rightarrow> app_end n a st c')"
    using R(1) k(1) [unfolded returns_def] eventually_ge_at_top [of "Suc (length ts)"]
  proof eventually_elim
    case (elim n)
    then obtain j where j: "n = Suc (length ts + j)" by (metis add_Suc le_Suc_ex)
    moreover obtain i where "length ts = Suc i" using assms(2) by (cases ts) auto
    ultimately have i: "n = Suc (Suc (i + j))" by simp
    have "check_app (check n) n a (name_tok x) ?c0 =
      (case app_args (check n) n n a (open_parens ?c0) ht k [] ?c2 of Inl e \<Rightarrow> Inl e | Inr (st, c') \<Rightarrow> app_end n a st c')"
      unfolding app_end_def using check_app_unfold [OF _ _ _ elim(2), of a ?c0 x ?ts ht c1 "at_text y ?ts"] h(1) [of "i + j"] h(2) i
      by (simp del: check.simps app_args.simps)
    then show ?case unfolding app_start [OF c(3) assms(2)] using elim(1) j by (simp del: check.simps app_args.simps)
  qed
  with m' R(2) show ?thesis by blast
qed

text \<open>The outcome of the arguments checks_right the outcome of the application.\<close>

lemma finish_verdict:
  assumes "args_done \<Sigma> a ts ds r [FSym b] rest (upd c s (open_parens c + 1) l) R" and S: "\<Sigma> x = Some (b, ds, r)" and "ts \<noteq> []"
    and c: "bounded (heap c)" "asks (heap c) a" "moves (heap c) s"
  shows "\<exists>R'. (\<forall>n. (case R of Inl e \<Rightarrow> Inl e | Inr (st, c') \<Rightarrow> app_end (Suc n) a st c') = R') \<and> verdict \<Sigma> a (Tm x ts) rest c R'"
proof -
  from assms(1) obtain ht p s2 y where R: "R = Inr (ArgsDone ht p [], upd c s2 (open_parens c + 1) (at_text y rest))" "accepts \<Sigma> ts ds"
    "moves s s2" "simple_type s2 p (drop (length ts) ds) r" "head_ok a s2 ht (FSym b # map (tm_den \<Sigma>) ts)"
    by (auto simp: args_done_def)
  let ?c2 = "upd c s2 (open_parens c + 1) (at_text y rest)"
  let ?ty = "Some (drop (length ts) ds, r)"
  have m2: "moves (heap c) s2" by (rule mv.rel_trans [OF c(3) R(3)])
  have b2: "bounded s2" by (rule moves_bounded [OF m2 c(1)])
  have a2: "asks s2 a" by (rule moves_asks [OF m2 c(1,2)])
  have ty: "infer \<Sigma> (Tm x ts) = ?ty" using infer_app [where \<Sigma> = \<Sigma> and x = x, OF S, of ts] R(2) by (simp add: app_type_def)
  show ?thesis
  proof (cases "meets_type a ?ty")
    case False
    from app_finish_error [of ?c2 a p _ r ht] a2 R(4) False obtain msg where
      "\<And>n. app_finish (Suc n) a ht p [] ?c2 = Inl (ReportError msg)" by auto
    then show ?thesis using R(1) verdict_error [of a \<Sigma> "Tm x ts" rest c msg] False ty by (auto simp: app_end_def simp del: infer.simps)
  next
    case True
    from app_finish_simple [of ?c2 a p "drop (length ts) ds" r ht] b2 a2 R(4) True obtain cl s3 where
      s3: "\<And>n. app_finish (Suc n) a ht p [] ?c2 = Inr ((if create a then ht else None, cl, False), upd c s3 (open_parens c) (at_text y rest))"
        "moves s2 s3" "comp_ok a s3 ?ty cl" by auto
    have "means s3 k (tm_den \<Sigma> (Tm x ts))" if "spine s2 k (FSym b # map (tm_den \<Sigma>) ts)" for k
    proof -
      have "means s2 k (FApp (FSym b # map (tm_den \<Sigma>) ts))" by (rule spine_app [OF that]) (use assms(3) in \<open>cases ts; simp\<close>)
      from means_moves [OF s3(2) b2 this] show ?thesis using S assms(3) by simp
    qed
    then have "verdict \<Sigma> a (Tm x ts) rest c (Inr ((if create a then ht else None, cl, False), upd c s3 (open_parens c) (at_text y rest)))"
      using verdictI [of a \<Sigma> "Tm x ts" c s3 cl 0 "if create a then ht else None" rest y] ty True mv.rel_trans [OF m2 s3(2)] s3(3) R(5)
      by (auto simp: head_ok_def simp del: infer.simps tm_den.simps)
    then show ?thesis using R(1) s3(1) by (auto simp: app_end_def)
  qed
qed

lemma tail_verdict:
  assumes "tail_done a (infer \<Sigma> t) rest (upd c s (open_parens c + 1) l) R \<or> app_fails a (infer \<Sigma> t) (upd c s (open_parens c + 1) l) R"
    "moves (heap c) s"
  shows "\<exists>R'. (\<forall>n. (case R of Inl e \<Rightarrow> Inl e | Inr (st, c') \<Rightarrow> app_end n a st c') = R') \<and> verdict \<Sigma> a t rest c R'"
  using assms(1)
proof
  assume "tail_done a (infer \<Sigma> t) rest (upd c s (open_parens c + 1) l) R"
  then obtain cl s2 y k where k: "\<not> create a" "meets_type a (infer \<Sigma> t)"
    "R = Inr (TailDone (None, cl, False), upd c s2 (open_parens c + int (Suc k)) (at_text y (rparens (Suc k) @ rest)))"
    "moves s s2" "comp_ok a s2 (infer \<Sigma> t) cl"
    by (auto simp: tail_done_def add.assoc)
  have "verdict \<Sigma> a t rest c (Inr ((None, cl, False), upd c s2 (open_parens c + int (Suc k)) (at_text y (rparens (Suc k) @ rest))))"
    by (rule verdictI [OF k(2) mv.rel_trans [OF assms(2) k(4)] k(5)]) (use k(1) in simp)
  then show ?thesis unfolding k(3) by (auto simp: app_end_def)
next
  assume f: "app_fails a (infer \<Sigma> t) (upd c s (open_parens c + 1) l) R"
  then consider (error) msg where "R = Inl (ReportError msg)"
    | (stuck) v c' where "R = Inr (TailDone v, c')" "left_over a c (open_parens c) v c'"
    using left_over_moves [OF _ assms(2)] by (fastforce simp: app_fails_def)
  then show ?thesis using f by cases (auto simp: app_end_def app_fails_def verdict_def)
qed

lemma check_application:
  assumes d: "\<forall>t \<in> set ts. checks_right \<Sigma> t" and "ts \<noteq> []"
    and c: "prepared \<Sigma> (tm_names (Tm x ts)) (heap c)" "asks (heap c) a" "sees (lx c) (tm_toks (Tm x ts) @ rest)"
  shows "\<exists>R. (\<forall>\<^sub>F n in sequentially. check n a c = R) \<and> verdict \<Sigma> a (Tm x ts) rest c R"
proof (cases "\<Sigma> x")
  case None
  have "prepared \<Sigma> {x} (heap c)" using prepared_mono [OF c(1)] by simp
  from app_undeclared [where \<Sigma> = \<Sigma> and x = x, OF this None c(3) assms(2)] obtain msg where
    "\<forall>\<^sub>F n in sequentially. check n a c = Inl (ReportError msg)" by blast
  moreover have "verdict \<Sigma> a (Tm x ts) rest c (Inl (ReportError msg))"
    by (rule verdict_error) (use None not_meets_None in simp)
  ultimately show ?thesis by blast
next
  case (Some adr)
  then obtain b ds r where S: "\<Sigma> x = Some (b, ds, r)" by (cases adr) auto
  from check_app_args [where \<Sigma> = \<Sigma> and x = x, OF d assms(2) S c] obtain s l R where
    R: "moves (heap c) s" "args_verdict \<Sigma> a ts ds r [FSym b] rest (upd c s (open_parens c + 1) l) R"
      "\<forall>\<^sub>F n in sequentially. check (Suc n) a c = (case R of Inl e \<Rightarrow> Inl e | Inr (st, c') \<Rightarrow> app_end n a st c')" by blast
  obtain R' where R': "\<And>n. (case R of Inl e \<Rightarrow> Inl e | Inr (st, c') \<Rightarrow> app_end (Suc n) a st c') = R'" "verdict \<Sigma> a (Tm x ts) rest c R'"
    using R(2) finish_verdict [where \<Sigma> = \<Sigma> and x = x, OF _ S assms(2) prepared_bounded [OF c(1)] c(2) R(1), of rest l R] tail_verdict [OF _ R(1), of a \<Sigma> "Tm x ts"]
    unfolding args_verdict_def infer_app [where \<Sigma> = \<Sigma> and x = x, OF S, symmetric] by blast
  have "\<forall>\<^sub>F n in sequentially. check (Suc n) a c = R'"
    using R(3) eventually_gt_at_top [of 0]
  proof eventually_elim
    case (elim n)
    then obtain j where j: "n = Suc j" by (cases n) auto
    show ?case using elim(1) R'(1) [of j] unfolding j by (rule trans)
  qed
  then have "\<forall>\<^sub>F n in sequentially. check n a c = R'" using eventually_sequentially_Suc [of "\<lambda>n. check n a c = R'"] by blast
  with R'(2) show ?thesis by blast
qed

section \<open>The checker checks_right typing\<close>

lemma check_decides: "checks_right \<Sigma> t"
proof (induction t)
  case (Num k)
  have "\<exists>R. (\<forall>\<^sub>F n in sequentially. check n a c = R) \<and> verdict \<Sigma> a (Num k) rest c R"
    if "prepared \<Sigma> (tm_names (Num k)) (heap c)" "asks (heap c) a" "sees (lx c) (tm_toks (Num k) @ rest)" for a c rest
  proof -
    from check_number [OF prepared_bounded [OF that(1)] that(2,3)] obtain R where
      R: "\<And>n. check (Suc n) a c = R" "verdict \<Sigma> a (Num k) rest c R" by blast
    with eventually_from_Suc [of "\<lambda>n. check n a c = R"] show ?thesis by blast
  qed
  then show ?case unfolding checks_right_def by blast
next
  case (Tm x ts)
  have "\<exists>R. (\<forall>\<^sub>F n in sequentially. check n a c = R) \<and> verdict \<Sigma> a (Tm x ts) rest c R"
    if c: "prepared \<Sigma> (tm_names (Tm x ts)) (heap c)" "asks (heap c) a" "sees (lx c) (tm_toks (Tm x ts) @ rest)" for a c rest
  proof (cases "ts = []")
    case True
    then have "fits (heap c) \<Sigma> x" "sees (lx c) ((name_tok x, x) # rest)" using c by (simp_all add: prepared_def)
    from check_constant [OF prepared_bounded [OF c(1)] c(2) this] True obtain R where
      R: "\<And>n. check (Suc (Suc n)) a c = R" "verdict \<Sigma> a (Tm x ts) rest c R" by blast
    from R(1) have "\<forall>\<^sub>F n in sequentially. check (Suc n) a c = R" by (rule eventually_from_Suc)
    then show ?thesis using R(2) eventually_sequentially_Suc [of "\<lambda>n. check n a c = R"] by blast
  next
    case False
    with Tm.IH c show ?thesis by (intro check_application) auto
  qed
  then show ?case unfolding checks_right_def by blast
qed

end
