(* ===== verification/LFSC_Names.thy ===== *)
theory LFSC_Names
  imports LFSC_Typing
begin

text \<open>
  A specification of typing that speaks of names only, and the graph that stands for an environment of names: \<open>good\<close> relates
  the state of the checker to an environment, \<open>good_declare\<close> says that a new binding extends it, and \<open>infer_sig\<close>
  that typing by names is typing by cells.
\<close>

section \<open>Typing by names\<close>

text \<open>
  The specification of typing speaks of names only.  A base type is \<open>kind\<close> or a declared name; an environment gives every declared name
  its domains and its range.
\<close>

datatype base = Kind | Base string

type_synonym tenv = "string \<Rightarrow> (base list \<times> base) option"

fun tm_type :: "tenv \<Rightarrow> tm \<Rightarrow> (base list \<times> base) option" where
  "tm_type \<Gamma> (Num n) = Some ([], Base ''mpz'')"
| "tm_type \<Gamma> (Tm x ts) =
     (case \<Gamma> x of
        None \<Rightarrow> None
      | Some (ds, r) \<Rightarrow>
          if length ts \<le> length ds \<and> map (tm_type \<Gamma>) ts = map (\<lambda>d. Some ([], d)) (take (length ts) ds)
          then Some (drop (length ts) ds, r) else None)"

definition bases :: "tenv \<Rightarrow> base set" where
  "bases \<Gamma> = insert Kind (Base ` dom \<Gamma>)"

definition closed_env :: "tenv \<Rightarrow> bool" where
  "closed_env \<Gamma> \<longleftrightarrow> (\<forall>x ds r. \<Gamma> x = Some (ds, r) \<longrightarrow> set (r # ds) \<subseteq> bases \<Gamma>) \<and>
     \<Gamma> ''type'' = Some ([], Kind) \<and> ''mpz'' \<in> dom \<Gamma>"

text \<open>The cells of the base types, and the signature in the graph that the environment stands for.\<close>

definition sig_of :: "(base \<Rightarrow> addr) \<Rightarrow> tenv \<Rightarrow> signature" where
  "sig_of \<alpha> \<Gamma> x = map_option (\<lambda>(ds, r). (\<alpha> (Base x), map \<alpha> ds, \<alpha> r)) (\<Gamma> x)"

lemma tm_type_bases:
  assumes "closed_env \<Gamma>" "tm_type \<Gamma> t = Some (ds, r)"
  shows "set (r # ds) \<subseteq> bases \<Gamma>"
proof (cases t)
  case (Num n)
  then show ?thesis using assms by (auto simp: closed_env_def bases_def)
next
  case (Tm x ts)
  with assms(2) obtain es where es: "\<Gamma> x = Some (es, r)" "ds = drop (length ts) es" by (auto split: option.splits if_splits)
  then have "set (r # es) \<subseteq> bases \<Gamma>" using assms(1) unfolding closed_env_def by blast
  then show ?thesis using es(2) set_drop_subset [of "length ts" es] by auto
qed

lemma infer_sig:
  assumes "closed_env \<Gamma>" "inj_on \<alpha> (bases \<Gamma>)" "\<alpha> (Base ''mpz'') = statMpz"
  shows "infer (sig_of \<alpha> \<Gamma>) t = map_option (\<lambda>(ds, r). (map \<alpha> ds, \<alpha> r)) (tm_type \<Gamma> t)"
proof (induction t)
  case (Tm x ts)
  show ?case
  proof (cases "\<Gamma> x")
    case (Some dr)
    then obtain ds r where x: "\<Gamma> x = Some (ds, r)" by (cases dr) auto
    have one: "infer (sig_of \<alpha> \<Gamma>) t = Some ([], \<alpha> d) \<longleftrightarrow> tm_type \<Gamma> t = Some ([], d)" if "t \<in> set ts" "d \<in> set ds" for t d
    proof -
      have "d \<in> bases \<Gamma>" using that(2) x assms(1) unfolding closed_env_def by force
      moreover have "set (snd tr # fst tr) \<subseteq> bases \<Gamma>" if "tm_type \<Gamma> t = Some tr" for tr
        using tm_type_bases [OF assms(1), of t "fst tr" "snd tr"] that by simp
      ultimately show ?thesis using Tm.IH [OF that(1)] inj_onD [OF assms(2)] by (cases "tm_type \<Gamma> t") (auto split: prod.splits)
    qed
    have "map (infer (sig_of \<alpha> \<Gamma>)) ts = map (\<lambda>d. Some ([], d)) (take (length ts) (map \<alpha> ds)) \<longleftrightarrow>
        map (tm_type \<Gamma>) ts = map (\<lambda>d. Some ([], d)) (take (length ts) ds)" if "length ts \<le> length ds"
      using that one by (simp add: list_eq_iff_nth_eq)
    moreover have "sig_of \<alpha> \<Gamma> x = Some (\<alpha> (Base x), map \<alpha> ds, \<alpha> r)" using x by (simp add: sig_of_def)
    ultimately show ?thesis using x by (auto simp: drop_map)
  qed (simp add: sig_of_def)
qed (simp add: assms(3))

section \<open>The graph of an environment\<close>

definition good :: "(base \<Rightarrow> addr) \<Rightarrow> tenv \<Rightarrow> st \<Rightarrow> bool" where
  "good \<alpha> \<Gamma> s \<longleftrightarrow>
     bounded s \<and> wf_sym s \<and> pivars s \<subseteq> {..<brk s} \<and> closed_env \<Gamma> \<and> inj_on \<alpha> (bases \<Gamma>) \<and>
     \<alpha> Kind = statKind \<and> \<alpha> (Base ''type'') = statType \<and> \<alpha> (Base ''mpz'') = statMpz \<and>
     node s statKind = Some (CExpr KIND []) \<and> node s statType = Some (CExpr TYPE_E []) \<and> node s statMpz = Some (CExpr MPZ []) \<and>
     (\<forall>x. fits s (sig_of \<alpha> \<Gamma>) x \<and> (\<Gamma> x = None \<longrightarrow> lookup s x = (None, None)))"

lemma good_moves: "good \<alpha> \<Gamma> s \<Longrightarrow> moves s s' \<Longrightarrow> good \<alpha> \<Gamma> s'"
  using moves_bounded [of s s'] moves_symbols [of s s'] moves_pivars [of s s'] moves_node [of s s'] moves_fits [of s s']
  unfolding good_def by (simp del: split_paired_All)

lemma good_base: "good \<alpha> \<Gamma> s \<Longrightarrow> b \<in> bases \<Gamma> \<Longrightarrow> base_type s (\<alpha> b)"
proof -
  assume g: "good \<alpha> \<Gamma> s" and b: "b \<in> bases \<Gamma>"
  show ?thesis
  proof (cases b)
    case Kind
    then show ?thesis using g by (simp add: good_def base_type_def)
  next
    case (Base x)
    with b obtain ds r where "\<Gamma> x = Some (ds, r)" by (auto simp: bases_def)
    moreover have "fits s (sig_of \<alpha> \<Gamma>) x" using g by (simp add: good_def)
    ultimately show ?thesis using Base by (auto simp: fits_def sig_of_def)
  qed
qed

lemma closed_static: "closed_env \<Gamma> \<Longrightarrow> {Kind, Base ''type'', Base ''mpz''} \<subseteq> bases \<Gamma> \<and> \<Gamma> ''type'' = Some ([], Kind)"
  by (auto simp: closed_env_def bases_def)

lemma good_static:
  assumes "good \<alpha> \<Gamma> s"
  shows "closed_env \<Gamma>" "inj_on \<alpha> (bases \<Gamma>)" "\<alpha> Kind = statKind" "\<alpha> (Base ''type'') = statType" "{Kind, Base ''type''} \<subseteq> bases \<Gamma>"
    "bounded s" "wf_sym s"
  using assms closed_static [of \<Gamma>] unfolding good_def by blast+

lemma good_prepared: "good \<alpha> \<Gamma> s \<Longrightarrow> prepared (sig_of \<alpha> \<Gamma>) X s"
  by (auto simp: good_def prepared_def base_type_def)

lemma good_infer: "good \<alpha> \<Gamma> s \<Longrightarrow> infer (sig_of \<alpha> \<Gamma>) t = map_option (\<lambda>(ds, r). (map \<alpha> ds, \<alpha> r)) (tm_type \<Gamma> t)"
  by (rule infer_sig) (simp_all add: good_def)

text \<open>A new binding in the symbol table; only the table changes.\<close>

lemma sym_insert_wf:
  assumes "wf_sym s" "key_ok x"
  shows "\<exists>t. sym_insert x p s = Inr (lookup s x, s\<lparr>symbols := t\<rparr>) \<and> wf_sym (s\<lparr>symbols := t\<rparr>) \<and>
    lookup (s\<lparr>symbols := t\<rparr>) = (lookup s)(x := p)"
proof -
  have wf: "wf_trie (None, None) (symbols s)" using assms(1) by (simp add: wf_sym_def)
  from trie_tab.ins_returns [OF wf assms(2)] obtain t where
    t: "insert_trie (None, None) x p (symbols s) = Inr (get_trie (None, None) x (symbols s), t)" by blast
  with trie_tab.ins_inv [OF wf assms(2) t] trie_tab.ins_get [OF wf assms(2) t] show ?thesis
    by (intro exI [of _ t]) (auto simp: sym_insert_def lookup_def wf_sym_def fun_eq_iff)
qed

lemma symbols_only [simp]:
  "bounded (s\<lparr>symbols := t\<rparr>) = bounded s" "pivars (s\<lparr>symbols := t\<rparr>) = pivars s" "base_type (s\<lparr>symbols := t\<rparr>) a = base_type s a"
  "simple_type (s\<lparr>symbols := t\<rparr>) p ds r = simple_type s p ds r"
proof -
  show n: "bounded (s\<lparr>symbols := t\<rparr>) = bounded s" "pivars (s\<lparr>symbols := t\<rparr>) = pivars s" "base_type (s\<lparr>symbols := t\<rparr>) a = base_type s a" for a
    by (simp_all add: bounded_def pivars_def base_type_def)
  have "telescope (s\<lparr>symbols := t\<rparr>) p ds r = telescope s p ds r"
    by (rule iffI) (erule telescope_grows [rotated], simp)+
  then show "simple_type (s\<lparr>symbols := t\<rparr>) p ds r = simple_type s p ds r" using n(3) by (simp add: simple_type_def)
qed

lemma new_symbol:
  assumes "bounded s" "pivars s \<subseteq> {..<brk s}" "new_expr (SymSExpr x) s = Inr (b, s1)"
  shows "moves s s1" "b = brk s" "node s1 b = Some (SymSExpr x)" "base_type s1 b"
proof -
  show "moves s s1" by (rule moves_new [OF mv.rel_refl assms(1,3)]) simp
  have b1: "b = brk s" "node s1 b = Some (SymSExpr x)" "sval s1 b = None" "pivars s1 \<subseteq> pivars s"
    using assms(3) by (auto simp: new_expr_def Let_def pivars_def split: if_splits) blast
  then show "b = brk s" "node s1 b = Some (SymSExpr x)" by simp_all
  show "base_type s1 b" using b1 assms(2) by (auto simp: base_type_def)
qed

text \<open>A declaration: a new symbol of the type \<open>p\<close>.\<close>

lemma good_declare:
  assumes g: "good \<alpha> \<Gamma> s" and x: "\<Gamma> x = None" "key_ok x" and p: "simple_type s p (map \<alpha> ds) (\<alpha> r)" "set (r # ds) \<subseteq> bases \<Gamma>"
    and b: "new_expr (SymSExpr x) s = Inr (b, s1)"
  shows "\<exists>s2. sym_insert x (Some b, Some p) s1 = Inr ((None, None), s2) \<and> good (\<alpha>(Base x := b)) (\<Gamma>(x \<mapsto> (ds, r))) s2"
proof -
  have bd: "bounded s" and pv: "pivars s \<subseteq> {..<brk s}" and wf: "wf_sym s" and cl: "closed_env \<Gamma>" and inj: "inj_on \<alpha> (bases \<Gamma>)"
    using g by (simp_all add: good_def)
  note m = new_symbol(1) [OF bd pv b] and b1 = new_symbol(2,3) [OF bd pv b] and base = new_symbol(4) [OF bd pv b]
  have g1: "good \<alpha> \<Gamma> s1" by (rule good_moves [OF g m])
  have wf1: "wf_sym s1" and l1: "lookup s1 x = (None, None)" using g1 x(1) by (simp_all add: good_def)
  from sym_insert_wf [OF wf1 x(2), of "(Some b, Some p)"] l1 obtain t where
    t: "sym_insert x (Some b, Some p) s1 = Inr ((None, None), s1\<lparr>symbols := t\<rparr>)" "wf_sym (s1\<lparr>symbols := t\<rparr>)"
      "lookup (s1\<lparr>symbols := t\<rparr>) = (lookup s1)(x := (Some b, Some p))" by auto
  let ?s2 = "s1\<lparr>symbols := t\<rparr>" and ?\<alpha> = "\<alpha>(Base x := b)" and ?\<Gamma> = "\<Gamma>(x \<mapsto> (ds, r))"
  have bs: "bases ?\<Gamma> = insert (Base x) (bases \<Gamma>)" "Base x \<notin> bases \<Gamma>" using x(1) by (auto simp: bases_def)
  have old: "?\<alpha> c = \<alpha> c" if "c \<in> bases \<Gamma>" for c using that bs(2) by auto
  have new: "\<alpha> c \<noteq> b" if "c \<in> bases \<Gamma>" for c
    using good_base [OF g that] base_type_node bd b1(1) by (fastforce simp: bounded_def)
  have "inj_on ?\<alpha> (bases ?\<Gamma>)"
    unfolding bs(1) using inj new old bs(2) by (auto simp: inj_on_def)
  moreover have "set (q # es) \<subseteq> bases ?\<Gamma>" if "?\<Gamma> y = Some (es, q)" for y es q
    using that cl p(2) unfolding closed_env_def bs(1) by (cases "y = x") (simp_all, blast+)
  then have "closed_env ?\<Gamma>" using cl x(1) unfolding closed_env_def by auto
  moreover have "fits ?s2 (sig_of ?\<alpha> ?\<Gamma>) y \<and> (?\<Gamma> y = None \<longrightarrow> lookup ?s2 y = (None, None))" for y
  proof (cases "y = x")
    case True
    have "Base x \<notin> set (r # ds)" using p(2) bs(2) by auto
    then have "map ?\<alpha> ds = map \<alpha> ds" "?\<alpha> r = \<alpha> r" by auto
    then have "sig_of ?\<alpha> ?\<Gamma> x = Some (b, map \<alpha> ds, \<alpha> r)" by (simp add: sig_of_def)
    moreover have "simple_type s1 p (map \<alpha> ds) (\<alpha> r)" by (rule moves_simple [OF m bd p(1)])
    ultimately show ?thesis using True t(3) base b1(2) by (simp add: fits_def)
  next
    case False
    have "sig_of ?\<alpha> ?\<Gamma> y = sig_of \<alpha> \<Gamma> y"
    proof (cases "\<Gamma> y")
      case (Some dr)
      then obtain es q where es: "\<Gamma> y = Some (es, q)" by (cases dr) auto
      then have "set (q # es) \<subseteq> bases \<Gamma>" using cl unfolding closed_env_def by blast
      then have "Base x \<notin> set (q # es)" using bs(2) by auto
      then have "map ?\<alpha> es = map \<alpha> es" "?\<alpha> q = \<alpha> q" by auto
      then show ?thesis using es False by (simp add: sig_of_def)
    qed (use False in \<open>simp add: sig_of_def\<close>)
    moreover have "fits s1 (sig_of \<alpha> \<Gamma>) y \<and> (\<Gamma> y = None \<longrightarrow> lookup s1 y = (None, None))" using g1 by (simp add: good_def)
    ultimately show ?thesis using False t(3) by (auto simp: fits_def split: option.splits)
  qed
  moreover have "?\<alpha> Kind = statKind" "?\<alpha> (Base ''type'') = statType" "?\<alpha> (Base ''mpz'') = statMpz"
    using g old [of Kind] old [of "Base ''type''"] old [of "Base ''mpz''"] closed_static [OF cl] unfolding good_def by auto
  ultimately have "good ?\<alpha> ?\<Gamma> ?s2" using g1 t(2) by (simp add: good_def)
  with t(1) show ?thesis by blast
qed

end
