(* ===== verification/LFSC_Declare.thy ===== *)
theory LFSC_Declare
  imports LFSC_Names LFSC_File
begin

text \<open>
  The declarations \<open>declare\<close>, \<open>declare-rule\<close> and \<open>declare-type\<close> for types over declared names: each reports an error or
  extends the environment, as the specification by names says.  The types are built as telescopes of new \<open>PI\<close> cells
  (\<open>build_pi\<close>, \<open>check_type\<close>).
\<close>

section \<open>Building types\<close>

text \<open>A telescope whose variables have no value yet.\<close>

inductive raw :: "st \<Rightarrow> addr \<Rightarrow> addr list \<Rightarrow> addr \<Rightarrow> bool" for s where
  raw_Nil: "raw s r [] r"
| raw_Cons: "node s p = Some (CExpr PI [v, d, q]) \<Longrightarrow> node s v = Some (SymSExpr x) \<Longrightarrow> sval s v = None \<Longrightarrow> raw s q ds r \<Longrightarrow>
    raw s p (d # ds) r"

lemma raw_telescope: "raw s p ds r \<Longrightarrow> telescope s p ds r"
  by (induction rule: raw.induct) (auto intro: telescope.intros)

lemma raw_grows:
  assumes "\<And>a nd. node s a = Some nd \<Longrightarrow> node s' a = Some nd \<and> sval s' a = sval s a"
  shows "raw s p ds r \<Longrightarrow> raw s' p ds r"
  by (induction rule: raw.induct) (auto intro!: raw.intros dest: assms)

text \<open>The occurs check returns on it.\<close>

definition settles :: "(nat \<Rightarrow> (st, 'a) M) \<Rightarrow> st \<Rightarrow> bool" where
  "settles m s \<longleftrightarrow> (\<exists>v. returns m s (v, s))"

lemma settles_atom: "\<exists>v. \<forall>n. m (Suc n) s = Inr (v, s) \<Longrightarrow> settles m s"
  unfolding settles_def using returns_Suc [OF returns_all, of m s] by blast

definition leaf :: "st \<Rightarrow> addr \<Rightarrow> bool" where
  "leaf s a \<longleftrightarrow> (\<exists>x. node s a = Some (SymSExpr x)) \<and> sval s a = None \<or> (\<exists>opr. node s a = Some (CExpr opr []))"

lemma base_leaf: "base_type s a \<Longrightarrow> leaf s a"
  by (auto simp: base_type_def leaf_def)

lemma leaf_grows: "leaf s a \<Longrightarrow> (\<And>a nd. node s a = Some nd \<Longrightarrow> node s' a = Some nd \<and> sval s' a = sval s a) \<Longrightarrow> leaf s' a"
  unfolding leaf_def by metis

lemma free_in_leaf: "leaf s a \<Longrightarrow> settles (\<lambda>n. free_in_rec n x vis a) s"
  by (rule settles_atom) (cases "a \<in> set vis", auto simp: leaf_def run_simps)

lemma free_in_raw:
  assumes "raw s p ds r" "\<forall>b \<in> set (r # ds). leaf s b"
  shows "settles (\<lambda>n. free_in_rec n x vis p) s"
  using assms
proof (induction arbitrary: vis rule: raw.induct)
  case (raw_Nil r)
  then show ?case using free_in_leaf [of s r x vis] by simp
next
  case (raw_Cons p v d q y ds r)
  show ?case
  proof (cases "p \<in> set vis \<or> v = x")
    case True
    then show ?thesis using raw_Cons.hyps(1) by (intro settles_atom) (auto simp: run_simps)
  next
    case False
    obtain b1 vis1 where 1: "returns (\<lambda>n. free_in_rec n x (p # vis) v) s ((b1, vis1), s)"
      using free_in_leaf [of s v x "p # vis"] raw_Cons.hyps(2,3) unfolding settles_def leaf_def by auto
    obtain b2 vis2 where 2: "returns (\<lambda>n. free_in_rec n x vis1 d) s ((b2, vis2), s)"
      using free_in_leaf [of s d x vis1] raw_Cons.prems unfolding settles_def by auto
    obtain b3 vis3 where 3: "returns (\<lambda>n. free_in_rec n x vis2 q) s ((b3, vis3), s)"
      using raw_Cons.IH [of vis2] raw_Cons.prems unfolding settles_def by auto
    have "returns (\<lambda>n. free_in_rec n x vis p) s
        (if b1 then (True, vis1) else if b2 then (True, vis2) else if b3 then (True, vis3) else (False, vis3), s)"
      by (rule returns_Suc, rule returns_elim3 [OF 1 2 3]) (use False raw_Cons.hyps(1) in \<open>simp add: bnd_run getnode_run\<close>)
    then show ?thesis unfolding settles_def by blast
  qed
qed

lemma calc_free_in_raw:
  assumes "node s p = Some (CExpr PI [v, d, q])" "raw s q ds r" "\<forall>b \<in> set (r # ds). leaf s b"
  shows "\<exists>f. returns (\<lambda>n. calc_free_in n p) s ((), s\<lparr>flag := f\<rparr>)"
proof -
  let ?s = "s\<lparr>flag := (flag s)(p := False)\<rparr>"
  have "raw ?s q ds r" by (rule raw_grows [OF _ assms(2)]) simp
  moreover have "\<forall>b \<in> set (r # ds). leaf ?s b" using assms(3) by (simp add: leaf_def)
  ultimately obtain b vis where "returns (\<lambda>n. free_in_rec n v [] q) ?s ((b, vis), ?s)"
    using free_in_raw [of ?s q ds r v "[]"] unfolding settles_def by auto
  then have "returns (\<lambda>n. calc_free_in n p) s ((), s\<lparr>flag := (flag s)(p := b)\<rparr>)"
    by (rule returns_elim1)
      (use assms(1) in \<open>simp add: calc_free_in_def free_in_def bnd_run sq_run setflag_run getkid_run\<close>)
  then show ?thesis by blast
qed

text \<open>A \<open>PI\<close> cell over a type that was built.\<close>

lemma build_pi:
  assumes "moves s0 s" "bounded s" "brk s0 \<le> v" "node s v = Some (SymSExpr x)" "sval s v = None" "raw s q ds r"
    "\<forall>b \<in> set (r # d # ds). leaf s b"
  shows "\<exists>p s'. returns (\<lambda>n. bnd (mk_cexpr PI [Some v, Some d, Some q]) (\<lambda>e. sq (calc_free_in n e) (ret (Some e)))) s (Some p, s') \<and>
    moves s0 s' \<and> raw s' p (d # ds) r \<and> (\<forall>a < brk s. node s' a = node s a \<and> sval s' a = sval s a) \<and> brk s \<le> brk s' \<and>
    (\<forall>b \<in> set (r # d # ds). leaf s' b)"
proof -
  obtain p s1 where p: "new_expr (CExpr PI [v, d, q]) s = Inr (p, s1)" by (simp add: new_expr_def Let_def)
  have vb: "v < brk s" using assms(2,4) by (auto simp: bounded_def)
  have m1: "moves s0 s1" by (rule moves_new [OF assms(1,2) p]) (use assms(3) vb in simp)
  have n1: "node s1 p = Some (CExpr PI [v, d, q])" "\<And>a. a < brk s \<Longrightarrow> node s1 a = node s a \<and> sval s1 a = sval s a" "brk s \<le> brk s1"
    using p by (auto simp: new_expr_def Let_def)
  have o1: "node s1 a = Some nd \<and> sval s1 a = sval s a" if "node s a = Some nd" for a nd
    using that n1(2) [of a] assms(2) by (auto simp: bounded_def)
  have r1: "raw s1 q ds r" by (rule raw_grows [OF _ assms(6)]) (rule o1)
  have b1: "\<forall>b \<in> set (r # d # ds). leaf s1 b" using assms(7) leaf_grows o1 by blast
  then have "\<forall>b \<in> set (r # ds). leaf s1 b" by simp
  from calc_free_in_raw [OF n1(1) r1 this] obtain f where f: "returns (\<lambda>n. calc_free_in n p) s1 ((), s1\<lparr>flag := f\<rparr>)" by blast
  have "returns (\<lambda>n. bnd (mk_cexpr PI [Some v, Some d, Some q]) (\<lambda>e. sq (calc_free_in n e) (ret (Some e)))) s (Some p, s1\<lparr>flag := f\<rparr>)"
    by (rule returns_elim1 [OF f]) (use p in \<open>simp add: mk_cexpr_def bnd_run sq_run\<close>)
  moreover have "moves s0 (s1\<lparr>flag := f\<rparr>)" by (rule mv.rel_trans [OF m1 moves_flag])
  moreover have "raw s1 p (d # ds) r" by (rule raw_Cons [OF n1(1) _ _ r1]) (use o1 [OF assms(4)] assms(5) in auto)
  then have "raw (s1\<lparr>flag := f\<rparr>) p (d # ds) r" by (rule raw_grows [rotated]) simp
  moreover have "\<forall>b \<in> set (r # d # ds). leaf (s1\<lparr>flag := f\<rparr>) b" using b1 by (simp add: leaf_def)
  ultimately show ?thesis using n1(2,3) by (intro exI [of _ p] exI [of _ "s1\<lparr>flag := f\<rparr>"]) simp
qed

text \<open>The parameters of a declaration: new symbols and their types.\<close>

definition parameters :: "st \<Rightarrow> nat \<Rightarrow> (addr \<times> addr option) list \<Rightarrow> addr list \<Rightarrow> bool" where
  "parameters s b0 ps ds \<longleftrightarrow>
     list_all2 (\<lambda>p d. snd p = Some d \<and> b0 \<le> fst p \<and> base_type s (fst p) \<and> (\<exists>x. node s (fst p) = Some (SymSExpr x))) ps ds"

lemma parameters_moves: "parameters s b0 ps ds \<Longrightarrow> moves s s' \<Longrightarrow> bounded s \<Longrightarrow> parameters s' b0 ps ds"
  unfolding parameters_def by (erule list_all2_mono) (auto dest: moves_base moves_node)

lemma base_sym_val: "base_type s v \<Longrightarrow> node s v = Some (SymSExpr x) \<Longrightarrow> sval s v = None"
  by (auto simp: base_type_def)

lemma build_pis_spec:
  assumes "moves s0 s" "bounded s" "bounded s0" "parameters s (brk s0) ps ds" "\<forall>b \<in> set (r # ds). base_type s0 b"
  shows "\<exists>e s'. returns (\<lambda>n. build_pis n ps (Some r)) s (Some e, s') \<and> moves s0 s' \<and> raw s' e ds r \<and>
    (\<forall>a < brk s. node s' a = node s a \<and> sval s' a = sval s a) \<and> brk s \<le> brk s'"
  using assms(4,5)
proof (induction ps arbitrary: ds)
  case Nil
  then have "ds = []" by (simp add: parameters_def)
  then show ?case using assms(1) raw_Nil by (intro exI [of _ r] exI [of _ s]) (auto intro: returns_all)
next
  case (Cons p ps)
  then obtain d ds' x where d: "ds = d # ds'" "snd p = Some d" "brk s0 \<le> fst p" "base_type s (fst p)" "node s (fst p) = Some (SymSExpr x)"
    "parameters s (brk s0) ps ds'"
    by (auto simp: parameters_def list_all2_Cons1)
  from Cons.IH [OF d(6)] Cons.prems(2) d(1) obtain e s1 where
    1: "returns (\<lambda>n. build_pis n ps (Some r)) s (Some e, s1)" "moves s0 s1" "raw s1 e ds' r"
      "\<forall>a < brk s. node s1 a = node s a \<and> sval s1 a = sval s a" "brk s \<le> brk s1" by auto
  have b1: "bounded s1" by (rule moves_bounded [OF 1(2) assms(3)])
  have v: "fst p < brk s" using assms(2) d(5) by (auto simp: bounded_def)
  then have n: "node s1 (fst p) = Some (SymSExpr x)" "sval s1 (fst p) = None" using 1(4) d(5) base_sym_val [OF d(4,5)] by auto
  have "\<forall>b \<in> set (r # d # ds'). leaf s1 b" using Cons.prems(2) d(1) moves_base [OF 1(2) assms(3)] base_leaf by auto
  from build_pi [OF 1(2) b1 d(3) n 1(3) this] obtain e2 s2 where
    2: "returns (\<lambda>n. bnd (mk_cexpr PI [Some (fst p), Some d, Some e]) (\<lambda>e. sq (calc_free_in n e) (ret (Some e)))) s1 (Some e2, s2)"
      "moves s0 s2" "raw s2 e2 (d # ds') r" "\<forall>a < brk s1. node s2 a = node s1 a \<and> sval s2 a = sval s1 a"
      "brk s1 \<le> brk s2" by auto
  have "returns (\<lambda>n. build_pis n (p # ps) (Some r)) s (Some e2, s2)"
    by (rule returns_elim2 [OF 1(1) 2(1)]) (use d(2) in \<open>simp add: bnd_run sq_run\<close>)
  then show ?case using 1(4,5) 2(2-5) d(1) by (intro exI [of _ e2] exI [of _ s2]) auto
qed

section \<open>Reading declarations\<close>

abbreviation ident :: "string \<Rightarrow> token \<times> string" where
  "ident x \<equiv> (name_tok x, x)"

text \<open>A name that is checked: against \<open>type\<close>, or computing its type.\<close>

lemma check_named:
  assumes "prepared \<Sigma> {A} (heap c)" and "sees (lx c) (ident A # rest)" "asks (heap c) a" "create a"
  shows "if meets_type a (infer \<Sigma> (Tm A []))
    then \<exists>h y cl. (\<forall>\<^sub>F n in sequentially. check n a c = Inr ((Some (fst (the (\<Sigma> A))), cl, False), upd c h (open_parens c) (at_text y rest))) \<and>
           moves (heap c) h \<and> comp_ok a h (infer \<Sigma> (Tm A [])) cl
    else \<exists>msg. \<forall>\<^sub>F n in sequentially. check n a c = Inl (ReportError msg)"
proof -
  from checks_rightD [OF check_decides, of \<Sigma> "Tm A []" c a rest] assms obtain R where
    R: "\<forall>\<^sub>F n in sequentially. check n a c = R" "verdict \<Sigma> a (Tm A []) rest c R" by auto
  show ?thesis
  proof (cases "meets_type a (infer \<Sigma> (Tm A []))")
    case True
    have d: "tm_den \<Sigma> (Tm A []) = FSym (fst (the (\<Sigma> A)))" by simp
    from R(2) True assms(4) obtain b h y cl where b: "R = Inr ((Some b, cl, False), upd c h (open_parens c) (at_text y rest))" "moves (heap c) h"
      "comp_ok a h (infer \<Sigma> (Tm A [])) cl" "means h b (FSym (fst (the (\<Sigma> A))))"
      by (elim verdict_okE) (auto simp: d simp del: infer.simps tm_den.simps)
    have "b = fst (the (\<Sigma> A))" using b(4) by (auto elim: means.cases)
    with True R(1) b(1-3) show ?thesis by (auto simp del: infer.simps)
  next
    case False
    with R(2) assms(4) obtain msg where "R = Inl (ReportError msg)" by (auto simp: verdict_def left_over_def simp del: infer.simps)
    then show ?thesis using R(1) False by (auto simp del: infer.simps)
  qed
qed

lemma check_declared:
  assumes g: "good \<alpha> \<Gamma> (heap c)" and "sees (lx c) (ident A # rest)" "asks (heap c) a" "create a"
  shows "if meets_type a (map_option (\<lambda>(ds, r). (map \<alpha> ds, \<alpha> r)) (\<Gamma> A))
    then \<exists>h y cl. (\<forall>\<^sub>F n in sequentially. check n a c = Inr ((Some (\<alpha> (Base A)), cl, False), upd c h (open_parens c) (at_text y rest))) \<and>
           moves (heap c) h \<and> comp_ok a h (map_option (\<lambda>(ds, r). (map \<alpha> ds, \<alpha> r)) (\<Gamma> A)) cl
    else \<exists>msg. \<forall>\<^sub>F n in sequentially. check n a c = Inl (ReportError msg)"
proof -
  have "tm_type \<Gamma> (Tm A []) = \<Gamma> A" by (simp split: option.split)
  then have i: "infer (sig_of \<alpha> \<Gamma>) (Tm A []) = map_option (\<lambda>(ds, r). (map \<alpha> ds, \<alpha> r)) (\<Gamma> A)" using good_infer [OF g, of "Tm A []"] by simp
  have "fst (the (sig_of \<alpha> \<Gamma> A)) = \<alpha> (Base A)" if "meets_type a (infer (sig_of \<alpha> \<Gamma>) (Tm A []))"
    using that not_meets_None [of a] unfolding i by (cases "\<Gamma> A") (auto simp: sig_of_def)
  with check_named [OF good_prepared [OF g] assms(2-4)] show ?thesis unfolding i by (auto split: if_splits)
qed

lemma good_type_name:
  assumes g: "good \<alpha> \<Gamma> (heap c)" and "sees (lx c) (ident A # rest)" and a: "create a" "expected a = Some statType"
  shows "if \<Gamma> A = Some ([], Base ''type'')
    then \<exists>h y. (\<forall>\<^sub>F n in sequentially. check n a c = Inr ((Some (\<alpha> (Base A)), None, False), upd c h (open_parens c) (at_text y rest))) \<and> moves (heap c) h
    else \<exists>msg. \<forall>\<^sub>F n in sequentially. check n a c = Inl (ReportError msg)"
proof -
  note st = good_static [OF g]
  have "asks (heap c) a" using good_base [OF g, of "Base ''type''"] a(2) st(4,5) by (simp add: asks_def)
  note n = check_declared [OF g assms(2) this a(1)]
  have m: "meets_type a (map_option (\<lambda>(ds, r). (map \<alpha> ds, \<alpha> r)) (\<Gamma> A)) \<longleftrightarrow> \<Gamma> A = Some ([], Base ''type'')"
  proof (cases "\<Gamma> A")
    case (Some dr)
    then obtain ds r where dr: "\<Gamma> A = Some (ds, r)" by (cases dr) auto
    with st(1) have "r \<in> bases \<Gamma>" by (auto simp: closed_env_def)
    then show ?thesis using dr inj_onD [OF st(2), of r "Base ''type''"] st(4,5) by (auto simp: meets_type_def a)
  qed (simp add: meets_type_def a)
  have "comp_ok a h ty cl \<longleftrightarrow> cl = None" for h ty cl by (simp add: comp_ok_def a)
  with n show ?thesis unfolding m by (auto split: if_splits)
qed

text \<open>One parameter without a name.\<close>

definition is_type :: "tenv \<Rightarrow> string \<Rightarrow> bool" where
  "is_type \<Gamma> A \<longleftrightarrow> \<Gamma> A = Some ([], Base ''type'')"

lemma decl_item_name:
  assumes g: "good \<alpha> \<Gamma> (heap c)" and "sees (lx c) (ident A # rest)"
  shows "if is_type \<Gamma> A
    then \<exists>v h y. (\<forall>\<^sub>F n in sequentially. \<forall>ps. decl_item (check n) True (ps, []) c =
             Inr ((ps @ [(v, Some (\<alpha> (Base A)))], []), upd c h (open_parens c) (at_text y rest))) \<and>
           moves (heap c) h \<and> parameters h (brk (heap c)) [(v, Some (\<alpha> (Base A)))] [\<alpha> (Base A)]
    else \<exists>msg. \<forall>\<^sub>F n in sequentially. \<forall>ps. decl_item (check n) True (ps, []) c = Inl (ReportError msg)"
proof -
  have nt: "next_token (lx c) = Inr (name_tok A, at_text A rest)" by (rule next_sees [OF assms(2)]) simp
  let ?c = "upd c (heap c) (open_parens c) (peeked (name_tok A) A rest)"
  have "good \<alpha> \<Gamma> (heap ?c)" "sees (lx ?c) (ident A # rest)" using g sees_peeked by simp_all
  note n = good_type_name [OF this, of "ask True (Some statType)"]
  have i: "decl_item rec True (ps, []) c = (case rec (ask True (Some statType)) ?c of Inl e \<Rightarrow> Inl e
      | Inr ((ty, _, _), c') \<Rightarrow> bnd (onheap (new_expr (SymSExpr ''_''))) (\<lambda>v. ret (ps @ [(v, ty)], [])) c')" for rec ps
    using nt by (simp add: decl_item_def check_decl_list_item_def step_simps reinsert_at split: sum.split prod.split)
  show ?thesis
  proof (cases "is_type \<Gamma> A")
    case True
    with n obtain h y where h: "\<forall>\<^sub>F n in sequentially. check n (ask True (Some statType)) ?c =
        Inr ((Some (\<alpha> (Base A)), None, False), upd c h (open_parens c) (at_text y rest))" "moves (heap c) h" by (auto simp: is_type_def ask_def)
    have gh: "good \<alpha> \<Gamma> h" by (rule good_moves [OF g h(2)])
    obtain v h1 where v: "new_expr (SymSExpr ''_'') h = Inr (v, h1)" by (simp add: new_expr_def Let_def)
    have "bounded h" "pivars h \<subseteq> {..<brk h}" using gh by (simp_all add: good_def)
    note v1 = new_symbol [OF this v]
    have "\<forall>\<^sub>F n in sequentially. \<forall>ps. decl_item (check n) True (ps, []) c =
        Inr ((ps @ [(v, Some (\<alpha> (Base A)))], []), upd c h1 (open_parens c) (at_text y rest))"
      using h(1) by eventually_elim (unfold i, simp add: v step_simps)
    moreover have "parameters h1 (brk (heap c)) [(v, Some (\<alpha> (Base A)))] [\<alpha> (Base A)]" using v1 moves_brk [OF h(2)] by (simp add: parameters_def)
    ultimately show ?thesis using True mv.rel_trans [OF h(2) v1(1)] by auto
  next
    case False
    with n obtain msg where "\<forall>\<^sub>F n in sequentially. check n (ask True (Some statType)) ?c = Inl (ReportError msg)" by (auto simp: is_type_def ask_def)
    then have "\<forall>\<^sub>F n in sequentially. \<forall>ps. decl_item (check n) True (ps, []) c = Inl (ReportError msg)"
      by eventually_elim (unfold i, simp)
    then show ?thesis using False by auto
  qed
qed

lemma decl_loop:
  assumes "good \<alpha> \<Gamma> (heap c)" "sees (lx c) (map ident As @ (TClose, '')'') # rest)"
  shows "if list_all (is_type \<Gamma>) As
    then \<exists>qs h y. (\<forall>\<^sub>F n in sequentially. \<forall>j ps. until_close (Suc (length As + j)) (decl_item (check n) True) (ps, []) c =
             Inr ((ps @ qs, []), upd c h (open_parens c) (at_text y rest))) \<and>
           moves (heap c) h \<and> parameters h (brk (heap c)) qs (map (\<lambda>A. \<alpha> (Base A)) As)
    else \<exists>msg. \<forall>\<^sub>F n in sequentially. \<forall>j ps. until_close (Suc (length As + j)) (decl_item (check n) True) (ps, []) c = Inl (ReportError msg)"
  using assms
proof (induction As arbitrary: c)
  case Nil
  then have "next_token (lx c) = Inr (TClose, at_text '')'' rest)" by (intro next_sees) simp_all
  then have "until_close (Suc (0 + j)) (decl_item (check n) True) (ps, []) c = Inr ((ps @ [], []), upd c (heap c) (open_parens c) (at_text '')'' rest))" for n j ps
    by (simp add: step_simps)
  then show ?case using mv.rel_refl by (auto simp: parameters_def simp del: until_close.simps)
next
  case (Cons A As)
  let ?rest = "map ident As @ (TClose, '')'') # rest"
  have nt: "next_token (lx c) = Inr (name_tok A, at_text A ?rest)" using next_sees Cons.prems(2) by simp
  let ?c = "upd c (heap c) (open_parens c) (peeked (name_tok A) A ?rest)"
  have gc: "good \<alpha> \<Gamma> (heap ?c)" "sees (lx ?c) (ident A # ?rest)" using Cons.prems(1) sees_peeked by simp_all
  have u: "until_close (Suc (length (A # As) + j)) (decl_item rec True) ps c =
      bnd (decl_item rec True ps) (until_close (Suc (length As + j)) (decl_item rec True)) ?c" for rec ps j
    using nt by (simp add: step_simps reinsert_at)
  show ?case
  proof (cases "is_type \<Gamma> A")
    case False
    with decl_item_name [OF gc] obtain msg where "\<forall>\<^sub>F n in sequentially. \<forall>ps. decl_item (check n) True (ps, []) ?c = Inl (ReportError msg)" by auto
    then have "\<forall>\<^sub>F n in sequentially. \<forall>j ps. until_close (Suc (length (A # As) + j)) (decl_item (check n) True) (ps, []) c = Inl (ReportError msg)"
      unfolding u by eventually_elim (simp add: bnd_run)
    then show ?thesis using False by auto
  next
    case True
    with decl_item_name [OF gc] obtain v h y where
      h: "\<forall>\<^sub>F n in sequentially. \<forall>ps. decl_item (check n) True (ps, []) ?c =
            Inr ((ps @ [(v, Some (\<alpha> (Base A)))], []), upd c h (open_parens c) (at_text y ?rest))"
        "moves (heap c) h" "parameters h (brk (heap c)) [(v, Some (\<alpha> (Base A)))] [\<alpha> (Base A)]" by auto
    let ?d = "upd c h (open_parens c) (at_text y ?rest)"
    have gd: "good \<alpha> \<Gamma> (heap ?d)" "sees (lx ?d) ?rest" using good_moves [OF Cons.prems(1) h(2)] sees_at by simp_all
    show ?thesis
    proof (cases "list_all (is_type \<Gamma>) As")
      case all: True
      with Cons.IH [OF gd] obtain qs h2 z where
        q: "\<forall>\<^sub>F n in sequentially. \<forall>j ps. until_close (Suc (length As + j)) (decl_item (check n) True) (ps, []) ?d =
              Inr ((ps @ qs, []), upd c h2 (open_parens c) (at_text z rest))"
          "moves h h2" "parameters h2 (brk h) qs (map (\<lambda>A. \<alpha> (Base A)) As)" by auto
      have "\<forall>\<^sub>F n in sequentially. \<forall>j ps. until_close (Suc (length (A # As) + j)) (decl_item (check n) True) (ps, []) c =
          Inr ((ps @ (v, Some (\<alpha> (Base A))) # qs, []), upd c h2 (open_parens c) (at_text z rest))"
        unfolding u using h(1) q(1) by eventually_elim (simp add: bnd_run del: until_close.simps)
      moreover have "parameters h2 (brk (heap c)) ((v, Some (\<alpha> (Base A))) # qs) (map (\<lambda>A. \<alpha> (Base A)) (A # As))"
        using parameters_moves [OF h(3) q(2) good_static(6) [OF good_moves [OF Cons.prems(1) h(2)]]] q(3) moves_brk [OF h(2)]
        by (auto simp: parameters_def elim!: list_all2_mono)
      ultimately show ?thesis using True all mv.rel_trans [OF h(2) q(2)] by auto
    next
      case no: False
      with Cons.IH [OF gd] obtain msg where
        "\<forall>\<^sub>F n in sequentially. \<forall>j ps. until_close (Suc (length As + j)) (decl_item (check n) True) (ps, []) ?d = Inl (ReportError msg)" by auto
      with h(1) have "\<forall>\<^sub>F n in sequentially. \<forall>j ps. until_close (Suc (length (A # As) + j)) (decl_item (check n) True) (ps, []) c = Inl (ReportError msg)"
        unfolding u by eventually_elim (simp add: bnd_run del: until_close.simps)
      then show ?thesis using no by auto
    qed
  qed
qed

lemma eat_open: "sees (lx c) ((TOpen, ''('') # ts) \<Longrightarrow> eat TOpen c = Inr ((), upd c (heap c) (open_parens c) (at_text ''('' ts))"
  using next_sees [of "lx c" TOpen "''(''" ts] by (simp add: eat_token_def step_simps)

lemma decl_list:
  assumes "good \<alpha> \<Gamma> (heap c)" "sees (lx c) ((TOpen, ''('') # map ident As @ (TClose, '')'') # rest)"
  shows "if list_all (is_type \<Gamma>) As
    then \<exists>qs h y. (\<forall>\<^sub>F n in sequentially. check_decl_list (check n) n True c = Inr ((qs, []), upd c h (open_parens c) (at_text y rest))) \<and>
           moves (heap c) h \<and> parameters h (brk (heap c)) qs (map (\<lambda>A. \<alpha> (Base A)) As)
    else \<exists>msg. \<forall>\<^sub>F n in sequentially. check_decl_list (check n) n True c = Inl (ReportError msg)"
proof -
  let ?ts = "map ident As @ (TClose, '')'') # rest"
  let ?c = "upd c (heap c) (open_parens c) (at_text ''('' ?ts)"
  have u: "check_decl_list (check n) n True c = until_close n (decl_item (check n) True) ([], []) ?c" for n
    using eat_open [OF assms(2)] by (simp add: check_decl_list_def sq_run)
  have ev: "\<forall>\<^sub>F n in sequentially. check_decl_list (check n) n True c = R"
    if "\<forall>\<^sub>F n in sequentially. \<forall>j ps. until_close (Suc (length As + j)) (decl_item (check n) True) (ps, []) ?c = f ps" "f [] = R" for f R
    using that(1) eventually_ge_at_top [of "Suc (length As)"]
  proof eventually_elim
    case (elim n)
    from elim(2) obtain j where j: "n = Suc (length As + j)" by (metis add_Suc le_Suc_ex)
    show ?case unfolding u that(2) [symmetric] using elim(1) [rule_format, of j "[]"] j by simp
  qed
  have gc: "good \<alpha> \<Gamma> (heap ?c)" "sees (lx ?c) ?ts" using assms(1) sees_at by simp_all
  show ?thesis
  proof (cases "list_all (is_type \<Gamma>) As")
    case True
    with decl_loop [OF gc] obtain qs h y where
      q: "\<forall>\<^sub>F n in sequentially. \<forall>j ps. until_close (Suc (length As + j)) (decl_item (check n) True) (ps, []) ?c =
             Inr ((ps @ qs, []), upd c h (open_parens c) (at_text y rest))" "moves (heap c) h" "parameters h (brk (heap c)) qs (map (\<lambda>A. \<alpha> (Base A)) As)"
      by auto
    from ev [OF q(1)] q(2,3) True show ?thesis by auto
  next
    case False
    with decl_loop [OF gc] obtain msg where
      q: "\<forall>\<^sub>F n in sequentially. \<forall>j ps. until_close (Suc (length As + j)) (decl_item (check n) True) (ps, []) ?c = Inl (ReportError msg)"
      by auto
    from ev [OF q] False show ?thesis by auto
  qed
qed

section \<open>Declarations\<close>

text \<open>The cmd_outcome of a command: the environment after it, or an error.\<close>

definition cmd_outcome :: "tenv option \<Rightarrow> string list \<Rightarrow> (token \<times> string) list \<Rightarrow> (nat \<Rightarrow> (cs, unit) M) \<Rightarrow> cs \<Rightarrow> bool" where
  "cmd_outcome \<Gamma>' ls rest m c \<longleftrightarrow> (case \<Gamma>' of
     Some \<Gamma> \<Rightarrow> \<exists>\<alpha> h y. (\<forall>\<^sub>F n in sequentially. m n c = Inr ((), (upd c h (open_parens c) (at_text y rest))\<lparr>out := out c @ ls\<rparr>)) \<and> good \<alpha> \<Gamma> h
   | None \<Rightarrow> \<exists>msg. \<forall>\<^sub>F n in sequentially. m n c = Inl (ReportError msg))"

lemma cmd_outcome_error: "\<forall>\<^sub>F n in sequentially. m n c = Inl (ReportError msg) \<Longrightarrow> cmd_outcome None ls rest m c"
  by (auto simp: cmd_outcome_def)

text \<open>The end of a declaration.\<close>

definition install :: "string \<Rightarrow> addr option \<Rightarrow> (cs, unit) M" where
  "install x t = bnd (onheap (new_expr (SymSExpr x))) (\<lambda>s. bnd (onheap (sym_insert x (Some s, t))) (no_rebind x))"

lemma install_spec:
  assumes g: "good \<alpha> \<Gamma> (heap c)" and x: "key_ok x" and p: "simple_type (heap c) p (map \<alpha> ds) (\<alpha> r)" "set (r # ds) \<subseteq> bases \<Gamma>"
  shows "if \<Gamma> x = None
    then \<exists>\<alpha>' h. install x (Some p) c = Inr ((), upd c h (open_parens c) (lx c)) \<and> good \<alpha>' (\<Gamma>(x \<mapsto> (ds, r))) h
    else \<exists>msg. install x (Some p) c = Inl (ReportError msg)"
proof -
  obtain b s1 where b: "new_expr (SymSExpr x) (heap c) = Inr (b, s1)" by (simp add: new_expr_def Let_def)
  show ?thesis
  proof (cases "\<Gamma> x = None")
    case True
    from good_declare [OF g True x p b] obtain s2 where
      "sym_insert x (Some b, Some p) s1 = Inr ((None, None), s2)" "good (\<alpha>(Base x := b)) (\<Gamma>(x \<mapsto> (ds, r))) s2" by blast
    with True b show ?thesis by (auto simp: install_def step_simps no_rebind_def)
  next
    case False
    have "bounded (heap c)" "pivars (heap c) \<subseteq> {..<brk (heap c)}" using g by (simp_all add: good_def)
    from good_moves [OF g new_symbol(1) [OF this b]] have g1: "good \<alpha> \<Gamma> s1" .
    then have "wf_sym s1" "fits s1 (sig_of \<alpha> \<Gamma>) x" by (simp_all add: good_def)
    moreover from this(2) False have "fst (lookup s1 x) \<noteq> None" by (auto simp: fits_def sig_of_def)
    moreover from sym_insert_wf [OF \<open>wf_sym s1\<close> x, of "(Some b, Some p)"] obtain t where
      "sym_insert x (Some b, Some p) s1 = Inr (lookup s1 x, s1\<lparr>symbols := t\<rparr>)" by blast
    ultimately show ?thesis using False b by (auto simp: install_def step_simps no_rebind_def rebind_error_def report_error_def)
  qed
qed

text \<open>What can be the range of a declaration: a type, or \<open>type\<close> itself.\<close>

definition is_range :: "tenv \<Rightarrow> string \<Rightarrow> bool" where
  "is_range \<Gamma> R \<longleftrightarrow> \<Gamma> R = Some ([], Base ''type'') \<or> \<Gamma> R = Some ([], Kind)"

lemma sort_op:
  assumes g: "good \<alpha> \<Gamma> s" and p: "simple_type s p (map \<alpha> ds) (\<alpha> r)" "r \<in> bases \<Gamma>"
  shows "\<exists>pn. node s p = Some pn \<and> (is_type_or_kind (op_of pn) \<longleftrightarrow> ds = [] \<and> r \<in> {Kind, Base ''type''})"
proof (cases ds)
  case Nil
  note st = good_static [OF g]
  have n: "node s statKind = Some (CExpr KIND [])" "node s statType = Some (CExpr TYPE_E [])" "node s statMpz = Some (CExpr MPZ [])"
    using g by (simp_all add: good_def)
  have "p = \<alpha> r" "base_type s (\<alpha> r)" using p(1) Nil by (auto simp: simple_type_def telescope_simps)
  moreover have "r \<in> {Kind, Base ''type''} \<longleftrightarrow> \<alpha> r \<in> {statKind, statType}"
    using st(2-5) p(2) inj_onD [OF st(2)] by (metis insert_iff insert_subset singletonD)
  ultimately show ?thesis using Nil n by (auto simp: base_type_def is_type_or_kind_def)
next
  case (Cons d ds')
  with simple_type_node [OF p(1)] show ?thesis by (auto simp: is_type_or_kind_def)
qed

lemma prefix_at: "sees (lx c) (ident x # ts) \<Longrightarrow> onlex prefix_id c = Inr (x, upd c (heap c) (open_parens c) (at_text x ts))"
  using next_sees [of "lx c" "name_tok x" x ts] by (simp add: prefix_id_def step_simps token_str_at)

lemma out_same: "(upd c h o1 l)\<lparr>out := out c\<rparr> = upd c h o1 l"
  by (simp add: upd_def)

lemma cmd_outcome_ok:
  assumes "\<forall>\<^sub>F n in sequentially. m n c = Inr ((), upd c h (open_parens c) (at_text y rest))" "good \<alpha> \<Gamma> h"
  shows "cmd_outcome (Some \<Gamma>) [] rest m c"
  unfolding cmd_outcome_def option.case append_Nil2 out_same using assms by blast

text \<open>The step after the types were read: the type is built and the name is declared.\<close>

definition declare_pi :: "nat \<Rightarrow> string \<Rightarrow> (addr \<times> addr option) list \<Rightarrow> addr option \<Rightarrow> addr \<Rightarrow> (cs, unit) M" where
  "declare_pi f x qs r k =
     bnd (onheap (build_validate_pi f qs r k True)) (\<lambda>(p1, p2). sq (onheap (dec p2)) (install x p1))"

lemma declare_pi_spec:
  assumes g: "good \<alpha> \<Gamma> s0" and m: "moves s0 (heap c)" and x: "key_ok x"
    and q: "parameters (heap c) (brk s0) qs (map \<alpha> ds)" "set (r # ds) \<subseteq> bases \<Gamma>"
    and k: "node (heap c) k = Some kn" "is_type_or_kind (op_of kn)"
  shows "cmd_outcome (if \<Gamma> x = None then Some (\<Gamma>(x \<mapsto> (ds, r))) else None) [] rest (\<lambda>n. declare_pi n x qs (Some (\<alpha> r)) k)
    (upd c (heap c) (open_parens c) (at_text y rest))"
proof -
  have bd: "bounded s0" "bounded (heap c)" using good_static(6) [OF g] good_static(6) [OF good_moves [OF g m]] .
  have bs: "\<forall>b \<in> set (\<alpha> r # map \<alpha> ds). base_type s0 b" using good_base [OF g] q(2) by auto
  from build_pis_spec [OF m bd(2,1) q(1) bs] obtain e s1 where
    e: "returns (\<lambda>n. build_pis n qs (Some (\<alpha> r))) (heap c) (Some e, s1)" "moves s0 s1" "raw s1 e (map \<alpha> ds) (\<alpha> r)"
      "\<forall>a < brk (heap c). node s1 a = node (heap c) a \<and> sval s1 a = sval (heap c) a" by auto
  let ?c = "upd c (heap c) (open_parens c) (at_text y rest)"
  let ?d = "upd c (dec_st k s1) (open_parens c) (at_text y rest)"
  have m1: "moves s0 (dec_st k s1)" by (rule mv.rel_trans [OF e(2) moves_dec])
  have gd: "good \<alpha> \<Gamma> (heap ?d)" using good_moves [OF g m1] by simp
  have "simple_type s1 e (map \<alpha> ds) (\<alpha> r)"
    unfolding simple_type_def using raw_telescope [OF e(3)] bs moves_base [OF e(2) bd(1)] by blast
  from moves_simple [OF moves_dec moves_bounded [OF e(2) bd(1)] this, of k]
  have sd: "simple_type (heap ?d) e (map \<alpha> ds) (\<alpha> r)" by simp
  have k1: "node s1 k = Some kn" using e(4) k(1) bd(2) by (auto simp: bounded_def)
  have "declare_pi n x qs (Some (\<alpha> r)) k ?c = install x (Some e) ?d" if "build_pis n qs (Some (\<alpha> r)) (heap c) = Inr (Some e, s1)" for n
    using that k k1 by (simp add: declare_pi_def build_validate_pi_def step_simps getop_run dec_run)
  with e(1) have ev: "\<forall>\<^sub>F n in sequentially. declare_pi n x qs (Some (\<alpha> r)) k ?c = install x (Some e) ?d"
    unfolding returns_def by (auto elim!: eventually_mono)
  show ?thesis
  proof (cases "\<Gamma> x = None")
    case True
    with install_spec [OF gd x sd q(2)] obtain \<alpha>' h where "install x (Some e) ?d = Inr ((), upd c h (open_parens c) (at_text y rest))"
      "good \<alpha>' (\<Gamma>(x \<mapsto> (ds, r))) h" by auto
    with ev True show ?thesis using cmd_outcome_ok [of _ ?c h y rest \<alpha>'] by simp
  next
    case False
    with install_spec [OF gd x sd q(2)] obtain msg where "install x (Some e) ?d = Inl (ReportError msg)" by auto
    with ev False show ?thesis by (auto simp: cmd_outcome_def)
  qed
qed

text \<open>An cmd_outcome is that of the step reached.\<close>

lemma cmd_outcome_step:
  assumes "\<forall>\<^sub>F n in sequentially. m n c = m' n (upd c h (open_parens c) l)" "cmd_outcome \<Gamma>' ls rest m' (upd c h (open_parens c) l)"
  shows "cmd_outcome \<Gamma>' ls rest m c"
proof (cases \<Gamma>')
  case None
  with assms(2) obtain msg where "\<forall>\<^sub>F n in sequentially. m' n (upd c h (open_parens c) l) = Inl (ReportError msg)" by (auto simp: cmd_outcome_def)
  with assms(1) have "\<forall>\<^sub>F n in sequentially. m n c = Inl (ReportError msg)" by eventually_elim simp
  then show ?thesis using None by (auto simp: cmd_outcome_def)
next
  case (Some \<Gamma>)
  with assms(2) obtain \<alpha> h' y where
    "\<forall>\<^sub>F n in sequentially. m' n (upd c h (open_parens c) l) = Inr ((), (upd c h' (open_parens c) (at_text y rest))\<lparr>out := out c @ ls\<rparr>)" "good \<alpha> \<Gamma> h'"
    by (auto simp: cmd_outcome_def)
  moreover from this(1) assms(1) have "\<forall>\<^sub>F n in sequentially. m n c = Inr ((), (upd c h' (open_parens c) (at_text y rest))\<lparr>out := out c @ ls\<rparr>)"
    by eventually_elim simp
  ultimately show ?thesis using Some by (auto simp: cmd_outcome_def)
qed

lemma declare_type_eq:
  "cmd_declare_type f = bnd (onlex prefix_id) (\<lambda>x. bnd (check_decl_list (check f) f True) (\<lambda>(qs, olds).
     sq (onheap (put_back olds)) (declare_pi f x qs (Some statType) statKind)))"
  by (simp add: cmd_declare_type_def declare_pi_def install_def)

lemma cmd_declare_type_spec:
  assumes g: "good \<alpha> \<Gamma> (heap c)" and x: "key_ok x"
    and "sees (lx c) (ident x # (TOpen, ''('') # map ident As @ (TClose, '')'') # rest)"
  shows "cmd_outcome (if \<Gamma> x = None \<and> list_all (is_type \<Gamma>) As then Some (\<Gamma>(x \<mapsto> (map Base As, Base ''type''))) else None)
    [] rest cmd_declare_type c"
proof -
  let ?ts = "(TOpen, ''('') # map ident As @ (TClose, '')'') # rest"
  let ?c = "upd c (heap c) (open_parens c) (at_text x ?ts)"
  have p: "onlex prefix_id c = Inr (x, ?c)" by (rule prefix_at [OF assms(3)])
  have gc: "good \<alpha> \<Gamma> (heap ?c)" "sees (lx ?c) ?ts" using g sees_at by simp_all
  show ?thesis
  proof (cases "list_all (is_type \<Gamma>) As")
    case True
    with decl_list [OF gc] obtain qs h y where
      q: "\<forall>\<^sub>F n in sequentially. check_decl_list (check n) n True ?c = Inr ((qs, []), upd c h (open_parens c) (at_text y rest))"
        "moves (heap c) h" "parameters h (brk (heap c)) qs (map (\<lambda>A. \<alpha> (Base A)) As)" by auto
    let ?d = "upd c h (open_parens c) (at_text y rest)"
    have ev: "\<forall>\<^sub>F n in sequentially. cmd_declare_type n c = declare_pi n x qs (Some statType) statKind ?d"
      using q(1) by eventually_elim (simp add: declare_type_eq bnd_run sq_run p put_back_def onheap_run upd_fold)
    note st = good_static [OF g]
    have "set (Base ''type'' # map Base As) \<subseteq> bases \<Gamma>" using True st(5) by (auto simp: is_type_def bases_def list_all_iff)
    moreover have "node h statKind = Some (CExpr KIND [])" using good_moves [OF g q(2)] by (simp add: good_def)
    moreover have "parameters h (brk (heap c)) qs (map \<alpha> (map Base As))" using q(3) by (simp add: comp_def)
    ultimately have "cmd_outcome (if \<Gamma> x = None then Some (\<Gamma>(x \<mapsto> (map Base As, Base ''type''))) else None) [] rest
        (\<lambda>n. declare_pi n x qs (Some (\<alpha> (Base ''type''))) statKind) ?d"
      using declare_pi_spec [OF g, of "upd c h (open_parens c) (lx c)" x qs "map Base As" "Base ''type''" statKind _ rest y] q(2) x
      by (simp add: is_type_or_kind_def del: map_map)
    then show ?thesis
      using True st(4) cmd_outcome_step [where m = cmd_declare_type and m' = "\<lambda>n. declare_pi n x qs (Some statType) statKind", OF ev] by simp
  next
    case False
    with decl_list [OF gc] obtain msg where
      q: "\<forall>\<^sub>F n in sequentially. check_decl_list (check n) n True ?c = Inl (ReportError msg)" by auto
    have "\<forall>\<^sub>F n in sequentially. cmd_declare_type n c = Inl (ReportError msg)"
      using q by eventually_elim (simp add: declare_type_eq bnd_run p)
    then show ?thesis using False cmd_outcome_error by auto
  qed
qed

text \<open>The range of a declaration, with its kind.\<close>

lemma range_name:
  assumes g: "good \<alpha> \<Gamma> (heap c)" and "sees (lx c) (ident R # rest)" and a: "create a" "expected a = None" "computed a"
  shows "case \<Gamma> R of
      Some (ds, r) \<Rightarrow> \<exists>h y k kn. (\<forall>\<^sub>F n in sequentially. check n a c = Inr ((Some (\<alpha> (Base R)), Some k, False), upd c h (open_parens c) (at_text y rest))) \<and>
        moves (heap c) h \<and> node h k = Some kn \<and> (is_type_or_kind (op_of kn) \<longleftrightarrow> is_range \<Gamma> R) \<and> (\<forall>n. followDefs (Suc n) k h = Inr (k, h))
    | None \<Rightarrow> \<exists>msg. \<forall>\<^sub>F n in sequentially. check n a c = Inl (ReportError msg)"
proof -
  have "asks (heap c) a" using good_prepared [OF g] a by (simp add: asks_def prepared_def)
  note n = check_declared [OF g assms(2) this a(1)]
  show ?thesis
  proof (cases "\<Gamma> R")
    case None
    with n not_meets_None show ?thesis by simp
  next
    case (Some dr)
    then obtain ds r where R: "\<Gamma> R = Some (ds, r)" by (cases dr) auto
    then have "meets_type a (map_option (\<lambda>(ds, r). (map \<alpha> ds, \<alpha> r)) (\<Gamma> R))" by (simp add: meets_type_def a)
    with n R obtain h y k where h: "\<forall>\<^sub>F n in sequentially. check n a c = Inr ((Some (\<alpha> (Base R)), Some k, False), upd c h (open_parens c) (at_text y rest))"
      "moves (heap c) h" "simple_type h k (map \<alpha> ds) (\<alpha> r)" by (auto simp: comp_ok_def a)
    have "r \<in> bases \<Gamma>" using good_static(1) [OF g] R unfolding closed_env_def by force
    from sort_op [OF good_moves [OF g h(2)] h(3) this] R obtain kn where
      "node h k = Some kn" "is_type_or_kind (op_of kn) \<longleftrightarrow> is_range \<Gamma> R" by (auto simp: is_range_def)
    with R h followDefs_simple [OF h(3)] show ?thesis by auto
  qed
qed

lemma declare_rule_eq:
  "cmd_declare_rule f = bnd (onlex prefix_id) (\<lambda>x. bnd (check_decl_list (check f) f True) (\<lambda>(qs, olds).
     bnd (check f ((ask True None)\<lparr>computed := True\<rparr>)) (\<lambda>(r, kind0, _).
     sq (onheap (put_back olds)) (bnd (deref kind0) (declare_pi f x qs r)))))"
  by (simp add: cmd_declare_rule_def declare_pi_def [abs_def] install_def)

lemma declare_pi_error:
  "node (heap c) k = Some kn \<Longrightarrow> \<not> is_type_or_kind (op_of kn) \<Longrightarrow> declare_pi f x qs (Some r) k c = Inl (ReportError ''Invalid Pi-range'')"
  by (simp add: declare_pi_def build_validate_pi_def step_simps getop_run report_error_def)

text \<open>After the parameters: the range is checked and the name is declared; \<open>s0\<close> is the state before the parameters.\<close>

definition declare_range :: "string \<Rightarrow> (addr \<times> addr option) list \<Rightarrow> nat \<Rightarrow> (cs, unit) M" where
  "declare_range x qs f = bnd (check f ((ask True None)\<lparr>computed := True\<rparr>)) (\<lambda>(r, k, _). bnd (deref k) (declare_pi f x qs r))"

lemma declare_range_spec:
  assumes g: "good \<alpha> \<Gamma> s0" and m: "moves s0 (heap c)" and x: "key_ok x" and As: "list_all (is_type \<Gamma>) As"
    and qs: "parameters (heap c) (brk s0) qs (map (\<lambda>A. \<alpha> (Base A)) As)" and l: "sees (lx c) (ident R # rest)"
  shows "cmd_outcome (if \<Gamma> x = None \<and> is_range \<Gamma> R then Some (\<Gamma>(x \<mapsto> (map Base As, Base R))) else None) [] rest (declare_range x qs) c"
proof -
  let ?a = "(ask True None)\<lparr>computed := True\<rparr>"
  have gc: "good \<alpha> \<Gamma> (heap c)" by (rule good_moves [OF g m])
  note rn = range_name [OF gc l, of ?a]
  show ?thesis
  proof (cases "\<Gamma> R")
    case None
    with rn obtain msg where "\<forall>\<^sub>F n in sequentially. check n ?a c = Inl (ReportError msg)" by (auto simp: ask_def)
    then have "\<forall>\<^sub>F n in sequentially. declare_range x qs n c = Inl (ReportError msg)" by eventually_elim (simp add: declare_range_def bnd_run)
    then show ?thesis using None cmd_outcome_error by (auto simp: is_range_def)
  next
    case (Some dr)
    with rn obtain h z k kn where
      k: "\<forall>\<^sub>F n in sequentially. check n ?a c = Inr ((Some (\<alpha> (Base R)), Some k, False), upd c h (open_parens c) (at_text z rest))"
        "moves (heap c) h" "node h k = Some kn" "is_type_or_kind (op_of kn) \<longleftrightarrow> is_range \<Gamma> R" by (cases dr) (auto simp: ask_def)
    have ev: "\<forall>\<^sub>F n in sequentially. declare_range x qs n c = declare_pi n x qs (Some (\<alpha> (Base R))) k (upd c h (open_parens c) (at_text z rest))"
      using k(1) by eventually_elim (simp add: declare_range_def bnd_run)
    show ?thesis
    proof (cases "is_range \<Gamma> R")
      case False
      with ev k(3,4) have "\<forall>\<^sub>F n in sequentially. declare_range x qs n c = Inl (ReportError ''Invalid Pi-range'')"
        by (auto elim!: eventually_mono simp: declare_pi_error)
      then show ?thesis using False cmd_outcome_error by auto
    next
      case True
      have "set (Base R # map Base As) \<subseteq> bases \<Gamma>" using As Some by (auto simp: is_type_def bases_def list_all_iff)
      moreover have "parameters h (brk s0) qs (map \<alpha> (map Base As))"
        using parameters_moves [OF qs k(2) good_static(6) [OF gc]] by (simp add: comp_def)
      ultimately have "cmd_outcome (if \<Gamma> x = None then Some (\<Gamma>(x \<mapsto> (map Base As, Base R))) else None) [] rest
          (\<lambda>n. declare_pi n x qs (Some (\<alpha> (Base R))) k) (upd c h (open_parens c) (at_text z rest))"
        using declare_pi_spec [OF g, of "upd c h (open_parens c) (lx c)" x qs "map Base As" "Base R" k kn rest z]
          mv.rel_trans [OF m k(2)] x k(3,4) True by (simp del: map_map)
      then show ?thesis
        using True cmd_outcome_step [where m = "declare_range x qs" and m' = "\<lambda>n. declare_pi n x qs (Some (\<alpha> (Base R))) k", OF ev] by simp
    qed
  qed
qed

lemma cmd_declare_rule_spec:
  assumes g: "good \<alpha> \<Gamma> (heap c)" and x: "key_ok x"
    and "sees (lx c) (ident x # (TOpen, ''('') # map ident As @ (TClose, '')'') # ident R # rest)"
  shows "cmd_outcome (if \<Gamma> x = None \<and> list_all (is_type \<Gamma>) As \<and> is_range \<Gamma> R then Some (\<Gamma>(x \<mapsto> (map Base As, Base R))) else None)
    [] rest cmd_declare_rule c"
proof -
  let ?ts = "(TOpen, ''('') # map ident As @ (TClose, '')'') # ident R # rest"
  let ?c = "upd c (heap c) (open_parens c) (at_text x ?ts)"
  have p: "onlex prefix_id c = Inr (x, ?c)" by (rule prefix_at [OF assms(3)])
  have gc: "good \<alpha> \<Gamma> (heap ?c)" "sees (lx ?c) ?ts" using g sees_at by simp_all
  show ?thesis
  proof (cases "list_all (is_type \<Gamma>) As")
    case False
    with decl_list [OF gc] obtain msg where
      q: "\<forall>\<^sub>F n in sequentially. check_decl_list (check n) n True ?c = Inl (ReportError msg)" by auto
    have "\<forall>\<^sub>F n in sequentially. cmd_declare_rule n c = Inl (ReportError msg)"
      using q by eventually_elim (simp add: declare_rule_eq bnd_run p)
    then show ?thesis using False cmd_outcome_error by auto
  next
    case True
    with decl_list [OF gc] obtain qs h y where
      q: "\<forall>\<^sub>F n in sequentially. check_decl_list (check n) n True ?c = Inr ((qs, []), upd c h (open_parens c) (at_text y (ident R # rest)))"
        "moves (heap c) h" "parameters h (brk (heap c)) qs (map (\<lambda>A. \<alpha> (Base A)) As)" by auto
    have "\<forall>\<^sub>F n in sequentially. cmd_declare_rule n c = declare_range x qs n (upd c h (open_parens c) (at_text y (ident R # rest)))"
      using q(1) by eventually_elim (simp add: declare_rule_eq declare_range_def bnd_run sq_run p put_back_def onheap_run split: sum.split prod.split)
    from cmd_outcome_step [where m = cmd_declare_rule and m' = "declare_range x qs", OF this, OF declare_range_spec [OF g _ x True]] q(2,3) sees_at show ?thesis using True by simp
  qed
qed

section \<open>Types with binders\<close>

text \<open>A type \<open>(! y A ...)\<close> that ends in a name.  Inside, the name of the binder hides a declared one; it is not a type.\<close>

fun ty_toks :: "(string \<times> string) list \<Rightarrow> string \<Rightarrow> (token \<times> string) list" where
  "ty_toks [] R = [ident R]"
| "ty_toks ((y, A) # bs) R = (TOpen, ''('') # (TBang, ''!'') # ident y # ident A # ty_toks bs R @ [(TClose, '')'')]"

fun ty_ok :: "tenv \<Rightarrow> (string \<times> string) list \<Rightarrow> string \<Rightarrow> bool" where
  "ty_ok \<Gamma> [] R = is_range \<Gamma> R"
| "ty_ok \<Gamma> ((y, A) # bs) R = (is_type \<Gamma> A \<and> ty_ok (\<Gamma>(y := None)) bs R)"

definition scope :: "(base \<Rightarrow> addr) \<Rightarrow> tenv \<Rightarrow> tenv \<Rightarrow> signature \<Rightarrow> st \<Rightarrow> bool" where
  "scope \<alpha> \<Gamma> \<Gamma>' \<Sigma> s \<longleftrightarrow>
     prepared \<Sigma> UNIV s \<and> pivars s \<subseteq> {..<brk s} \<and>
     node s statKind = Some (CExpr KIND []) \<and> node s statType = Some (CExpr TYPE_E []) \<and> node s statMpz = Some (CExpr MPZ []) \<and>
     (\<forall>z. case \<Gamma>' z of
        Some dr \<Rightarrow> \<Gamma> z = Some dr \<and> \<Sigma> z = sig_of \<alpha> \<Gamma> z
      | None \<Rightarrow> (\<forall>b ds d. \<Sigma> z = Some (b, ds, d) \<longrightarrow> ds = [] \<and> d \<notin> {statType, statKind}))"

lemma scope_hidden: "scope \<alpha> \<Gamma> \<Gamma>' \<Sigma> s \<Longrightarrow> \<Gamma>' z = None \<Longrightarrow> \<Sigma> z = Some (b, ds, d) \<Longrightarrow> ds = [] \<and> d \<notin> {statType, statKind}"
  unfolding scope_def by (elim conjE allE [of _ z]) simp

lemma scope_visible: "scope \<alpha> \<Gamma> \<Gamma>' \<Sigma> s \<Longrightarrow> \<Gamma>' z = Some dr \<Longrightarrow> \<Gamma> z = Some dr \<and> \<Sigma> z = sig_of \<alpha> \<Gamma> z"
  unfolding scope_def by (elim conjE allE [of _ z]) simp

lemma good_scope: "good \<alpha> \<Gamma> s \<Longrightarrow> scope \<alpha> \<Gamma> \<Gamma> (sig_of \<alpha> \<Gamma>) s"
  using good_prepared [of \<alpha> \<Gamma> s UNIV] by (auto simp: good_def scope_def sig_of_def split: option.split)

lemma scope_moves: "scope \<alpha> \<Gamma> \<Gamma>' \<Sigma> s \<Longrightarrow> moves s s' \<Longrightarrow> scope \<alpha> \<Gamma> \<Gamma>' \<Sigma> s'"
  using prepared_moves [of s s' \<Sigma> UNIV] moves_pivars [of s s'] moves_node [of s s'] prepared_bounded [of \<Sigma> UNIV s]
  unfolding scope_def by (simp del: split_paired_All)

lemma scope_insert:
  assumes c: "scope \<alpha> \<Gamma> \<Gamma>' \<Sigma> s" and b: "base_type s b" "base_type s d" "d \<notin> {statType, statKind}"
    and t: "wf_sym (s\<lparr>symbols := t\<rparr>)" "lookup (s\<lparr>symbols := t\<rparr>) = (lookup s)(y := (Some b, Some d))"
  shows "scope \<alpha> \<Gamma> (\<Gamma>'(y := None)) (\<Sigma>(y \<mapsto> (b, [], d))) (s\<lparr>symbols := t\<rparr>)"
proof -
  have "fits (s\<lparr>symbols := t\<rparr>) (\<Sigma>(y \<mapsto> (b, [], d))) z" for z
  proof (cases "z = y")
    case True
    then show ?thesis using b t(2) by (simp add: fits_def simple_type_def telescope_simps)
  next
    case False
    moreover have "fits s \<Sigma> z" using c by (simp add: scope_def prepared_def)
    ultimately show ?thesis using t(2) by (auto simp: fits_def split: option.splits)
  qed
  then have "prepared (\<Sigma>(y \<mapsto> (b, [], d))) UNIV (s\<lparr>symbols := t\<rparr>)" using c t(1) by (simp add: scope_def prepared_def)
  moreover have "case (\<Gamma>'(y := None)) z of
      Some dr \<Rightarrow> \<Gamma> z = Some dr \<and> (\<Sigma>(y \<mapsto> (b, [], d))) z = sig_of \<alpha> \<Gamma> z
    | None \<Rightarrow> (\<forall>b' ds d'. (\<Sigma>(y \<mapsto> (b, [], d))) z = Some (b', ds, d') \<longrightarrow> ds = [] \<and> d' \<notin> {statType, statKind})" for z
    using scope_hidden [OF c, of z] scope_visible [OF c, of z] b(3) by (cases "z = y"; cases "\<Gamma>' z") auto
  ultimately show ?thesis using c unfolding scope_def by simp
qed

lemma scope_name:
  assumes c: "scope \<alpha> \<Gamma> \<Gamma>' \<Sigma> s" and g: "closed_env \<Gamma>" "inj_on \<alpha> (bases \<Gamma>)" "\<alpha> Kind = statKind" "\<alpha> (Base ''type'') = statType"
    and A: "\<Sigma> A = Some (b, ds, r)"
  shows "ds = [] \<and> r = statType \<longleftrightarrow> is_type \<Gamma>' A"
    and "ds = [] \<and> r \<in> {statType, statKind} \<longleftrightarrow> is_range \<Gamma>' A"
    and "is_range \<Gamma>' A \<Longrightarrow> b = \<alpha> (Base A) \<and> Base A \<in> bases \<Gamma>"
    and "is_type \<Gamma>' A \<Longrightarrow> b \<notin> {statType, statKind}"
proof -
  have st: "{Kind, Base ''type''} \<subseteq> bases \<Gamma>" "\<Gamma> ''type'' = Some ([], Kind)" using closed_static [OF g(1)] by auto
  show *: "ds = [] \<and> r = statType \<longleftrightarrow> is_type \<Gamma>' A" "ds = [] \<and> r \<in> {statType, statKind} \<longleftrightarrow> is_range \<Gamma>' A"
    "is_range \<Gamma>' A \<Longrightarrow> b = \<alpha> (Base A) \<and> Base A \<in> bases \<Gamma>"
  proof (atomize (full), cases "\<Gamma>' A")
    case None
    then have "ds = []" "r \<notin> {statType, statKind}" using scope_hidden [OF c None A] by simp_all
    then show "(ds = [] \<and> r = statType \<longleftrightarrow> is_type \<Gamma>' A) \<and> (ds = [] \<and> r \<in> {statType, statKind} \<longleftrightarrow> is_range \<Gamma>' A) \<and>
      (is_range \<Gamma>' A \<longrightarrow> b = \<alpha> (Base A) \<and> Base A \<in> bases \<Gamma>)" using None by (simp add: is_type_def is_range_def)
  next
    case (Some dr)
    obtain es q where dr: "dr = (es, q)" by (cases dr)
    have "\<Gamma> A = Some (es, q)" "\<Sigma> A = sig_of \<alpha> \<Gamma> A" using scope_visible [OF c Some] dr by simp_all
    then have e: "\<Gamma> A = Some (es, q)" "ds = map \<alpha> es" "r = \<alpha> q" "b = \<alpha> (Base A)" using A by (auto simp: sig_of_def)
    then have q: "q \<in> bases \<Gamma>" using g(1) unfolding closed_env_def by force
    have "r = statType \<longleftrightarrow> q = Base ''type''" "r = statKind \<longleftrightarrow> q = Kind"
      using e(3) g(3,4) q st(1) inj_onD [OF g(2), of q "Base ''type''"] inj_onD [OF g(2), of q Kind] by auto
    then show "(ds = [] \<and> r = statType \<longleftrightarrow> is_type \<Gamma>' A) \<and> (ds = [] \<and> r \<in> {statType, statKind} \<longleftrightarrow> is_range \<Gamma>' A) \<and>
      (is_range \<Gamma>' A \<longrightarrow> b = \<alpha> (Base A) \<and> Base A \<in> bases \<Gamma>)"
      using e Some dr by (auto simp: is_type_def is_range_def bases_def)
  qed
  show "b \<notin> {statType, statKind}" if t: "is_type \<Gamma>' A"
  proof -
    have r: "is_range \<Gamma>' A" using t by (simp add: is_type_def is_range_def)
    have "\<Gamma> A = Some ([], Base ''type'')" using scope_visible [OF c, of A] t by (simp add: is_type_def)
    then have "A \<noteq> ''type''" using st(2) by auto
    then show ?thesis
      using *(3) [OF r] g(3,4) st(1) inj_onD [OF g(2), of "Base A" "Base ''type''"] inj_onD [OF g(2), of "Base A" Kind] by auto
  qed
qed

text \<open>The case of \<open>check\<close> for a type that is built and whose kind is computed.\<close>

definition pi_body :: "(cargs \<Rightarrow> (cs, cres) M) \<Rightarrow> nat \<Rightarrow> cargs \<Rightarrow> string \<Rightarrow> addr \<Rightarrow> int \<Rightarrow> addr option \<Rightarrow> (cs, cres) M" where
  "pi_body rec f a y b prevo dm =
     bnd (onheap (sym_insert y (Some b, dm))) (\<lambda>prev.
     bnd (rec a) (\<lambda>(range1, comp, _).
     sq (eat_excess prevo) (
     sq eat_rparen (
     sq (onheap (sym_insert y prev)) (
     bnd (onheap (bnd (mk_cexpr PI [Some b, dm, range1]) (\<lambda>e. sq (calc_free_in f e) (ret (Some e))))) (\<lambda>r.
     ret (r, comp, False)))))))"

definition type_ask :: "cargs \<Rightarrow> bool" where
  "type_ask a \<longleftrightarrow> create a \<and> expected a = None \<and> computed a \<and> \<not> is_hole a \<and> \<not> inAsc a"

lemma check_pi_simple:
  assumes "type_ask a"
  shows "check_pi rec f a = bnd (onlex prefix_id) (\<lambda>y. bnd (onheap (new_expr (SymSExpr y))) (\<lambda>b. bnd (check_domain rec) (\<lambda>(prevo, dm).
    pi_body rec f a y b prevo dm)))"
proof -
  have a: "a\<lparr>is_hole := False, inAsc := False\<rparr> = a" "create a" "expected a = None" using assms by (cases a; simp add: type_ask_def)+
  have o: "bnd (onheap (mk_cexpr PI ks)) (\<lambda>r. sq (onheap (calc_free_in f r)) (ret (Some r, comp, False))) =
      bnd (onheap (bnd (mk_cexpr PI ks) (\<lambda>e. sq (calc_free_in f e) (ret (Some e))))) (\<lambda>r. ret (r, comp, False))" for ks comp
    by (rule ext) (auto simp: onheap_def bnd_run sq_run split: sum.split prod.split)
  have i: "sq (onheap (inc_opt None)) m = m" for m :: "(cs, cres) M"
    by (rule ext) (simp add: onheap_def inc_opt_def sq_run)
  have r: "sq (ret ()) m = m" for m :: "(cs, cres) M" by (rule ext) (simp add: sq_run)
  show ?thesis by (simp add: check_pi_def pi_body_def a i r o)
qed

lemma domain_spec:
  assumes c: "scope \<alpha> \<Gamma> \<Gamma>' \<Sigma> (heap c)" and g: "closed_env \<Gamma>" "inj_on \<alpha> (bases \<Gamma>)" "\<alpha> Kind = statKind" "\<alpha> (Base ''type'') = statType"
    and l: "sees (lx c) (ident A # rest)" "\<not> allow_run c"
  shows "if is_type \<Gamma>' A
    then \<exists>h y. (\<forall>\<^sub>F n in sequentially. check_domain (check n) c = Inr ((open_parens c, Some (\<alpha> (Base A))), upd c h (open_parens c) (at_text y rest))) \<and>
           moves (heap c) h
    else \<exists>msg. \<forall>\<^sub>F n in sequentially. check_domain (check n) c = Inl (ReportError msg)"
proof -
  let ?c = "c\<lparr>allow_run := True\<rparr>"
  let ?a = "ask True (Some statType)"
  have p: "prepared \<Sigma> {A} (heap ?c)" "asks (heap ?c) ?a" "create ?a" "sees (lx ?c) (ident A # rest)"
    using c prepared_mono [of \<Sigma> UNIV "heap c" "{A}"] l(1) by (simp_all add: scope_def asks_def ask_def base_type_def)
  note n = check_named [OF p(1,4,2,3)]
  have m: "meets_type ?a (infer \<Sigma> (Tm A [])) \<longleftrightarrow> is_type \<Gamma>' A"
  proof (cases "\<Sigma> A")
    case None
    then have "\<Gamma>' A = None" using scope_visible [OF c, of A] by (cases "\<Gamma>' A") (auto simp: sig_of_def)
    with None show ?thesis by (simp add: meets_type_def ask_def is_type_def)
  next
    case (Some bdr)
    then show ?thesis using scope_name(1) [OF c g, of A] by (cases bdr) (auto simp: meets_type_def ask_def)
  qed
  have b: "fst (the (\<Sigma> A)) = \<alpha> (Base A)" if "is_type \<Gamma>' A"
    using scope_visible [OF c, of A] that by (auto simp: is_type_def sig_of_def)
  have u: "upd ?c h o1 l\<lparr>allow_run := False\<rparr> = upd c h o1 l" for h o1 l using l(2) by (cases c) (simp add: upd_def)
  show ?thesis
  proof (cases "is_type \<Gamma>' A")
    case True
    with n m b obtain h y cl where h: "\<forall>\<^sub>F n in sequentially. check n ?a ?c = Inr ((Some (\<alpha> (Base A)), cl, False), upd ?c h (open_parens c) (at_text y rest))"
      "moves (heap c) h" by (auto simp del: infer.simps)
    from h(1) have "\<forall>\<^sub>F n in sequentially. check_domain (check n) c = Inr ((open_parens c, Some (\<alpha> (Base A))), upd c h (open_parens c) (at_text y rest))"
      by eventually_elim (simp add: check_domain_def bnd_run sq_run eat_excess_none u)
    with h(2) True show ?thesis by auto
  next
    case False
    with n m obtain msg where "\<forall>\<^sub>F n in sequentially. check n ?a ?c = Inl (ReportError msg)" by (auto simp del: infer.simps)
    then have "\<forall>\<^sub>F n in sequentially. check_domain (check n) c = Inl (ReportError msg)"
      by eventually_elim (simp add: check_domain_def bnd_run sq_run)
    with False show ?thesis by auto
  qed
qed

text \<open>A binding that is restored.\<close>

lemma moves_restore:
  assumes "moves (s\<lparr>symbols := t\<rparr>) s1" "wf_sym s1" "lookup s1 = (lookup s)(y := p)" "key_ok y"
  shows "\<exists>t'. sym_insert y (lookup s y) s1 = Inr (p, s1\<lparr>symbols := t'\<rparr>) \<and> moves s (s1\<lparr>symbols := t'\<rparr>)"
proof -
  from sym_insert_wf [OF assms(2,4), of "lookup s y"] assms(3) obtain t' where
    t': "sym_insert y (lookup s y) s1 = Inr (p, s1\<lparr>symbols := t'\<rparr>)" "wf_sym (s1\<lparr>symbols := t'\<rparr>)" "lookup (s1\<lparr>symbols := t'\<rparr>) = lookup s" by auto
  have "moves s (s1\<lparr>symbols := t'\<rparr>)" using assms(1) t'(2,3) by (simp add: moves_def)
  with t'(1) show ?thesis by blast
qed

text \<open>A cell whose value chain ends at once.\<close>

definition rigid :: "st \<Rightarrow> addr \<Rightarrow> bool" where
  "rigid s k \<longleftrightarrow> leaf s k \<or> (\<exists>ks. node s k = Some (CExpr PI ks))"

lemma rigid_simple: "simple_type s k ds r \<Longrightarrow> rigid s k"
  by (cases ds) (auto simp: simple_type_def telescope_simps rigid_def base_leaf)

lemma rigid_follow: "rigid s k \<Longrightarrow> followDefs (Suc n) k s = Inr (k, s)"
  by (auto simp: rigid_def leaf_def run_simps)

lemma rigid_grows: "rigid s k \<Longrightarrow> (\<And>a nd. node s a = Some nd \<Longrightarrow> node s' a = Some nd \<and> sval s' a = sval s a) \<Longrightarrow> rigid s' k"
  using leaf_grows [of s k s'] unfolding rigid_def by blast

text \<open>The cmd_outcome of checking a type.\<close>

definition type_outcome :: "(base \<Rightarrow> addr) \<Rightarrow> tenv \<Rightarrow> bool \<Rightarrow> (string \<times> string) list \<Rightarrow> string \<Rightarrow> (token \<times> string) list \<Rightarrow> (nat \<Rightarrow> (cs, cres) M) \<Rightarrow> cs \<Rightarrow> bool" where
  "type_outcome \<alpha> \<Gamma> ok bs R rest m c \<longleftrightarrow>
     (\<not> ok \<and> (\<exists>msg. \<forall>\<^sub>F n in sequentially. m n c = Inl (ReportError msg))) \<or>
     (\<exists>e k h y kn rc.
        (\<forall>\<^sub>F n in sequentially. m n c = Inr ((Some e, Some k, False), upd c h (open_parens c) (at_text y rest))) \<and>
        moves (heap c) h \<and> raw h e (map (\<lambda>p. \<alpha> (Base (snd p))) bs) rc \<and> (\<forall>b \<in> set (rc # map (\<lambda>p. \<alpha> (Base (snd p))) bs). leaf h b) \<and>
        node h k = Some kn \<and> rigid h k \<and> (is_type_or_kind (op_of kn) \<longleftrightarrow> ok) \<and> (ok \<longrightarrow> rc = \<alpha> (Base R) \<and> Base R \<in> bases \<Gamma>))"

lemma kind_op:
  assumes "simple_type s k ds r" "node s statKind = Some (CExpr KIND [])" "node s statType = Some (CExpr TYPE_E [])"
  shows "\<exists>kn. node s k = Some kn \<and> (is_type_or_kind (op_of kn) \<longleftrightarrow> ds = [] \<and> r \<in> {statType, statKind})"
proof (cases ds)
  case Nil
  then have "k = r" "base_type s r" using assms(1) by (auto simp: simple_type_def telescope_simps)
  then show ?thesis using Nil assms(2,3) by (auto simp: base_type_def is_type_or_kind_def statMpz_def statMpq_def statType_def statKind_def)
next
  case (Cons d ds')
  with simple_type_node [OF assms(1)] show ?thesis by (auto simp: is_type_or_kind_def)
qed

lemma range_outcome:
  assumes c: "scope \<alpha> \<Gamma> \<Gamma>' \<Sigma> (heap c)" and g: "closed_env \<Gamma>" "inj_on \<alpha> (bases \<Gamma>)" "\<alpha> Kind = statKind" "\<alpha> (Base ''type'') = statType"
    and l: "sees (lx c) (ident R # rest)" "type_ask a"
  shows "type_outcome \<alpha> \<Gamma> (is_range \<Gamma>' R) [] R rest (\<lambda>n. check n a) c"
proof -
  have a: "create a" "expected a = None" "computed a" using l(2) by (simp_all add: type_ask_def)
  have p: "prepared \<Sigma> {R} (heap c)" "asks (heap c) a"
    using c prepared_mono [of \<Sigma> UNIV "heap c" "{R}"] a by (simp_all add: scope_def asks_def base_type_def)
  note n = check_named [OF p(1) l(1) p(2) a(1)]
  show ?thesis
  proof (cases "\<Sigma> R")
    case None
    then have "\<not> is_range \<Gamma>' R" using scope_visible [OF c, of R] by (auto simp: sig_of_def is_range_def)
    moreover from None have "infer \<Sigma> (Tm R []) = None" by simp
    ultimately show ?thesis using n not_meets_None unfolding type_outcome_def by (auto simp del: infer.simps)
  next
    case (Some bdr)
    then obtain b ds r where S: "\<Sigma> R = Some (b, ds, r)" by (cases bdr) auto
    then have ty: "infer \<Sigma> (Tm R []) = Some (ds, r)" by simp
    then have "meets_type a (infer \<Sigma> (Tm R []))" by (simp add: meets_type_def a)
    with n S ty obtain h y k where h: "\<forall>\<^sub>F n in sequentially. check n a c = Inr ((Some b, Some k, False), upd c h (open_parens c) (at_text y rest))"
      "moves (heap c) h" "simple_type h k ds r" by (auto simp: comp_ok_def a simp del: infer.simps)
    have ch: "scope \<alpha> \<Gamma> \<Gamma>' \<Sigma> h" by (rule scope_moves [OF c h(2)])
    then have "fits h \<Sigma> R" by (simp add: scope_def prepared_def)
    with S have b: "leaf h b" by (auto simp: fits_def base_leaf)
    from kind_op [OF h(3)] ch obtain kn where kn: "node h k = Some kn" "is_type_or_kind (op_of kn) \<longleftrightarrow> ds = [] \<and> r \<in> {statType, statKind}"
      by (auto simp: scope_def)
    have "is_type_or_kind (op_of kn) \<longleftrightarrow> is_range \<Gamma>' R" using kn(2) scope_name(2) [OF c g S] by blast
    moreover have "is_range \<Gamma>' R \<longrightarrow> b = \<alpha> (Base R) \<and> Base R \<in> bases \<Gamma>" using scope_name(3) [OF c g S] by blast
    ultimately show ?thesis
      unfolding type_outcome_def using h kn(1) b rigid_simple [OF h(3)] raw_Nil [of h b]
      by (intro disjI2 exI [of _ b] exI [of _ k] exI [of _ h] exI [of _ y] exI [of _ kn]) simp
  qed
qed

lemma pi_start:
  assumes "sees (lx c) (ty_toks ((y, A) # bs) R @ rest)" "type_ask a" "new_expr (SymSExpr y) (heap c) = Inr (b, h)"
  shows "check (Suc n) a c = bnd (check_domain (check n)) (\<lambda>(prevo, dm). pi_body (check n) n a y b prevo dm)
    (upd c h (open_parens c + 1) (at_text y (ident A # ty_toks bs R @ (TClose, '')'') # rest)))"
proof -
  let ?ts = "ident A # ty_toks bs R @ (TClose, '')'') # rest"
  let ?c = "upd c (heap c) (open_parens c + 1) (at_text ''!'' (ident y # ?ts))"
  have "next_token (lx c) = Inr (TOpen, at_text ''('' ((TBang, ''!'') # ident y # ?ts))"
    using next_sees [of "lx c" TOpen "''(''"] assms(1) by simp
  moreover have "next_token (at_text ''('' ((TBang, ''!'') # ident y # ?ts)) = Inr (TBang, at_text ''!'' (ident y # ?ts))"
    by (simp add: at_text_def next_token_run desugar_def)
  ultimately have "check (Suc n) a c = check_pi (check n) n a ?c" by (simp add: step_simps check_start_def check_form_def)
  moreover have "onlex prefix_id ?c = Inr (y, upd c (heap c) (open_parens c + 1) (at_text y ?ts))"
    using prefix_at [of ?c y ?ts] sees_at by simp
  ultimately show ?thesis unfolding check_pi_simple [OF assms(2)] using assms(3) by (simp add: bnd_run onheap_run upd_fold)
qed

text \<open>After the domain: the range in the scope of the variable, and the \<open>PI\<close> cell.\<close>

text \<open>The type of a \<open>!\<close> binder, as an outcome of the state \<open>c0\<close> before the binder.\<close>

lemma pi_body_outcome:
  assumes c: "c = upd c0 h0 (open_parens c0 + 1) l" and s0: "moves (heap c0) (heap c)" "bounded (heap c0)" and b: "brk (heap c0) \<le> b" "base_type (heap c) b" "node (heap c) b = Some (SymSExpr y)"
    and d: "base_type (heap c) (\<alpha> (Base A))" and y: "key_ok y" "wf_sym (heap c)" and a: "type_ask a"
    and t: "sym_insert y (Some b, Some (\<alpha> (Base A))) (heap c) = Inr (lookup (heap c) y, (heap c)\<lparr>symbols := t\<rparr>)" "wf_sym ((heap c)\<lparr>symbols := t\<rparr>)"
      "lookup ((heap c)\<lparr>symbols := t\<rparr>) = (lookup (heap c))(y := (Some b, Some (\<alpha> (Base A))))"
    and ih: "type_outcome \<alpha> \<Gamma> ok bs R ((TClose, '')'') # rest) (\<lambda>n. check n a) (upd c ((heap c)\<lparr>symbols := t\<rparr>) (open_parens c) (lx c))"
  shows "type_outcome \<alpha> \<Gamma> ok ((y, A) # bs) R rest (\<lambda>n _. pi_body (check n) n a y b (open_parens c) (Some (\<alpha> (Base A))) c) c0"
proof -
  let ?h3 = "(heap c)\<lparr>symbols := t\<rparr>" and ?d = "\<alpha> (Base A)" and ?ds = "map (\<lambda>p. \<alpha> (Base (snd p))) bs"
  let ?c4 = "upd c ?h3 (open_parens c) (lx c)"
  from ih consider (error) msg where "\<not> ok" "\<forall>\<^sub>F n in sequentially. check n a ?c4 = Inl (ReportError msg)"
    | (returned) e k h5 z kn rc where
      "\<forall>\<^sub>F n in sequentially. check n a ?c4 = Inr ((Some e, Some k, False), upd c h5 (open_parens c) (at_text z ((TClose, '')'') # rest)))"
      "moves ?h3 h5" "raw h5 e ?ds rc" "\<forall>b \<in> set (rc # ?ds). leaf h5 b"
      "node h5 k = Some kn" "rigid h5 k" "is_type_or_kind (op_of kn) \<longleftrightarrow> ok" "ok \<longrightarrow> rc = \<alpha> (Base R) \<and> Base R \<in> bases \<Gamma>"
    unfolding type_outcome_def upd_sel upd_upd by blast
  then show ?thesis
  proof cases
    case error
    from error(2) have "\<forall>\<^sub>F n in sequentially. pi_body (check n) n a y b (open_parens c) (Some ?d) c = Inl (ReportError msg)"
      by eventually_elim (use t(1) in \<open>simp add: pi_body_def bnd_run onheap_run upd_fold\<close>)
    with error(1) show ?thesis by (auto simp: type_outcome_def)
  next
    case returned
    have bd: "bounded (heap c)" by (rule moves_bounded [OF s0])
    have bd3: "bounded ?h3" using bd by simp
    have l5: "wf_sym h5" "lookup h5 = (lookup (heap c))(y := (Some b, Some ?d))" using moves_symbols [OF returned(2) t(2)] t(3) by auto
    from moves_restore [OF returned(2) l5 y(1)] obtain t' where
      t': "sym_insert y (lookup (heap c) y) h5 = Inr ((Some b, Some ?d), h5\<lparr>symbols := t'\<rparr>)" "moves (heap c) (h5\<lparr>symbols := t'\<rparr>)" by blast
    let ?h6 = "h5\<lparr>symbols := t'\<rparr>"
    have m6: "moves (heap c0) ?h6" by (rule mv.rel_trans [OF s0(1) t'(2)])
    have b6: "bounded ?h6" by (rule moves_bounded [OF m6 s0(2)])
    have v6: "base_type ?h6 b" "node ?h6 b = Some (SymSExpr y)" "base_type ?h6 ?d"
      using moves_base [OF t'(2) bd] moves_node [OF t'(2) bd] b(2,3) d by auto
    have r6: "raw ?h6 e ?ds rc" by (rule raw_grows [OF _ returned(3)]) simp
    have "\<forall>b \<in> set (rc # ?d # ?ds). leaf ?h6 b" using returned(4) base_leaf [OF v6(3)] by (auto simp: leaf_def)
    from build_pi [OF m6 b6 b(1) v6(2) base_sym_val [OF v6(1,2)] r6 this] obtain p h7 where
      p: "returns (\<lambda>n. bnd (mk_cexpr PI [Some b, Some ?d, Some e]) (\<lambda>e. sq (calc_free_in n e) (ret (Some e)))) ?h6 (Some p, h7)"
        "moves (heap c0) h7" "raw h7 p (?d # ?ds) rc" "\<forall>a < brk ?h6. node h7 a = node ?h6 a \<and> sval h7 a = sval ?h6 a" "\<forall>b \<in> set (rc # ?d # ?ds). leaf h7 b"
      by blast
    have o7: "node h7 a = Some nd \<and> sval h7 a = sval h5 a" if "node h5 a = Some nd" for a nd
      using that p(4) b6 by (auto simp: bounded_def)
    have er: "eat_rparen (upd c h5 (open_parens c) (at_text z ((TClose, '')'') # rest))) = Inr ((), upd c h5 (open_parens c - 1) (at_text '')'' rest))"
      using eat_rparen_at [of "upd c h5 (open_parens c) (at_text z ((TClose, '')'') # rest))" z TClose] by simp
    have "\<forall>\<^sub>F n in sequentially. pi_body (check n) n a y b (open_parens c) (Some ?d) c =
        Inr ((Some p, Some k, False), upd c0 h7 (open_parens c0) (at_text '')'' rest))"
      using returned(1) p(1) [unfolded returns_def]
    proof eventually_elim
      case (elim n)
      have "upd c h7 (open_parens c - 1) (at_text '')'' rest) = upd c0 h7 (open_parens c0) (at_text '')'' rest)" unfolding c by simp
      then show ?case unfolding pi_body_def using t(1) t'(1) er elim by (simp add: bnd_run sq_run onheap_run upd_fold eat_excess_none del: check.simps)
    qed
    moreover have "rigid h7 k" "node h7 k = Some kn" using rigid_grows [OF returned(6) o7] o7 [OF returned(5)] by auto
    ultimately show ?thesis unfolding type_outcome_def using p(2,3,5) returned(7,8)
      by (intro disjI2 exI [of _ p] exI [of _ k] exI [of _ h7] exI [of _ "'')''"] exI [of _ kn] exI [of _ rc]) simp
  qed
qed

lemma type_outcome_step:
  assumes "\<forall>\<^sub>F n in sequentially. check (Suc n) a c = m n" "type_outcome \<alpha> \<Gamma> ok bs R rest (\<lambda>n _. m n) c"
  shows "type_outcome \<alpha> \<Gamma> ok bs R rest (\<lambda>n. check n a) c"
proof -
  have "\<forall>\<^sub>F n in sequentially. check n a c = v" if "\<forall>\<^sub>F n in sequentially. m n = v" for v
  proof -
    from assms(1) that have "\<forall>\<^sub>F n in sequentially. check (Suc n) a c = v" by eventually_elim (rule trans)
    then show ?thesis using eventually_sequentially_Suc [of "\<lambda>n. check n a c = v"] by blast
  qed
  with assms(2) show ?thesis unfolding type_outcome_def by blast
qed

lemma check_type:
  assumes g: "closed_env \<Gamma>" "inj_on \<alpha> (bases \<Gamma>)" "\<alpha> Kind = statKind" "\<alpha> (Base ''type'') = statType" and a: "type_ask a"
    and "scope \<alpha> \<Gamma> \<Gamma>' \<Sigma> (heap c)" "sees (lx c) (ty_toks bs R @ rest)" "\<not> allow_run c" "\<forall>p \<in> set bs. key_ok (fst p)"
  shows "type_outcome \<alpha> \<Gamma> (ty_ok \<Gamma>' bs R) bs R rest (\<lambda>n. check n a) c"
  using assms(6-)
proof (induction bs arbitrary: c \<Gamma>' \<Sigma> rest)
  case Nil
  then show ?case using range_outcome [OF Nil.prems(1) g _ a] by simp
next
  case (Cons p bs)
  obtain y A where p: "p = (y, A)" by (cases p)
  let ?ts = "ty_toks bs R @ (TClose, '')'') # rest"
  have bd: "bounded (heap c)" and pv: "pivars (heap c) \<subseteq> {..<brk (heap c)}"
    using Cons.prems(1) prepared_bounded by (auto simp: scope_def)
  obtain b h1 where b: "new_expr (SymSExpr y) (heap c) = Inr (b, h1)" by (simp add: new_expr_def Let_def)
  note b1 = new_symbol [OF bd pv b]
  let ?c1 = "upd c h1 (open_parens c + 1) (at_text y (ident A # ?ts))"
  note st = pi_start [OF Cons.prems(2) [unfolded p] a b]
  have sc1: "scope \<alpha> \<Gamma> \<Gamma>' \<Sigma> (heap ?c1)" using scope_moves [OF Cons.prems(1) b1(1)] by simp
  note dm = domain_spec [OF sc1 g, of A ?ts]
  show ?case
  proof (cases "is_type \<Gamma>' A")
    case False
    with dm Cons.prems(3) sees_at obtain msg where "\<forall>\<^sub>F n in sequentially. check_domain (check n) ?c1 = Inl (ReportError msg)" by (auto simp: upd_def)
    then have "\<forall>\<^sub>F n in sequentially. check (Suc n) a c = Inl (ReportError msg)" unfolding st by eventually_elim (simp add: bnd_run)
    then show ?thesis by (rule type_outcome_step) (use False p in \<open>auto simp: type_outcome_def\<close>)
  next
    case True
    with dm Cons.prems(3) sees_at obtain h2 z where
      h2: "\<forall>\<^sub>F n in sequentially. check_domain (check n) ?c1 = Inr ((open_parens c + 1, Some (\<alpha> (Base A))), upd c h2 (open_parens c + 1) (at_text z ?ts))"
        "moves h1 h2" by (auto simp: upd_def)
    let ?c3 = "upd c h2 (open_parens c + 1) (at_text z ?ts)" and ?d = "\<alpha> (Base A)"
    have m2: "moves (heap c) (heap ?c3)" using mv.rel_trans [OF b1(1) h2(2)] by simp
    have bd1: "bounded h1" by (rule moves_bounded [OF b1(1) bd])
    have sc2: "scope \<alpha> \<Gamma> \<Gamma>' \<Sigma> h2" using scope_moves [OF sc1, of h2] h2(2) by simp
    have S: "\<Sigma> A = Some (?d, [], statType)" using scope_visible [OF sc2, of A] True g(4) by (auto simp: is_type_def sig_of_def)
    have wf: "wf_sym h2" and "fits h2 \<Sigma> A" using sc2 by (simp_all add: scope_def prepared_def)
    then have d: "base_type h2 ?d" "?d \<notin> {statType, statKind}" using S scope_name(4) [OF sc2 g S True] by (auto simp: fits_def)
    have bb: "base_type h2 b" "node h2 b = Some (SymSExpr y)" using moves_base [OF h2(2) bd1 b1(4)] moves_node [OF h2(2) bd1 b1(3)] .
    have y: "key_ok y" using Cons.prems(4) p by simp
    from sym_insert_wf [OF wf y, of "(Some b, Some ?d)"] obtain t where
      t: "sym_insert y (Some b, Some ?d) h2 = Inr (lookup h2 y, h2\<lparr>symbols := t\<rparr>)" "wf_sym (h2\<lparr>symbols := t\<rparr>)"
        "lookup (h2\<lparr>symbols := t\<rparr>) = (lookup h2)(y := (Some b, Some ?d))" by blast
    have "type_outcome \<alpha> \<Gamma> (ty_ok (\<Gamma>'(y := None)) bs R) bs R ((TClose, '')'') # rest) (\<lambda>n. check n a)
        (upd c (h2\<lparr>symbols := t\<rparr>) (open_parens c + 1) (at_text z ?ts))"
    proof (rule Cons.IH)
      show "scope \<alpha> \<Gamma> (\<Gamma>'(y := None)) (\<Sigma>(y \<mapsto> (b, [], ?d))) (heap (upd c (h2\<lparr>symbols := t\<rparr>) (open_parens c + 1) (at_text z ?ts)))"
        using scope_insert [OF sc2 bb(1) d t(2,3)] by (simp only: upd_sel)
    qed (use sees_at Cons.prems(3,4) in \<open>simp_all add: upd_def\<close>)
    with pi_body_outcome [of ?c3 c h2 "at_text z ?ts" b y \<alpha> A a t \<Gamma> "ty_ok (\<Gamma>'(y := None)) bs R" bs R rest] m2 bd b1(2) bb d y wf a t
    have body: "type_outcome \<alpha> \<Gamma> (ty_ok \<Gamma>' (p # bs) R) (p # bs) R rest (\<lambda>n _. pi_body (check n) n a y b (open_parens c + 1) (Some ?d) ?c3) c"
      using True p by simp
    have "\<forall>\<^sub>F n in sequentially. check (Suc n) a c = pi_body (check n) n a y b (open_parens c + 1) (Some ?d) ?c3"
      using h2(1) unfolding st by eventually_elim (simp add: bnd_run)
    then show ?thesis by (rule type_outcome_step [OF _ body])
  qed
qed

lemma ty_ok_bases: "ty_ok \<Gamma> bs R \<Longrightarrow> set (Base R # map (\<lambda>p. Base (snd p)) bs) \<subseteq> bases \<Gamma>"
proof (induction bs arbitrary: \<Gamma>)
  case Nil
  then show ?case by (auto simp: is_range_def bases_def)
next
  case (Cons p bs)
  obtain y A where p: "p = (y, A)" by (cases p)
  with Cons.prems have "ty_ok (\<Gamma>(y := None)) bs R" by simp
  from Cons.IH [OF this] have "set (Base R # map (\<lambda>p. Base (snd p)) bs) \<subseteq> bases (\<Gamma>(y := None))" .
  moreover have "bases (\<Gamma>(y := None)) \<subseteq> bases \<Gamma>" by (auto simp: bases_def)
  moreover have "Base A \<in> bases \<Gamma>" using Cons.prems p by (auto simp: is_type_def bases_def)
  ultimately show ?case using p by auto
qed

definition declare_end :: "nat \<Rightarrow> string \<Rightarrow> addr option \<Rightarrow> addr \<Rightarrow> (cs, unit) M" where
  "declare_end f x t ttp0 =
     bnd (onheap (followDefs f ttp0)) (\<lambda>ttp.
     bnd (onheap (getop ttp)) (\<lambda>opr.
     if \<not> is_type_or_kind opr then report_error ''The expression declared is neither a type nor a kind.''
     else sq (onheap (dec ttp)) (install x t)))"

lemma declare_eq:
  "cmd_declare f = bnd (onlex prefix_id) (\<lambda>x. bnd (check_top f True) (\<lambda>(t, ttp0). declare_end f x t ttp0))"
  by (simp add: cmd_declare_def declare_end_def install_def if_distrib cong: if_cong)

lemma declare_end_eq:
  assumes "node (heap c) k = Some kn" "rigid (heap c) k"
  shows "declare_end (Suc n) x t k c = (if is_type_or_kind (op_of kn) then install x t (upd c (dec_st k (heap c)) (open_parens c) (lx c))
    else Inl (ReportError ''The expression declared is neither a type nor a kind.''))"
  using assms(1) rigid_follow [OF assms(2), of n]
  by (simp add: declare_end_def step_simps getop_run dec_run report_error_def del: followDefs.simps)

text \<open>The name is declared with the type that was read.\<close>

lemma install_raw:
  assumes g: "good \<alpha> \<Gamma> (heap c)" and x: "key_ok x" and e: "raw (heap c) e (map (\<lambda>p. \<alpha> (Base (snd p))) bs) (\<alpha> (Base R))"
    and bs: "set (Base R # map (\<lambda>p. Base (snd p)) bs) \<subseteq> bases \<Gamma>"
  shows "cmd_outcome (if \<Gamma> x = None then Some (\<Gamma>(x \<mapsto> (map (\<lambda>p. Base (snd p)) bs, Base R))) else None) [] rest
    (\<lambda>_. install x (Some e)) (upd c (dec_st k (heap c)) (open_parens c) (at_text y rest))"
proof -
  let ?bs = "map (\<lambda>p. Base (snd p)) bs" and ?e = "upd c (dec_st k (heap c)) (open_parens c) (at_text y rest)"
  have ge: "good \<alpha> \<Gamma> (heap ?e)" using good_moves [OF g moves_dec] by simp
  have "telescope (heap c) e (map \<alpha> ?bs) (\<alpha> (Base R))" using raw_telescope [OF e] by (simp add: comp_def)
  then have "simple_type (heap c) e (map \<alpha> ?bs) (\<alpha> (Base R))" unfolding simple_type_def using good_base [OF g] bs by auto
  from moves_simple [OF moves_dec good_static(6) [OF g] this] have "simple_type (heap ?e) e (map \<alpha> ?bs) (\<alpha> (Base R))" by simp
  note i = install_spec [OF ge x this bs]
  show ?thesis
  proof (cases "\<Gamma> x = None")
    case True
    with i obtain \<alpha>' h' where "install x (Some e) ?e = Inr ((), upd ?e h' (open_parens ?e) (at_text y rest))"
      "good \<alpha>' (\<Gamma>(x \<mapsto> (?bs, Base R))) h'" by auto
    with True show ?thesis by (simp del: upd_upd) (rule cmd_outcome_ok, simp_all)
  next
    case False
    with i obtain msg where "install x (Some e) ?e = Inl (ReportError msg)" by auto
    then have "cmd_outcome None [] rest (\<lambda>_. install x (Some e)) ?e" by (intro cmd_outcome_error) simp
    then show ?thesis using False by (simp only: if_False)
  qed
qed

lemma cmd_declare_spec:
  assumes g: "good \<alpha> \<Gamma> (heap c)" and x: "key_ok x" "\<forall>p \<in> set bs. key_ok (fst p)" and r: "\<not> allow_run c"
    and l: "sees (lx c) (ident x # ty_toks bs R @ rest)"
  shows "cmd_outcome (if \<Gamma> x = None \<and> ty_ok \<Gamma> bs R then Some (\<Gamma>(x \<mapsto> (map (\<lambda>p. Base (snd p)) bs, Base R))) else None)
    [] rest cmd_declare c"
proof -
  let ?a = "(ask True None)\<lparr>computed := True, return_pos := True\<rparr>"
  let ?c = "upd c (heap c) (open_parens c) (at_text x (ty_toks bs R @ rest))"
  note p = prefix_at [OF l]
  have a: "type_ask ?a" by (simp add: type_ask_def ask_def)
  have c: "scope \<alpha> \<Gamma> \<Gamma> (sig_of \<alpha> \<Gamma>) (heap ?c)" "sees (lx ?c) (ty_toks bs R @ rest)" "\<not> allow_run ?c"
    using good_scope [OF g] sees_at r by (simp_all add: upd_def)
  from check_type [OF good_static(1-4) [OF g] a c x(2)]
  consider (error) msg where "\<not> ty_ok \<Gamma> bs R" "\<forall>\<^sub>F n in sequentially. check n ?a ?c = Inl (ReportError msg)"
    | (returned) e k h y kn rc where
      "\<forall>\<^sub>F n in sequentially. check n ?a ?c = Inr ((Some e, Some k, False), upd c h (open_parens c) (at_text y rest))"
      "moves (heap c) h" "raw h e (map (\<lambda>p. \<alpha> (Base (snd p))) bs) rc" "node h k = Some kn" "rigid h k"
      "is_type_or_kind (op_of kn) \<longleftrightarrow> ty_ok \<Gamma> bs R" "ty_ok \<Gamma> bs R \<longrightarrow> rc = \<alpha> (Base R) \<and> Base R \<in> bases \<Gamma>"
    unfolding type_outcome_def upd_sel upd_upd by blast
  then show ?thesis
  proof cases
    case error
    from error(2) have "\<forall>\<^sub>F n in sequentially. cmd_declare n c = Inl (ReportError msg)"
      by eventually_elim (simp add: declare_eq check_top_def bnd_run sq_run p)
    then show ?thesis using error(1) cmd_outcome_error by simp
  next
    case returned
    let ?d = "upd c h (open_parens c) (at_text y rest)" and ?e = "upd c (dec_st k h) (open_parens c) (at_text y rest)"
    have top: "check_top n True ?c = Inr ((Some e, k), ?d)" if "check n ?a ?c = Inr ((Some e, Some k, False), ?d)" for n
      using that by (simp add: check_top_def bnd_run sq_run eat_excess_none)
    have ev: "\<forall>\<^sub>F n in sequentially. cmd_declare n c = (if ty_ok \<Gamma> bs R then install x (Some e) ?e
        else Inl (ReportError ''The expression declared is neither a type nor a kind.''))"
      using returned(1) eventually_gt_at_top [of 0]
    proof eventually_elim
      case (elim n)
      then obtain j where j: "n = Suc j" by (cases n) auto
      have "cmd_declare n c = declare_end n x (Some e) k ?d" using top [OF elim(1)] by (simp add: declare_eq bnd_run p)
      then show ?case unfolding j using declare_end_eq [of ?d k kn j x "Some e"] returned(4-6) by simp
    qed
    show ?thesis
    proof (cases "ty_ok \<Gamma> bs R")
      case False
      then show ?thesis using ev cmd_outcome_error by simp
    next
      case True
      have "cmd_outcome (if \<Gamma> x = None then Some (\<Gamma>(x \<mapsto> (map (\<lambda>p. Base (snd p)) bs, Base R))) else None) [] rest (\<lambda>_. install x (Some e)) ?e"
        using install_raw [of \<alpha> \<Gamma> ?d x e bs R rest k y] good_moves [OF g returned(2)] x(1) returned(3,7) ty_ok_bases [OF True] True by simp
      with ev True cmd_outcome_step [where m = cmd_declare and m' = "\<lambda>_. install x (Some e)" and h = "dec_st k h"] show ?thesis by simp
    qed
  qed
qed

end
