(* ===== verification/LFSC_Script.thy ===== *)
theory LFSC_Script
  imports LFSC_Declare LFSC_Main LFSC_Reread
begin

text \<open>
  Whole files of declarations and \<open>check\<close> commands: the command \<open>check\<close>, the commands of a file as a datatype (\<open>item\<close>) with
  their meaning by names (\<open>elab\<close>), their tokens and their text, and the program on a command line that names such files
  (\<open>main_spec\<close>).
\<close>

section \<open>The command check\<close>

abbreviation cmd_ask :: cargs where
  "cmd_ask \<equiv> (ask False None)\<lparr>computed := True, return_pos := True\<rparr>"

text \<open>Reading closing parentheses does not depend on the graph.\<close>

definition same_text :: "cs \<Rightarrow> cs \<Rightarrow> bool" where
  "same_text c d \<longleftrightarrow> lx d = lx c \<and> open_parens d = open_parens c"

lemma eat_rparen_same:
  "same_text c d \<Longrightarrow> case eat_rparen c of Inl e \<Rightarrow> eat_rparen d = Inl e
     | Inr (u, c') \<Rightarrow> \<exists>d'. eat_rparen d = Inr ((), d') \<and> same_text c' d'"
  by (auto simp: same_text_def eat_rparen_def sq_run onlex_def split: sum.splits prod.splits)

lemma repeat_same:
  "same_text c d \<Longrightarrow> repeat_M k eat_rparen c = Inl e \<Longrightarrow> repeat_M k eat_rparen d = Inl e"
proof (induction k arbitrary: c d)
  case (Suc k)
  show ?case
  proof (cases "eat_rparen c")
    case (Inl e')
    with eat_rparen_same [OF Suc.prems(1)] Suc.prems(2) show ?thesis by (simp add: sq_run)
  next
    case (Inr p)
    then obtain c' where c': "eat_rparen c = Inr ((), c')" by (cases p) auto
    with eat_rparen_same [OF Suc.prems(1)] obtain d' where "eat_rparen d = Inr ((), d')" "same_text c' d'" by auto
    with c' Suc.prems(2) Suc.IH [of c' d'] show ?thesis by (simp add: sq_run)
  qed
qed simp

lemma eat_excess_same: "same_text c d \<Longrightarrow> eat_excess prev c = Inl e \<Longrightarrow> eat_excess prev d = Inl e"
  unfolding eat_excess_def bnd_run gets_run sum.case prod.case
  using repeat_same [of c d "nat (open_parens c - prev)" e] by (simp add: same_text_def)

text \<open>Between two commands.\<close>

definition idle :: "cs \<Rightarrow> bool" where
  "idle c \<longleftrightarrow> big_check c \<and> ascHoles c = [] \<and> local_sym_names c = []"

lemma idle_upd [simp]: "idle (upd c h o1 l) = idle c" "idle (c\<lparr>out := x\<rparr>) = idle c"
  by (simp_all add: idle_def)

lemma idle_fields: "idle c \<Longrightarrow> c\<lparr>big_check := True\<rparr> = c" "idle c \<Longrightarrow> c\<lparr>ascHoles := []\<rparr> = c" "idle c \<Longrightarrow> c\<lparr>local_sym_names := []\<rparr> = c"
  by (cases c; simp add: idle_def)+

text \<open>After the term.\<close>

lemma cmd_check_error:
  assumes "idle c" "check n cmd_ask c = Inl e"
  shows "cmd_check n c = Inl e"
  using assms by (simp add: cmd_check_def idle_fields step_simps del: check.simps)

lemma cmd_check_eq:
  assumes "idle c" "check n cmd_ask c = Inr ((r, Some p, b), upd c h o1 l)" "node h p = Some pn"
  shows "cmd_check n c = sq (eat_excess (open_parens c)) (print_line ''success'') (upd c ((dec_st p h)\<lparr>mark_map := \<lambda>a. 0\<rparr>) o1 l)"
proof -
  have "ascHoles c = []" "local_sym_names c = []" using assms(1) by (simp_all add: idle_def)
  then show ?thesis
    using assms by (simp add: cmd_check_def print_ascHoles_def clean_locals_def put_back_def idle_fields step_simps dec_run del: check.simps)
qed

lemma cmd_check_spec:
  assumes "idle c" "prepared \<Sigma> (tm_names t) (heap c)" "sees (lx c) (tm_toks t @ rest)"
  shows "if infer \<Sigma> t \<noteq> None
    then \<exists>h y. (\<forall>\<^sub>F n in sequentially. cmd_check n c = Inr ((), (upd c h (open_parens c) (at_text y rest))\<lparr>out := out c @ [''success'']\<rparr>)) \<and>
           moves (heap c) h
    else \<exists>msg. \<forall>\<^sub>F n in sequentially. cmd_check n c = Inl (ReportError msg)"
proof -
  have a: "create cmd_ask = False" "expected cmd_ask = None" by (simp_all add: ask_def)
  have "asks (heap c) cmd_ask" using assms(2) by (simp add: asks_def ask_def prepared_def)
  from checks_rightD [OF check_decides assms(2) this assms(3)] obtain R where
    R: "\<forall>\<^sub>F n in sequentially. check n cmd_ask c = R" "verdict \<Sigma> cmd_ask t rest c R" by blast
  have m: "meets_type cmd_ask (infer \<Sigma> t) \<longleftrightarrow> infer \<Sigma> t \<noteq> None" by (simp add: meets_type_def a)
  show ?thesis
  proof (cases "infer \<Sigma> t = None")
    case False
    with R(2) m obtain res cl h x k where
      k: "R = Inr ((res, cl, False), upd c h (open_parens c + int k) (at_text x (rparens k @ rest)))" "moves (heap c) h"
        "comp_ok cmd_ask h (infer \<Sigma> t) cl" by (elim verdict_okE) auto
    obtain p where p: "cl = Some p" "simple_type h p (fst (the (infer \<Sigma> t))) (snd (the (infer \<Sigma> t)))" using k(3) by (auto simp: comp_ok_def a)
    obtain pn where pn: "node h p = Some pn" using simple_type_node [OF p(2)] by blast
    let ?h = "(dec_st p h)\<lparr>mark_map := \<lambda>a. 0\<rparr>"
    have "moves (heap c) ?h" by (rule mv.rel_trans [OF k(2) mv.rel_trans [OF moves_dec moves_marks(2)]])
    moreover obtain y where y: "eat_excess (open_parens c) (upd c ?h (open_parens c + int k) (at_text x (rparens k @ rest))) =
        Inr ((), upd c ?h (open_parens c) (at_text y rest))"
      using eat_excess_closes [of "upd c ?h (open_parens c + int k) (at_text x (rparens k @ rest))" x k rest] by auto
    have "\<forall>\<^sub>F n in sequentially. cmd_check n c = Inr ((), (upd c ?h (open_parens c) (at_text y rest))\<lparr>out := out c @ [''success'']\<rparr>)"
      using R(1)
    proof eventually_elim
      case (elim n)
      from cmd_check_eq [OF assms(1) elim [unfolded k(1) p(1)] pn] y show ?case by (simp add: sq_run print_line_def)
    qed
    ultimately show ?thesis using False by auto
  next
    case True
    with R(2) m consider (error) msg where "R = Inl (ReportError msg)"
      | (stuck) h o1 l p pn msg where "R = Inr ((None, Some p, False), upd c h o1 l)" "node h p = Some pn"
          "eat_excess (open_parens c) (upd c h o1 l) = Inl (ReportError msg)"
      by (auto simp: verdict_def left_over_def a)
    then have "\<exists>msg. \<forall>n. check n cmd_ask c = R \<longrightarrow> cmd_check n c = Inl (ReportError msg)"
    proof cases
      case error
      then show ?thesis using cmd_check_error [OF assms(1)] by blast
    next
      case stuck
      have e: "eat_excess (open_parens c) (upd c ((dec_st p h)\<lparr>mark_map := \<lambda>a. 0\<rparr>) o1 l) = Inl (ReportError msg)"
        by (rule eat_excess_same [OF _ stuck(3)]) (simp add: same_text_def)
      have "cmd_check n c = Inl (ReportError msg)" if "check n cmd_ask c = R" for n
        unfolding cmd_check_eq [OF assms(1) that [unfolded stuck(1)] stuck(2)] using e by (simp add: sq_run)
      then show ?thesis by blast
    qed
    with R(1) True show ?thesis by (auto elim!: eventually_mono)
  qed
qed

section \<open>Files\<close>

text \<open>The commands of a file.\<close>

datatype item =
    DeclareType string "string list"
  | DeclareRule string "string list" string
  | Declare string "(string \<times> string) list" string
  | Check tm

fun item_key :: "item \<Rightarrow> token \<times> string" where
  "item_key (DeclareType x As) = (TDeclareType, ''declare-type'')"
| "item_key (DeclareRule x As R) = (TDeclareRule, ''declare-rule'')"
| "item_key (Declare x bs R) = (TDeclare, ''declare'')"
| "item_key (Check t) = (TCheck, ''check'')"

fun item_body :: "item \<Rightarrow> (token \<times> string) list" where
  "item_body (DeclareType x As) = ident x # (TOpen, ''('') # map ident As @ [(TClose, '')'')]"
| "item_body (DeclareRule x As R) = ident x # (TOpen, ''('') # map ident As @ [(TClose, '')''), ident R]"
| "item_body (Declare x bs R) = ident x # ty_toks bs R"
| "item_body (Check t) = tm_toks t"

definition item_toks :: "item \<Rightarrow> (token \<times> string) list" where
  "item_toks i = (TOpen, ''('') # item_key i # item_body i @ [(TClose, '')'')]"

text \<open>What a command means: the environment after it, or nothing if it is wrong.\<close>

fun elab :: "item \<Rightarrow> tenv \<Rightarrow> tenv option" where
  "elab (DeclareType x As) \<Gamma> = (if \<Gamma> x = None \<and> list_all (is_type \<Gamma>) As then Some (\<Gamma>(x \<mapsto> (map Base As, Base ''type''))) else None)"
| "elab (DeclareRule x As R) \<Gamma> =
     (if \<Gamma> x = None \<and> list_all (is_type \<Gamma>) As \<and> is_range \<Gamma> R then Some (\<Gamma>(x \<mapsto> (map Base As, Base R))) else None)"
| "elab (Declare x bs R) \<Gamma> =
     (if \<Gamma> x = None \<and> ty_ok \<Gamma> bs R then Some (\<Gamma>(x \<mapsto> (map (\<lambda>p. Base (snd p)) bs, Base R))) else None)"
| "elab (Check t) \<Gamma> = (if tm_type \<Gamma> t \<noteq> None then Some \<Gamma> else None)"

fun elab_all :: "item list \<Rightarrow> tenv \<Rightarrow> tenv option" where
  "elab_all [] \<Gamma> = Some \<Gamma>"
| "elab_all (i # its) \<Gamma> = Option.bind (elab i \<Gamma>) (elab_all its)"

fun item_out :: "item \<Rightarrow> string list" where
  "item_out (Check t) = [''success'']"
| "item_out i = []"

text \<open>The names that a command binds can be stored in the symbol table.\<close>

fun item_ok :: "item \<Rightarrow> bool" where
  "item_ok (DeclareType x As) = key_ok x"
| "item_ok (DeclareRule x As R) = key_ok x"
| "item_ok (Declare x bs R) = (key_ok x \<and> (\<forall>p \<in> set bs. key_ok (fst p)))"
| "item_ok (Check t) = True"

lemma cmd_check_outcome:
  assumes "idle c" "good \<alpha> \<Gamma> (heap c)" "sees (lx c) (tm_toks t @ rest)"
  shows "cmd_outcome (if tm_type \<Gamma> t \<noteq> None then Some \<Gamma> else None) [''success''] rest cmd_check c"
proof -
  have "infer (sig_of \<alpha> \<Gamma>) t \<noteq> None \<longleftrightarrow> tm_type \<Gamma> t \<noteq> None" using good_infer [OF assms(2), of t] by simp
  with cmd_check_spec [OF assms(1) good_prepared [OF assms(2)] assms(3)] good_moves [OF assms(2)] show ?thesis
    by (cases "tm_type \<Gamma> t = None") (auto simp: cmd_outcome_def)
qed

lemma command_outcome:
  assumes "idle c" "\<not> allow_run c" "good \<alpha> \<Gamma> (heap c)" "item_ok i" "sees (lx c) (item_body i @ rest)"
  shows "cmd_outcome (elab i \<Gamma>) (item_out i) rest (\<lambda>n. command n (fst (item_key i))) c"
proof (cases i)
  case (DeclareType x As)
  then show ?thesis using cmd_declare_type_spec [OF assms(3), of x As rest] assms(4,5) by (simp add: command_def)
next
  case (DeclareRule x As R)
  then show ?thesis using cmd_declare_rule_spec [OF assms(3), of x As R rest] assms(4,5) by (simp add: command_def)
next
  case (Declare x bs R)
  then show ?thesis using cmd_declare_spec [OF assms(3), of x bs R rest] assms(2,4,5) by (simp add: command_def)
next
  case (Check t)
  then show ?thesis using cmd_check_outcome [OF assms(1,3), of t rest] assms(5) by (simp add: command_def)
qed

text \<open>One round of the loop over the commands reads a command, the next one its closing parenthesis.\<close>

lemma next_key: "next_token (at_text z (item_key i # ts)) = Inr (fst (item_key i), at_text (snd (item_key i)) ts)"
  by (cases i) (simp_all add: at_text_def next_token_run desugar_def)

lemma commands_open:
  assumes "sees (lx c) (item_toks i @ rest)"
  shows "commands (Suc n) c = sq (command n (fst (item_key i))) (commands n)
    (upd c (heap c) (open_parens c) (at_text (snd (item_key i)) (item_body i @ (TClose, '')'') # rest)))"
proof -
  let ?ts = "item_body i @ (TClose, '')'') # rest"
  have "next_token (lx c) = Inr (TOpen, at_text ''('' (item_key i # ?ts))"
    using next_sees [of "lx c" TOpen "''(''"] assms by (simp add: item_toks_def)
  then show ?thesis by (simp add: step_simps next_key split: sum.split prod.split)
qed

lemma commands_close: "lx c = at_text z ((TClose, '')'') # rest) \<Longrightarrow> commands (Suc n) c = commands n (upd c (heap c) (open_parens c) (at_text '')'' rest))"
  by (simp add: step_simps next_at)

lemma commands_end: "lx c = at_text z [] \<Longrightarrow> commands (Suc n) c = Inr ((), upd c (heap c) (open_parens c) (at_text [] []))"
  by (simp add: step_simps next_token_run at_text_def)

text \<open>Between two commands, with the environment \<open>\<Gamma>\<close>.\<close>

definition waiting :: "(base \<Rightarrow> addr) \<Rightarrow> tenv \<Rightarrow> cs \<Rightarrow> bool" where
  "waiting \<alpha> \<Gamma> c \<longleftrightarrow> idle c \<and> \<not> allow_run c \<and> good \<alpha> \<Gamma> (heap c) \<and> (\<exists>z ts. lx c = at_text z ts)"

definition file_outcome :: "tenv option \<Rightarrow> string list \<Rightarrow> (nat \<Rightarrow> (cs, unit) M) \<Rightarrow> cs \<Rightarrow> bool" where
  "file_outcome \<Gamma>' ls m c \<longleftrightarrow> (case \<Gamma>' of
     Some \<Gamma> \<Rightarrow> \<exists>c' \<alpha>. (\<forall>\<^sub>F n in sequentially. m n c = Inr ((), c')) \<and> out c' = out c @ ls \<and> waiting \<alpha> \<Gamma> c'
   | None \<Rightarrow> \<exists>msg. \<forall>\<^sub>F n in sequentially. m n c = Inl (ReportError msg))"

lemma commands_error:
  assumes "sees (lx c) (item_toks i @ rest)"
    and "\<forall>\<^sub>F n in sequentially. command n (fst (item_key i))
      (upd c (heap c) (open_parens c) (at_text (snd (item_key i)) (item_body i @ (TClose, '')'') # rest))) = Inl e"
  shows "\<forall>\<^sub>F n in sequentially. commands n c = Inl e"
proof -
  have "\<forall>\<^sub>F n in sequentially. commands (Suc n) c = Inl e"
    using assms(2) unfolding commands_open [OF assms(1)] by eventually_elim (simp add: sq_run)
  then show ?thesis using eventually_sequentially_Suc [of "\<lambda>n. commands n c = Inl e"] by blast
qed

lemma commands_step:
  assumes "sees (lx c) (item_toks i @ rest)"
    and "\<forall>\<^sub>F n in sequentially. command n (fst (item_key i))
      (upd c (heap c) (open_parens c) (at_text (snd (item_key i)) (item_body i @ (TClose, '')'') # rest))) = Inr ((), c1)"
    and "lx c1 = at_text y ((TClose, '')'') # rest)"
    and "\<forall>\<^sub>F n in sequentially. commands n (upd c1 (heap c1) (open_parens c1) (at_text '')'' rest)) = v"
  shows "\<forall>\<^sub>F n in sequentially. commands n c = v"
proof -
  have "\<forall>\<^sub>F n in sequentially. commands n c1 = v"
  proof -
    have "\<forall>\<^sub>F n in sequentially. commands (Suc n) c1 = v" unfolding commands_close [OF assms(3)] by (rule assms(4))
    then show ?thesis using eventually_sequentially_Suc [of "\<lambda>n. commands n c1 = v"] by blast
  qed
  with assms(2) have "\<forall>\<^sub>F n in sequentially. commands (Suc n) c = v"
    unfolding commands_open [OF assms(1)] by eventually_elim (simp add: sq_run)
  then show ?thesis using eventually_sequentially_Suc [of "\<lambda>n. commands n c = v"] by blast
qed

lemma commands_spec:
  assumes "waiting \<alpha> \<Gamma> c" "\<forall>i \<in> set its. item_ok i" "lx c = at_text z (concat (map item_toks its))"
  shows "file_outcome (elab_all its \<Gamma>) (concat (map item_out its)) commands c"
  using assms
proof (induction its arbitrary: c \<alpha> \<Gamma> z)
  case Nil
  let ?c = "upd c (heap c) (open_parens c) (at_text [] [])"
  have "commands (Suc n) c = Inr ((), ?c)" for n using commands_end [of c z n] Nil.prems(3) by (simp del: commands.simps)
  then have "\<forall>\<^sub>F n in sequentially. commands n c = Inr ((), ?c)" by (rule eventually_from_Suc)
  moreover have "waiting \<alpha> \<Gamma> ?c" using Nil.prems(1) by (auto simp: waiting_def upd_def idle_def)
  ultimately show ?case by (auto simp: file_outcome_def)
next
  case (Cons i its)
  let ?rest = "concat (map item_toks its)"
  let ?c = "upd c (heap c) (open_parens c) (at_text (snd (item_key i)) (item_body i @ (TClose, '')'') # ?rest))"
  have l: "sees (lx c) (item_toks i @ ?rest)" using Cons.prems(3) sees_at by simp
  have o: "cmd_outcome (elab i \<Gamma>) (item_out i) ((TClose, '')'') # ?rest) (\<lambda>n. command n (fst (item_key i))) ?c"
    by (rule command_outcome) (use Cons.prems sees_at in \<open>auto simp: waiting_def upd_def idle_def\<close>)
  show ?case
  proof (cases "elab i \<Gamma>")
    case None
    with o obtain msg where "\<forall>\<^sub>F n in sequentially. command n (fst (item_key i)) ?c = Inl (ReportError msg)" by (auto simp: cmd_outcome_def)
    from commands_error [OF l this] None show ?thesis by (auto simp: file_outcome_def)
  next
    case (Some \<Gamma>1)
    with o obtain \<alpha>1 h y where
      h: "\<forall>\<^sub>F n in sequentially. command n (fst (item_key i)) ?c =
            Inr ((), (upd c h (open_parens c) (at_text y ((TClose, '')'') # ?rest)))\<lparr>out := out c @ item_out i\<rparr>)" "good \<alpha>1 \<Gamma>1 h"
      by (auto simp: cmd_outcome_def)
    let ?c1 = "(upd c h (open_parens c) (at_text y ((TClose, '')'') # ?rest)))\<lparr>out := out c @ item_out i\<rparr>"
    let ?c2 = "upd ?c1 (heap ?c1) (open_parens ?c1) (at_text '')'' ?rest)"
    have ih: "file_outcome (elab_all its \<Gamma>1) (concat (map item_out its)) commands ?c2"
      by (rule Cons.IH [of \<alpha>1]) (use Cons.prems(1,2) h(2) in \<open>auto simp: waiting_def upd_def idle_def\<close>)
    have step: "\<forall>\<^sub>F n in sequentially. commands n c = v" if "\<forall>\<^sub>F n in sequentially. commands n ?c2 = v" for v
      by (rule commands_step [OF l h(1) _ that]) simp
    have "out ?c2 = out c @ item_out i" by simp
    with ih step Some show ?thesis unfolding file_outcome_def by (fastforce split: option.split_asm option.split)
  qed
qed

section \<open>The program on its command line\<close>

lemma check_file_spec:
  assumes "waiting \<alpha> \<Gamma> c" "\<forall>i \<in> set its. item_ok i"
  shows "file_outcome (elab_all its \<Gamma>) (concat (map item_out its)) (\<lambda>n. check_file n a scw (concat (map item_toks its))) c"
proof -
  let ?ts = "concat (map item_toks its)"
  let ?c = "c\<lparr>heap := (heap c)\<lparr>run_scc := use_run_scc a\<rparr>, tail_calls := \<not> no_tail_calls a,
    lx := (lx c)\<lparr>scanned := ?ts, yytext := []\<rparr>, compiling := compile_scc a \<and> scw\<rparr>"
  have "moves (heap c) ((heap c)\<lparr>run_scc := use_run_scc a\<rparr>)"
    by (auto simp: moves_def bounded_def pivars_def wf_sym_def lookup_def)
  then have "good \<alpha> \<Gamma> (heap ?c)" using assms(1) good_moves by (auto simp: waiting_def)
  moreover have "lx ?c = at_text [] ?ts" using assms(1) by (auto simp: waiting_def at_text_def)
  ultimately have "waiting \<alpha> \<Gamma> ?c" "lx ?c = at_text [] ?ts" using assms(1) by (auto simp: waiting_def idle_def)
  from commands_spec [OF this(1) assms(2) this(2)]
  have "file_outcome (elab_all its \<Gamma>) (concat (map item_out its)) commands ?c" .
  then show ?thesis by (auto simp: file_outcome_def check_file_def sq_run split: option.splits)
qed

lemma elab_all_append: "elab_all (xs @ ys) \<Gamma> = Option.bind (elab_all xs \<Gamma>) (elab_all ys)"
  by (induction xs arbitrary: \<Gamma>) (auto split: bind_splits)

lemma check_files_spec:
  assumes "waiting \<alpha> \<Gamma> c" "\<forall>f \<in> set fls. fs f = Some (concat (map item_toks (its f))) \<and> (\<forall>i \<in> set (its f). item_ok i)"
  shows "file_outcome (elab_all (concat (map its fls)) \<Gamma>) (concat (map item_out (concat (map its fls))))
    (\<lambda>n. iter_M (check_file_named n a scw fs) fls) c"
  using assms
proof (induction fls arbitrary: c \<alpha> \<Gamma>)
  case Nil
  then show ?case by (auto simp: file_outcome_def)
next
  case (Cons f fls)
  let ?m = "\<lambda>n. iter_M (check_file_named n a scw fs)"
  have f: "check_file_named n a scw fs f = check_file n a scw (concat (map item_toks (its f)))" for n
    using Cons.prems(2) by (simp add: check_file_named_def)
  have o: "file_outcome (elab_all (its f) \<Gamma>) (concat (map item_out (its f))) (\<lambda>n. check_file_named n a scw fs f) c"
    unfolding f by (rule check_file_spec [OF Cons.prems(1)]) (use Cons.prems(2) in simp)
  show ?case
  proof (cases "elab_all (its f) \<Gamma>")
    case None
    with o obtain msg where "\<forall>\<^sub>F n in sequentially. check_file_named n a scw fs f c = Inl (ReportError msg)" by (auto simp: file_outcome_def)
    then have "\<forall>\<^sub>F n in sequentially. ?m n (f # fls) c = Inl (ReportError msg)" by eventually_elim (simp add: sq_run)
    with None show ?thesis by (auto simp: file_outcome_def elab_all_append)
  next
    case (Some \<Gamma>1)
    with o obtain c1 \<alpha>1 where c1: "\<forall>\<^sub>F n in sequentially. check_file_named n a scw fs f c = Inr ((), c1)"
      "out c1 = out c @ concat (map item_out (its f))" "waiting \<alpha>1 \<Gamma>1 c1" by (auto simp: file_outcome_def)
    have step: "\<forall>\<^sub>F n in sequentially. ?m n (f # fls) c = v" if "\<forall>\<^sub>F n in sequentially. ?m n fls c1 = v" for v
      using c1(1) that by eventually_elim (simp add: sq_run)
    from Cons.IH [OF c1(3)] Cons.prems(2)
    have "file_outcome (elab_all (concat (map its fls)) \<Gamma>1) (concat (map item_out (concat (map its fls)))) (\<lambda>n. ?m n fls) c1" by simp
    with step Some c1(2) show ?thesis unfolding file_outcome_def
      by (fastforce simp: elab_all_append split: option.split_asm option.split)
  qed
qed

text \<open>The predefined names, and the state in which they are the only ones.\<close>

definition env0 :: tenv where
  "env0 = [''type'' \<mapsto> ([], Kind), ''mpz'' \<mapsto> ([], Base ''type''), ''mpq'' \<mapsto> ([], Base ''type'')]"

definition cell0 :: "base \<Rightarrow> addr" where
  "cell0 b = (case b of Kind \<Rightarrow> statKind | Base x \<Rightarrow> if x = ''type'' then statType else if x = ''mpz'' then statMpz else statMpq)"

lemma good_init:
  assumes "init (start_st ma) = Inr ((), s)"
  shows "good cell0 env0 s"
proof -
  from init_spec [of ma] assms have s: "sym_ok s" "node s = node (start_st ma)" "sval s = (\<lambda>a. None)" "brk s = 4"
    "lookup s = (\<lambda>x. (None, None))(''type'' := (Some statType, Some statKind), ''mpz'' := (Some statMpz, Some statType), ''mpq'' := (Some statMpq, Some statType))"
    by auto
  note ad = statType_def statKind_def statMpz_def statMpq_def
  have n: "node s statType = Some (CExpr TYPE_E [])" "node s statKind = Some (CExpr KIND [])" "node s statMpz = Some (CExpr MPZ [])"
    "node s statMpq = Some (CExpr MPQ [])" "\<And>a nd. node s a = Some nd \<Longrightarrow> a < 4 \<and> (\<exists>opr. nd = CExpr opr [])"
    using s(2) by (auto simp: start_st_def ad split: if_splits)
  have bt: "base_type s statType" "base_type s statKind" "base_type s statMpz" "base_type s statMpq" using n by (auto simp: base_type_def)
  then have st: "simple_type s statKind [] statKind" "simple_type s statType [] statType" by (auto simp: simple_type_def telescope_simps)
  have "bounded s" "wf_sym s" using n(5) s(1,4) by (auto simp: bounded_def wf_sym_def sym_ok_def)
  moreover have "pivars s = {}" using n(5) by (fastforce simp: pivars_def)
  moreover have "closed_env env0" by (auto simp: closed_env_def env0_def bases_def split: if_splits)
  moreover have "bases env0 = {Kind, Base ''type'', Base ''mpz'', Base ''mpq''}" by (auto simp: bases_def env0_def)
  then have "inj_on cell0 (bases env0)" by (simp add: cell0_def ad)
  moreover have "fits s (sig_of cell0 env0) x" for x
    using s(5) bt st by (auto simp: fits_def sig_of_def env0_def cell0_def)
  moreover have "env0 x = None \<Longrightarrow> lookup s x = (None, None)" for x using s(5) by (auto simp: env0_def split: if_splits)
  ultimately show ?thesis using n by (simp add: good_def cell0_def)
qed

lemma good_fresh: "good cell0 env0 (heap (fresh ts))" "lx (fresh ts) = at_text [] ts"
proof -
  from init_spec [of id] obtain s where s: "init (start_st id) = Inr ((), s)" by blast
  then have "heap (fresh ts) = s" by (simp add: fresh_def)
  with good_init [OF s] show "good cell0 env0 (heap (fresh ts))" by simp
  show "lx (fresh ts) = at_text [] ts" by (simp add: fresh_lx init_lex_def at_text_def)
qed

text \<open>The text of a file: its tokens with blanks behind them.\<close>

definition with_blanks :: "(token \<times> string) list \<Rightarrow> string" where
  "with_blanks ts = concat (map (\<lambda>p. snd p @ '' '') ts)"

definition readable :: "token \<times> string \<Rightarrow> bool" where
  "readable p \<longleftrightarrow> (\<forall>r. LFSC_Scan.closed r \<longrightarrow> tokens (snd p @ r) = p # tokens r)"

lemma tokens_with_blanks: "\<forall>p \<in> set ts. readable p \<Longrightarrow> tokens (with_blanks ts) = ts"
proof (induction ts)
  case Nil
  show ?case by (simp add: with_blanks_def tokens_Nil)
next
  case (Cons p ts)
  have c: "LFSC_Scan.closed ('' '' @ with_blanks ts)" by (simp add: closed_simps)
  have "tokens (with_blanks (p # ts)) = tokens (snd p @ '' '' @ with_blanks ts)" by (simp add: with_blanks_def)
  also have "\<dots> = p # tokens ('' '' @ with_blanks ts)" using Cons.prems c by (simp add: readable_def)
  also have "tokens ('' '' @ with_blanks ts) = ts" using Cons by (simp add: single_tokens)
  finally show ?case .
qed

text \<open>A name is a word that the scanner does not take for something else.\<close>

definition name_ok :: "string \<Rightarrow> bool" where
  "name_ok x \<longleftrightarrow> is_word x \<and> word_token x = name_tok x \<and> key_ok x"

fun item_names :: "item \<Rightarrow> string set" where
  "item_names (DeclareType x As) = insert x (set As)"
| "item_names (DeclareRule x As R) = insert x (insert R (set As))"
| "item_names (Declare x bs R) = insert x (insert R (fst ` set bs \<union> snd ` set bs))"
| "item_names (Check t) = tm_names t"

lemma readable_name: "name_ok x \<Longrightarrow> readable (ident x)"
  by (simp add: readable_def name_ok_def tokens_word)

lemma readable_parens: "readable (TOpen, ''('')" "readable (TClose, '')'')"
  by (simp_all add: readable_def single_tokens)

lemma readable_tm: "\<forall>x \<in> tm_names t. name_ok x \<Longrightarrow> \<forall>p \<in> set (tm_toks t). readable p"
proof (induction t)
  case (Num n)
  then show ?case by (simp add: readable_def tokens_natural digits_mpz)
next
  case (Tm x ts)
  then show ?case using readable_name readable_parens by auto
qed

lemma readable_keys: "readable (item_key i)" "readable (TBang, ''!'')"
proof -
  have w: "readable (t, w)" if "is_word w" "word_token w = t" for t w using that by (simp add: readable_def tokens_word)
  show "readable (item_key i)"
    by (cases i) (auto intro!: w simp: is_word_def starts_word_def is_delim_def is_blank_def is_single_def is_digit_def word_token_def reserved_def)
  show "readable (TBang, ''!'')"
    unfolding readable_def using tokens_single [of "CHR ''!''" TBang] by (auto simp: is_single_def reserved_def)
qed

lemma readable_ty: "name_ok R \<Longrightarrow> \<forall>p \<in> set bs. name_ok (fst p) \<and> name_ok (snd p) \<Longrightarrow> \<forall>p \<in> set (ty_toks bs R). readable p"
  by (induction bs R rule: ty_toks.induct) (use readable_name readable_parens readable_keys in auto)

lemma readable_item: "\<forall>x \<in> item_names i. name_ok x \<Longrightarrow> \<forall>p \<in> set (item_toks i). readable p"
proof -
  assume n: "\<forall>x \<in> item_names i. name_ok x"
  have "\<forall>p \<in> set (item_body i). readable p"
  proof (cases i)
    case (Declare x bs R)
    then have "\<forall>p \<in> set (ty_toks bs R). readable p" using n by (intro readable_ty) auto
    then show ?thesis using Declare n readable_name by simp
  qed (use n readable_name readable_parens readable_tm in auto)
  then show ?thesis using readable_parens readable_keys(1) [of i] by (auto simp: item_toks_def)
qed

lemma name_item_ok: "\<forall>x \<in> item_names i. name_ok x \<Longrightarrow> item_ok i"
  by (cases i) (auto simp: name_ok_def)

definition file_text :: "item list \<Rightarrow> string" where
  "file_text its = with_blanks (concat (map item_toks its))"

lemma scan_file_text:
  assumes "\<forall>i \<in> set its. \<forall>x \<in> item_names i. name_ok x"
  shows "scan 0 (file_text its) = Some (concat (map item_toks its))"
  unfolding scan_tokens file_text_def using tokens_with_blanks [of "concat (map item_toks its)"] readable_item assms by fastforce

lemma main_spec:
  assumes a: "parse_args argv no_args = Some a" "files a \<noteq> []" "\<not> compile_scc a"
    and d: "\<forall>f \<in> set (files a). disk f = Some (file_text (its f)) \<and> (\<forall>i \<in> set (its f). \<forall>x \<in> item_names i. name_ok x)"
  shows "case elab_all (concat (map its (files a))) env0 of
      Some \<Gamma> \<Rightarrow> \<exists>c'. (\<forall>\<^sub>F n in sequentially. main n si (scan_files disk) argv (start_cs ma) = Inr (None, c')) \<and>
        out c' = concat (map item_out (concat (map its (files a))))
    | None \<Rightarrow> \<exists>msg. \<forall>\<^sub>F n in sequentially. main n si (scan_files disk) argv (start_cs ma) = Inl (ReportError msg)"
proof -
  from init_spec [of ma] obtain s where s: "init (start_st ma) = Inr ((), s)" by blast
  let ?c = "(start_cs ma)\<lparr>heap := s\<rparr>"
  let ?its = "concat (map its (files a))"
  have "waiting cell0 env0 ?c" using good_init [OF s] by (auto simp: waiting_def idle_def start_cs_def init_lex_def at_text_def)
  moreover have "\<forall>f \<in> set (files a). scan_files disk f = Some (concat (map item_toks (its f))) \<and> (\<forall>i \<in> set (its f). item_ok i)"
    using d name_item_ok scan_file_text by (auto simp: scan_files_def)
  ultimately have "file_outcome (elab_all ?its env0) (concat (map item_out ?its)) (\<lambda>n. iter_M (check_file_named n a False (scan_files disk)) (files a)) ?c"
    by (rule check_files_spec)
  moreover have "main n si (scan_files disk) argv (start_cs ma) = (case iter_M (check_file_named n a False (scan_files disk)) (files a) ?c of
      Inl e \<Rightarrow> Inl e | Inr (u, c') \<Rightarrow> Inr (None, c'))" for n
    using a s by (simp add: main_def main_body_def sq_run onheap_def start_cs_def split: sum.split prod.split)
  moreover have "out ?c = []" by (simp add: start_cs_def)
  ultimately show ?thesis by (fastforce simp: file_outcome_def elim: eventually_mono split: option.splits)
qed

section \<open>Two files\<close>

text \<open>A type \<open>n\<close> and a function from \<open>mpz\<close> to it; the second file applies the function to its own result.\<close>

definition ok_file :: "item list" where
  "ok_file = [DeclareType ''n'' [], Declare ''f'' [(''x'', ''mpz'')] ''n'', Check (Tm ''f'' [Num 3])]"

definition bad_file :: "item list" where
  "bad_file = [DeclareType ''n'' [], Declare ''f'' [(''x'', ''mpz'')] ''n'', Check (Tm ''f'' [Tm ''f'' [Num 3]])]"

lemma file_names_ok: "name_ok ''n''" "name_ok ''f''" "name_ok ''x''" "name_ok ''mpz''"
  by (simp_all add: name_ok_def is_word_def starts_word_def is_delim_def is_blank_def is_single_def is_digit_def word_token_def
      reserved_def numbered_def name_tok_def key_ok_def)

lemma files_readable:
  "\<forall>i \<in> set ok_file. \<forall>x \<in> item_names i. name_ok x" "\<forall>i \<in> set bad_file. \<forall>x \<in> item_names i. name_ok x"
  by (simp_all add: ok_file_def bad_file_def file_names_ok)

lemma ok_file_typed: "elab_all ok_file env0 \<noteq> None"
  by (simp add: ok_file_def env0_def is_type_def is_range_def)

lemma bad_file_untyped: "elab_all bad_file env0 = None"
  by (simp add: bad_file_def env0_def is_type_def is_range_def)

lemma ok_file_out: "concat (map item_out ok_file) = [''success'']"
  by (simp add: ok_file_def)

lemma one_file_args:
  "parse_args [''ok''] no_args = Some (no_args\<lparr>files := [''ok'']\<rparr>)" "parse_args [''bad''] no_args = Some (no_args\<lparr>files := [''bad'']\<rparr>)"
  by (simp_all add: starts_with_def no_args_def)

end
