(* ===== verification/Spec2Isabelle.thy ===== *)
theory Spec2Isabelle
  imports LFSC_Examples LFSC_Frame LFSC_Reduce LFSC_Occurs LFSC_Main LFSC_Contract LFSC_Alloc LFSC_Compile LFSC_Reread LFSC_Script
begin

text \<open>
  LFSC, a checker for proofs in the Logical Framework with Side Conditions (\<open>src/src\<close>).

  The program reads a file of commands (\<open>check.cpp\<close>).  Terms are checked while they are parsed and built
  as a graph of reference counted objects (\<open>expr.h\<close>, \<open>expr.cpp\<close>); names are found in a trie (\<open>trie.h\<close>);
  types are compared by \<open>defeq\<close>, which reduces applications, fills holes and shares equal subterms;
  side conditions are small functional programs (\<open>code.cpp\<close>) that are parsed by \<open>read_code\<close>, type checked by
  \<open>check_code\<close> and run by \<open>run_code\<close> during checking.

  \<^bold>\<open>The model.\<close>  Every operation is a state transformer \<open>'s \<Rightarrow> error + 'a \<times> 's\<close> (\<open>LFSC_Prelude\<close>); \<open>Inl\<close> is an end of
  the process: \<open>report_error\<close>, \<open>abort\<close>, undefined behaviour, or a recursion bound (fuel) that was too small.
  Fuel is an argument of every operation that recurses through the graph or the input; each operation is proved monotone
  in it (\<open>fuel_le\<close>), so that more fuel never changes an answer, and a theorem that an operation returns
  is stated with "for all \<open>n \<ge> N\<close>".  No bound is chosen anywhere.

  \<^item> \<open>LFSC_Trie\<close>: \<open>Trie<Data>\<close> of \<open>trie.h\<close>: \<open>get_trie\<close>, \<open>insert_trie\<close>; interface \<open>symbol_table\<close>, interpreted as \<open>trie_tab\<close>:
    lookup after insertion, nested scopes.
  \<^item> \<open>LFSC_Data\<close>: the header word of \<open>Expr\<close>; interface \<open>expr_header\<close> (four independent fields), interpreted as \<open>hdr\<close>.
  \<^item> \<open>LFSC_Cache\<close>: \<open>ExprTrie\<close> of \<open>code.cpp\<close>; interface \<open>result_cache\<close>, interpreted as \<open>scc_cache\<close>.
  \<^item> \<open>LFSC_Heap\<close>: the record \<open>st\<close>: the object store and the global variables; \<open>inc\<close>, \<open>dec\<close>, \<open>destroy\<close>, \<open>followDefs\<close>.
  \<^item> \<open>LFSC_Expr\<close>: \<open>build_app\<close>, \<open>make_app\<close>, \<open>collect_args\<close>, \<open>get_head\<close>, \<open>clone\<close>, \<open>whr\<close>, \<open>free_in\<close>, \<open>isType\<close>, marks.
  \<^item> \<open>LFSC_Defeq\<close>: \<open>Expr::defeq\<close>.  \<open>LFSC_Print\<close>: \<open>Expr::print\<close>, with the text of numerals in \<open>LFSC_Text\<close>.
  \<^item> \<open>LFSC_Run\<close>: \<open>run_code_internal\<close>, one definition per case, and \<open>run_code\<close>.
  \<^item> \<open>LFSC_Code\<close>: \<open>check_code\<close>, one definition per case, and \<open>compute_kind\<close>.
  \<^item> \<open>LFSC_Token\<close>: tokens and the two token buffer; interface \<open>token_stack\<close>, interpreted as \<open>lexer\<close>.
  \<^item> \<open>LFSC_Scan\<close>: the scanner of \<open>lexer.flex\<close>: its patterns and rules (\<open>lex_rules\<close>), the longest match (\<open>munch\<close>), the loop of \<open>yylex\<close>
    with the actions (\<open>scan_loop\<close>) and the tokens of a text with their locations (\<open>scan_all\<close>).
  \<^item> \<open>LFSC_State\<close>: the record \<open>cs\<close> of the checker: the store, the lexer, the standard output and the variables of \<open>check.cpp\<close>.
  \<^item> \<open>LFSC_Read\<close>: \<open>read_code\<close>, \<open>read_case\<close>, \<open>read_ctor\<close>, one definition per case.
  \<^item> \<open>LFSC_Check\<close>: \<open>check\<close>, one definition per case with its tail calls, declaration lists, \<open>build_validate_pi\<close>, \<open>build_macro\<close>.
  \<^item> \<open>LFSC_File\<close>: \<open>check_file\<close> with one definition per command, and \<open>init\<close>.
  \<^item> \<open>LFSC_Main\<close>: \<open>parse_args\<close> and \<open>main\<close>, the entry points of \<open>lfscc.cpp\<close>, \<open>cleanup\<close>.
  \<^item> \<open>LFSC_Write\<close>: the compiler of side conditions (\<open>sccwriter.cpp\<close>): \<open>write_code\<close>, one definition per case, \<open>write_expr\<close>, \<open>write_file\<close>;
    an operation returns the text it writes.
  \<^item> \<open>LFSC_Alloc\<close>: the chunking allocator (\<open>chunking_memory_management.h\<close>), a machine of its own with \<open>malloc\<close> as its environment.

  \<^bold>\<open>The specifications.\<close>  \<open>LFSC_Term\<close> says which first-order term a cell holds (\<open>den\<close>), \<open>LFSC_Sem\<close> gives the big-step
  semantics \<open>eval\<close> of side condition code, with failure as a value, and says which code a cell holds (\<open>cd\<close>).
  \<open>LFSC_Refine\<close> proves that the evaluator implements \<open>eval\<close>; \<open>LFSC_Unify\<close> that \<open>defeq\<close> decides equality of terms;
  \<open>LFSC_Occurs\<close> that \<open>free_in\<close> decides occurrence; \<open>LFSC_Reduce\<close> is about applications, cloning, reduction and marks;
  \<open>LFSC_Frame\<close> shows what every operation on the store leaves alone (interpretations \<open>stab\<close> and \<open>scop\<close> of the interface
  \<open>step_rel\<close>).  For the checker, \<open>LFSC_Scope\<close> has the rules for bindings opened and closed again (\<open>tidy\<close>),
  \<open>LFSC_Cells\<close> shows that no cell is reshaped, \<open>LFSC_Binding\<close> that declarations extend the signature (invariant \<open>ready\<close>),
  \<open>LFSC_Contract\<close> what \<open>check\<close> returns, \<open>LFSC_Start\<close> that \<open>init\<close> establishes the invariant.
  \<open>LFSC_Compile\<close> shows that the compiler is total on well-formed programs and that its output is well bracketed (\<open>emits\<close> is the logic
  of steps that return); \<open>LFSC_Alloc\<close> has the reachable states of the allocator (\<open>reach\<close>) and their invariant (\<open>pool\<close>).
  \<open>LFSC_Findings\<close> collects behaviour at the edges, \<open>LFSC_Examples\<close> the concrete states on which the theorems are used.

  \<open>LFSC_Simple\<close>, \<open>LFSC_Typing\<close>, \<open>LFSC_Names\<close>, \<open>LFSC_Declare\<close> and \<open>LFSC_Script\<close> are about what the program decides, on files of
  declarations of simple types over declared names and of \<open>check\<close> commands.  \<open>LFSC_Simple\<close> says how a simple type lies in the graph and
  what checking may change (\<open>moves\<close>, another interpretation of \<open>step_rel\<close>); \<open>LFSC_Typing\<close> proves that \<open>check\<close> accepts a term exactly when the typing rule
  \<open>infer\<close> does; \<open>LFSC_Names\<close> has typing by names (\<open>tm_type\<close>) and relates it to the state (\<open>good\<close>); \<open>LFSC_Declare\<close> treats the declarations, and
  \<open>LFSC_Script\<close> the commands, files, texts and the command line.

  \<open>LFSC_Scan\<close> also has the lexical grammar as a function (\<open>lexeme\<close>, \<open>tokens\<close>) and proves that the rules implement it;
  \<open>LFSC_Reread\<close> composes printer and scanner.

  \<^bold>\<open>Not modelled.\<close>  Output: debug traces and, of error messages, everything but the constant part.  The tables that
  flex generates are taken at the documented meaning of patterns and rules, on 7-bit characters; what \<open>yyinput\<close> returns at the end of the
  input is a parameter of the scanner.  The scanner is run ahead of the checker, which reads from the sequence of its tokens.  The store of the
  expression graph never reuses an address; that the allocator hands out disjoint blocks is proved separately.
  The numerals of GMP are taken at their documented decimal meaning, and \<open>mpz_get_si\<close> is a parameter of the compiler.  Machine
  addresses matter to the program only in \<open>compare\<close>; they are the field \<open>maddr\<close> of the state, about which nothing is assumed.
\<close>

section \<open>The program as a type checker\<close>



text \<open>
  C2.  \<open>check\<close> decides typing.  Let the symbol table declare the names of the term \<open>t\<close> with simple types over base types, as the
  signature \<open>\<Sigma>\<close> says, and let the term stand in front of the scanner.  Called with a base type as the expected type, or to compute the type, \<open>check\<close>
  returns exactly on the terms that the typing rule \<open>infer\<close> accepts: with the term, if it was to be built, with its type, if that was
  to be computed, and behind the term, up to the closing parentheses that a tail call leaves to its caller.  On all other terms it
  reports an error, or has left closing parentheses that are not there, so that its caller does.  It changes nothing but values of the
  variables of \<open>PI\<close> types.
\<close>

theorem check_decides_typing:
  assumes "prepared \<Sigma> (tm_names t) (heap c)" "asks (heap c) a" "sees (lx c) (tm_toks t @ rest)"
  shows "if meets_type a (infer \<Sigma> t)
    then \<exists>N res cl h x k. (\<forall>n \<ge> N. check n a c = Inr ((res, cl, False), upd c h (open_parens c + int k) (at_text x (rparens k @ rest)))) \<and>
      moves (heap c) h \<and> comp_ok a h (infer \<Sigma> t) cl \<and>
      (if create a then k = 0 \<and> (\<exists>b. res = Some b \<and> means h b (tm_den \<Sigma> t)) else res = None)
    else \<exists>N R. (\<forall>n \<ge> N. check n a c = R) \<and>
      ((\<exists>msg. R = Inl (ReportError msg)) \<or> (\<exists>v c'. R = Inr (v, c') \<and> left_over a c (open_parens c) v c'))"
proof -
  from checks_rightD [OF check_decides assms] obtain N R where R: "\<forall>n \<ge> N. check n a c = R" "verdict \<Sigma> a t rest c R"
    unfolding eventually_sequentially by blast
  show ?thesis
  proof (cases "meets_type a (infer \<Sigma> t)")
    case True
    with R show ?thesis unfolding verdict_def if_P [OF True] by blast
  next
    case False
    with R show ?thesis unfolding verdict_def if_not_P [OF False] by blast
  qed
qed

theorem check_decides_typing_witness:
  "(\<exists>N b h x. (\<forall>n \<ge> N. check n (ask True (Some statMpz)) (fresh (tm_toks (Num 3))) =
      Inr ((Some b, None, False), upd (fresh (tm_toks (Num 3))) h 0 (at_text x []))) \<and> node h b = Some (IntExpr 3)) \<and>
   (\<exists>N msg. \<forall>n \<ge> N. check n (ask True (Some statMpz)) (fresh (tm_toks (Tm ''mpz'' [Num 3]))) = Inl (ReportError msg))"
proof
  let ?\<Sigma> = "sig_of cell0 env0" and ?a = "ask True (Some statMpz)"
  have m: "meets_type ?a (infer ?\<Sigma> (Num 3))" "\<not> meets_type ?a (infer ?\<Sigma> (Tm ''mpz'' [Num 3]))"
    by (simp_all add: meets_type_def ask_def sig_of_def env0_def cell0_def)
  have p: "prepared ?\<Sigma> X (heap (fresh ts))" "asks (heap (fresh ts)) ?a" "sees (lx (fresh ts)) (ts @ [])" for X ts
    using good_prepared [OF good_fresh(1)] good_fresh(2) sees_at by (auto simp: asks_def ask_def prepared_def)
  have a: "create ?a" "expected ?a = Some statMpz" by (simp_all add: ask_def)
  from check_decides_typing [of ?\<Sigma> "Num 3" "fresh (tm_toks (Num 3))" ?a "[]", OF p] show "\<exists>N b h x. (\<forall>n \<ge> N. check n ?a (fresh (tm_toks (Num 3))) =
      Inr ((Some b, None, False), upd (fresh (tm_toks (Num 3))) h 0 (at_text x []))) \<and> node h b = Some (IntExpr 3)"
    unfolding if_P [OF m(1)] using a by (auto simp: comp_ok_def fresh_parens elim!: means.cases)
  from check_decides_typing [of ?\<Sigma> "Tm ''mpz'' [Num 3]" "fresh (tm_toks (Tm ''mpz'' [Num 3]))" ?a "[]", OF p] show "\<exists>N msg. \<forall>n \<ge> N. check n ?a (fresh (tm_toks (Tm ''mpz'' [Num 3]))) = Inl (ReportError msg)"
    unfolding if_not_P [OF m(2)] using a(1) by (auto simp: left_over_def)
qed

section \<open>Side condition code\<close>

text \<open>
  C3.  Running code computes what the code means.  If the big-step semantics evaluates the code \<open>c\<close>
  to \<open>ro\<close> (a term, or failure), the graph at \<open>a\<close> holds \<open>c\<close>, and the environment is held in the \<open>val\<close>
  fields of its variables, then with enough fuel \<open>run_code\<close> returns: a pointer to that term, or null
  exactly on failure, and it leaves every old cell and every \<open>val\<close> field as it was.
\<close>

theorem run_code_refines:
  assumes "eval P \<rho> c ro" and "ctx P V s \<rho>" and "cd V s a c"
  shows "\<exists>N r s'. (\<forall>n \<ge> N. run_code n a s = Inr (r, s')) \<and> ext s s' \<and>
    (case ro of None \<Rightarrow> r = None | Some v \<Rightarrow> \<exists>b. r = Some b \<and> is_val V s' b v)"
  using run_code_refines_aux [OF assms] unfolding returns_iff outcome_def by blast

theorem run_code_refines_witness:
  "\<exists>N b s'. (\<forall>n \<ge> N. run_code n 15 fac_st = Inr (Some b, s')) \<and> node s' b = Some (IntExpr 6)"
proof -
  from run_code_refines [OF fac_call fac_ctx fac_cells(3)] obtain N b s' where
    r: "\<forall>n \<ge> N. run_code n 15 fac_st = Inr (Some b, s')" "is_val {4} s' b (FInt 6)"
    unfolding option.case by blast
  then have "node s' b = Some (IntExpr 6)" using is_val_cases(1) by blast
  with r(1) show ?thesis by blast
qed

text \<open>
  Running code is safe for the rest of the state: whatever the code, \<open>run_code\<close> changes no table,
  keeps every address allocated, and every cell keeps its class, operator, arity, literal and name.
\<close>

theorem run_code_stable:
  assumes "run_code n e s = Inr (r, s')"
  shows "stable s s'"
  using assms stable_run_code by (meson keepsD)

theorem run_code_stable_witness: "\<exists>n r s'. run_code n 15 fac_st = Inr (r, s') \<and> stable fac_st s'"
proof -
  obtain n r s' where "run_code n 15 fac_st = Inr (r, s')"
    using run_code_refines_aux [OF fac_call fac_ctx fac_cells(3)] unfolding returns_iff by blast
  with run_code_stable [OF this] show ?thesis by blast
qed

text \<open>
  More fuel changes nothing: once a run returns, every larger bound returns the same result in the
  same state, so the bound is not part of the meaning.
\<close>

theorem run_code_fuel_irrelevant:
  assumes "run_code n e s = Inr r" and "n \<le> m"
  shows "run_code m e s = Inr r"
  by (rule fuel_more [of "\<lambda>n. run_code n e", OF run_code_fuel assms])

theorem run_code_fuel_irrelevant_witness:
  "\<exists>n r. run_code n 15 fac_st = Inr r \<and> run_code (n + 7) 15 fac_st = Inr r"
proof -
  obtain n r where n: "run_code n 15 fac_st = Inr r"
    using run_code_refines_aux [OF fac_call fac_ctx fac_cells(3)] unfolding returns_iff by blast
  moreover have "run_code (n + 7) 15 fac_st = Inr r" by (rule run_code_fuel_irrelevant [OF n]) simp
  ultimately show ?thesis by blast
qed

text \<open>
  C14.  Type checking code is lexically scoped: however \<open>check_code\<close> binds names for \<open>let\<close> and for patterns
  while it works, when it returns every name of the symbol table has the value and the type it had,
  and the table is well-formed.
\<close>

theorem check_code_scoped:
  assumes "sym_ok s" and "check_code n e s = Inr (tp, s')"
  shows "sym_ok s' \<and> lookup s' = lookup s"
  using keepsD [OF scoped_check_code assms(2)] assms(1) by (simp add: scoped_def)

theorem check_code_scoped_witness:
  "sym_ok (mk_st [(6, IntExpr 1)] []) \<and> (\<exists>s'. check_code 1 6 (mk_st [(6, IntExpr 1)] []) = Inr (Some statMpz, s') \<and>
     lookup s' = lookup (mk_st [(6, IntExpr 1)] []))"
proof -
  have ok: "sym_ok (mk_st [(6, IntExpr 1)] [])" by (simp add: sym_ok_def)
  have c: "check_code 1 6 (mk_st [(6, IntExpr 1)] []) = Inr (Some statMpz, mk_st [(6, IntExpr 1)] [])"
    by (simp add: run_simps code_atom_def)
  from check_code_scoped [OF ok c] ok c show ?thesis by blast
qed

section \<open>Definitional equality\<close>

text \<open>
  C4.  \<open>defeq\<close> decides equality of first-order terms.  Where the comparison is defined, it returns with
  enough fuel, answers true exactly when the two terms are equal, and the sharing it does on the way
  leaves at every cell the term that was there.
\<close>

theorem defeq_decides_first_order:
  assumes "den {} s a t" and "den {} s e u" and "cmp t u = Inr b"
  shows "(\<exists>N s'. (\<forall>n \<ge> N. defeq n a e s = Inr (b, s')) \<and> same_terms s s') \<and> (b \<longleftrightarrow> t = u)"
proof
  show "\<exists>N s'. (\<forall>n \<ge> N. defeq n a e s = Inr (b, s')) \<and> same_terms s s'"
    using defeq_decides [OF assms] unfolding decides_def returns_iff by blast
  show "b \<longleftrightarrow> t = u" using assms(3) cmp_True cmp_refl by (cases b) auto
qed

theorem defeq_decides_first_order_witness:
  "\<exists>N s' s''. (\<forall>n \<ge> N. defeq n 7 9 terms_st = Inr (True, s')) \<and> (\<forall>n \<ge> N. defeq n 7 10 terms_st = Inr (False, s''))"
proof -
  from defeq_decides_first_order [OF terms_den(1,2), of True] obtain N1 s1 where
    1: "\<forall>n \<ge> N1. defeq n 7 9 terms_st = Inr (True, s1)" by auto
  from defeq_decides_first_order [OF terms_den(1,3), of False] obtain N2 s2 where
    2: "\<forall>n \<ge> N2. defeq n 7 10 terms_st = Inr (False, s2)" by auto
  from 1 2 have "(\<forall>n \<ge> max N1 N2. defeq n 7 9 terms_st = Inr (True, s1)) \<and>
      (\<forall>n \<ge> max N1 N2. defeq n 7 10 terms_st = Inr (False, s2))" by simp
  then show ?thesis by blast
qed

text \<open>
  C23.  Comparing an unfilled hole with a term fills it: \<open>defeq\<close> answers true and from then on the hole
  stands for the end of the definition chain of the other side.
\<close>

theorem defeq_fills_hole:
  assumes "node s h = Some HoleExpr" and "sval s h = None" and "h \<noteq> e"
    and "(points_to s)\<^sup>*\<^sup>* e e'" and "at_end s e'" and "e' \<noteq> h"
  shows "\<exists>N s'. \<forall>n \<ge> N. defeq n h e s = Inr (True, s') \<and> followDefs n h s' = Inr (e', s') \<and>
    (\<forall>a. a \<noteq> h \<longrightarrow> sval s' a = sval s a) \<and> node s' = node s"
proof -
  from defeq_hole [OF assms(1-5)] obtain s' where
    s': "returns (\<lambda>n. defeq n h e) s (True, s')" "node s' = node s" "sval s' = (sval s)(h \<mapsto> e')" by blast
  from filled_hole [OF assms(1) s'(2,3) assms(5,6)] s'(1) obtain N M where
    "\<forall>n \<ge> N. defeq n h e s = Inr (True, s')" "\<forall>n \<ge> M. followDefs n h s' = Inr (e', s')"
    unfolding returns_iff by blast
  then have "\<forall>n \<ge> max N M. defeq n h e s = Inr (True, s') \<and> followDefs n h s' = Inr (e', s')" by simp
  moreover have "\<forall>a. a \<noteq> h \<longrightarrow> sval s' a = sval s a" using s'(3) by simp
  ultimately show ?thesis using s'(2) by blast
qed

theorem defeq_fills_hole_witness: "\<exists>N s'. \<forall>n \<ge> N. defeq n 11 7 terms_st = Inr (True, s') \<and> followDefs n 11 s' = Inr (7, s')"
  using defeq_fills_hole [of terms_st 11 7 7] by (auto simp: terms_st_def at_end_def)

text \<open>
  C33.  Without an occurs check two holes can be tied into a knot: comparing an unfilled hole with a hole
  that is already filled with it makes the first one point to itself, after which \<open>followDefs\<close> never
  returns.
\<close>

theorem defeq_hole_knot:
  assumes "node s h = Some HoleExpr" and "sval s h = None" and "node s k = Some HoleExpr" and "sval s k = Some h"
  shows "\<exists>N s'. (\<forall>n \<ge> N. defeq n h k s = Inr (True, s')) \<and> (\<forall>n. followDefs n h s' = Inl OutOfFuel)"
proof -
  have "points_to s k h" using assms(3,4) by (simp add: points_to_def)
  moreover have "at_end s h" using assms(1,2) by (simp add: at_end_def)
  moreover have "h \<noteq> k" using assms(2,4) by auto
  ultimately obtain s' where s': "returns (\<lambda>n. defeq n h k) s (True, s')" "node s' = node s" "sval s' = (sval s)(h \<mapsto> h)"
    using defeq_hole [OF assms(1,2), of k h] by blast
  have "points_to s' h h" using s' assms(1) by (simp add: points_to_def)
  with followDefs_loop s'(1) show ?thesis unfolding returns_iff by blast
qed

theorem defeq_hole_knot_witness:
  "\<exists>N s'. (\<forall>n \<ge> N. defeq n 4 5 (mk_st [(4, HoleExpr), (5, HoleExpr)] [(5, 4)]) = Inr (True, s')) \<and>
     (\<forall>n. followDefs n 4 s' = Inl OutOfFuel)"
  using defeq_hole_knot [of "mk_st [(4, HoleExpr), (5, HoleExpr)] [(5, 4)]" 4 5] by simp

text \<open>
  C34.  The comparison of an integer literal with a symbol is undefined in one direction and false in the
  other: the code casts the symbol to a numeral without looking at its class.
\<close>

theorem defeq_literal_symbol:
  assumes "node s a = Some (IntExpr i)" and "node s e = Some (SymSExpr x)" and "sval s e = None"
  shows "defeq (Suc n) a e s = Inl Undefined \<and> defeq (Suc n) e a s = Inr (False, s)"
  using defeq_int_sym [OF assms(1,2) _ assms(3)] by simp

theorem defeq_literal_symbol_witness:
  "defeq 1 12 5 terms_st = Inl Undefined \<and> defeq 1 5 12 terms_st = Inr (False, terms_st)"
  using defeq_literal_symbol [of terms_st 12 3 5 "''c''" 0] by (simp add: terms_st_def)

section \<open>The expression graph\<close>

text \<open>
  C24.  \<open>followDefs\<close> returns exactly on the cells whose chain of \<open>val\<close> pointers ends, and then returns its
  end without touching the state.
\<close>

theorem followDefs_iff:
  "(\<exists>n. followDefs n a s = Inr (b, s')) \<longleftrightarrow> s' = s \<and> (points_to s)\<^sup>*\<^sup>* a b \<and> at_end s b"
  using followDefs_sound followDefs_complete by blast

text \<open>
  C10.  The occurs check terminates and is exact: on every finite acyclic piece of the graph \<open>free_in\<close>
  returns, leaves the state alone, and answers whether the symbol or hole occurs free; the visited set
  only saves work.
\<close>

theorem free_in_exact:
  assumes "fin_graph s a"
  shows "\<exists>N. \<forall>n \<ge> N. free_in n a x s = Inr (occ s x a, s)"
  using free_in_correct [OF assms] unfolding returns_iff .

theorem free_in_exact_witness:
  "\<exists>N. \<forall>n \<ge> N. free_in n 10 6 terms_st = Inr (True, terms_st)"
proof -
  have e: "fin_graph terms_st 4" "fin_graph terms_st 6" by (auto intro!: fin_end simp: terms_st_def)
  have "fin_graph terms_st 10" by (rule fin_kids [where ks = "[4, 6]"]) (use e in \<open>auto simp: terms_st_def\<close>)
  moreover have "occ terms_st 6 6" by (rule occ_free [where nd = "SymSExpr ''d''"]) (simp_all add: terms_st_def)
  then have "occ terms_st 6 10" by (rule occ_kid [rotated 3, where opr = APP and ks = "[4, 6]"]) (simp_all add: terms_st_def)
  ultimately show ?thesis using free_in_exact [of terms_st 10 6] by simp
qed

text \<open>
  C27.  Cloning a first-order term returns a cell that holds the same term, with definitions and filled
  holes expanded, and changes no old cell.
\<close>

theorem clone_first_order:
  assumes "den V s a t" and "bounded s"
  shows "\<exists>N b s'. (\<forall>n \<ge> N. clone n a s = Inr (b, s')) \<and> ext s s' \<and> den V s' b t"
  using clone_copies [OF assms grows.rel_refl assms(2)] unfolding copies_def returns_iff by blast

theorem clone_first_order_witness:
  "\<exists>N b s'. (\<forall>n \<ge> N. clone n 9 terms_st = Inr (b, s')) \<and> den {} s' b (FApp [FSym 4, FSym 5])"
  using clone_first_order [OF terms_den(2)] bounded_mk_st [of _ "[(8, 5)]"] by (fastforce simp: terms_st_def)

text \<open>
  C28.  Beta reduction: \<open>whr\<close> of an abstraction applied to one argument, the abstraction not having been
  applied before, returns the body with the variable bound to the (followed) argument.
\<close>

theorem whr_contracts:
  assumes "node s a = Some (CExpr APP [l, x])" and "node s l = Some (CExpr LAM [v, b])" and "\<not> flag s l"
    and "node s v = Some (SymSExpr y)" and "node s b = Some nb" and "(points_to s)\<^sup>*\<^sup>* x x'" and "at_end s x'"
  shows "\<exists>N s'. (\<forall>n \<ge> N. whr n a s = Inr (b, s')) \<and> sval s' = (sval s)(v \<mapsto> x') \<and> node s' = node s \<and> flag s' l"
  using whr_beta [OF assms(1-4) _ assms(5-7)] unfolding returns_iff by fastforce

theorem whr_contracts_witness: "\<exists>N s'. (\<forall>n \<ge> N. whr n 14 terms_st = Inr (10, s')) \<and> sval s' 6 = Some 7"
proof -
  have "\<exists>N s'. (\<forall>n \<ge> N. whr n 14 terms_st = Inr (10, s')) \<and> sval s' = (sval terms_st)(6 \<mapsto> 7) \<and>
      node s' = node terms_st \<and> flag s' 13"
    by (rule whr_contracts [where l = 13 and x = 7 and y = "''d''" and nb = "CExpr APP [4, 6]"])
       (simp_all add: terms_st_def at_end_def)
  then obtain N s' where "\<forall>n \<ge> N. whr n 14 terms_st = Inr (10, s')" "sval s' = (sval terms_st)(6 \<mapsto> 7)" by blast
  moreover from this(2) have "sval s' 6 = Some 7" by simp
  ultimately show ?thesis by blast
qed

text \<open>
  C29.  Applications are taken apart the way they are built: \<open>collect_args\<close> of \<open>build_app\<close> gives back the head
  and the arguments.
\<close>

theorem build_collect_roundtrip:
  assumes "bounded s" and "at_end s h" and "args \<noteq> []" and "build_app h args 0 s = Inr (a, s')"
  shows "\<exists>N. \<forall>n \<ge> N. collect_args n a True s' = Inr ((h, args), s')"
  using build_collect [OF assms] unfolding returns_iff .

theorem build_collect_roundtrip_witness:
  "\<exists>a s' N. build_app 4 [5, 6] 0 terms_st = Inr (a, s') \<and> (\<forall>n \<ge> N. collect_args n a True s' = Inr ((4, [5, 6]), s'))"
proof -
  obtain a s' where b: "build_app 4 [5, 6] 0 terms_st = Inr (a, s')" by (simp add: build_app_returns new_expr_run)
  have "bounded terms_st" by (simp add: terms_st_def bounded_mk_st)
  moreover have "at_end terms_st 4" by (simp add: terms_st_def at_end_def)
  ultimately show ?thesis using build_collect_roundtrip [OF _ _ _ b] b by blast
qed

text \<open>
  \<open>make_app\<close> appends: the new application has the head and arguments of the old one and the new argument
  last.
\<close>

theorem make_app_appends:
  assumes "bounded s" and "at_end s h" and "node s h = Some (SymSExpr x)"
    and "if args = [] then e1 = h else node s e1 = Some (CExpr APP (h # args))"
    and "\<forall>a \<in> set args. node s a \<noteq> None" and "make_app e1 e2 s = Inr (a, s')"
  shows "\<exists>N. \<forall>n \<ge> N. collect_args n a True s' = Inr ((h, args @ [e2]), s')"
  using make_app_collect [OF assms(1-3) _ assms(4-6)] unfolding returns_iff by simp

theorem make_app_appends_witness:
  "\<exists>a s' N. make_app 7 6 terms_st = Inr (a, s') \<and> (\<forall>n \<ge> N. collect_args n a True s' = Inr ((4, [5, 6]), s'))"
proof -
  obtain a s' where m: "make_app 7 6 terms_st = Inr (a, s')"
    by (simp add: make_app_def run_simps terms_st_def new_expr_run)
  have "bounded terms_st" by (simp add: terms_st_def bounded_mk_st)
  from make_app_appends [OF this _ _ _ _ m, of 4 "''f''" "[5]"] m show ?thesis
    by (auto simp: terms_st_def at_end_def)
qed

text \<open>
  \<open>markvar\<close> toggles one bit of one symbol: the read, then clear or set, of its mark flips exactly that
  bit, so that doing it twice restores the marks.
\<close>

theorem markvar_flips_one_bit:
  assumes "i < 32"
  shows "\<exists>s'. bnd (getmark a i) (\<lambda>m. if m then clearmark a i else setmark a i) s = Inr ((), s') \<and>
    (\<forall>b j. bit (mark_map s' b) j = (if b = a \<and> j = i then \<not> bit (mark_map s a) i else bit (mark_map s b) j))"
  by (rule mark_flip [OF assms])

theorem markvar_flips_one_bit_witness:
  "\<exists>s'. bnd (getmark 5 31) (\<lambda>m. if m then clearmark 5 31 else setmark 5 31) terms_st = Inr ((), s') \<and> bit (mark_map s' 5) 31"
  using markvar_flips_one_bit [of 31 5 terms_st] by (auto simp: terms_st_def mk_st_def)

text \<open>
  Dropping a reference frees memory but changes no expression: \<open>dec\<close>, with the recursive \<open>destroy\<close>, leaves
  every node, \<open>val\<close> pointer and flag, and all tables.
\<close>

theorem dec_changes_counts_only: "rc_only s (dec_st a s)"
  by (rule dec_rc_only)

section \<open>The symbol table\<close>

text \<open>
  C11.  Insertion into the symbol table never fails on names without the byte 255, returns the binding it
  replaces, and changes exactly that binding.
\<close>

theorem symbol_insert_lookup:
  assumes "wf_trie dd t" and "key_ok k"
  shows "\<exists>t'. insert_trie dd k x t = Inr (get_trie dd k t, t') \<and> wf_trie dd t' \<and>
    (\<forall>j. get_trie dd j t' = (if j = k then x else get_trie dd j t))"
  by (rule insert_trie_correct(1) [OF assms])

theorem symbol_insert_lookup_witness:
  "\<exists>t'. insert_trie 0 ''abc'' 3 (new_trie (0 :: int)) = Inr (0, t') \<and> get_trie 0 ''abc'' t' = 3 \<and> get_trie 0 ''ab'' t' = 0"
  using symbol_insert_lookup [of 0 "new_trie (0 :: int)" "''abc''" 3] by (auto simp: key_ok_def)



section \<open>The header word\<close>

text \<open>
  The packed header loses nothing: of the word a constructor builds, the accessors read back the class,
  the operator, the reference count 1 and a clear flag, for every class and operator.
\<close>

theorem header_packs:
  "getclass_w (expr_header_word cls opr) = class_code cls \<and> getop_w (expr_header_word cls opr) = op_code opr \<and>
   getrefcnt_w (expr_header_word cls opr) = 1 \<and> \<not> cloned_w (expr_header_word cls opr)"
  by (simp add: header_word_fields)

text \<open>
  C30.  The reference count saturates: once it has reached its maximum it is never changed again, by \<open>inc\<close> or
  by \<open>dec\<close>, so that it cannot wrap around into the flag or the sign bit and the object is never destroyed.
\<close>

theorem refcount_saturates:
  assumes "header_ok w" and "nat (getrefcnt_w w) = d_maxRefCount"
  shows "nat (getrefcnt_w (inc_w w)) = d_maxRefCount \<and> (\<exists>w'. dec_w w = Some w' \<and> nat (getrefcnt_w w') = d_maxRefCount)"
  by (rule hdr.saturated_stays [OF assms])

theorem refcount_saturates_witness:
  "nat (getrefcnt_w (inc_w (setrefcnt_w 4194303 (expr_header_word CEXPR APP)))) = 4194303"
  using refcount_saturates [of "setrefcnt_w 4194303 (expr_header_word CEXPR APP)"]
  by (simp add: setrefcnt_ok d_maxRefCount_def)

section \<open>The cache of function results\<close>


text \<open>
  C35.  A cached call leaves its parameters bound: when the result of a \<open>function\<close> is found in the cache, the
  call returns it without restoring the \<open>val\<close> fields of the parameters, so that an enclosing call of the
  same function goes on with the wrong arguments.
\<close>

theorem cache_hit_leaves_parameters:
  assumes "node s pc = Some (CExpr PROG [tp, vs, body])" and "node s vs = Some (CExpr PROGVARS xs)"
    and "get_head n False e s = Inr (p, s)" and "node s p = Some nd" and "\<not> run_scc s" and "progFunctions s p"
    and "length xs = length as" and "distinct xs" and "val_cells s xs"
    and "etrie_data (p # as) (cache s) = Some d" and "node s d = Some nd'"
  shows "\<exists>s'. run_prog rec n u e pc as s = Inr (Some d, s') \<and> sval s' = upd_vals xs as (sval s)"
  by (rule run_prog_cache_hit [OF assms])

theorem cache_hit_leaves_parameters_witness:
  "\<exists>s s'. sval s 4 = None \<and> run_prog (run_code_internal 0) (Suc (Suc 0)) False 15 13 [14] s = Inr (Some 6, s') \<and> sval s' 4 = Some 14"
proof -
  let ?s = "fac_st\<lparr>progFunctions := (\<lambda>a. a = 5), cache := etrie_set [5, 14] 6 (etrie_touch [5, 14] empty_etrie)\<rparr>"
  have "\<exists>s'. run_prog (run_code_internal 0) (Suc (Suc 0)) False 15 13 [14] ?s = Inr (Some 6, s') \<and> sval s' = upd_vals [4] [14] (sval ?s)"
  proof (rule cache_hit_leaves_parameters [where p = 5 and tp = 2 and vs = 12 and body = 11])
    show "etrie_data [5, 14] (cache ?s) = Some 6" using scc_cache.look_store_touch [of "[5, 14]" "[5, 14]"] by simp
    show "get_head (Suc (Suc 0)) False 15 ?s = Inr (5, ?s)" by (simp add: fac_st_def run_simps)
  qed (simp_all add: fac_st_def val_cells_def)
  moreover have "sval ?s 4 = None" by (simp add: fac_st_def)
  ultimately show ?thesis by (fastforce simp: upd_vals_def)
qed

section \<open>The token buffer\<close>

text \<open>
  The lexer is a stack with room for two tokens: two tokens pushed back come out again in reverse
  order (with their sugar removed) and the rest of the stream is untouched.
\<close>

theorem lookahead_two:
  assumes "lex_ok s" and "pushed s = []" and "t \<noteq> TokenErr" and "u \<noteq> TokenErr"
  shows "\<exists>s'. sq (reinsert_token t) (sq (reinsert_token u) (bnd next_token (\<lambda>a. bnd next_token (\<lambda>b. ret (a, b))))) s =
      Inr ((desugar u, desugar t), s') \<and> lex_ok s' \<and> stack s' = stack s"
  by (rule lexer.push_push_pop) (use assms in simp_all)

theorem lookahead_two_witness:
  "\<exists>s'. sq (reinsert_token TIdent) (sq (reinsert_token TOpen) (bnd next_token (\<lambda>a. bnd next_token (\<lambda>b. ret (a, b)))))
      (init_lex [(TClose, '')'')]) = Inr ((TOpen, TIdent), s') \<and> stack s' = [TClose]"
proof -
  let ?s = "init_lex [(TClose, '')'')]"
  have "lex_ok ?s" "pushed ?s = []" "stack ?s = [TClose]"
    by (simp_all add: init_lex_def lex_ok_def pushed_def stack_def)
  moreover have "desugar TOpen = TOpen" "desugar TIdent = TIdent" by (simp_all add: desugar_def)
  ultimately show ?thesis using lookahead_two [of ?s TIdent TOpen] by fastforce
qed

text \<open>
  Names of tokens are distinct, so that an error message identifies the token it is about.
\<close>

theorem token_names_distinct: "token_name t = token_name u \<longleftrightarrow> t = u"
  by (rule token_name_inj)

section \<open>The scanner\<close>



text \<open>
  C26.  The source locations are right: in a text without null characters every token stands in the text between its start
  and its end, where lines and columns count from 1 and wrap around at 32 bits.
\<close>

theorem scanner_locations:
  assumes "CHR 0x00 \<notin> set cs" and "scan_all 0 cs init_s_span = Some ts" and "(t, x, sp) \<in> set ts"
  shows "\<exists>u r. cs = u @ x @ r \<and> span_start sp = position u \<and> span_end sp = position (u @ x)"
  using scan_all_at [of "[]" cs init_s_span] assms by (simp add: position_def init_s_span_def)

theorem scanner_locations_witness:
  "\<exists>ts t sp. scan_all 0 [CHR ''a'', newline, CHR ''b''] init_s_span = Some ts \<and> (t, ''b'', sp) \<in> set ts \<and>
     LFSC_Token.line (span_start sp) = 2 \<and> column (span_start sp) = 1"
proof -
  let ?cs = "[CHR ''a'', newline, CHR ''b'']"
  have "tokens ?cs = [(TIdent, ''a''), (TIdent, ''b'')]" by code_simp
  with scan_all_spec [of ?cs init_s_span] obtain ts where
    ts: "scan_all 0 ?cs init_s_span = Some ts" "map (\<lambda>(t, x, sp). (t, x)) ts = [(TIdent, ''a''), (TIdent, ''b'')]" by auto
  then obtain sp where m: "(TIdent, ''b'', sp) \<in> set ts" by auto
  from scanner_locations [OF _ ts(1) m] obtain u r where
    u: "?cs = u @ ''b'' @ r" "span_start sp = position u" by auto
  then have "u = [CHR ''a'', newline]" by (auto simp: Cons_eq_append_conv)
  with u(2) have "LFSC_Token.line (span_start sp) = 2 \<and> column (span_start sp) = 1" by (simp add: position_def move_def)
  with ts(1) m show ?thesis by blast
qed

text \<open>
  C18.  What is printed can be scanned again: for a cell that holds a first-order term whose symbols are called by identifiers, \<open>print\<close>
  returns a text, and the scanner turns this text into the tokens of the term.
\<close>

theorem print_scan_roundtrip:
  assumes "names s nm" and "den {} s a t" and "named_by nm t"
  shows "\<exists>N x. (\<forall>n. print (N + n) a s = Inr (x, s)) \<and> scan 0 x = Some (term_toks nm t)"
proof -
  from print_den [OF assms(1,2)] obtain N where "\<forall>n \<ge> N. print n a s = Inr (term_text nm t, s)" unfolding returns_iff by blast
  then have "\<forall>n. print (N + n) a s = Inr (term_text nm t, s)" by simp
  with scan_term_text [OF assms(3)] show ?thesis by blast
qed

theorem print_scan_roundtrip_witness:
  "\<exists>N x. (\<forall>n. print (N + n) 7 terms_st = Inr (x, terms_st)) \<and>
     scan 0 x = Some [(TOpen, ''(''), (TIdent, ''f''), (TIdent, ''c''), (TClose, '')'')]"
proof -
  let ?nm = "\<lambda>a. if a = 4 then ''f'' else if a = 5 then ''c'' else ''d''"
  have nm: "names terms_st ?nm" by (auto simp: names_def terms_st_def split: if_splits)
  have "is_name ''f''" "is_name ''c''"
    by (simp_all add: is_name_def is_word_def starts_word_def is_delim_def is_blank_def is_single_def is_digit_def
        word_token_def reserved_def numbered_def)
  then have "named_by ?nm (FApp [FSym 4, FSym 5])" by simp
  from print_scan_roundtrip [OF nm terms_den(1) this] show ?thesis by simp
qed

section \<open>A byte the symbol table cannot hold\<close>



section \<open>The checker\<close>

text \<open>
  C5.  Declarations only extend the signature.  Every command except \<open>check\<close> and \<open>opaque\<close>, when it
  succeeds in a state that satisfies the invariant, leaves a state that satisfies it, in which either every
  name has the value and type it had, or exactly one name, unbound before, is now bound.
\<close>

theorem command_extends_signature:
  assumes "ready c" and "command n t c = Inr (u, c')" and "t \<noteq> TCheck" and "t \<noteq> TOpaque"
  shows "ready c' \<and> (binds c' = binds c \<or> (\<exists>x a tp. binds c x = (None, None) \<and> binds c' = (binds c)(x := (Some a, tp))))"
  using command_extends [OF assms] by (simp add: extends_def)

theorem command_extends_signature_witness:
  "\<exists>c'. command 2 TDeclare (fresh [(TIdent, ''a''), (TIdent, ''mpz''), (TClose, '')'')]) = Inr ((), c') \<and> ready c'"
proof -
  have r: "ready (fresh [(TIdent, ''a''), (TIdent, ''mpz''), (TClose, '')'')])" by (rule fresh_ready) (simp add: key_ok_def)
  from declare_runs obtain c' where
    c': "command 2 TDeclare (fresh [(TIdent, ''a''), (TIdent, ''mpz''), (TClose, '')'')]) = Inr ((), c')" by blast
  from command_extends_signature [OF r c'] c' show ?thesis by auto
qed

text \<open>
  C20.  The invariant holds when the first file is opened: \<open>init\<close> succeeds, the symbol table is well-formed and
  binds exactly \<open>type\<close>, \<open>mpz\<close> and \<open>mpq\<close>, and every cell lies below the next address.
\<close>

theorem init_establishes_invariant:
  assumes "\<forall>(t, x) \<in> set ts. key_ok x"
  shows "ready (fresh ts) \<and> binds (fresh ts) = (\<lambda>x. (None, None))(''type'' := (Some statType, Some statKind),
     ''mpz'' := (Some statMpz, Some statType), ''mpq'' := (Some statMpq, Some statType))"
  using fresh_ready [OF assms] fresh_binds by blast

theorem init_establishes_invariant_witness: "ready (fresh [(TOpen, ''('')])"
  using init_establishes_invariant [of "[(TOpen, ''('')]"] by (simp add: key_ok_def)

text \<open>
  C9.  Checking is lexically scoped.  A call of \<open>check\<close> that builds its term, or is not in return position,
  leaves every name with the value and type it had, whatever it parsed and bound on the way.
\<close>

theorem check_lexically_scoped:
  assumes "names_ok c" and "create a \<or> \<not> return_pos a" and "check n a c = Inr (r, c')"
  shows "names_ok c' \<and> binds c' = binds c"
  using tidyD [OF tidy_check assms(1,3)] assms(2) by (simp add: calm_def)

theorem check_lexically_scoped_witness:
  "\<exists>r c'. check 1 ((ask True None)\<lparr>computed := True\<rparr>) (fresh [(TIdent, ''mpz'')]) = Inr (r, c') \<and> names_ok c' \<and>
     binds c' ''mpz'' = (Some statMpz, Some statType)"
proof -
  let ?c = "fresh [(TIdent, ''mpz'')]"
  have n: "names_ok ?c" using fresh_ready [of "[(TIdent, ''mpz'')]"] by (simp add: ready_def key_ok_def)
  from check_mpz obtain r c' where c': "check 1 ((ask True None)\<lparr>computed := True\<rparr>) ?c = Inr (r, c')" by blast
  have "names_ok c' \<and> binds c' = binds ?c" by (rule check_lexically_scoped [OF n _ c']) (simp add: ask_def)
  then have "names_ok c'" "binds c' ''mpz'' = (Some statMpz, Some statType)" by (simp_all add: fresh_binds)
  with c' show ?thesis by blast
qed

text \<open>
  C21.  The parser of code is lexically scoped: the names that \<open>let\<close> and patterns bind have their old
  bindings when \<open>read_code\<close> returns.
\<close>

theorem read_code_scoped:
  assumes "names_ok c" and "read_code n c = Inr (r, c')"
  shows "names_ok c' \<and> binds c' = binds c"
  using tidyD [OF tidy_read_code assms] .

theorem read_code_scoped_witness:
  "\<exists>r c'. read_code 1 (fresh [(TIdent, ''mpz'')]) = Inr (r, c') \<and> binds c' ''mpz'' = (Some statMpz, Some statType)"
proof -
  let ?c = "fresh [(TIdent, ''mpz'')]"
  have n: "names_ok ?c" using fresh_ready [of "[(TIdent, ''mpz'')]"] by (simp add: ready_def key_ok_def)
  have g: "get_trie (None, None) ''mpz'' (symbols (heap ?c)) = (Some statMpz, Some statType)"
    using fun_cong [OF fresh_binds [of "[(TIdent, ''mpz'')]"], of "''mpz''"] by (simp add: lookup_def)
  have "node (heap ?c) statMpz = Some (CExpr MPZ [])"
    by (simp add: fresh_node statMpz_def statType_def statKind_def statMpq_def)
  then obtain r c' where c': "read_code 1 ?c = Inr (r, c')"
    using g by (simp add: read_start_def read_symbol_def onheap_def onlex_def bnd_run sq_run next_token_run token_str_def
        desugar_def fresh_lx init_lex_def sym_get_def inc_def getnode_def)
  from read_code_scoped [OF n c'] c' show ?thesis by (auto simp: fresh_binds)
qed

text \<open>
  C8.  The contract of \<open>check\<close>: asked to create the term it returns one; otherwise it returns null, unless it
  read a hole; it reports a hole only to a caller that allows one; it computes a classifier exactly when none
  is expected.
\<close>

theorem check_contract:
  assumes "check n a c = Inr ((r, cl, h), c')"
  shows "(create a \<longrightarrow> r \<noteq> None) \<and> (\<not> create a \<longrightarrow> \<not> h \<longrightarrow> r = None) \<and> (h \<longrightarrow> is_hole a) \<and>
    (expected a = None \<longrightarrow> computed a \<longrightarrow> \<not> h \<longrightarrow> cl \<noteq> None) \<and> (expected a \<noteq> None \<longrightarrow> cl = None)"
  using check_meets [of a n] assms by (fastforce simp: yields_def)

theorem check_contract_witness:
  "\<exists>r cl h c'. check 1 ((ask True None)\<lparr>computed := True\<rparr>) (fresh [(TIdent, ''mpz'')]) = Inr ((r, cl, h), c') \<and> r \<noteq> None"
proof -
  let ?c = "fresh [(TIdent, ''mpz'')]"
  from check_mpz obtain c' where c': "check 1 ((ask True None)\<lparr>computed := True\<rparr>) ?c = Inr ((Some statMpz, Some statType, False), c')"
    by blast
  from check_contract [OF c'] c' show ?thesis by blast
qed

text \<open>
  More fuel changes nothing: once \<open>check\<close> returns, every larger bound on its recursion returns the same
  result in the same state.
\<close>

theorem check_fuel_irrelevant:
  assumes "check n a c = Inr r" and "n \<le> m"
  shows "check m a c = Inr r"
  by (rule fuel_more [of "\<lambda>n. check n a", OF check_fuel assms])

theorem check_fuel_irrelevant_witness:
  "\<exists>r. check 1 ((ask True None)\<lparr>computed := True\<rparr>) (fresh [(TIdent, ''mpz'')]) = Inr r \<and>
     check 9 ((ask True None)\<lparr>computed := True\<rparr>) (fresh [(TIdent, ''mpz'')]) = Inr r"
proof -
  let ?c = "fresh [(TIdent, ''mpz'')]"
  from check_mpz obtain r where r: "check 1 ((ask True None)\<lparr>computed := True\<rparr>) ?c = Inr r" by blast
  have "check 9 ((ask True None)\<lparr>computed := True\<rparr>) ?c = Inr r" by (rule check_fuel_irrelevant [OF r]) simp
  with r show ?thesis by blast
qed



section \<open>Printing\<close>

text \<open>
  C22.  The printed text of a first-order term depends on the term only: \<open>print\<close> returns on every graph that holds
  the term, however its parts are shared, defined by symbols or behind filled holes, and always writes the
  same text; it changes nothing.
\<close>

theorem print_text_of_term:
  assumes "names s nm" and "den {} s a t"
  shows "\<exists>N. \<forall>n \<ge> N. print n a s = Inr (term_text nm t, s)"
  using print_den [OF assms] unfolding returns_iff .

theorem print_text_of_term_witness:
  "\<exists>N. \<forall>n \<ge> N. print n 7 terms_st = Inr (''(f c)'', terms_st) \<and> print n 9 terms_st = Inr (''(f c)'', terms_st)"
proof -
  let ?nm = "\<lambda>a. if a = 4 then ''f'' else if a = 5 then ''c'' else ''d''"
  have nm: "names terms_st ?nm" by (auto simp: names_def terms_st_def split: if_splits)
  have t: "term_text ?nm (FApp [FSym 4, FSym 5]) = ''(f c)''" by simp
  from print_text_of_term [OF nm terms_den(1)] obtain N where N: "\<forall>n \<ge> N. print n 7 terms_st = Inr (''(f c)'', terms_st)"
    unfolding t by blast
  from print_text_of_term [OF nm terms_den(2)] obtain M where M: "\<forall>n \<ge> M. print n 9 terms_st = Inr (''(f c)'', terms_st)"
    unfolding t by blast
  from N M have "\<forall>n \<ge> max N M. print n 7 terms_st = Inr (''(f c)'', terms_st) \<and> print n 9 terms_st = Inr (''(f c)'', terms_st)" by simp
  then show ?thesis by blast
qed

section \<open>Where the checker does not do what it means to\<close>

text \<open>
  C19.  Sharing equal kids can change the meaning of a type.  The pattern \<open>(p (f x) (f y))\<close>, while both variables
  stand for \<open>a\<close>, is compared with an instance \<open>(p t t)\<close> in which \<open>t\<close> is one cell.  The comparison succeeds, and
  the sharing leaves the pattern as \<open>(p (f y) (f y))\<close>: with \<open>b\<close> for \<open>x\<close> and \<open>c\<close> for \<open>y\<close> it meant \<open>(p (f b) (f c))\<close>
  before, and means \<open>(p (f c) (f c))\<close> after.
\<close>

theorem defeq_sharing_conflates:
  "\<exists>s'. (\<forall>n. defeq (6 + n) 12 15 share_st = Inr (True, s')) \<and>
     den {} (revalue share_st) 15 (FApp [FSym 4, FApp [FSym 5, FSym 7], FApp [FSym 5, FSym 8]]) \<and>
     den {} (revalue s') 15 (FApp [FSym 4, FApp [FSym 5, FSym 8], FApp [FSym 5, FSym 8]])"
proof -
  from share_run obtain s' where s': "defeq 6 12 15 share_st = Inr (True, s')"
    "node s' = (node share_st)(11 \<mapsto> CExpr APP [5, 10], 15 \<mapsto> CExpr APP [4, 11, 11])" "sval s' = sval share_st"
    by (auto simp: eval_nat_numeral)
  have "\<forall>n. defeq (6 + n) 12 15 share_st = Inr (True, s')"
    using fuel_more [of "\<lambda>n. defeq n 12 15", OF defeq_fuel s'(1)] by simp
  with pattern_den conflated_den [OF s'(2,3)] show ?thesis by blast
qed

text \<open>
  C37.  A local definition in return position outlives its command: after \<open>(check (@ x 3 x))\<close> the name \<open>x\<close>,
  which was unbound, has a value and a type.
\<close>

theorem local_definition_leaks:
  "binds (fresh local_toks) ''x'' = (None, None) \<and>
   (\<exists>c' v. command 3 TCheck (fresh local_toks) = Inr ((), c') \<and> binds c' ''x'' = (Some v, Some statMpz))"
  using local_leaks by (auto simp: fresh_binds)

text \<open>
  C38.  An ascription cannot be checked against an expected type without building its term: whatever it
  contains, no call of this form succeeds, since a reference to a null pointer is dropped.
\<close>

theorem ascription_needs_create:
  assumes "expected a \<noteq> None" and "\<not> create a"
  shows "check_ascription (check n) f a c \<noteq> Inr r"
  using ascription_not_checked [OF assms] .

theorem ascription_needs_create_witness:
  "\<forall>r. check_ascription (check 9) 9 (ask False (Some statType)) (fresh []) \<noteq> Inr r"
  by (intro allI ascription_needs_create) (simp_all add: ask_def)

text \<open>
  C39.  An annotated lambda cannot be checked against an expected type: no call of this form succeeds, since
  nothing is computed for its body.
\<close>

theorem annotated_lambda_not_checked:
  assumes "expected a \<noteq> None"
  shows "check_pound (check n) f a c \<noteq> Inr r"
  using pound_not_checked [OF assms] .

theorem annotated_lambda_not_checked_witness:
  "\<forall>r. check_pound (check 9) 9 (ask True (Some statType)) (fresh []) \<noteq> Inr r"
  by (intro allI annotated_lambda_not_checked) (simp add: ask_def)

text \<open>
  C40.  The standard input is never read.  Although the usage message says so, without files on the command line (and with
  no file of the name \<open>stdin\<close>) the program reads a stream that was never opened: it ends at once, writes nothing,
  and the symbol table is as \<open>init\<close> made it.
\<close>

theorem stdin_never_read:
  assumes "fs ''stdin'' = None" and "parse_args argv no_args = Some a" and "files a = []"
  shows "\<exists>c'. main (Suc n) si fs argv (start_cs ma) = Inr (None, c') \<and> out c' = [] \<and>
    binds c' = (\<lambda>x. (None, None))(''type'' := (Some statType, Some statKind), ''mpz'' := (Some statMpz, Some statType),
       ''mpq'' := (Some statMpq, Some statType))"
  by (rule stdin_empty) (use assms in simp_all)

theorem stdin_never_read_witness:
  "\<exists>c'. main 1 (\<lambda>i. i) (\<lambda>f. None) [''--show-runs''] (start_cs (\<lambda>a. a)) = Inr (None, c') \<and> out c' = []"
  using stdin_never_read [of "\<lambda>f. None" "[''--show-runs'']" "no_args\<lparr>show_runs := True\<rparr>" 0 "\<lambda>i. i" "\<lambda>a. a"]
  by (auto simp: starts_with_def no_args_def)

section \<open>The command line\<close>

text \<open>
  What the command line means: the usage message is printed exactly when an argument starts with \<open>-h\<close> or \<open>--h\<close>;
  otherwise the files are the arguments that are not options, in order, and each option is on exactly when it is given.
\<close>

theorem command_line_meaning:
  "case parse_args argv no_args of
     None \<Rightarrow> (\<exists>s \<in> set argv. asks_help s)
   | Some a \<Rightarrow> (\<forall>s \<in> set argv. \<not> asks_help s) \<and> files a = filter (\<lambda>s. s \<notin> set options) argv \<and>
       show_runs a = (''--show-runs'' \<in> set argv) \<and> no_tail_calls a = (''--no-tail-calls'' \<in> set argv) \<and>
       compile_scc a = (''--compile-scc'' \<in> set argv \<or> ''--compile-scc-debug'' \<in> set argv) \<and>
       use_run_scc a = (''--run-scc'' \<in> set argv) \<and> use_nested_app a = (''--use-nested-app'' \<in> set argv)"
proof (cases "parse_args argv no_args")
  case None
  then have "\<exists>s \<in> set argv. asks_help s" using parse_args_help by blast
  with None show ?thesis by simp
next
  case (Some a)
  then have "\<forall>s \<in> set argv. \<not> asks_help s" using parse_args_help [of argv no_args] by simp
  with Some parse_args_spec [OF Some] show ?thesis by (simp add: no_args_def)
qed

theorem command_line_meaning_witness:
  "\<exists>a. parse_args [''x.plf'', ''--run-scc'', ''y.plf''] no_args = Some a \<and> files a = [''x.plf'', ''y.plf''] \<and>
     use_run_scc a \<and> \<not> show_runs a"
  using command_line_meaning [of "[''x.plf'', ''--run-scc'', ''y.plf'']"] by (simp add: starts_with_def options_def)

section \<open>The allocator\<close>

text \<open>
  C7.  Blocks never overlap.  In every state that allocations, releases and writes of clients into their blocks can
  produce, every block that a client holds lies inside one of the chunks obtained from \<open>malloc\<close>, and two blocks held are
  disjoint ranges of bytes.
\<close>

theorem allocator_blocks_disjoint:
  assumes "sizes_ok cz bs" and "reach cz bs s L G"
  shows "(\<forall>p \<in> L. \<exists>g \<in> set G. g \<le> p \<and> p + unat bs \<le> g + unat cz * unat bs) \<and>
    (\<forall>p \<in> L. \<forall>q \<in> L. p \<noteq> q \<longrightarrow> p + unat bs \<le> q \<or> q + unat bs \<le> p)"
proof -
  from reach_pool [OF assms(2,1)] obtain fl k where "pool (unat bs) (unat cz) s L G fl k" by blast
  then have u: "spaced (unat cz * unat bs) G" "k \<le> unat cz" "L \<subseteq> used_blocks (unat bs) (unat cz) k G" by (auto simp: pool_def)
  then show ?thesis using used_inside [OF u(2)] used_apart [OF u(1,2)] unfolding apart_def by blast
qed

theorem allocator_blocks_disjoint_witness:
  "\<exists>g \<in> set [4096]. g \<le> (4120 :: nat) \<and> 4120 + unat (24 :: 32 word) \<le> g + unat (32768 :: 32 word) * unat (24 :: 32 word)"
  using allocator_blocks_disjoint [OF sizes_cexpr reach_two] by blast

text \<open>
  C16.  Allocation succeeds and gives a block that no client holds.  The list of free blocks is used first; \<open>malloc\<close> is
  called only when it is empty and the current chunk is used up.
\<close>

theorem allocator_new_is_free:
  assumes "sizes_ok cz bs" and "reach cz bs s L G" and "malloc_ok (unat (cz * bs)) G m"
  shows "\<exists>p s'. operator_new cz bs m 0 s = Inr (p, s') \<and> p \<notin> L \<and> (freelist s \<noteq> 0 \<longrightarrow> p = freelist s) \<and>
    reach cz bs s' (insert p L) (if calls_malloc s then m # G else G)"
proof -
  from assms(3) obtain p s' where n: "operator_new cz bs m 0 s = Inr (p, s')" using new_returns by (metis malloc_ok_def)
  from reach_pool [OF assms(2,1)] obtain fl k where "pool (unat bs) (unat cz) s L G fl k" by blast
  then have "p \<notin> L" using new_in_pool [OF assms(1) _ n] assms(3) by blast
  moreover have "freelist s \<noteq> 0 \<longrightarrow> p = freelist s" using n by (auto simp: operator_new_def run_simps)
  ultimately show ?thesis using n new_block [OF assms(2) _ n] new_chunk [OF assms(2) _ assms(3) n] by auto
qed

theorem allocator_new_is_free_witness:
  "\<exists>p s'. operator_new 32768 24 900000 0 alloc_back = Inr (p, s') \<and> p = 4096"
proof -
  have "malloc_ok (unat (32768 * 24 :: 32 word)) [4096] 900000" by (simp add: malloc_ok_def apart_def)
  from allocator_new_is_free [OF sizes_cexpr reach_back this] show ?thesis by (auto simp: alloc_back_def)
qed

text \<open>
  C15.  No block is lost or listed twice: the blocks of all chunks are exactly the blocks held, the blocks on the list of free
  blocks and the blocks of the current chunk not handed out yet, and these three are disjoint.
\<close>

theorem allocator_accounts:
  assumes "sizes_ok cz bs" and "reach cz bs s L G"
  shows "\<exists>F. chain (the_field s) (freelist s) F \<and> distinct F \<and> L \<inter> set F = {} \<and> (L \<union> set F) \<inter> uncarved (unat bs) s = {} \<and>
    L \<union> set F \<union> uncarved (unat bs) s = (\<Union>g \<in> set G. carved (unat bs) (unat cz) g)"
proof -
  from reach_pool [OF assms(2,1)] obtain fl k where p: "pool (unat bs) (unat cz) s L G fl k" by blast
  moreover from assms(1) have "0 < unat bs" by (simp add: sizes_ok_def)
  ultimately show ?thesis using pool_accounts [OF p] unfolding pool_def by blast
qed

theorem allocator_accounts_witness: "\<exists>F. chain (the_field alloc_back) (freelist alloc_back) F \<and> 4120 \<notin> set F"
  using allocator_accounts [OF sizes_cexpr reach_back] by blast

section \<open>The compiler of side conditions\<close>

text \<open>
  C6.  The compiler always succeeds and its output is well bracketed.  For tables of at least one program whose bodies hold
  well-formed code (\<open>cd\<close>, with a default only at the end of a match) and whose names have no brackets, \<open>write_file\<close>
  returns, the brackets of both files match, and the expression graph is left alone.
\<close>

theorem compiler_output_bracketed:
  assumes "writable V w"
  shows "\<exists>N h c w'. (\<forall>n \<ge> N. write_file n w = Inr ((h, c), w')) \<and> braces 0 h = Some 0 \<and> braces 0 c = Some 0 \<and> graph w' = graph w"
proof -
  from file_written [OF assms] obtain h c w' where "returns write_file w ((h, c), w')" "bal h" "bal c" "graph w' = graph w" by blast
  moreover from this(2,3) have "braces 0 h = Some 0" "braces 0 c = Some 0" by (metis add_0 shifts_def)+
  ultimately show ?thesis unfolding returns_iff by blast
qed

theorem compiler_output_bracketed_witness:
  "\<exists>N h c w'. (\<forall>n \<ge> N. write_file n ((new_scw fac_st id 0)\<lparr>scw_progs := [(''fac'', 13)], progPtrs := [13], progNames := [''fac'']\<rparr>) =
     Inr ((h, c), w')) \<and> braces 0 c = Some 0"
proof -
  let ?w = "(new_scw fac_st id 0)\<lparr>scw_progs := [(''fac'', 13)], progPtrs := [13], progNames := [''fac'']\<rparr>"
  have n: "node fac_st 13 = Some (CExpr PROG [2, 12, 11])" "node fac_st 12 = Some (CExpr PROGVARS [4])" by (simp_all add: fac_st_def)
  have "tame fac_code" by (simp add: fac_code_def)
  with fac_cells(1) n have "registered ?w 0 13 [4] 11 \<and> set [4] \<subseteq> {4 :: addr} \<and> cd {4} (graph ?w) 11 fac_code \<and> tame fac_code"
    by (simp add: registered_def new_scw_def)
  then have r: "\<exists>p xs b c. registered ?w 0 p xs b \<and> set xs \<subseteq> {4} \<and> cd {4} (graph ?w) b c \<and> tame c" by blast
  have "sound {4} ?w" by (auto simp: sound_def new_scw_def fac_st_def good_name_def split: if_splits)
  with r have "writable {4} ?w" by (simp add: writable_def new_scw_def)
  from compiler_output_bracketed [OF this] show ?thesis by blast
qed

text \<open>
  The names of variables are valid in C++: a name of printable characters becomes a name of letters, digits and underscores.
\<close>

theorem variable_names_valid:
  assumes "list_all printable x"
  shows "list_all ident_char (get_var_name x)"
  using var_name_ident [OF assms] .

theorem variable_names_valid_witness: "list_all ident_char (get_var_name ''a-b?'')"
  by (rule variable_names_valid) (simp add: printable_def schar_def)

text \<open>
  C32.  Compiled division multiplies.  On the code \<open>(mp_div x y)\<close> with 7 for \<open>x\<close> and 2 for \<open>y\<close> the interpreter returns 3; for integers the
  compiler writes a call of \<open>mpz_mul\<close>.
\<close>

theorem compiled_division_multiplies:
  "(\<exists>N b s'. (\<forall>n. run_code (N + n) 6 div_st = Inr (Some b, s')) \<and> node s' b = Some (IntExpr 3)) \<and>
   (\<exists>pre post w'. write_code 2 6 1 (Some ''e0'') 0 div_scw =
      Inr (pre @ ''mpz_mul( rnum0, ((IntExpr*)x->followDefs())->n, ((IntExpr*)y->followDefs())->n);'' @ post, w'))"
proof (rule conjI [OF _ div_written])
  let ?V = "{4, 5} :: addr set" and ?r = "[4 \<mapsto> FInt 7, 5 \<mapsto> FInt 2] :: env"
  have e: "eval Map.empty ?r (CArith DIV (CVar 4) (CVar 5)) (Some (FInt 3))"
    using ev_arith [OF ev_var ev_var, of ?r 4 "FInt 7" 5 "FInt 2" Map.empty DIV] by (simp add: arith_val_def arith_int_def)
  have v: "var_cell ?V div_st 4" "var_cell ?V div_st 5" by (simp_all add: var_cell_def div_st_def)
  have c: "cd ?V div_st 6 (CArith DIV (CVar 4) (CVar 5))"
    by (rule cd_arith [OF _ _ cd_var [OF v(1)] cd_var [OF v(2)]]) (simp_all add: div_st_def)
  have "den ?V div_st 7 (FInt 7)" "den ?V div_st 8 (FInt 2)" by (auto intro!: den.intros simp: div_st_def)
  with v have x: "ctx Map.empty ?V div_st ?r"
    by (auto simp: ctx_def run_ok_def progs_ok_def env_ok_def bounded_def div_st_def split: if_splits)
  from run_code_refines_aux [OF e x c] obtain b s' where
    "returns (\<lambda>n. run_code n 6) div_st (Some b, s')" "is_val ?V s' b (FInt 3)" by (auto simp: outcome_def)
  then show "\<exists>N b s'. (\<forall>n. run_code (N + n) 6 div_st = Inr (Some b, s')) \<and> node s' b = Some (IntExpr 3)"
    unfolding returns_iff using is_val_cases(1) by (meson le_add1)
qed

end
